(* ===== verification/Prelude.thy ===== *)
theory Prelude
  imports Main "HOL-Library.Word"
begin

text \<open>
  Vocabulary and automation shared by every component of the development: names for the
  machine integers of the C and C++ sources, the status values of the runtime's fallible
  functions, byte ranges of device memory, fields of descriptor words, and the generic list
  and word lemmas the component proofs rest on.
\<close>

unbundle bit_operations_syntax

section \<open>Machine integers\<close>

type_synonym u8 = "8 word"
type_synonym u16 = "16 word"
type_synonym u32 = "32 word"
type_synonym u64 = "64 word"

text \<open>A descriptor: eight 64-bit little-endian words (64 bytes).\<close>
type_synonym row = "u64 list"

abbreviation zext64 :: "u32 \<Rightarrow> u64" where
  "zext64 x \<equiv> ucast x"

named_theorems row_simps \<open>shape and content of encoded descriptors\<close>
named_theorems field_simps64 \<open>extraction of a field of a 64-bit descriptor word\<close>
named_theorems list_step \<open>lists that grow at their end, one loop iteration at a time\<close>

section \<open>Status values\<close>

text \<open>
  The codes of \<^verbatim>\<open>iree_status_t\<close> that the runtime returns. A fallible C function
  \<^verbatim>\<open>iree_status_t f(.., T* out)\<close> is a function into \<open>status + 'a\<close>: \<open>Inl\<close> the code of the
  error, \<open>Inr\<close> the value stored through \<^verbatim>\<open>out\<close>.
\<close>
datatype status =
    INVALID_ARGUMENT
  | OUT_OF_RANGE
  | RESOURCE_EXHAUSTED
  | FAILED_PRECONDITION
  | UNIMPLEMENTED
  | INCOMPATIBLE
  | NOT_FOUND
  | DATA_LOSS
  | INTERNAL
  | DEADLINE_EXCEEDED
  | UNAVAILABLE

definition bind_st :: "'e + 'a \<Rightarrow> ('a \<Rightarrow> 'e + 'b) \<Rightarrow> 'e + 'b" where
  "bind_st m f = (case m of Inl e \<Rightarrow> Inl e | Inr x \<Rightarrow> f x)"

lemma bind_st_simps [simp]:
  "bind_st (Inl e) f = Inl e"
  "bind_st (Inr x) f = f x"
  by (simp_all add: bind_st_def)

lemma bind_st_Inr_iff: "bind_st m f = Inr y \<longleftrightarrow> (\<exists>x. m = Inr x \<and> f x = Inr y)"
  by (cases m) auto

section \<open>Byte ranges\<close>

text \<open>A byte range \<^verbatim>\<open>[begin, end)\<close> of device-visible memory (\<^verbatim>\<open>sa_range_t\<close>, host addresses).\<close>
record range =
  r_begin :: u64
  r_end :: u64

definition range_overlaps :: "range \<Rightarrow> range \<Rightarrow> bool" where
  "range_overlaps a b \<longleftrightarrow> r_begin a < r_end b \<and> r_begin b < r_end a"

definition ranges_overlap :: "range list \<Rightarrow> range list \<Rightarrow> bool" where
  "ranges_overlap xs ys \<longleftrightarrow> (\<exists>x \<in> set xs. \<exists>y \<in> set ys. range_overlaps x y)"

lemma range_overlaps_sym: "range_overlaps a b = range_overlaps b a"
  by (auto simp: range_overlaps_def)

lemma ranges_overlap_Nil [simp]: "\<not> ranges_overlap [] ys" "\<not> ranges_overlap xs []"
  by (auto simp: ranges_overlap_def)

lemma ranges_overlap_append [simp]:
  "ranges_overlap (xs @ xs') ys \<longleftrightarrow> ranges_overlap xs ys \<or> ranges_overlap xs' ys"
  "ranges_overlap xs (ys @ ys') \<longleftrightarrow> ranges_overlap xs ys \<or> ranges_overlap xs ys'"
  by (auto simp: ranges_overlap_def)

lemma ranges_overlap_mono:
  "ranges_overlap xs ys \<Longrightarrow> set xs \<subseteq> set xs' \<Longrightarrow> set ys \<subseteq> set ys' \<Longrightarrow> ranges_overlap xs' ys'"
  by (fastforce simp: ranges_overlap_def)

text \<open>Two overlapping ranges share an address when both are proper intervals.\<close>
lemma range_overlaps_shared:
  assumes "range_overlaps a b" and "r_begin a < r_end a" and "r_begin b < r_end b"
  shows "\<exists>x. r_begin a \<le> x \<and> x < r_end a \<and> r_begin b \<le> x \<and> x < r_end b"
  using assms by (intro exI [of _ "max (r_begin a) (r_begin b)"])
    (auto simp: range_overlaps_def max_def)

section \<open>Lists that grow at their end\<close>

text \<open>
  The part of a list after its last element that satisfies \<open>P\<close>: what has happened since the
  last event of a kind.
\<close>
definition since :: "('a \<Rightarrow> bool) \<Rightarrow> 'a list \<Rightarrow> 'a list" where
  "since P xs = takeWhile (\<lambda>x. \<not> P x) (rev xs)"

lemma since_Nil [simp, list_step]: "since P [] = []"
  by (simp add: since_def)

lemma since_snoc [simp, list_step]:
  "since P (xs @ [x]) = (if P x then [] else x # since P xs)"
  by (simp add: since_def)

lemma since_single [simp]: "since P [x] = (if P x then [] else [x])"
  by (simp add: since_def)

lemma since_append:
  "since P (xs @ ys) = (if \<exists>y \<in> set ys. P y then since P ys else since P ys @ since P xs)"
  by (induction ys rule: rev_induct) (auto simp: append_assoc [symmetric] simp del: append_assoc)

lemma set_since_subset: "set (since P xs) \<subseteq> set xs"
  by (auto simp: since_def dest: set_takeWhileD)

lemma since_none: "\<forall>x \<in> set xs. \<not> P x \<Longrightarrow> set (since P xs) = set xs"
  by (induction xs rule: rev_induct) auto

lemma fold_snoc [list_step]: "fold f (xs @ [x]) s = f x (fold f xs s)"
  by simp

lemma fold_upt_Suc: "a \<le> b \<Longrightarrow> fold f [a..<Suc b] s = f b (fold f [a..<b] s)"
  by simp

text \<open>An invariant of a counted loop: it holds at the start and every iteration keeps it.\<close>
lemma fold_upt_invariant:
  assumes "P 0 s" and "\<And>i s. i < n \<Longrightarrow> P i s \<Longrightarrow> P (Suc i) (f i s)"
  shows "P n (fold f [0..<n] s)"
  using assms
proof (induction n)
  case 0
  then show ?case by simp
next
  case (Suc n)
  then have "P n (fold f [0..<n] s)" by simp
  with Suc.prems(2) [of n] show ?case by simp
qed

lemma fold_invariant:
  assumes "P s" and "\<And>x s. x \<in> set xs \<Longrightarrow> P s \<Longrightarrow> P (f x s)"
  shows "P (fold f xs s)"
  using assms by (induction xs arbitrary: s) auto

section \<open>Fields of 64-bit words\<close>

text \<open>Bits \<open>[lo, lo + n)\<close> of a word, as a number in the low bits.\<close>
definition bits :: "nat \<Rightarrow> nat \<Rightarrow> u64 \<Rightarrow> u64" where
  "bits lo n w = take_bit n (drop_bit lo w)"

lemma bit_bits: "bit (bits lo n w) i \<longleftrightarrow> i < n \<and> bit w (lo + i)"
  by (simp add: bits_def bit_simps add.commute)

lemma bits_or [field_simps64]: "bits lo n (a OR b) = (bits lo n a OR bits lo n b)"
  by (rule bit_eqI) (auto simp: bit_bits bit_simps)

lemma bits_zero [field_simps64]: "bits lo n 0 = 0"
  by (simp add: bits_def)

lemma ucast_or64: "(ucast (a OR b :: u32) :: u64) = (ucast a OR ucast b)"
  by (rule bit_eqI) (auto simp: bit_simps)

text \<open>A field written at \<open>s\<close> is read back when it fits, and misses the fields above and below it.\<close>
lemma bits_push_same:
  assumes "s + n \<le> 64" and "x < 2 ^ n"
  shows "bits s n (push_bit s x) = (x :: u64)"
proof (rule bit_eqI)
  fix i assume "possible_bit TYPE(u64) i"
  then have i: "i < 64" by simp
  from assms(2) have "take_bit n x = x"
    using less_mask_eq [of x n] by (simp add: take_bit_eq_mask)
  then have "bit x i \<longrightarrow> i < n"
    by (metis bit_take_bit_iff)
  with assms(1) i show "bit (bits s n (push_bit s x)) i = bit x i"
    by (auto simp: bit_bits bit_simps)
qed

lemma bits_push_above: "lo + n \<le> s \<Longrightarrow> bits lo n (push_bit s x) = 0"
  by (rule bit_eqI) (auto simp: bit_bits bit_simps)

lemma bits_push_below:
  assumes "s + m \<le> lo" and "x < 2 ^ m" and "m < 64"
  shows "bits lo n (push_bit s x) = (0 :: u64)"
proof (rule bit_eqI)
  fix i
  from assms(2) have "take_bit m x = x"
    using less_mask_eq [of x m] by (simp add: take_bit_eq_mask)
  then have "bit x j \<longrightarrow> j < m" for j
    by (metis bit_take_bit_iff)
  with assms(1) show "bit (bits lo n (push_bit s x)) i = bit 0 i"
    by (fastforce simp: bit_bits bit_simps)
qed

text \<open>A word whose set bits are all below \<open>n\<close> is below \<open>2 ^ n\<close>.\<close>
lemma word_bound_bits:
  assumes "\<And>i. bit w i \<Longrightarrow> i < n" and "n < 64"
  shows "(w :: u64) < 2 ^ n"
proof -
  have "w = take_bit n w"
    by (rule bit_eqI) (use assms(1) in \<open>auto simp: bit_simps\<close>)
  then have "unat w = take_bit n (unat w)"
    by (metis unsigned_take_bit_eq)
  also have "\<dots> < 2 ^ n" by (rule take_bit_nat_less_exp)
  also have "(2 :: nat) ^ n = unat ((2 :: u64) ^ n)"
  proof -
    have lt: "(2 :: nat) ^ n < 2 ^ 64"
      using assms(2) by (intro power_strict_increasing) auto
    have "unat ((2 :: u64) ^ n) = unat (of_nat (2 ^ n) :: u64)" by simp
    also have "\<dots> = take_bit 64 (2 ^ n)" by (simp only: unsigned_of_nat) simp
    finally show ?thesis using lt by (simp only: take_bit_nat_eq_self)
  qed
  finally show ?thesis by (simp add: word_less_nat_alt)
qed

lemma ucast_zext64 [simp]: "ucast (zext64 x) = (x :: u32)"
  by (rule bit_eqI) (auto simp: bit_simps)

text \<open>Rounding down to a power of two.\<close>
lemma unat_and_not_mask: "unat ((w :: 'a::len word) AND NOT (mask k)) = unat w div 2 ^ k * 2 ^ k"
proof -
  have "w AND NOT (mask k) = push_bit k (drop_bit k w)"
    by (rule bit_eqI) (auto simp: bit_simps dest: bit_imp_le_length)
  moreover have "unat (push_bit k (drop_bit k w)) = take_bit LENGTH('a) (unat w div 2 ^ k * 2 ^ k)"
  proof -
    have "unat (push_bit k (drop_bit k w)) = take_bit LENGTH('a) (push_bit k (drop_bit k (unat w)))"
      by (simp only: unsigned_push_bit_eq unsigned_drop_bit_eq take_bit_nat_eq_self [OF unsigned_less])
    then show ?thesis by (simp only: push_bit_eq_mult [where 'a = nat] drop_bit_eq_div [where 'a = nat])
  qed
  moreover have "unat w div 2 ^ k * 2 ^ k < 2 ^ LENGTH('a)"
    by (rule le_less_trans [OF div_times_less_eq_dividend unsigned_less])
  ultimately show ?thesis by (simp only: take_bit_nat_eq_self)
qed

lemma and_not_15: "unat ((w :: 'a::len word) AND NOT 15) = unat w div 16 * 16"
  using unat_and_not_mask [of w 4] by (simp add: mask_eq_exp_minus_1)
lemma and_not_63: "unat ((w :: 'a::len word) AND NOT 63) = unat w div 64 * 64"
  using unat_and_not_mask [of w 6] by (simp add: mask_eq_exp_minus_1)
lemma unat_zext64 [simp]: "unat (zext64 x) = unat x"
proof -
  have "unat x < 2 ^ 32" using unsigned_less [of x, where 'a = nat] by simp
  then show ?thesis by (simp add: unsigned_ucast_eq take_bit_nat_eq_self)
qed

end
