(* ===== verification/Arena.thy ===== *)
theory Arena
  imports Prelude
begin

text \<open>
  The arena allocator of the runtime's device window (\<^verbatim>\<open>compiler/runtime/sa/sa_context.c\<close>): a
  first-fit allocator over contiguous blocks, each led by a 16-byte header. The heap is the
  list of its headers in address order; a block's address is the heap's begin plus the sizes
  before it, as \<^verbatim>\<open>sa_next\<close> computes it. A walk that meets a header of size 0 never advances
  (\<^verbatim>\<open>sa_next\<close> returns the block itself), so the walks are partial: \<open>None\<close> is a call that
  does not return. Every walk over a well-formed heap returns.
\<close>

section \<open>State\<close>

record block =
  b_size :: nat     \<comment> \<open>bytes including the header\<close>
  b_used :: bool

abbreviation mk_block :: "nat \<Rightarrow> bool \<Rightarrow> block" where
  "mk_block n u \<equiv> \<lparr>b_size = n, b_used = u\<rparr>"

text \<open>The arena's part of \<^verbatim>\<open>sa_context_t\<close>, and the bytes of the window.\<close>
record arena =
  heap_begin :: nat
  blocks :: "block list"
  heap_used :: nat
  heap_peak :: nat
  bytes :: "nat \<Rightarrow> u8"

definition heap_end :: "arena \<Rightarrow> nat" where
  "heap_end c = heap_begin c + (\<Sum>b \<leftarrow> blocks c. b_size b)"

text \<open>\<^verbatim>\<open>sizeof(sa_block_t)\<close>\<close>
definition hdr :: nat where
  "hdr = 16"

text \<open>\<^verbatim>\<open>((bytes + sizeof(sa_block_t)) + 15) & ~15\<close>, in 64-bit arithmetic.\<close>
definition need_of :: "u64 \<Rightarrow> nat" where
  "need_of n = unat (((n + 16) + 15) AND NOT 15)"

section \<open>Operations\<close>

text \<open>
  \<^verbatim>\<open>for (n = sa_next(c, b); n && !n->used; n = sa_next(c, b)) b->size += n->size;\<close>
\<close>
fun absorb :: "nat \<Rightarrow> block list \<Rightarrow> nat \<times> block list" where
  "absorb sz [] = (sz, [])"
| "absorb sz (n # bs) = (if b_used n then (sz, n # bs) else absorb (sz + b_size n) bs)"

lemma absorb_length: "length (snd (absorb sz bs)) \<le> length bs"
  by (induction sz bs rule: absorb.induct) auto

text \<open>
  The search of \<^verbatim>\<open>sa_arena_alloc\<close> from address \<open>a\<close>: the blocks afterwards, and the address and
  size of the block taken.
\<close>
function alloc_from :: "nat \<Rightarrow> nat \<Rightarrow> block list \<Rightarrow> (block list \<times> (nat \<times> nat) option) option" where
  "alloc_from need a [] = Some ([], None)"
| "alloc_from need a (b # bs) =
     (if b_used b then
        (if b_size b = 0 then None
         else map_option (\<lambda>(bs', r). (b # bs', r)) (alloc_from need (a + b_size b) bs))
      else
        let (sz, rest) = absorb (b_size b) bs in
        if sz < need then
          (if sz = 0 then None
           else map_option (\<lambda>(bs', r). (mk_block sz False # bs', r)) (alloc_from need (a + sz) rest))
        else if sz - need \<ge> 64 then
          (if need = 0 then Some ([mk_block 0 True], Some (a, 0))
           else Some (mk_block need True # mk_block (sz - need) False # rest, Some (a, need)))
        else Some (mk_block sz True # rest, Some (a, sz)))"
  by pat_completeness auto
termination
  using absorb_length
  by (relation "measure (\<lambda>(need, a, bs). length bs)")
     (auto, metis absorb_length less_Suc_eq_le snd_conv)

declare alloc_from.simps(2) [simp del]

text \<open>\<^verbatim>\<open>sa_arena_alloc\<close>: the pointer is past the header.\<close>
definition sa_arena_alloc :: "arena \<Rightarrow> u64 \<Rightarrow> (arena \<times> nat option) option" where
  "sa_arena_alloc c n =
     (case alloc_from (need_of n) (heap_begin c) (blocks c) of
        None \<Rightarrow> None
      | Some (bs, None) \<Rightarrow> Some (c\<lparr>blocks := bs\<rparr>, None)
      | Some (bs, Some (a, sz)) \<Rightarrow>
          Some (c\<lparr>blocks := bs, heap_used := heap_used c + sz,
                  heap_peak := max (heap_peak c) (heap_used c + sz)\<rparr>, Some (a + hdr)))"

text \<open>\<^verbatim>\<open>sa_arena_block\<close>: the index and the address of the used block holding \<open>p\<close> past its start.\<close>
fun block_from :: "nat \<Rightarrow> nat \<Rightarrow> nat \<Rightarrow> block list \<Rightarrow> (nat \<times> nat) option option" where
  "block_from p i a [] = Some None"
| "block_from p i a (b # bs) =
     (if a < p \<and> p < a + b_size b then Some (if b_used b then Some (i, a) else None)
      else if b_size b = 0 then None
      else block_from p (Suc i) (a + b_size b) bs)"

definition sa_arena_block :: "arena \<Rightarrow> nat \<Rightarrow> (nat \<times> nat) option option" where
  "sa_arena_block c p = block_from p 0 (heap_begin c) (blocks c)"

text \<open>\<^verbatim>\<open>sa_arena_free\<close>: a null, foreign or already free pointer is ignored.\<close>
definition sa_arena_free :: "arena \<Rightarrow> nat \<Rightarrow> arena option" where
  "sa_arena_free c p =
     (if p = 0 then Some c
      else case sa_arena_block c p of
        None \<Rightarrow> None
      | Some None \<Rightarrow> Some c
      | Some (Some (i, a)) \<Rightarrow>
          (let b = blocks c ! i; (sz, rest) = absorb (b_size b) (drop (Suc i) (blocks c))
           in Some (c\<lparr>blocks := take i (blocks c) @ mk_block sz False # rest,
                      heap_used := heap_used c - b_size b\<rparr>)))"

text \<open>The commands of \<^verbatim>\<open>iree_allocator_t\<close>; a pointer is an address, 0 the null pointer.\<close>
datatype alloc_command = MALLOC u64 | CALLOC u64 | REALLOC u64 | FREE | OTHER

definition fill_bytes :: "nat \<Rightarrow> nat \<Rightarrow> u8 \<Rightarrow> (nat \<Rightarrow> u8) \<Rightarrow> nat \<Rightarrow> u8" where
  "fill_bytes p n v m = (\<lambda>x. if p \<le> x \<and> x < p + n then v else m x)"

definition copy_bytes :: "nat \<Rightarrow> nat \<Rightarrow> nat \<Rightarrow> (nat \<Rightarrow> u8) \<Rightarrow> nat \<Rightarrow> u8" where
  "copy_bytes dst src n m = (\<lambda>x. if dst \<le> x \<and> x < dst + n then m (src + (x - dst)) else m x)"

text \<open>
  \<^verbatim>\<open>sa_arena_ctl\<close>: the arena afterwards, and the error or the pointer stored through
  \<^verbatim>\<open>inout_ptr\<close> (on an error of REALLOC the pointer is left as it was).
\<close>
definition sa_arena_ctl ::
  "arena \<Rightarrow> alloc_command \<Rightarrow> nat \<Rightarrow> (arena \<times> (status + nat)) option" where
  "sa_arena_ctl c cmd ptr =
     (case cmd of
        MALLOC n \<Rightarrow>
          (case sa_arena_alloc c n of
             None \<Rightarrow> None
           | Some (c', None) \<Rightarrow> Some (c', Inl RESOURCE_EXHAUSTED)
           | Some (c', Some p) \<Rightarrow> Some (c', Inr p))
      | CALLOC n \<Rightarrow>
          (case sa_arena_alloc c n of
             None \<Rightarrow> None
           | Some (c', None) \<Rightarrow> Some (c', Inl RESOURCE_EXHAUSTED)
           | Some (c', Some p) \<Rightarrow> Some (c'\<lparr>bytes := fill_bytes p (unat n) 0 (bytes c')\<rparr>, Inr p))
      | REALLOC n \<Rightarrow>
          (case (if ptr = 0 then Some None else sa_arena_block c ptr) of
             None \<Rightarrow> None
           | Some ob \<Rightarrow>
               if ptr \<noteq> 0 \<and> ob = None then Some (c, Inl INVALID_ARGUMENT)
               else
                 (let avail = (case ob of None \<Rightarrow> 0 | Some (i, a) \<Rightarrow> a + b_size (blocks c ! i) - ptr) in
                  if ptr \<noteq> 0 \<and> avail \<ge> unat n then Some (c, Inr ptr)
                  else case sa_arena_alloc c n of
                    None \<Rightarrow> None
                  | Some (c', None) \<Rightarrow> Some (c', Inl RESOURCE_EXHAUSTED)
                  | Some (c', Some p) \<Rightarrow>
                      if ptr = 0 then Some (c', Inr p)
                      else map_option (\<lambda>c''. (c'', Inr p))
                             (sa_arena_free (c'\<lparr>bytes := copy_bytes p ptr avail (bytes c')\<rparr>) ptr)))
      | FREE \<Rightarrow> map_option (\<lambda>c'. (c', Inr 0)) (sa_arena_free c ptr)
      | OTHER \<Rightarrow> Some (c, Inl UNIMPLEMENTED))"

section \<open>The rounded size\<close>

text \<open>Without wrap-around the rounded size holds the header and the request, to the next 16.\<close>
lemma need_of_eq: "unat n + 31 < 2 ^ 64 \<Longrightarrow> need_of n = (unat n + 31) div 16 * 16"
proof -
  assume "unat n + 31 < 2 ^ 64"
  then have "unat ((n + 16) + 15) = unat n + 31"
    by (simp add: unat_word_ariths add.assoc)
  then show ?thesis by (simp only: need_of_def and_not_15)
qed

lemma need_of_bounds:
  assumes "unat n + 31 < 2 ^ 64"
  shows "unat n + 16 \<le> need_of n" and "16 dvd need_of n" and "16 \<le> need_of n"
  using assms by (auto simp: need_of_eq)

section \<open>The invariant\<close>

definition block_ok :: "block \<Rightarrow> bool" where
  "block_ok b \<longleftrightarrow> 16 \<le> b_size b \<and> 16 dvd b_size b"

definition blocks_ok :: "block list \<Rightarrow> bool" where
  "blocks_ok bs \<longleftrightarrow> (\<forall>b \<in> set bs. block_ok b)"

definition span :: "block list \<Rightarrow> nat" where
  "span bs = (\<Sum>b \<leftarrow> bs. b_size b)"

text \<open>The allocated blocks from address \<open>a\<close>: addresses and sizes, in order.\<close>
fun used_from :: "nat \<Rightarrow> block list \<Rightarrow> (nat \<times> nat) list" where
  "used_from a [] = []"
| "used_from a (b # bs) =
     (if b_used b then (a, b_size b) # used_from (a + b_size b) bs
      else used_from (a + b_size b) bs)"

definition used_blocks :: "arena \<Rightarrow> (nat \<times> nat) list" where
  "used_blocks c = used_from (heap_begin c) (blocks c)"

definition arena_ok :: "arena \<Rightarrow> bool" where
  "arena_ok c \<longleftrightarrow> blocks_ok (blocks c)
     \<and> heap_used c = (\<Sum>(a, n) \<leftarrow> used_blocks c. n) \<and> heap_used c \<le> heap_peak c"

lemma blocks_ok_simps [simp]:
  "blocks_ok []"
  "blocks_ok (b # bs) \<longleftrightarrow> block_ok b \<and> blocks_ok bs"
  "blocks_ok (bs @ cs) \<longleftrightarrow> blocks_ok bs \<and> blocks_ok cs"
  by (auto simp: blocks_ok_def)

lemma span_simps [simp]:
  "span [] = 0"
  "span (b # bs) = b_size b + span bs"
  "span (bs @ cs) = span bs + span cs"
  by (simp_all add: span_def)

lemma used_from_append [simp]:
  "used_from a (bs @ cs) = used_from a bs @ used_from (a + span bs) cs"
  by (induction a bs rule: used_from.induct) (auto simp: add.assoc)

lemma block_ok_free_add: "block_ok (mk_block m False) \<Longrightarrow> block_ok b \<Longrightarrow> block_ok (mk_block (m + b_size b) False)"
  by (auto simp: block_ok_def)

text \<open>Merging keeps the span, the allocated blocks and the shape of every block.\<close>
lemma absorb_props:
  assumes "absorb sz bs = (sz', rest)"
  shows "sz' + span rest = sz + span bs"
    and "used_from (a + sz') rest = used_from (a + sz) bs"
    and "blocks_ok bs \<Longrightarrow> block_ok (mk_block sz False) \<Longrightarrow> blocks_ok rest \<and> block_ok (mk_block sz' False)"
    and "sz \<le> sz'"
  using assms
  by (induction sz bs rule: absorb.induct)
     (fastforce simp: block_ok_free_add add.assoc split: if_splits)+

lemma used_from_in:
  "(x, n) \<in> set (used_from a bs) \<Longrightarrow> a \<le> x \<and> x + n \<le> a + span bs"
  by (induction a bs rule: used_from.induct) (fastforce split: if_splits)+

text \<open>The allocated blocks are disjoint, in address order.\<close>
lemma used_from_sorted:
  "sorted_wrt (\<lambda>(x, n) (y, m). x + n \<le> y) (used_from a bs)"
  by (induction a bs rule: used_from.induct) (auto dest!: used_from_in)

section \<open>Allocation\<close>

text \<open>
  The allocated blocks \<open>us'\<close> are those of \<open>us\<close> with the taken block \<open>r\<close>, if any, of at least
  \<open>need\<close> bytes, put in its place.
\<close>
definition grown :: "nat \<Rightarrow> (nat \<times> nat) option \<Rightarrow> (nat \<times> nat) list \<Rightarrow> (nat \<times> nat) list \<Rightarrow> bool" where
  "grown need r us us' =
     (case r of
        None \<Rightarrow> us' = us
      | Some (x, n) \<Rightarrow> need \<le> n \<and> (\<exists>vs ws. us = vs @ ws \<and> us' = vs @ (x, n) # ws))"

lemma grown_Cons: "grown need r us us' \<Longrightarrow> grown need r (u # us) (u # us')"
  unfolding grown_def by (auto split: option.splits) (metis append_Cons)

lemma grown_here: "need \<le> n \<Longrightarrow> grown need (Some (x, n)) us ((x, n) # us)"
  unfolding grown_def by (auto intro: exI [of _ "[]"])

lemma grown_sum:
  "grown need r us us' \<Longrightarrow>
     (\<Sum>(a, n) \<leftarrow> us'. n) = (\<Sum>(a, n) \<leftarrow> us. n) + (case r of None \<Rightarrow> 0 | Some (x, n) \<Rightarrow> n)"
  unfolding grown_def by (auto split: option.splits)

text \<open>
  What the search leaves behind: the same span, well-formed blocks, and the allocated blocks
  of before with at most the taken one added.
\<close>
lemma alloc_from_props:
  assumes "alloc_from need a bs = Some (bs', r)" and "blocks_ok bs" and "16 dvd need" and "16 \<le> need"
  shows "span bs' = span bs \<and> blocks_ok bs' \<and> grown need r (used_from a bs) (used_from a bs')"
  using assms
proof (induction need a bs arbitrary: bs' r rule: alloc_from.induct)
  case (1 need a)
  then show ?case by (simp add: grown_def)
next
  case (2 need a b bs)
  obtain sz rest where ab: "absorb (b_size b) bs = (sz, rest)" by fastforce
  show ?case
  proof (cases "b_used b")
    case True
    with "2.prems" obtain bs'' where rec: "alloc_from need (a + b_size b) bs = Some (bs'', r)"
      and bs': "bs' = b # bs''" and nz: "b_size b \<noteq> 0"
      by (auto simp: alloc_from.simps(2) split: if_splits option.splits)
    from "2.IH"(1) [OF True nz rec] "2.prems" True bs' show ?thesis
      by (auto intro: grown_Cons)
  next
    case False
    then have free: "block_ok (mk_block (b_size b) False)"
      using "2.prems"(2) by (simp add: block_ok_def)
    note ab' = absorb_props [OF ab]
    from ab'(3) free "2.prems"(2) have ok: "blocks_ok rest" "block_ok (mk_block sz False)" by auto
    consider (small) "sz < need" | (split) "need \<le> sz" "sz - need \<ge> 64" | (whole) "need \<le> sz" "\<not> sz - need \<ge> 64"
      by linarith
    then show ?thesis
    proof cases
      case small
      with False "2.prems" ab obtain bs'' where rec: "alloc_from need (a + sz) rest = Some (bs'', r)"
        and bs': "bs' = mk_block sz False # bs''" and nz: "sz \<noteq> 0"
        by (auto simp: alloc_from.simps(2) split: if_splits option.splits)
      from "2.IH"(2) [OF False refl ab [symmetric] small nz rec ok(1) "2.prems"(3,4)]
      show ?thesis using bs' False ok ab'(1) ab'(2) [of a] by auto
    next
      case split
      with False "2.prems" ab have "bs' = mk_block need True # mk_block (sz - need) False # rest"
        and "r = Some (a, need)"
        by (auto simp: alloc_from.simps(2) split: if_splits)
      with split False ok ab'(1) ab'(2) [of a] "2.prems"(3,4) show ?thesis
        by (auto simp: block_ok_def add.assoc intro: grown_here)
    next
      case whole
      with False "2.prems" ab have "bs' = mk_block sz True # rest" and "r = Some (a, sz)"
        by (auto simp: alloc_from.simps(2) split: if_splits)
      with whole False ok ab'(1) ab'(2) [of a] show ?thesis
        by (auto simp: block_ok_def intro: grown_here)
    qed
  qed
qed

text \<open>The search returns on a heap without empty blocks.\<close>
lemma alloc_from_returns:
  "blocks_ok bs \<Longrightarrow> 16 \<le> need \<Longrightarrow> \<exists>bs' r. alloc_from need a bs = Some (bs', r)"
proof (induction need a bs rule: alloc_from.induct)
  case (1 need a)
  then show ?case by simp
next
  case (2 need a b bs)
  obtain sz rest where ab: "absorb (b_size b) bs = (sz, rest)" by fastforce
  have free: "block_ok (mk_block (b_size b) False)"
    using "2.prems"(1) by (simp add: block_ok_def)
  from absorb_props(3) [OF ab] absorb_props(4) [OF ab] free "2.prems"(1)
  have ok: "blocks_ok rest" "sz \<noteq> 0" by (auto simp: block_ok_def)
  from 2 ab ok show ?case
    by (fastforce simp: alloc_from.simps(2) block_ok_def)
qed

text \<open>
  Failure is justified: when nothing is taken, the heap afterwards is a sequence of allocated
  blocks and merged free blocks that are each smaller than the request, no two free ones
  adjacent.
\<close>
fun no_fit :: "nat \<Rightarrow> block list \<Rightarrow> bool" where
  "no_fit need [] = True"
| "no_fit need [b] = (b_used b \<or> b_size b < need)"
| "no_fit need (b # c # bs) =
     ((b_used b \<or> b_size b < need \<and> b_used c) \<and> no_fit need (c # bs))"

lemma absorb_stops: "absorb sz bs = (sz', rest) \<Longrightarrow> rest = [] \<or> b_used (hd rest)"
  by (induction sz bs rule: absorb.induct) (auto split: if_splits)

lemma alloc_from_first_used:
  "alloc_from need a bs = Some (bs', None) \<Longrightarrow> bs = [] \<or> b_used (hd bs) \<Longrightarrow> bs' = [] \<or> b_used (hd bs')"
  by (cases bs) (auto simp: alloc_from.simps(2) split: if_splits)

lemma no_fit_Cons:
  "b_used b \<or> b_size b < need \<and> (bs = [] \<or> b_used (hd bs)) \<Longrightarrow> no_fit need bs \<Longrightarrow> no_fit need (b # bs)"
  by (cases bs) auto

lemma alloc_from_None:
  "alloc_from need a bs = Some (bs', None) \<Longrightarrow> no_fit need bs'"
proof (induction need a bs arbitrary: bs' rule: alloc_from.induct)
  case (1 need a)
  then show ?case by simp
next
  case (2 need a b bs)
  obtain sz rest where ab: "absorb (b_size b) bs = (sz, rest)" by fastforce
  show ?case
  proof (cases "b_used b")
    case True
    with 2 show ?thesis
      by (auto simp: alloc_from.simps(2) intro!: no_fit_Cons split: if_splits)
  next
    case False
    with "2.prems" ab obtain bs'' where rec: "alloc_from need (a + sz) rest = Some (bs'', None)"
      and bs': "bs' = mk_block sz False # bs''" and small: "sz < need" and nz: "sz \<noteq> 0"
      by (auto simp: alloc_from.simps(2) split: if_splits)
    from alloc_from_first_used [OF rec absorb_stops [OF ab]] "2.IH"(2) [OF False refl ab [symmetric] small nz rec] small bs'
    show ?thesis by (auto intro!: no_fit_Cons)
  qed
qed

lemma sa_arena_alloc_cases:
  assumes "arena_ok c" and "unat n + 31 < 2 ^ 64"
  obtains (fail) c' where "sa_arena_alloc c n = Some (c', None)" and "arena_ok c'"
      and "heap_end c' = heap_end c" and "used_blocks c' = used_blocks c"
      and "no_fit (need_of n) (blocks c')" and "heap_begin c' = heap_begin c" and "bytes c' = bytes c"
  | (ok) c' a sz where "sa_arena_alloc c n = Some (c', Some (a + hdr))" and "arena_ok c'"
      and "heap_end c' = heap_end c" and "heap_begin c' = heap_begin c" and "bytes c' = bytes c"
      and "grown (need_of n) (Some (a, sz)) (used_blocks c) (used_blocks c')"
proof -
  note need = need_of_bounds [OF assms(2)]
  from assms(1) have bok: "blocks_ok (blocks c)" by (simp add: arena_ok_def)
  obtain bs' r where al: "alloc_from (need_of n) (heap_begin c) (blocks c) = Some (bs', r)"
    using alloc_from_returns [OF bok need(3)] by blast
  note pr = alloc_from_props [OF al bok need(2,3)]
  show thesis
  proof (cases r)
    case None
    with al pr assms(1) show thesis
      by (intro fail [of "c\<lparr>blocks := bs'\<rparr>"])
         (auto simp: sa_arena_alloc_def arena_ok_def used_blocks_def heap_end_def span_def grown_def
               dest: alloc_from_None)
  next
    case (Some ax)
    then obtain a sz where r: "r = Some (a, sz)" by (cases ax) auto
    with al pr assms(1) grown_sum [of "need_of n" r "used_from (heap_begin c) (blocks c)" "used_from (heap_begin c) bs'"]
    show thesis
      by (intro ok [of "c\<lparr>blocks := bs', heap_used := heap_used c + sz,
                  heap_peak := max (heap_peak c) (heap_used c + sz)\<rparr>" a sz])
         (auto simp: sa_arena_alloc_def arena_ok_def used_blocks_def heap_end_def span_def)
  qed
qed

text \<open>
  C16. On a well-formed arena a request (below 2 to the 64 minus 31 bytes) always returns; when
  it succeeds, exactly one block is added to the allocated ones, they all stay where they
  were, the pointer is 16 bytes into the new block and the requested bytes fit behind it;
  when it fails, nothing is allocated or moved and no run of free blocks could hold it.
\<close>
theorem arena_alloc_correct:
  assumes "arena_ok c" and "unat n + 31 < 2 ^ 64"
  shows "\<exists>c' r. sa_arena_alloc c n = Some (c', r) \<and> arena_ok c' \<and> heap_end c' = heap_end c \<and>
    (case r of
       None \<Rightarrow> used_blocks c' = used_blocks c \<and> no_fit (need_of n) (blocks c')
     | Some p \<Rightarrow> \<exists>us vs a sz. used_blocks c = us @ vs \<and> used_blocks c' = us @ (a, sz) # vs
         \<and> p = a + 16 \<and> p + unat n \<le> a + sz)"
  using assms
proof (cases rule: sa_arena_alloc_cases [OF assms, consumes 0])
  case (1 c')
  then show ?thesis by auto
next
  case (2 c' a sz)
  with need_of_bounds(1) [OF assms(2)] show ?thesis
    by (fastforce simp: grown_def hdr_def)
qed

definition small_arena :: arena where
  "small_arena = \<lparr>heap_begin = 64, blocks = [mk_block 64 True, mk_block 256 False],
     heap_used = 64, heap_peak = 64, bytes = (\<lambda>_. 0)\<rparr>"

lemma small_arena_ok: "arena_ok small_arena"
  by (simp add: small_arena_def arena_ok_def blocks_ok_def block_ok_def used_blocks_def)

theorem arena_alloc_correct_witness:
  "\<exists>c' r. sa_arena_alloc small_arena 100 = Some (c', r) \<and> arena_ok c' \<and> heap_end c' = heap_end small_arena \<and>
    (case r of
       None \<Rightarrow> used_blocks c' = used_blocks small_arena \<and> no_fit (need_of 100) (blocks c')
     | Some p \<Rightarrow> \<exists>us vs a sz. used_blocks small_arena = us @ vs \<and> used_blocks c' = us @ (a, sz) # vs
         \<and> p = a + 16 \<and> p + unat (100 :: u64) \<le> a + sz)"
  by (rule arena_alloc_correct [OF small_arena_ok]) simp

text \<open>
  The size computation wraps: a request of the largest 15 sizes of the 64-bit type is
  served exactly like a request of no bytes, so it succeeds with a block that has no payload.
\<close>
theorem arena_alloc_size_wraps:
  assumes "2 ^ 64 - 16 < unat n"
  shows "sa_arena_alloc c n = sa_arena_alloc c 0"
proof -
  from assms have lt: "15 \<le> unat n + 31 - 2 ^ 64 + 0" "unat n < 2 ^ 64"
    using unsigned_less [of n, where 'a = nat] by simp_all
  have "unat ((n + 16) + 15) = (unat n + 31) mod 2 ^ 64"
    by (simp add: unat_word_ariths add.assoc)
  also have "\<dots> = unat n + 31 - 2 ^ 64"
    using assms lt by (simp add: mod_if)
  finally have "unat ((n + 16) + 15) div 16 = 1"
    using assms lt by simp
  then have "need_of n = 16"
    by (simp only: need_of_def and_not_15)
  moreover have "need_of 0 = 16"
    by (simp add: need_of_eq)
  ultimately show ?thesis
    by (simp add: sa_arena_alloc_def)
qed

theorem arena_alloc_size_wraps_witness:
  "sa_arena_alloc small_arena 18446744073709551615 = sa_arena_alloc small_arena 0"
  by (rule arena_alloc_size_wraps) simp

section \<open>Release\<close>

lemma block_from_returns: "blocks_ok bs \<Longrightarrow> \<exists>r. block_from p i a bs = Some r"
  by (induction p i a bs rule: block_from.induct) (auto simp: block_ok_def)

lemma block_from_Some:
  "block_from p i a bs = Some (Some (j, x)) \<Longrightarrow>
     \<exists>us b vs. bs = us @ b # vs \<and> j = i + length us \<and> x = a + span us \<and> b_used b \<and> x < p \<and> p < x + b_size b"
proof (induction p i a bs rule: block_from.induct)
  case (1 p i a)
  then show ?case by simp
next
  case (2 p i a b bs)
  show ?case
  proof (cases "a < p \<and> p < a + b_size b")
    case True
    with 2 show ?thesis by (intro exI [of _ "[]"]) (auto split: if_splits)
  next
    case False
    with 2 obtain us b' vs where "bs = us @ b' # vs" "j = Suc i + length us" "x = a + b_size b + span us"
      "b_used b'" "x < p" "p < x + b_size b'"
      by (auto split: if_splits)
    then show ?thesis by (intro exI [of _ "b # us"]) auto
  qed
qed

lemma block_from_None:
  "block_from p i a bs = Some None \<Longrightarrow> (x, n) \<in> set (used_from a bs) \<Longrightarrow> \<not> (x < p \<and> p < x + n)"
  by (induction p i a bs rule: block_from.induct) (auto dest: used_from_in split: if_splits)

lemma free_merge:
  assumes "absorb (b_size b) vs = (sz, rest)" and "blocks_ok (us @ b # vs)"
  shows "blocks_ok (us @ mk_block sz False # rest)"
    and "span (us @ mk_block sz False # rest) = span (us @ b # vs)"
    and "used_from a (us @ mk_block sz False # rest) = used_from a us @ used_from (a + span us + b_size b) vs"
proof -
  from assms(2) have "block_ok (mk_block (b_size b) False)" by (simp add: block_ok_def)
  with assms(2) absorb_props(3) [OF assms(1)] show "blocks_ok (us @ mk_block sz False # rest)" by simp
  from absorb_props(1) [OF assms(1)] show "span (us @ mk_block sz False # rest) = span (us @ b # vs)" by simp
  from absorb_props(2) [OF assms(1), of "a + span us"]
  show "used_from a (us @ mk_block sz False # rest) = used_from a us @ used_from (a + span us + b_size b) vs"
    by simp
qed

lemma sa_arena_free_cases:
  assumes "arena_ok c"
  obtains (ignored) "sa_arena_free c p = Some c"
      and "p = 0 \<or> (\<forall>(x, n) \<in> set (used_blocks c). \<not> (x < p \<and> p < x + n))"
  | (freed) c' us x n vs where "sa_arena_free c p = Some c'" and "arena_ok c'" and "heap_end c' = heap_end c"
      and "bytes c' = bytes c" and "heap_begin c' = heap_begin c"
      and "used_blocks c = us @ (x, n) # vs" and "used_blocks c' = us @ vs" and "x < p" and "p < x + n"
proof -
  from assms have bok: "blocks_ok (blocks c)" by (simp add: arena_ok_def)
  obtain r where r: "block_from p 0 (heap_begin c) (blocks c) = Some r"
    using block_from_returns [OF bok] by blast
  show thesis
  proof (cases "p = 0 \<or> r = None")
    case True
    with r show thesis
      by (intro ignored) (auto simp: sa_arena_free_def sa_arena_block_def used_blocks_def dest!: block_from_None)
  next
    case False
    then obtain j x where "r = Some (j, x)" and p: "p \<noteq> 0" by auto
    with block_from_Some [of p 0 "heap_begin c" "blocks c" j x] r obtain us b vs where
      split: "blocks c = us @ b # vs" "j = length us" "x = heap_begin c + span us"
      and used: "b_used b" "x < p" "p < x + b_size b" by auto
    obtain sz rest where ab: "absorb (b_size b) vs = (sz, rest)" by fastforce
    note fm = free_merge [OF ab bok [unfolded split(1)]]
    let ?c = "c\<lparr>blocks := us @ mk_block sz False # rest, heap_used := heap_used c - b_size b\<rparr>"
    have "sa_arena_free c p = Some ?c"
      using p r \<open>r = Some (j, x)\<close> split ab by (simp add: sa_arena_free_def sa_arena_block_def)
    moreover have "arena_ok ?c" "used_blocks ?c = used_from (heap_begin c) us @ used_from (x + b_size b) vs"
      using assms fm split(1,3) used(1) by (auto simp: arena_ok_def used_blocks_def)
    moreover have "used_blocks c = used_from (heap_begin c) us @ (x, b_size b) # used_from (x + b_size b) vs"
      using split used(1) by (simp add: used_blocks_def)
    moreover have "heap_end ?c = heap_end c"
      using fm(2) split(1) by (simp add: heap_end_def span_def)
    ultimately show thesis using used by (intro freed [of ?c]) auto
  qed
qed

text \<open>
  C25. Releasing a pointer anywhere inside an allocated block (past its first byte) removes
  exactly that block from the allocated ones and leaves the rest in place; a null, foreign or
  already released pointer changes nothing. Either way the call returns and the heap stays
  well-formed.
\<close>
theorem arena_free_correct:
  assumes "arena_ok c"
  shows "\<exists>c'. sa_arena_free c p = Some c' \<and> arena_ok c' \<and> heap_end c' = heap_end c \<and>
    ((\<exists>us x n vs. used_blocks c = us @ (x, n) # vs \<and> x < p \<and> p < x + n \<and> used_blocks c' = us @ vs)
     \<or> (p = 0 \<or> (\<forall>(x, n) \<in> set (used_blocks c). \<not> (x < p \<and> p < x + n))) \<and> c' = c)"
  using assms by (cases rule: sa_arena_free_cases [OF assms, of p, consumes 0]) fastforce+

theorem arena_free_correct_witness:
  "\<exists>c'. sa_arena_free small_arena 100 = Some c' \<and> arena_ok c' \<and> heap_end c' = heap_end small_arena \<and>
    ((\<exists>us x n vs. used_blocks small_arena = us @ (x, n) # vs \<and> x < 100 \<and> 100 < x + n \<and> used_blocks c' = us @ vs)
     \<or> ((100 :: nat) = 0 \<or> (\<forall>(x, n) \<in> set (used_blocks small_arena). \<not> (x < 100 \<and> 100 < x + n)))
        \<and> c' = small_arena)"
  by (rule arena_free_correct [OF small_arena_ok])

section \<open>Reallocation\<close>

lemma sorted_wrt_linear:
  "sorted_wrt R xs \<Longrightarrow> a \<in> set xs \<Longrightarrow> b \<in> set xs \<Longrightarrow> a = b \<or> R a b \<or> R b a"
  by (induction xs) auto

lemma used_block_unique:
  assumes "(x, n) \<in> set (used_blocks c)" and "(y, m) \<in> set (used_blocks c)"
    and "x < p" "p < x + n" "y < p" "p < y + m"
  shows "x = y \<and> n = m"
  using sorted_wrt_linear [OF used_from_sorted assms(1,2) [unfolded used_blocks_def]] assms(3-) by auto

lemma sa_arena_block_used:
  assumes "arena_ok c" and "(x, n) \<in> set (used_blocks c)" and "x < p" and "p < x + n"
  obtains i where "sa_arena_block c p = Some (Some (i, x))" and "b_size (blocks c ! i) = n"
proof -
  from assms(1) have bok: "blocks_ok (blocks c)" by (simp add: arena_ok_def)
  obtain r where r: "block_from p 0 (heap_begin c) (blocks c) = Some r"
    using block_from_returns [OF bok] by blast
  with assms(2-) block_from_None [of p 0 "heap_begin c" "blocks c" x n] obtain i y where r': "r = Some (i, y)"
    by (cases r) (auto simp: used_blocks_def)
  from block_from_Some [OF r [unfolded r']] obtain us b vs where
    sp: "blocks c = us @ b # vs" "i = length us" "y = heap_begin c + span us" "b_used b" "y < p" "p < y + b_size b"
    by auto
  then have "(y, b_size b) \<in> set (used_blocks c)" by (simp add: used_blocks_def)
  from used_block_unique [OF this assms(2) sp(5,6) assms(3,4)] sp r r'
  show thesis by (intro that [of i]) (auto simp: sa_arena_block_def)
qed

text \<open>
  C26. Reallocating a pointer inside an allocated block keeps its data: on success the first
  bytes behind the new pointer, up to the smaller of the request and what the block held, are
  those behind the old one; on failure neither the allocated blocks nor any byte changes.
\<close>
theorem arena_realloc_keeps_data:
  assumes "arena_ok c" and "unat n + 31 < 2 ^ 64"
    and "(x, k) \<in> set (used_blocks c)" and "x < ptr" and "ptr < x + k"
  shows "\<exists>c' r. sa_arena_ctl c (REALLOC n) ptr = Some (c', r) \<and> arena_ok c' \<and>
    (case r of
       Inl e \<Rightarrow> e = RESOURCE_EXHAUSTED \<and> used_blocks c' = used_blocks c \<and> bytes c' = bytes c
     | Inr p \<Rightarrow> \<forall>i < min (unat n) (x + k - ptr). bytes c' (p + i) = bytes c (ptr + i))"
proof -
  from assms(4) have nz: "ptr \<noteq> 0" by simp
  obtain i where bl: "sa_arena_block c ptr = Some (Some (i, x))" "b_size (blocks c ! i) = k"
    using sa_arena_block_used [OF assms(1,3,4,5)] by blast
  show ?thesis
  proof (cases "unat n \<le> x + k - ptr")
    case True
    with nz bl assms(1) show ?thesis by (simp add: sa_arena_ctl_def Let_def)
  next
    case False
    show ?thesis
    proof (cases rule: sa_arena_alloc_cases [OF assms(1,2)])
      case (1 c')
      with False nz bl show ?thesis by (simp add: sa_arena_ctl_def Let_def)
    next
      case (2 c' a sz)
      let ?c = "c'\<lparr>bytes := copy_bytes (a + hdr) ptr (x + k - ptr) (bytes c')\<rparr>"
      have ok: "arena_ok ?c" using 2(2) by (simp add: arena_ok_def used_blocks_def)
      obtain c'' where fr: "sa_arena_free ?c ptr = Some c''" "arena_ok c''" "bytes c'' = bytes ?c"
        by (cases rule: sa_arena_free_cases [OF ok, of ptr]) (use ok in auto)
      from False nz bl 2(1) fr have "sa_arena_ctl c (REALLOC n) ptr = Some (c'', Inr (a + hdr))"
        by (simp add: sa_arena_ctl_def Let_def)
      moreover have "bytes c'' (a + hdr + i) = bytes c (ptr + i)" if "i < x + k - ptr" for i
        using fr(3) 2(5) that by (simp only: copy_bytes_def) auto
      then have "\<forall>i < min (unat n) (x + k - ptr). bytes c'' (a + hdr + i) = bytes c (ptr + i)"
        by simp
      ultimately show ?thesis using fr(2) by auto
    qed
  qed
qed

theorem arena_realloc_keeps_data_witness:
  "\<exists>c' r. sa_arena_ctl small_arena (REALLOC 128) 80 = Some (c', r) \<and> arena_ok c' \<and>
    (case r of
       Inl e \<Rightarrow> e = RESOURCE_EXHAUSTED \<and> used_blocks c' = used_blocks small_arena \<and> bytes c' = bytes small_arena
     | Inr p \<Rightarrow> \<forall>i < min (unat (128 :: u64)) (64 + 64 - 80). bytes c' (p + i) = bytes small_arena (80 + i))"
  by (rule arena_realloc_keeps_data [OF small_arena_ok]) (simp_all add: small_arena_def used_blocks_def)

end
