(* ===== verification/Profile.thy ===== *)
theory Profile
  imports Prelude
begin

text \<open>
  The per-export profile of the runtime (\<^verbatim>\<open>compiler/runtime/sa/sa_context.c\<close>, \<^verbatim>\<open>SA_PROFILE\<close>): a
  table of at most 4096 rows, found by export name, that accumulates calls, device cycles,
  host time, event counters and instructions. The table is a static of the C file; here it is
  passed and returned.
\<close>

section \<open>State\<close>

text \<open>The completion record of a list (\<^verbatim>\<open>sa_completion_t\<close>); \<open>c_perf\<close> has 32 counters.\<close>
record completion =
  c_status :: u32
  c_cycles :: u32
  c_descriptors :: u32
  c_end :: u32
  c_perf_n :: u32
  c_perf :: "u32 list"
  c_instret :: u32

text \<open>A completion cleared by \<^verbatim>\<open>memset\<close>, with an END value.\<close>
definition completion_end :: "u32 \<Rightarrow> completion" where
  "completion_end v = \<lparr>c_status = 0, c_cycles = 0, c_descriptors = 0, c_end = v,
     c_perf_n = 0, c_perf = replicate 32 0, c_instret = 0\<rparr>"

text \<open>A row; \<open>p_name\<close> is the 95 bytes at most that fit before the terminating zero.\<close>
record prof_row =
  p_name :: string
  p_count :: u64
  p_cycles :: u64
  p_host_ns :: u64
  p_perf :: "u64 list"
  p_instret :: u64

text \<open>\<^verbatim>\<open>sa_profile_n\<close>: -1 not initialized, -2 disabled, else the number of rows.\<close>
datatype prof_table = Uninitialized | Disabled | Rows "prof_row list"

record profile =
  table :: prof_table
  perf_n :: u32
  dropped :: u64

definition profile_max :: nat where
  "profile_max = 4096"

section \<open>Operations\<close>

text \<open>\<^verbatim>\<open>sa_profile_enabled\<close>; \<open>env\<close> is whether \<^verbatim>\<open>SA_PROFILE\<close> is set.\<close>
definition sa_profile_enabled :: "bool \<Rightarrow> profile \<Rightarrow> profile \<times> bool" where
  "sa_profile_enabled env p =
     (case table p of
        Uninitialized \<Rightarrow>
          if env then (p\<lparr>table := Rows []\<rparr>, True) else (p\<lparr>table := Disabled\<rparr>, False)
      | Disabled \<Rightarrow> (p, False)
      | Rows rs \<Rightarrow> (p, True))"

text \<open>What \<^verbatim>\<open>strlen\<close> and \<^verbatim>\<open>memcmp\<close> see of a stored name.\<close>
definition c_string :: "string \<Rightarrow> string" where
  "c_string s = takeWhile (\<lambda>ch. ch \<noteq> CHR 0x00) s"

text \<open>The search of \<^verbatim>\<open>sa_context_profile_record\<close>: the first row of that name, or the row count.\<close>
fun row_index :: "string \<Rightarrow> prof_row list \<Rightarrow> nat" where
  "row_index name [] = 0"
| "row_index name (r # rs) = (if c_string (p_name r) = name then 0 else Suc (row_index name rs))"

definition new_row :: "string \<Rightarrow> prof_row" where
  "new_row name = \<lparr>p_name = take 95 name, p_count = 0, p_cycles = 0, p_host_ns = 0,
     p_perf = replicate 32 0, p_instret = 0\<rparr>"

text \<open>\<^verbatim>\<open>for (k = 0; k < pn; ++k) perf[k] += done->perf[k]\<close>\<close>
definition add_perf :: "nat \<Rightarrow> u32 list \<Rightarrow> u64 list \<Rightarrow> u64 list" where
  "add_perf pn ds ps = map2 (\<lambda>p d. p + zext64 d) (take pn ps) ds @ drop pn ps"

definition counters_of :: "completion option \<Rightarrow> nat" where
  "counters_of done =
     (case done of None \<Rightarrow> 0 | Some d \<Rightarrow> if c_perf_n d \<le> 32 then unat (c_perf_n d) else 0)"

definition accumulate :: "u32 \<Rightarrow> u64 \<Rightarrow> completion option \<Rightarrow> prof_row \<Rightarrow> prof_row" where
  "accumulate cycles host_ns done r =
     r\<lparr>p_count := p_count r + 1, p_cycles := p_cycles r + zext64 cycles,
       p_host_ns := p_host_ns r + host_ns,
       p_perf := (case done of None \<Rightarrow> p_perf r
                  | Some d \<Rightarrow> add_perf (counters_of done) (take (counters_of done) (c_perf d)) (p_perf r)),
       p_instret := (case done of None \<Rightarrow> p_instret r | Some d \<Rightarrow> p_instret r + zext64 (c_instret d))\<rparr>"

definition sa_context_profile_record ::
  "bool \<Rightarrow> profile \<Rightarrow> string \<Rightarrow> u32 \<Rightarrow> u64 \<Rightarrow> completion option \<Rightarrow> profile" where
  "sa_context_profile_record env p name cycles host_ns done =
     (let p' = fst (sa_profile_enabled env p) in
      case table p' of
        Rows rs \<Rightarrow>
          (let i = row_index name rs in
           if i = length rs \<and> length rs = profile_max then p'\<lparr>dropped := dropped p' + 1\<rparr>
           else
             let rs' = (if i = length rs then rs @ [new_row name] else rs);
                 pn = of_nat (counters_of done)
             in p'\<lparr>table := Rows (rs'[i := accumulate cycles host_ns done (rs' ! i)]),
                   perf_n := (if pn > perf_n p' then pn else perf_n p')\<rparr>)
      | _ \<Rightarrow> p')"

text \<open>\<^verbatim>\<open>sa_context_profile_totals\<close>: dispatches, cycles, host time.\<close>
definition sa_context_profile_totals :: "profile \<Rightarrow> u64 \<times> u64 \<times> u64" where
  "sa_context_profile_totals p =
     (case table p of
        Rows rs \<Rightarrow> (sum_list (map p_count rs), sum_list (map p_cycles rs), sum_list (map p_host_ns rs))
      | _ \<Rightarrow> (0, 0, 0))"

definition sa_context_profile_reset :: "profile \<Rightarrow> profile" where
  "sa_context_profile_reset p =
     (case table p of
        Rows (r # rs) \<Rightarrow> p\<lparr>table := Rows [], dropped := 0\<rparr>
      | _ \<Rightarrow> p)"

text \<open>\<^verbatim>\<open>sa_profile_cmp\<close>, the order of the report: most cycles first.\<close>
definition sa_profile_cmp :: "prof_row \<Rightarrow> prof_row \<Rightarrow> int" where
  "sa_profile_cmp x y =
     (if p_cycles x < p_cycles y then 1 else if p_cycles x > p_cycles y then - 1 else 0)"

section \<open>Invariant\<close>

text \<open>The rows of a table: bounded in number, named apart, names within their field.\<close>
definition profile_ok :: "profile \<Rightarrow> bool" where
  "profile_ok p \<longleftrightarrow>
     (case table p of
        Rows rs \<Rightarrow> length rs \<le> profile_max \<and> distinct (map (c_string \<circ> p_name) rs)
          \<and> (\<forall>r \<in> set rs. length (p_name r) \<le> 95)
      | _ \<Rightarrow> True)"

text \<open>A name the table can hold: fits in the field, no zero byte.\<close>
definition short_name :: "string \<Rightarrow> bool" where
  "short_name s \<longleftrightarrow> length s \<le> 95 \<and> CHR 0x00 \<notin> set s"

lemma c_string_id: "CHR 0x00 \<notin> set s \<Longrightarrow> c_string s = s"
  unfolding c_string_def by (rule takeWhile_eq_all_conv [THEN iffD2]) auto

lemma length_c_string: "length (c_string s) \<le> length s"
  by (simp add: c_string_def length_takeWhile_le)

lemma row_index_le: "row_index name rs \<le> length rs"
  by (induction rs) auto

lemma row_index_found:
  "row_index name rs < length rs \<Longrightarrow> c_string (p_name (rs ! row_index name rs)) = name"
  by (induction rs) auto

lemma row_index_missing:
  "row_index name rs = length rs \<longleftrightarrow> name \<notin> c_string ` p_name ` set rs"
  by (induction rs) auto

lemma accumulate_simps [simp]:
  "p_name (accumulate c h d r) = p_name r"
  "p_count (accumulate c h d r) = p_count r + 1"
  "p_cycles (accumulate c h d r) = p_cycles r + zext64 c"
  "p_host_ns (accumulate c h d r) = p_host_ns r + h"
  by (simp_all add: accumulate_def)

lemma new_row_simps [simp]:
  "p_name (new_row n) = take 95 n" "p_count (new_row n) = 0" "p_cycles (new_row n) = 0" "p_host_ns (new_row n) = 0"
  by (simp_all add: new_row_def)

lemma sum_list_update_word:
  "i < length xs \<Longrightarrow> sum_list (map f (xs[i := y])) = sum_list (map f xs) - f (xs ! i) + (f y :: u64)"
proof (induction xs arbitrary: i)
  case Nil
  then show ?case by simp
next
  case (Cons x xs)
  then show ?case by (cases i) (simp_all add: algebra_simps)
qed

text \<open>The rows after a recorded call: the table, with the row of the name (new or old) updated.\<close>
lemma profile_record_cases:
  assumes "table p = Rows rs" and "q = sa_context_profile_record env p name cycles host_ns done"
  obtains (full) "row_index name rs = length rs" "length rs = profile_max" "q = p\<lparr>dropped := dropped p + 1\<rparr>"
  | (added) "row_index name rs = length rs" "length rs \<noteq> profile_max"
      "table q = Rows (rs @ [accumulate cycles host_ns done (new_row name)])" "dropped q = dropped p"
  | (found) "row_index name rs < length rs"
      "table q = Rows (rs[row_index name rs := accumulate cycles host_ns done (rs ! row_index name rs)])"
      "dropped q = dropped p"
proof (cases "row_index name rs = length rs")
  case True
  with assms full added show thesis
    by (cases "length rs = profile_max")
       (auto simp: sa_context_profile_record_def sa_profile_enabled_def Let_def)
next
  case False
  with row_index_le [of name rs] have "row_index name rs < length rs" by simp
  with assms False found show thesis
    by (auto simp: sa_context_profile_record_def sa_profile_enabled_def Let_def)
qed

section \<open>Properties\<close>

definition count_of :: "string \<Rightarrow> profile \<Rightarrow> u64" where
  "count_of name p =
     (case table p of
        Rows rs \<Rightarrow> (if row_index name rs < length rs then p_count (rs ! row_index name rs) else 0)
      | _ \<Rightarrow> 0)"

lemma row_index_update_same:
  "p_name r' = p_name (rs ! i) \<Longrightarrow> i < length rs \<Longrightarrow> row_index n (rs[i := r']) = row_index n rs"
  by (induction rs arbitrary: i) (auto split: nat.splits)

lemma row_index_append:
  "row_index n (rs @ [r]) =
     (if row_index n rs < length rs then row_index n rs
      else if c_string (p_name r) = n then length rs else Suc (length rs))"
  by (induction rs) auto

lemma row_index_absent_long:
  assumes "\<forall>r \<in> set rs. length (p_name r) \<le> 95" and "95 < length name"
  shows "row_index name rs = length rs"
proof (rule ccontr)
  assume "row_index name rs \<noteq> length rs"
  with row_index_le [of name rs] have lt: "row_index name rs < length rs" by simp
  from row_index_found [OF lt] have "length name \<le> length (p_name (rs ! row_index name rs))"
    by (metis length_c_string)
  with assms lt show False by (meson le_trans not_less nth_mem)
qed

lemma profile_found_ok:
  assumes "profile_ok p" and "table p = Rows rs" and "i < length rs"
    and "table q = Rows (rs[i := accumulate c h d (rs ! i)])"
  shows "profile_ok q"
proof -
  have names: "map p_name (rs[i := accumulate c h d (rs ! i)]) = map p_name rs"
    by (metis accumulate_simps(1) assms(3) list_update_id map_update nth_map)
  then have "map (c_string \<circ> p_name) (rs[i := accumulate c h d (rs ! i)]) = map (c_string \<circ> p_name) rs"
    by (simp flip: map_map)
  moreover from names have img: "p_name ` set (rs[i := accumulate c h d (rs ! i)]) = p_name ` set rs"
    by (metis set_map)
  moreover have "length (p_name r) \<le> 95" if "r \<in> set (rs[i := accumulate c h d (rs ! i)])" for r
  proof -
    from that have "p_name r \<in> p_name ` set (rs[i := accumulate c h d (rs ! i)])" by simp
    with img have "p_name r \<in> p_name ` set rs" by simp
    with assms(1,2) show ?thesis by (auto simp: profile_ok_def)
  qed
  ultimately show ?thesis using assms
    by (simp add: profile_ok_def)
qed

lemma profile_added_ok:
  assumes "profile_ok p" and "table p = Rows rs" and "length rs < profile_max" and "CHR 0x00 \<notin> set name"
    and "length name \<le> 95" and "row_index name rs = length rs"
    and "table q = Rows (rs @ [accumulate c h d (new_row name)])"
  shows "profile_ok q"
  using assms by (auto simp: profile_ok_def row_index_missing c_string_id image_iff)

text \<open>
  Recording a completed list under a name the table can hold, when the name has a row or
  there is room for one, keeps the table well formed (names apart, at most 4096 rows), adds one
  call to the row of that name and to no other, adds exactly the given cycles and host time to
  the totals, and drops nothing.
\<close>
theorem profile_record_correct:
  assumes "profile_ok p" and "table p = Rows rs" and "short_name name"
    and "length rs < profile_max \<or> row_index name rs < length rs"
    and "q = sa_context_profile_record env p name cycles host_ns done"
  shows "profile_ok q \<and> dropped q = dropped p
    \<and> count_of name q = count_of name p + 1 \<and> (\<forall>n. n \<noteq> name \<longrightarrow> count_of n q = count_of n p)
    \<and> sa_context_profile_totals q =
        (case sa_context_profile_totals p of (d, c, h) \<Rightarrow> (d + 1, c + zext64 cycles, h + host_ns))"
proof (cases rule: profile_record_cases [OF assms(2,5)])
  case 1
  with assms(4) show ?thesis by simp
next
  case 2
  from assms(3) have nm: "CHR 0x00 \<notin> set name" "length name \<le> 95" by (auto simp: short_name_def)
  have "profile_ok q"
    using 2 assms by (intro profile_added_ok [OF assms(1,2) _ nm]) auto
  then show ?thesis
    using 2 nm by (auto simp: assms(2) count_of_def row_index_append c_string_id sa_context_profile_totals_def
        nth_append)
next
  case 3
  let ?i = "row_index name rs"
  have "profile_ok q" by (rule profile_found_ok [OF assms(1,2) 3(1,2)])
  moreover have "count_of n q = count_of n p" if "n \<noteq> name" for n
    using 3(1) that row_index_found [OF 3(1)] row_index_found [of n rs]
    by (auto simp: count_of_def 3(2) assms(2) row_index_update_same nth_list_update)
  ultimately show ?thesis
    using 3 by (auto simp: assms(2) count_of_def row_index_update_same sa_context_profile_totals_def
        sum_list_update_word algebra_simps)
qed

definition small_profile :: profile where
  "small_profile = \<lparr>table = Rows [accumulate 7 100 None (new_row ''matmul'')], perf_n = 0, dropped = 0\<rparr>"

theorem profile_record_correct_witness:
  "count_of ''matmul'' (sa_context_profile_record True small_profile ''matmul'' 5 20 None) =
     count_of ''matmul'' small_profile + 1"
  using profile_record_correct [of small_profile "[accumulate 7 100 None (new_row ''matmul'')]" "''matmul''" _ True 5 20 None]
  by (simp add: small_profile_def profile_ok_def short_name_def profile_max_def)

text \<open>
  An export whose name is longer than the 95 bytes a row keeps never finds its own row
  again: as long as there is room every call appends one more row with a single call in it, so
  the calls of one export are spread over the table instead of being summed.
\<close>
theorem profile_long_name_never_found:
  assumes "profile_ok p" and "table p = Rows rs" and "95 < length name" and "length rs < profile_max"
  shows "table (sa_context_profile_record env p name cycles host_ns done) =
    Rows (rs @ [accumulate cycles host_ns done (new_row name)])"
proof -
  from assms(1,2) have "\<forall>r \<in> set rs. length (p_name r) \<le> 95" by (simp add: profile_ok_def)
  then have new: "row_index name rs = length rs" by (rule row_index_absent_long [OF _ assms(3)])
  show ?thesis
    by (rule profile_record_cases [OF assms(2) refl, of name env cycles host_ns "done"]) (use new assms(4) in auto)
qed

theorem profile_long_name_never_found_witness:
  "table (sa_context_profile_record True small_profile (replicate 96 CHR ''a'') 5 20 None) =
     Rows [accumulate 7 100 None (new_row ''matmul''), accumulate 5 20 None (new_row (replicate 96 CHR ''a''))]"
  by (subst profile_long_name_never_found [of _ "[accumulate 7 100 None (new_row ''matmul'')]"])
     (simp_all add: small_profile_def profile_ok_def profile_max_def)

end
