(* ===== verification/Fetch.thy ===== *)
theory Fetch
  imports Prelude
begin

text \<open>
  What the descriptor fetch unit (\<^verbatim>\<open>rtl/sysarray/sa_cmdfetch.v\<close>) does with the descriptors the
  runtime writes into a top-level list: SETREG, CALL, FENCE and END, with the register file they
  share. The templates a CALL runs are a parameter: their effect on the registers. A command or
  control descriptor that a top-level list never holds ends the run as a failure here.
\<close>

section \<open>Registers\<close>

text \<open>BASE0..15 are registers 0..15, PARAM0..7 are 16..23.\<close>
type_synonym regfile = "nat \<Rightarrow> u32"

definition setreg_sel :: "nat \<Rightarrow> row \<Rightarrow> u64" where
  "setreg_sel i r = bits (8 * i) 7 (r ! 1)"

text \<open>
  One cycle of \<^verbatim>\<open>S_SETREG\<close>: selector byte \<open>i\<close> holds a valid bit (6) and the register number;
  a valid number above 23 is an error; bit \<open>i\<close> of word 5 adds instead of replacing.
\<close>
definition setreg_step :: "row \<Rightarrow> nat \<Rightarrow> regfile \<Rightarrow> regfile option" where
  "setreg_step r i f =
     (let e = setreg_sel i r; n = unat (take_bit 6 e); v = ucast (r ! (2 + i)) in
      if \<not> bit e 6 then Some f
      else if n \<ge> 24 then None
      else Some (f(n := (if bit (r ! 5) i then f n + v else v))))"

definition setreg_row :: "row \<Rightarrow> regfile \<Rightarrow> regfile option" where
  "setreg_row r f =
     (case setreg_step r 0 f of None \<Rightarrow> None
      | Some f1 \<Rightarrow> (case setreg_step r 1 f1 of None \<Rightarrow> None | Some f2 \<Rightarrow> setreg_step r 2 f2))"

section \<open>A top-level list\<close>

text \<open>What the unit does, in order; a CALL carries the registers its template starts with.\<close>
datatype fetch_event = Called u32 regfile | Fenced u64 | Ended u32 | Failed

fun fetch_list :: "(u32 \<Rightarrow> regfile \<Rightarrow> regfile) \<Rightarrow> row list \<Rightarrow> regfile \<Rightarrow> fetch_event list" where
  "fetch_list call [] f = []"
| "fetch_list call (r # rs) f =
     (if r ! 0 = 0x14 then
        (case setreg_row r f of None \<Rightarrow> [Failed] | Some f' \<Rightarrow> fetch_list call rs f')
      else if r ! 0 = 0x15 then
        (let a = ucast (r ! 1) :: u32 in
         if a AND 63 \<noteq> 0 then [Failed] else Called a f # fetch_list call rs (call a f))
      else if r ! 0 = 0x10 then Fenced (r ! 1 AND 15) # fetch_list call rs f
      else if r ! 0 = 0x12 then [Ended (ucast (r ! 1))]
      else [Failed])"

text \<open>The register file after writing (register, value) pairs in order.\<close>
definition write_regs :: "(u32 \<times> u32) list \<Rightarrow> regfile \<Rightarrow> regfile" where
  "write_regs ps f = fold (\<lambda>(r, v) g. g(unat r := v)) ps f"

lemma write_regs_simps [simp]:
  "write_regs [] f = f"
  "write_regs (p # ps) f = write_regs ps (f(unat (fst p) := snd p))"
  by (simp_all add: write_regs_def split_beta)

lemma write_regs_append: "write_regs (ps @ qs) f = write_regs qs (write_regs ps f)"
  by (simp add: write_regs_def)

lemma write_regs_other: "n \<notin> unat ` fst ` set ps \<Longrightarrow> write_regs ps f n = f n"
  by (induction ps arbitrary: f) auto

lemma write_regs_in:
  "distinct (map fst ps) \<Longrightarrow> (r, v) \<in> set ps \<Longrightarrow> write_regs ps f (unat r) = v"
proof (induction ps arbitrary: f)
  case Nil
  then show ?case by simp
next
  case (Cons p ps)
  show ?case
  proof (cases "(r, v) \<in> set ps")
    case True
    with Cons show ?thesis by simp
  next
    case False
    with Cons.prems(2) have "p = (r, v)" by simp
    moreover from this Cons.prems(1) have "r \<notin> fst ` set ps" by simp
    then have "unat r \<notin> unat ` fst ` set ps"
      by (simp add: inj_image_mem_iff [OF injI [of unat, OF unsigned_word_eqI]])
    ultimately show ?thesis by (simp add: write_regs_other)
  qed
qed

end
