(* ===== verification/RangeSet.thy ===== *)
theory RangeSet
  imports Prelude
begin

text \<open>
  The sets of DDR ranges the batch builder tracks (\<^verbatim>\<open>sa_range_set_t\<close> of
  \<^verbatim>\<open>compiler/runtime/sa/sa_context.c\<close>): at most 256 ranges, then everything. What its users rely
  on is the locale \<open>range_tracker\<close>, and the C functions' model is an interpretation of it.
\<close>

section \<open>The interface\<close>

text \<open>
  A conservative set of ranges: \<open>tracks s xs\<close> says that \<open>s\<close> stands for at least the ranges
  \<open>xs\<close>; a negative overlap test is an assurance about all of them.
\<close>
locale range_tracker =
  fixes empty :: 's
    and add :: "'s \<Rightarrow> range list \<Rightarrow> 's"
    and overlaps :: "'s \<Rightarrow> range list \<Rightarrow> bool"
    and tracks :: "'s \<Rightarrow> range set \<Rightarrow> bool"
  assumes tracks_empty: "tracks empty {}"
    and tracks_add: "tracks s R \<Longrightarrow> tracks (add s rs) (R \<union> set rs)"
    and tracks_mono: "tracks s R \<Longrightarrow> Q \<subseteq> R \<Longrightarrow> tracks s Q"
    and overlaps_sound: "tracks s R \<Longrightarrow> \<not> overlaps s rs \<Longrightarrow> r \<in> R \<Longrightarrow> x \<in> set rs \<Longrightarrow> \<not> range_overlaps r x"
begin

lemma tracks_fold:
  "tracks s R \<Longrightarrow> tracks (fold (\<lambda>e t. add t (f e)) es s) (R \<union> (\<Union>e \<in> set es. set (f e)))"
proof (induction es arbitrary: s R)
  case Nil
  then show ?case by simp
next
  case (Cons e es)
  from Cons.IH [OF tracks_add [OF Cons.prems, of "f e"]] show ?case
    by (simp add: Un_assoc)
qed

lemma tracks_added: "tracks s R \<Longrightarrow> Q \<subseteq> R \<union> set rs \<Longrightarrow> tracks (add s rs) Q"
  by (rule tracks_mono [OF tracks_add])

lemma disjoint_from_all:
  assumes "\<not> overlaps (fold (\<lambda>e t. add t (f e)) es empty) rs" and "e \<in> set es"
  shows "\<not> ranges_overlap (f e) rs"
  using overlaps_sound [OF tracks_fold [OF tracks_empty, of f es] assms(1)] assms(2)
  by (auto simp: ranges_overlap_def)

lemma disjoint_tracked: "tracks s R \<Longrightarrow> \<not> overlaps s rs \<Longrightarrow> set xs \<subseteq> R \<Longrightarrow> \<not> ranges_overlap xs rs"
  using overlaps_sound by (fastforce simp: ranges_overlap_def)

end

section \<open>The code's set\<close>

record range_set =
  s_ranges :: "range list"
  s_all :: bool

definition set_capacity :: nat where
  "set_capacity = 256"

text \<open>\<^verbatim>\<open>s->n = 0, s->all = false\<close>\<close>
definition sa_set_clear :: range_set where
  "sa_set_clear = \<lparr>s_ranges = [], s_all = False\<rparr>"

text \<open>\<^verbatim>\<open>sa_set_add\<close>: stops at the first range that does not fit any more.\<close>
fun sa_set_add :: "range_set \<Rightarrow> range list \<Rightarrow> range_set" where
  "sa_set_add s [] = s"
| "sa_set_add s (r # rs) =
     (if s_all s then s
      else if length (s_ranges s) = set_capacity then sa_set_add (s\<lparr>s_all := True\<rparr>) rs
      else sa_set_add (s\<lparr>s_ranges := s_ranges s @ [r]\<rparr>) rs)"

definition sa_set_overlaps :: "range_set \<Rightarrow> range list \<Rightarrow> bool" where
  "sa_set_overlaps s rs =
     (if rs = [] then False
      else if s_all s then True
      else list_ex (\<lambda>r. list_ex (\<lambda>q. r_begin r < r_end q \<and> r_begin q < r_end r) (s_ranges s)) rs)"

definition set_tracks :: "range_set \<Rightarrow> range set \<Rightarrow> bool" where
  "set_tracks s R \<longleftrightarrow> s_all s \<or> R \<subseteq> set (s_ranges s)"

lemma set_add_tracks: "set_tracks s R \<Longrightarrow> set_tracks (sa_set_add s rs) (R \<union> set rs)"
proof (induction s rs arbitrary: R rule: sa_set_add.induct)
  case (1 s)
  then show ?case by simp
next
  case (2 s r rs)
  show ?case
  proof (cases "s_all s")
    case True
    then show ?thesis by (simp add: set_tracks_def)
  next
    case False
    note s = this
    show ?thesis
    proof (cases "length (s_ranges s) = set_capacity")
      case True
      have "set_tracks (s\<lparr>s_all := True\<rparr>) (insert r R)" by (simp add: set_tracks_def)
      from "2.IH"(1) [OF s True this] s True show ?thesis by (simp add: Un_commute insert_commute)
    next
      case False
      with s "2.prems" have "set_tracks (s\<lparr>s_ranges := s_ranges s @ [r]\<rparr>) (insert r R)"
        by (auto simp: set_tracks_def)
      from "2.IH"(2) [OF s False this] s False show ?thesis by simp
    qed
  qed
qed

interpretation rset: range_tracker sa_set_clear sa_set_add sa_set_overlaps set_tracks
proof unfold_locales
  show "set_tracks sa_set_clear {}" by (simp add: set_tracks_def)
next
  show "set_tracks s R \<Longrightarrow> set_tracks (sa_set_add s rs) (R \<union> set rs)" for s R rs
    by (rule set_add_tracks)
next
  show "set_tracks s R \<Longrightarrow> Q \<subseteq> R \<Longrightarrow> set_tracks s Q" for s R Q
    by (auto simp: set_tracks_def)
next
  show "set_tracks s R \<Longrightarrow> \<not> sa_set_overlaps s rs \<Longrightarrow> r \<in> R \<Longrightarrow> x \<in> set rs \<Longrightarrow> \<not> range_overlaps r x" for s R rs r x
    by (auto simp: set_tracks_def sa_set_overlaps_def range_overlaps_def list_ex_iff split: if_splits)
qed

text \<open>The array never holds more than its 256 slots.\<close>
lemma set_add_bounded:
  "length (s_ranges s) \<le> set_capacity \<Longrightarrow> length (s_ranges (sa_set_add s rs)) \<le> set_capacity"
  by (induction s rs rule: sa_set_add.induct) auto

end
