(* ===== verification/SaContext.thy ===== *)
theory SaContext
  imports Arena Profile Fetch
begin

text \<open>
  The device context of the runtime (\<^verbatim>\<open>compiler/runtime/sa/sa_context.h\<close>, \<^verbatim>\<open>sa_context.c\<close>): its
  state, its construction over the device-visible window, the descriptors it writes and the
  list of a single dispatch. The transport that runs a list is a parameter \<open>run\<close>: it takes the
  device's state, the list's physical address and its descriptors, and returns the device's
  state with a status or a completion record.
\<close>

section \<open>State\<close>

text \<open>The fields of \<^verbatim>\<open>sa_transport_t\<close> the context computes with.\<close>
record transport =
  t_mem :: u64
  t_mem_phys :: u32
  t_mem_size :: u32
  t_heap_offset :: u32

text \<open>\<^verbatim>\<open>sa_dispatch_t\<close>: entry points (0: none), register values, the DDR it touches.\<close>
record dispatch =
  prefix_phys :: u32
  head_phys :: u32
  body_phys :: u32
  prefix_base :: u32
  regs :: "(u32 \<times> u32) list"
  spad_b :: bool
  reads :: "range list"
  writes :: "range list"
  prefix_reads :: "range list"
  dname :: string

text \<open>
  \<^verbatim>\<open>sa_batch_entry_t\<close>: a recorded dispatch, the barrier before it, the dispatch whose prefix
  runs inside it (-1 is \<open>None\<close>), and whether its own prefix runs inside an earlier one.
\<close>
record entry =
  e_d :: dispatch
  barrier :: bool
  host :: "nat option"
  hosted :: bool

text \<open>\<^verbatim>\<open>sa_record_item_t\<close> and \<^verbatim>\<open>sa_record_t\<close>.\<close>
record record_item =
  code_phys :: u32
  words :: "u32 list"

record recorder =
  dry :: bool
  rec_cap :: nat
  rec_items :: "record_item list"
  rec_dropped :: u32

record 'dev sa_context =
  transport :: transport
  device :: 'dev
  arena :: arena
  list_addr :: nat
  list_phys :: u32
  list_capacity :: nat
  batch_addr :: nat
  batch_phys :: u32
  batch_capacity :: nat
  entries_ready :: bool
  entries :: "entry list"
  entry_descriptors :: nat
  batch_fence :: bool
  batch_names :: "(nat \<times> string) list"
  dispatches :: u64
  lists :: u64
  host_dispatches :: u64
  host_ops :: u64
  rv_calls :: u64
  batch_hosted :: u64
  batch_hoisted :: u64
  batch_barriers :: u64
  batch_fences :: u64
  recording :: "recorder option"
  prof :: profile

type_synonym 'dev transport_run = "'dev \<Rightarrow> u32 \<Rightarrow> row list \<Rightarrow> 'dev \<times> (status + completion)"

section \<open>Descriptors\<close>

text \<open>The selector bytes of SETREG: bit 6 valid, bits 5..0 the register.\<close>
definition sel_byte :: "u32 \<Rightarrow> u64" where
  "sel_byte r = zext64 (0x40 OR (r AND 0x3F))"

fun sel_bytes :: "nat \<Rightarrow> u32 list \<Rightarrow> u64" where
  "sel_bytes i [] = 0"
| "sel_bytes i (r # rs) = push_bit (8 * i) (sel_byte r) OR sel_bytes (Suc i) rs"

text \<open>\<^verbatim>\<open>sa_desc_setreg\<close>, of at most three pairs.\<close>
definition sa_desc_setreg :: "(u32 \<times> u32) list \<Rightarrow> row" where
  "sa_desc_setreg ps =
     [0x14, sel_bytes 0 (map fst ps)] @ map (zext64 \<circ> snd) ps @ replicate (6 - length ps) 0"

text \<open>\<^verbatim>\<open>sa_emit\<close>: the descriptor it appends.\<close>
definition sa_desc_op :: "u64 \<Rightarrow> u64 \<Rightarrow> row" where
  "sa_desc_op op w1 = [op, w1, 0, 0, 0, 0, 0, 0]"

fun sa_emit_setregs :: "(u32 \<times> u32) list \<Rightarrow> row list" where
  "sa_emit_setregs [] = []"
| "sa_emit_setregs (p # ps) = sa_desc_setreg (take 3 (p # ps)) # sa_emit_setregs (drop 2 ps)"

definition setreg_base15 :: "u32 \<Rightarrow> row list" where
  "setreg_base15 v = sa_emit_setregs [(15, v)]"

definition call_row :: "u32 \<Rightarrow> row" where
  "call_row a = sa_desc_op 0x15 (zext64 a)"

definition fence_row :: "u64 \<Rightarrow> row" where
  "fence_row m = sa_desc_op 0x10 m"

definition end_row :: row where
  "end_row = sa_desc_op 0x12 0x5A"

section \<open>The recorder\<close>

text \<open>The descriptors as the 32-bit little-endian words the recorder copies.\<close>
definition row_words :: "row list \<Rightarrow> u32 list" where
  "row_words rs = concat (map (concat \<circ> map (\<lambda>w. [ucast w, ucast (drop_bit 32 w)])) rs)"

text \<open>
  \<^verbatim>\<open>sa_record_add\<close>; \<open>grow_ok\<close> and \<open>copy_ok\<close> say whether \<^verbatim>\<open>realloc\<close> and \<^verbatim>\<open>malloc\<close> succeed.
\<close>
definition sa_record_add :: "bool \<Rightarrow> bool \<Rightarrow> recorder \<Rightarrow> u32 \<Rightarrow> u32 list \<Rightarrow> recorder" where
  "sa_record_add grow_ok copy_ok r code ws =
     (let full = (length (rec_items r) = rec_cap r);
          cap = (if rec_cap r = 0 then 64 else 2 * rec_cap r) in
      if full \<and> \<not> grow_ok then r\<lparr>rec_dropped := rec_dropped r + 1\<rparr>
      else
        let r1 = (if full then r\<lparr>rec_cap := cap\<rparr> else r) in
        if \<not> copy_ok then r1\<lparr>rec_dropped := rec_dropped r1 + 1\<rparr>
        else r1\<lparr>rec_items := rec_items r1 @ [\<lparr>code_phys = code, words = ws\<rparr>]\<rparr>)"

definition sa_record_free :: "recorder \<Rightarrow> recorder" where
  "sa_record_free r = \<lparr>dry = dry r, rec_cap = 0, rec_items = [], rec_dropped = 0\<rparr>"

definition sa_record_list :: "bool \<Rightarrow> bool \<Rightarrow> row list \<Rightarrow> 'dev sa_context \<Rightarrow> 'dev sa_context" where
  "sa_record_list grow_ok copy_ok rs c =
     c\<lparr>recording := map_option (\<lambda>r. sa_record_add grow_ok copy_ok r 0 (row_words rs)) (recording c)\<rparr>"

definition dry_run :: "'dev sa_context \<Rightarrow> bool" where
  "dry_run c \<longleftrightarrow> (case recording c of None \<Rightarrow> False | Some r \<Rightarrow> dry r)"

section \<open>A single dispatch\<close>

text \<open>The list \<^verbatim>\<open>sa_context_dispatch\<close> writes.\<close>
definition dispatch_rows :: "dispatch \<Rightarrow> row list" where
  "dispatch_rows x =
     sa_emit_setregs (regs x)
     @ (if prefix_phys x \<noteq> 0 then setreg_base15 (prefix_base x) @ [call_row (prefix_phys x)] else [])
     @ (if head_phys x \<noteq> 0 then [call_row (head_phys x)] else [])
     @ [call_row (body_phys x), end_row]"

definition sa_context_dispatch ::
  "'dev transport_run \<Rightarrow> bool \<Rightarrow> bool \<Rightarrow> 'dev sa_context \<Rightarrow> dispatch \<Rightarrow> 'dev sa_context \<times> (status + completion)" where
  "sa_context_dispatch run grow_ok copy_ok c x =
     (let n = length (regs x) in
      if n > 24 \<or> (n + 3) div 3 + 4 > list_capacity c then (c, Inl OUT_OF_RANGE)
      else
        let rs = dispatch_rows x;
            c1 = sa_record_list grow_ok copy_ok rs c;
            (dev, st) = (if dry_run c1 then (device c1, Inr (completion_end 0x5A))
                         else run (device c1) (list_phys c1) rs)
        in (c1\<lparr>device := dev, dispatches := dispatches c1 + 1, lists := lists c1 + 1\<rparr>, st))"

text \<open>\<^verbatim>\<open>sa_context_phys\<close>\<close>
definition sa_context_phys :: "transport \<Rightarrow> u64 \<Rightarrow> status + u32" where
  "sa_context_phys t p =
     (if p < t_mem t \<or> p \<ge> t_mem t + zext64 (t_mem_size t) then Inl INVALID_ARGUMENT
      else Inr (t_mem_phys t + ucast (p - t_mem t)))"

section \<open>Construction\<close>

text \<open>The transports: \<^verbatim>\<open>SA_TRANSPORT\<close> unset, sim, board or anything else.\<close>
datatype transport_env = Unset | Sim | Board | Unknown

definition open_transport :: "transport_env \<Rightarrow> status + 't \<Rightarrow> status + 't \<Rightarrow> status + 't" where
  "open_transport which sim_open board_open =
     (case which of
        Board \<Rightarrow> board_open
      | Unknown \<Rightarrow> Inl INVALID_ARGUMENT
      | Sim \<Rightarrow> sim_open
      | Unset \<Rightarrow> (case sim_open of Inr t \<Rightarrow> Inr t
                 | Inl e \<Rightarrow> (case board_open of Inr b \<Rightarrow> Inr b | Inl _ \<Rightarrow> Inl e)))"

text \<open>The arena over the window: one free block from the aligned heap offset to its end.\<close>
definition initial_arena :: "transport \<Rightarrow> (nat \<Rightarrow> u8) \<Rightarrow> arena" where
  "initial_arena t mem =
     (let b = t_mem t + zext64 ((t_heap_offset t + 63) AND NOT 63);
          e = t_mem t + zext64 (t_mem_size t AND NOT 15)
      in \<lparr>heap_begin = unat b, blocks = [mk_block (unat (e - b)) False], heap_used = 0, heap_peak = 0, bytes = mem\<rparr>)"

definition align64 :: "nat \<Rightarrow> nat" where
  "align64 a = (a + 63) div 64 * 64"

text \<open>One list scratch of \<open>n\<close> descriptors: the arena afterwards and the scratch's address.\<close>
definition alloc_scratch :: "arena \<Rightarrow> nat \<Rightarrow> (arena \<times> (status + nat)) option" where
  "alloc_scratch a n =
     (case sa_arena_alloc a (of_nat (64 * n + 64)) of
        None \<Rightarrow> None
      | Some (a', None) \<Rightarrow> Some (a', Inl RESOURCE_EXHAUSTED)
      | Some (a', Some p) \<Rightarrow> Some (a', Inr (align64 p)))"

text \<open>
  \<^verbatim>\<open>sa_context_get\<close> on its first call: the context, or the error; \<open>None\<close> when a walk of the
  arena does not return.
\<close>
definition sa_context_get ::
  "transport_env \<Rightarrow> status + (transport \<times> 'dev) \<Rightarrow> status + (transport \<times> 'dev) \<Rightarrow> (nat \<Rightarrow> u8) \<Rightarrow> profile
     \<Rightarrow> (status + 'dev sa_context) option" where
  "sa_context_get which sim_open board_open mem p =
     (case open_transport which sim_open board_open of
        Inl e \<Rightarrow> Some (Inl e)
      | Inr (t, dev) \<Rightarrow>
         (case alloc_scratch (initial_arena t mem) 32 of
            None \<Rightarrow> None
          | Some (_, Inl e) \<Rightarrow> Some (Inl e)
          | Some (a1, Inr l) \<Rightarrow>
             (case sa_context_phys t (of_nat l) of
                Inl e \<Rightarrow> Some (Inl e)
              | Inr lp \<Rightarrow>
                 (case alloc_scratch a1 8192 of
                    None \<Rightarrow> None
                  | Some (_, Inl e) \<Rightarrow> Some (Inl e)
                  | Some (a2, Inr b) \<Rightarrow>
                     (case sa_context_phys t (of_nat b) of
                        Inl e \<Rightarrow> Some (Inl e)
                      | Inr bp \<Rightarrow> Some (Inr
                          \<lparr>transport = t, device = dev, arena = a2, list_addr = l, list_phys = lp, list_capacity = 32,
                           batch_addr = b, batch_phys = bp, batch_capacity = 8192, entries_ready = False, entries = [],
                           entry_descriptors = 0, batch_fence = False, batch_names = [], dispatches = 0, lists = 0,
                           host_dispatches = 0, host_ops = 0, rv_calls = 0, batch_hosted = 0, batch_hoisted = 0,
                           batch_barriers = 0, batch_fences = 0, recording = None, prof = p\<rparr>))))))"

section \<open>The encoding, read by the fetch unit\<close>

lemma bit_0x40: "bit (0x40 :: u32) i \<longleftrightarrow> i = 6"
  using bit_exp_iff [of 6 i, where 'a = u32] by auto

lemma bit_0x3F: "bit (0x3F :: u32) i \<longleftrightarrow> i < 6"
  using bit_mask_iff [of 6 i, where 'a = u32] by (auto simp: mask_eq_exp_minus_1)

lemma bit_sel_byte: "bit (sel_byte r) i \<longleftrightarrow> i = 6 \<or> (i < 6 \<and> bit r i)"
  by (simp only: sel_byte_def bit_unsigned_iff bit_or_iff bit_and_iff bit_0x40 bit_0x3F possible_bit_word) auto

lemma sel_byte_bound: "sel_byte r < 2 ^ 7"
  by (rule word_bound_bits) (auto simp: bit_sel_byte)

lemma sel_byte_reg: "unat r < 24 \<Longrightarrow> unat (take_bit 6 (sel_byte r)) = unat r"
proof -
  assume r: "unat r < 24"
  have "take_bit 6 (sel_byte r) = zext64 (take_bit 6 r)"
    by (rule bit_eqI) (auto simp: bit_take_bit_iff bit_sel_byte bit_unsigned_iff)
  then have "unat (take_bit 6 (sel_byte r)) = take_bit 6 (unat r)"
    by (simp add: unsigned_ucast_eq unsigned_take_bit_eq min_def take_bit_take_bit)
  also have "\<dots> = unat r" using r by (intro take_bit_nat_eq_self) simp
  finally show ?thesis .
qed

lemma length_setreg [row_simps]: "length ps \<le> 3 \<Longrightarrow> length (sa_desc_setreg ps) = 8"
  by (simp add: sa_desc_setreg_def)

lemma length_ops [row_simps]:
  "length (call_row a) = 8" "length (fence_row m) = 8" "length end_row = 8"
  by (simp_all add: call_row_def fence_row_def end_row_def sa_desc_op_def)

lemma op_rows [row_simps]:
  "sa_desc_setreg ps ! 0 = 0x14" "call_row a ! 0 = 0x15" "fence_row m ! 0 = 0x10" "end_row ! 0 = 0x12"
  "call_row a ! Suc 0 = zext64 a" "fence_row m ! Suc 0 = m" "end_row ! Suc 0 = 0x5A"
  by (simp_all add: call_row_def fence_row_def end_row_def sa_desc_op_def sa_desc_setreg_def)

lemma sel_byte_field:
  assumes "j < 7"
  shows "bits (8 * i) 7 (push_bit (8 * j) (sel_byte r)) = (if i = j then sel_byte r else 0)"
proof -
  consider "i = j" | "i < j" | "j < i" by linarith
  then show ?thesis
  proof cases
    case 1
    with assms show ?thesis using sel_byte_bound [of r] by (simp add: bits_push_same)
  next
    case 2
    then show ?thesis by (simp add: bits_push_above)
  next
    case 3
    then have "bits (8 * i) 7 (push_bit (8 * j) (sel_byte r)) = 0"
      by (intro bits_push_below [where m = 7] sel_byte_bound) auto
    with 3 show ?thesis by simp
  qed
qed

lemma sel_field:
  "k + length rs \<le> 7 \<Longrightarrow>
     bits (8 * i) 7 (sel_bytes k rs) = (if k \<le> i \<and> i < k + length rs then sel_byte (rs ! (i - k)) else 0)"
proof (induction k rs rule: sel_bytes.induct)
  case (1 k)
  then show ?case by (auto simp: bits_zero)
next
  case (2 k r rs)
  then show ?case
    by (auto simp: bits_or sel_byte_field nth_Cons' Suc_le_eq)
qed

lemma length_le_3:
  assumes "length xs \<le> 3"
  obtains "xs = []" | a where "xs = [a]" | a b where "xs = [a, b]" | a b d where "xs = [a, b, d]"
proof (cases xs)
  case Nil
  then show thesis by (rule that(1))
next
  case (Cons a ys)
  note a = this
  show thesis
  proof (cases ys)
    case Nil
    with a show thesis by (intro that(2)) simp
  next
    case (Cons b zs)
    with a assms that(3,4) show thesis by (cases zs) auto
  qed
qed

text \<open>SETREG of at most three pairs of valid registers writes exactly these, in order.\<close>
lemma setreg_step_row:
  assumes "length ps \<le> 3" and "\<forall>(r, v) \<in> set ps. unat r < 24" and "i < 3"
  shows "setreg_step (sa_desc_setreg ps) i f =
    Some (if i < length ps then f(unat (fst (ps ! i)) := snd (ps ! i)) else f)"
proof -
  let ?row = "sa_desc_setreg ps"
  have sel: "setreg_sel i ?row = (if i < length ps then sel_byte (fst (ps ! i)) else 0)"
    using assms(1) by (simp add: setreg_sel_def sa_desc_setreg_def sel_field)
  have w5: "?row ! 5 = 0"
    using assms(1) by (simp add: sa_desc_setreg_def nth_append nth_Cons')
  show ?thesis
  proof (cases "i < length ps")
    case True
    then have in_ps: "ps ! i \<in> set ps" by simp
    with assms(2) have lt: "unat (fst (ps ! i)) < 24" by (auto simp: split_beta)
    have "?row ! (2 + i) = zext64 (snd (ps ! i))"
      using True by (simp add: sa_desc_setreg_def nth_append)
    then have "ucast (?row ! (2 + i)) = snd (ps ! i)" by simp
    with True lt show ?thesis
      by (simp add: setreg_step_def sel w5 sel_byte_reg bit_sel_byte Let_def)
  next
    case False
    then show ?thesis by (simp add: setreg_step_def sel Let_def)
  qed
qed

lemma setreg_row_writes [row_simps]:
  assumes "length ps \<le> 3" and "\<forall>(r, v) \<in> set ps. unat r < 24"
  shows "setreg_row (sa_desc_setreg ps) f = Some (write_regs ps f)"
proof -
  note steps = setreg_step_row [OF assms]
  have "setreg_row (sa_desc_setreg ps) f =
    Some (let f1 = (if 0 < length ps then f(unat (fst (ps ! 0)) := snd (ps ! 0)) else f);
              f2 = (if 1 < length ps then f1(unat (fst (ps ! 1)) := snd (ps ! 1)) else f1)
          in if 2 < length ps then f2(unat (fst (ps ! 2)) := snd (ps ! 2)) else f2)"
    unfolding setreg_row_def by (simp add: steps Let_def)
  also have "\<dots> = Some (write_regs ps f)"
    by (cases rule: length_le_3 [OF assms(1)]) simp_all
  finally show ?thesis .
qed

lemma fetch_setregs [row_simps]:
  assumes "\<forall>(r, v) \<in> set ps. unat r < 24"
  shows "fetch_list call (sa_emit_setregs ps @ rs) f = fetch_list call rs (write_regs ps f)"
  using assms
proof (induction ps arbitrary: f rule: sa_emit_setregs.induct)
  case 1
  then show ?case by simp
next
  case (2 p ps)
  have sub: "set (take 2 ps) \<subseteq> set ps" "set (drop 2 ps) \<subseteq> set ps"
    by (auto dest: in_set_takeD in_set_dropD)
  have "setreg_row (sa_desc_setreg (take 3 (p # ps))) f = Some (write_regs (take 3 (p # ps)) f)"
    using 2(2) sub by (intro setreg_row_writes) (auto simp: numeral_3_eq_3 take_Suc numeral_2_eq_2 dest: in_set_takeD)
  moreover have "\<forall>(r, v) \<in> set (drop 2 ps). unat r < 24"
    using 2(2) sub by auto
  moreover have "write_regs (drop 2 ps) (write_regs (take 3 (p # ps)) f) = write_regs (p # ps) f"
    by (metis append_take_drop_id drop_Suc_Cons numeral_2_eq_2 numeral_3_eq_3 write_regs_append)
  ultimately show ?case
    using 2(1) by (simp add: op_rows)
qed

lemma fetch_base15 [row_simps]:
  "fetch_list call (setreg_base15 v @ rs) f = fetch_list call rs (f(15 := v))"
  unfolding setreg_base15_def by (subst fetch_setregs) simp_all

lemma fetch_call [row_simps]:
  "a AND 63 = 0 \<Longrightarrow> fetch_list call (call_row a # rs) f = Called a f # fetch_list call rs (call a f)"
  by (simp add: op_rows)

lemma fetch_fence [row_simps]:
  "fetch_list call (fence_row m # rs) f = Fenced (m AND 15) # fetch_list call rs f"
  by (simp add: op_rows)

lemma fetch_end [row_simps]: "fetch_list call (end_row # rs) f = [Ended 0x5A]"
  by (simp add: op_rows)

lemma length_setregs: "length (sa_emit_setregs ps) = (length ps + 2) div 3"
proof (induction ps rule: sa_emit_setregs.induct)
  case (2 p ps)
  then show ?case by (cases "length ps < 2") auto
qed simp

lemma length_base15 [simp]: "length (setreg_base15 v) = 1"
  by (simp add: setreg_base15_def)

lemma setregs_rows: "r \<in> set (sa_emit_setregs ps) \<Longrightarrow> length r = 8"
  by (induction ps rule: sa_emit_setregs.induct) (auto simp: length_setreg)

section \<open>Properties\<close>

text \<open>The registers a dispatch writes: valid ones, each once.\<close>
definition regs_ok :: "dispatch \<Rightarrow> bool" where
  "regs_ok x \<longleftrightarrow> (\<forall>(r, v) \<in> set (regs x). unat r < 24) \<and> distinct (map fst (regs x))"

definition aligned_dispatch :: "dispatch \<Rightarrow> bool" where
  "aligned_dispatch x \<longleftrightarrow>
     prefix_phys x AND 63 = 0 \<and> head_phys x AND 63 = 0 \<and> body_phys x AND 63 = 0"

text \<open>
  C22. The list of a single dispatch, run by the fetch unit: with every register value of the
  dispatch in place it calls the prefix (when there is one, with its base in BASE15), the head
  (when there is one) and the body, in this order, each on the registers its predecessor left,
  and ends with 0x5A; no descriptor is rejected.
\<close>
theorem dispatch_list_runs:
  assumes "regs_ok x" and "aligned_dispatch x"
  shows "let f1 = write_regs (regs x) f;
             f2 = (if prefix_phys x \<noteq> 0 then call (prefix_phys x) (f1(15 := prefix_base x)) else f1);
             f3 = (if head_phys x \<noteq> 0 then call (head_phys x) f2 else f2)
         in (\<forall>(r, v) \<in> set (regs x). f1 (unat r) = v) \<and>
            fetch_list call (dispatch_rows x) f =
              (if prefix_phys x \<noteq> 0 then [Called (prefix_phys x) (f1(15 := prefix_base x))] else [])
              @ (if head_phys x \<noteq> 0 then [Called (head_phys x) f2] else [])
              @ [Called (body_phys x) f3, Ended 0x5A]"
proof -
  have "\<forall>(r, v) \<in> set (regs x). write_regs (regs x) f (unat r) = v"
    using assms(1) by (auto simp: regs_ok_def intro: write_regs_in)
  moreover have "\<forall>(r, v) \<in> set (regs x). unat r < 24"
    using assms(1) by (simp add: regs_ok_def)
  ultimately show ?thesis
    using assms(2) by (simp add: dispatch_rows_def aligned_dispatch_def fetch_setregs fetch_base15 fetch_call
        fetch_end Let_def del: fetch_list.simps)
qed

definition small_dispatch :: dispatch where
  "small_dispatch = \<lparr>prefix_phys = 0x1000, head_phys = 0, body_phys = 0x2000, prefix_base = 0x8000,
     regs = [(0, 0x100), (1, 0x200), (16, 3), (17, 4)], spad_b = True, reads = [], writes = [],
     prefix_reads = [], dname = ''x''\<rparr>"

theorem dispatch_list_runs_witness:
  "regs_ok small_dispatch \<and> aligned_dispatch small_dispatch \<and>
   fetch_list (\<lambda>a g. g) (dispatch_rows small_dispatch) (\<lambda>_. 0) =
     (let f1 = write_regs (regs small_dispatch) (\<lambda>_. 0); f2 = f1(15 := 0x8000)
      in [Called 0x1000 f2, Called 0x2000 f2, Ended 0x5A])"
proof -
  have ok: "regs_ok small_dispatch" "aligned_dispatch small_dispatch"
    by (simp_all add: small_dispatch_def regs_ok_def aligned_dispatch_def)
  show ?thesis
    using dispatch_list_runs [OF ok, of "\<lambda>_. 0" "\<lambda>a g. g"] ok by (simp add: small_dispatch_def Let_def)
qed

text \<open>An area of \<open>n\<close> descriptors, 64-byte aligned, inside the allocated block \<open>(x, m)\<close> past its header.\<close>
definition area_in :: "nat \<Rightarrow> nat \<Rightarrow> nat \<times> nat \<Rightarrow> bool" where
  "area_in p n b \<longleftrightarrow> 64 dvd p \<and> fst b + 16 \<le> p \<and> p + 64 * n \<le> fst b + snd b"

text \<open>
  A usable context: a well-formed arena in which the list scratches are areas of two different
  allocated blocks, inside the window, with their physical addresses.
\<close>
definition context_ok :: "'dev sa_context \<Rightarrow> bool" where
  "context_ok c \<longleftrightarrow> arena_ok (arena c) \<and>
     (\<exists>us vs ws b b'. (used_blocks (arena c) = us @ b # vs @ b' # ws \<or> used_blocks (arena c) = us @ b' # vs @ b # ws)
        \<and> area_in (list_addr c) (list_capacity c) b \<and> area_in (batch_addr c) (batch_capacity c) b')
     \<and> sa_context_phys (transport c) (of_nat (list_addr c)) = Inr (list_phys c)
     \<and> sa_context_phys (transport c) (of_nat (batch_addr c)) = Inr (batch_phys c)"

lemma align64_bounds: "a \<le> align64 a" "align64 a \<le> a + 63" "64 dvd align64 a"
  by (auto simp: align64_def)

lemma alloc_scratch_cases:
  assumes "arena_ok a" and "64 * n + 95 < 2 ^ 64"
  obtains a' where "alloc_scratch a n = Some (a', Inl RESOURCE_EXHAUSTED)"
  | a' p x m where "alloc_scratch a n = Some (a', Inr p)" and "arena_ok a'" and "heap_begin a' = heap_begin a"
      and "heap_end a' = heap_end a" and "area_in p n (x, m)" and "grown 0 (Some (x, m)) (used_blocks a) (used_blocks a')"
proof -
  have un: "unat (of_nat (64 * n + 64) :: u64) = 64 * n + 64"
    using assms(2) by (simp only: unsigned_of_nat) (simp add: take_bit_nat_eq_self)
  then have lt: "unat (of_nat (64 * n + 64) :: u64) + 31 < 2 ^ 64"
    using assms(2) by simp
  show thesis
  proof (cases rule: sa_arena_alloc_cases [OF assms(1) lt, consumes 0])
    case (1 c')
    then show thesis by (intro that(1) [of c']) (simp add: alloc_scratch_def)
  next
    case (2 c' x m)
    have "area_in (align64 (x + 16)) n (x, m)"
      using align64_bounds [of "x + 16"] need_of_bounds(1) [OF lt] 2(6) un
      by (auto simp: area_in_def grown_def)
    with 2 show thesis
      by (intro that(2) [of c' "align64 (x + 16)" x m]) (auto simp: alloc_scratch_def hdr_def grown_def)
  qed
qed

text \<open>The window of a transport: it does not wrap and leaves room behind its private data.\<close>
definition window_ok :: "transport \<Rightarrow> bool" where
  "window_ok t \<longleftrightarrow> unat (t_mem t) + unat (t_mem_size t) < 2 ^ 64
     \<and> unat (t_heap_offset t) + 96 \<le> unat (t_mem_size t)"

lemma initial_arena_ok:
  assumes "window_ok t"
  shows "arena_ok (initial_arena t mem)"
    and "unat (t_mem t) \<le> heap_begin (initial_arena t mem)"
    and "heap_end (initial_arena t mem) \<le> unat (t_mem t) + unat (t_mem_size t)"
    and "used_blocks (initial_arena t mem) = []"
proof -
  let ?b = "t_mem t + zext64 ((t_heap_offset t + 63) AND NOT 63)"
  let ?e = "t_mem t + zext64 (t_mem_size t AND NOT 15)"
  let ?off = "(unat (t_heap_offset t) + 63) div 64 * 64" and ?len = "unat (t_mem_size t) div 16 * 16"
  note win = assms [unfolded window_ok_def]
  have sz: "unat (t_mem_size t) < 2 ^ 32" using unsigned_less [of "t_mem_size t", where 'a = nat] by simp
  have "unat (t_heap_offset t + 63) = unat (t_heap_offset t) + 63"
    using win sz by (simp add: unat_word_ariths)
  then have off: "unat (zext64 ((t_heap_offset t + 63) AND NOT 63)) = ?off"
    by (simp only: unat_zext64 and_not_63)
  have len: "unat (zext64 (t_mem_size t AND NOT 15)) = ?len"
    by (simp only: unat_zext64 and_not_15)
  have fit: "?off + 16 \<le> ?len" "?len \<le> unat (t_mem_size t)"
    using win by linarith+
  have lt: "unat (t_mem t) + ?off < 2 ^ 64" "unat (t_mem t) + ?len < 2 ^ 64"
    using win fit by linarith+
  have b: "unat ?b = unat (t_mem t) + ?off"
    using lt by (simp only: unat_word_ariths off) simp
  have e: "unat ?e = unat (t_mem t) + ?len"
    using lt by (simp only: unat_word_ariths len) simp
  have "?b \<le> ?e" using b e fit by (simp add: word_le_nat_alt)
  then have "unat (?e - ?b) = unat ?e - unat ?b" by (rule unat_sub)
  also have "\<dots> = ?len - ?off" by (simp only: b e add_diff_cancel_left)
  finally have d: "unat (?e - ?b) = ?len - ?off" .
  have ar: "initial_arena t mem = \<lparr>heap_begin = unat (t_mem t) + ?off, blocks = [mk_block (?len - ?off) False],
      heap_used = 0, heap_peak = 0, bytes = mem\<rparr>"
    by (simp only: initial_arena_def Let_def b d)
  have "16 dvd ?len" "16 dvd ?off" by simp_all
  then have "16 dvd ?len - ?off" by (rule dvd_diff_nat)
  with fit show "arena_ok (initial_arena t mem)"
    by (simp add: ar arena_ok_def block_ok_def used_blocks_def)
  show "used_blocks (initial_arena t mem) = []" by (simp add: ar used_blocks_def)
  show "unat (t_mem t) \<le> heap_begin (initial_arena t mem)" by (simp add: ar)
  show "heap_end (initial_arena t mem) \<le> unat (t_mem t) + unat (t_mem_size t)"
    using fit by (simp add: ar heap_end_def)
qed

lemma phys_in_window:
  assumes "window_ok t" and "unat (t_mem t) \<le> p" and "p < unat (t_mem t) + unat (t_mem_size t)"
  shows "sa_context_phys t (of_nat p) = Inr (t_mem_phys t + ucast (of_nat p - t_mem t))"
proof -
  have p: "unat (of_nat p :: u64) = p"
    using assms by (simp only: unsigned_of_nat) (simp add: take_bit_nat_eq_self window_ok_def)
  have "unat (t_mem t + zext64 (t_mem_size t)) = unat (t_mem t) + unat (t_mem_size t)"
    using assms(1) by (simp add: unat_word_ariths window_ok_def)
  with p assms show ?thesis
    by (simp add: sa_context_phys_def word_less_nat_alt word_le_nat_alt)
qed

lemma area_in_used:
  assumes "area_in p n b" and "b \<in> set (used_blocks a)"
  shows "heap_begin a \<le> p" and "p + 64 * n \<le> heap_end a"
  using assms used_from_in [of "fst b" "snd b" "heap_begin a" "blocks a"]
  by (auto simp: area_in_def used_blocks_def heap_end_def span_def)

text \<open>
  C23. Creating the context over a window that does not wrap and has at least 96 bytes behind
  its private data always returns: either with RESOURCE_EXHAUSTED, or with a context whose two
  list scratches (32 and 8192 descriptors) are 64-byte aligned areas of two different allocated
  blocks of a well-formed arena, inside the window and with the right physical addresses.
\<close>
theorem context_get_correct:
  assumes "window_ok t"
  shows "sa_context_get Sim (Inr (t, dev)) brd mem p = Some (Inl RESOURCE_EXHAUSTED) \<or>
    (\<exists>c. sa_context_get Sim (Inr (t, dev)) brd mem p = Some (Inr c) \<and> context_ok c
       \<and> transport c = t \<and> device c = dev \<and> list_capacity c = 32 \<and> batch_capacity c = 8192 \<and> entries c = []
       \<and> unat (t_mem t) \<le> list_addr c \<and> list_addr c + 64 * 32 \<le> unat (t_mem t) + unat (t_mem_size t)
       \<and> unat (t_mem t) \<le> batch_addr c \<and> batch_addr c + 64 * 8192 \<le> unat (t_mem t) + unat (t_mem_size t))"
proof -
  note init = initial_arena_ok [OF assms, of mem]
  have fits: "64 * 32 + 95 < (2 :: nat) ^ 64" "64 * 8192 + 95 < (2 :: nat) ^ 64" by simp_all
  show ?thesis
  proof (cases rule: alloc_scratch_cases [OF init(1) fits(1), consumes 0])
    case (2 a1 l x m)
    note one = 2
    have u1: "used_blocks a1 = [(x, m)]"
      using one(6) init(4) by (simp add: grown_def)
    have in1: "unat (t_mem t) \<le> l" "l + 64 * 32 \<le> unat (t_mem t) + unat (t_mem_size t)"
      using area_in_used [OF one(5), of a1] u1 one(3,4) init(2,3) by auto
    have lp: "sa_context_phys t (of_nat l) = Inr (t_mem_phys t + ucast (of_nat l - t_mem t))"
      using in1 by (intro phys_in_window [OF assms]) auto
    show ?thesis
    proof (cases rule: alloc_scratch_cases [OF one(2) fits(2), consumes 0])
      case (1 a2)
      then show ?thesis by (simp add: sa_context_get_def open_transport_def one(1) lp)
    next
      case (2 a2 b y k)
      from 2(6) u1 obtain vs ws where "[(x, m)] = vs @ ws" "used_blocks a2 = vs @ (y, k) # ws"
        by (auto simp: grown_def)
      then have u2: "used_blocks a2 = [(y, k), (x, m)] \<or> used_blocks a2 = [(x, m), (y, k)]"
        by (cases vs) simp_all
      then have mem2: "(y, k) \<in> set (used_blocks a2)" by auto
      have in2: "unat (t_mem t) \<le> b" "b + 64 * 8192 \<le> unat (t_mem t) + unat (t_mem_size t)"
        using area_in_used [OF 2(5) mem2] one(3,4) 2(3,4) init(2,3) by linarith+
      have bp: "sa_context_phys t (of_nat b) = Inr (t_mem_phys t + ucast (of_nat b - t_mem t))"
        using in2 by (intro phys_in_window [OF assms]) auto
      from u2 have two: "\<exists>us vs ws b' c'. (used_blocks a2 = us @ b' # vs @ c' # ws \<or> used_blocks a2 = us @ c' # vs @ b' # ws)
        \<and> area_in l 32 b' \<and> area_in b 8192 c'"
        using one(5) 2(5) append_Nil by metis
      obtain c where c: "sa_context_get Sim (Inr (t, dev)) brd mem p = Some (Inr c)"
        "transport c = t" "device c = dev" "arena c = a2" "list_addr c = l" "batch_addr c = b" "entries c = []"
        "list_capacity c = 32" "batch_capacity c = 8192"
        "list_phys c = t_mem_phys t + ucast (of_nat l - t_mem t)"
        "batch_phys c = t_mem_phys t + ucast (of_nat b - t_mem t)"
        by (simp add: sa_context_get_def open_transport_def one(1) 2(1) lp bp)
      have "context_ok c"
        unfolding context_ok_def c using two 2(2) lp bp by blast
      with in1 in2 c show ?thesis by blast
    qed
  qed (simp_all add: sa_context_get_def open_transport_def)
qed

definition small_window :: transport where
  "small_window = \<lparr>t_mem = 0x10000000, t_mem_phys = 0x40000000, t_mem_size = 0x100000, t_heap_offset = 0x1000\<rparr>"

theorem context_get_correct_witness:
  "\<exists>c. sa_context_get Sim (Inr (small_window, ())) (Inl NOT_FOUND) (\<lambda>_. 0) \<lparr>table = Uninitialized, perf_n = 0, dropped = 0\<rparr>
     = Some (Inr c) \<and> context_ok c"
proof -
  have win: "window_ok small_window" by (simp add: window_ok_def small_window_def)
  have "sa_context_get Sim (Inr (small_window, ())) (Inl NOT_FOUND) (\<lambda>_. 0)
      \<lparr>table = Uninitialized, perf_n = 0, dropped = 0\<rparr> \<noteq> Some (Inl RESOURCE_EXHAUSTED)"
    by (simp add: sa_context_get_def open_transport_def alloc_scratch_def sa_arena_alloc_def initial_arena_def
        small_window_def alloc_from.simps(2) need_of_def align64_def sa_context_phys_def)
  with context_get_correct [OF win, of "()" "Inl NOT_FOUND" "\<lambda>_. 0" "\<lparr>table = Uninitialized, perf_n = 0, dropped = 0\<rparr>"]
  show ?thesis by auto
qed

lemma dispatch_rows_length: "length (dispatch_rows x) \<le> (length (regs x) + 2) div 3 + 5"
  by (simp add: dispatch_rows_def length_setregs)

lemma dispatch_rows_shape: "r \<in> set (dispatch_rows x) \<Longrightarrow> length r = 8"
  by (auto simp: dispatch_rows_def setreg_base15_def length_ops length_setreg dest: setregs_rows split: if_splits)

lemma record_list_simps [simp]:
  "device (sa_record_list g m rs c) = device c" "list_phys (sa_record_list g m rs c) = list_phys c"
  "batch_phys (sa_record_list g m rs c) = batch_phys c" "dispatches (sa_record_list g m rs c) = dispatches c"
  "lists (sa_record_list g m rs c) = lists c"
  "recording (sa_record_list g m rs c) = map_option (\<lambda>r. sa_record_add g m r 0 (row_words rs)) (recording c)"
  by (simp_all add: sa_record_list_def)

lemma record_add_dry [simp]: "dry (sa_record_add g m r code ws) = dry r"
  by (simp add: sa_record_add_def Let_def)

lemma record_add_items:
  "g \<or> length (rec_items r) \<noteq> rec_cap r \<Longrightarrow>
     rec_items (sa_record_add g True r code ws) = rec_items r @ [\<lparr>code_phys = code, words = ws\<rparr>]"
  by (auto simp: sa_record_add_def Let_def)

lemma dry_record_list [simp]: "dry_run (sa_record_list g m rs c) = dry_run c"
  by (cases "recording c") (simp_all add: dry_run_def sa_record_list_def)

text \<open>
  C24. Running one dispatch on a context as built (32 descriptors of scratch): more than 24
  register values are refused and nothing is run or recorded; otherwise the list fits in the
  scratch, is made of whole descriptors, is copied to the recorder (when there is memory), and
  is run exactly once on the device and its result returned, unless the recorder is dry, when
  the device is left alone and success with END 0x5A is reported.
\<close>
theorem dispatch_runs_once:
  fixes run :: "'dev transport_run" and g :: bool
  assumes "list_capacity c = 32"
  shows "case sa_context_dispatch run g True c x of (c', st) \<Rightarrow>
    if length (regs x) > 24 then c' = c \<and> st = Inl OUT_OF_RANGE
    else length (dispatch_rows x) \<le> list_capacity c
       \<and> (\<forall>r \<in> set (dispatch_rows x). length r = 8)
       \<and> (device c', st) = (if dry_run c then (device c, Inr (completion_end 0x5A))
                          else run (device c) (list_phys c) (dispatch_rows x))
       \<and> dispatches c' = dispatches c + 1 \<and> lists c' = lists c + 1
       \<and> (\<forall>r. recording c = Some r \<and> (g \<or> length (rec_items r) \<noteq> rec_cap r) \<longrightarrow>
            (\<exists>r'. recording c' = Some r' \<and> rec_items r' =
               rec_items r @ [\<lparr>code_phys = 0, words = row_words (dispatch_rows x)\<rparr>]))"
proof (cases "length (regs x) > 24")
  case True
  then show ?thesis by (simp add: sa_context_dispatch_def)
next
  case False
  then have fits: "(length (regs x) + 3) div 3 + 4 \<le> 32" "length (dispatch_rows x) \<le> 32"
    using dispatch_rows_length [of x] by linarith+
  have rows: "\<forall>r \<in> set (dispatch_rows x). length r = 8"
    using dispatch_rows_shape by blast
  obtain dv st where r: "run (device c) (list_phys c) (dispatch_rows x) = (dv, st)" by fastforce
  show ?thesis
    using False assms fits rows r
    by (simp add: sa_context_dispatch_def Let_def record_add_items)
qed

definition small_context :: "nat sa_context" where
  "small_context = \<lparr>transport = small_window, device = 0, arena = small_arena, list_addr = 0, list_phys = 0,
     list_capacity = 32, batch_addr = 0, batch_phys = 0x9000, batch_capacity = 64, entries_ready = False, entries = [],
     entry_descriptors = 0, batch_fence = False, batch_names = [], dispatches = 0, lists = 0, host_dispatches = 0,
     host_ops = 0, rv_calls = 0, batch_hosted = 0, batch_hoisted = 0, batch_barriers = 0, batch_fences = 0,
     recording = None, prof = small_profile\<rparr>"

theorem dispatch_runs_once_witness:
  "device (fst (sa_context_dispatch (\<lambda>d p rs. (d + length rs, Inr (completion_end 0x5A))) True True small_context
     small_dispatch)) = 6"
  using dispatch_runs_once [of small_context small_dispatch "\<lambda>d p rs. (d + length rs, Inr (completion_end 0x5A))" True]
  by (simp add: small_context_def small_dispatch_def dry_run_def dispatch_rows_def length_setregs split_beta)

end
