(* ===== verification/Batch.thy ===== *)
theory Batch
  imports SaContext RangeSet
begin

text \<open>
  Batches (\<^verbatim>\<open>sa_context_batch_*\<close> of \<^verbatim>\<open>compiler/runtime/sa/sa_context.c\<close>): the dispatches of a command
  buffer recorded as entries, and the one descriptor list built from them: where each prefix
  runs, where a FENCE is needed, and the SETREGs and CALLs of every dispatch. The list is built
  here as commands, one per descriptor, that name the dispatch they belong to; \<open>cmd_row\<close> is the
  descriptor of a command.
\<close>

section \<open>Commands\<close>

datatype part = Prefix | Head | Body

datatype cmd =
    Setreg "(u32 \<times> u32) list"   \<comment> \<open>up to three register values of a dispatch\<close>
  | Base15 nat                   \<comment> \<open>BASE15 for the prefix of an entry\<close>
  | Call part nat                \<comment> \<open>an entry point of an entry\<close>
  | Fence u64                    \<comment> \<open>bit 0 LD, bit 1 ST\<close>
  | End

fun cmd_row :: "entry list \<Rightarrow> cmd \<Rightarrow> row" where
  "cmd_row es (Setreg ps) = sa_desc_setreg ps"
| "cmd_row es (Base15 k) = sa_desc_setreg [(15, prefix_base (e_d (es ! k)))]"
| "cmd_row es (Call Prefix k) = call_row (prefix_phys (e_d (es ! k)))"
| "cmd_row es (Call Head k) = call_row (head_phys (e_d (es ! k)))"
| "cmd_row es (Call Body k) = call_row (body_phys (e_d (es ! k)))"
| "cmd_row es (Fence m) = fence_row m"
| "cmd_row es End = end_row"

fun setreg_cmds :: "(u32 \<times> u32) list \<Rightarrow> cmd list" where
  "setreg_cmds [] = []"
| "setreg_cmds (p # ps) = Setreg (take 3 (p # ps)) # setreg_cmds (drop 2 ps)"

section \<open>Hosts of the prefixes\<close>

text \<open>
  The inner loop over \<open>j = k - 1, .., 0\<close> of \<^verbatim>\<open>sa_batch_build\<close>: the earliest dispatch with a free
  head after the last one touching SPAD_B.
\<close>
fun host_scan :: "entry list \<Rightarrow> nat \<Rightarrow> nat option \<Rightarrow> nat option" where
  "host_scan es 0 best = best"
| "host_scan es (Suc j) best =
     (if spad_b (e_d (es ! j)) then best
      else host_scan es j (if head_phys (e_d (es ! j)) \<noteq> 0 \<and> host (es ! j) = None then Some j else best))"

definition written_all :: "entry list \<Rightarrow> range_set" where
  "written_all es = fold (\<lambda>e s. sa_set_add s (writes (e_d e))) es sa_set_clear"

definition host_step :: "range_set \<Rightarrow> nat \<Rightarrow> entry list \<Rightarrow> entry list" where
  "host_step w k es =
     (if prefix_phys (e_d (es ! k)) = 0 \<or> sa_set_overlaps w (prefix_reads (e_d (es ! k))) then es
      else case host_scan es k None of
             None \<Rightarrow> es
           | Some b \<Rightarrow> es[b := (es ! b)\<lparr>host := Some k\<rparr>, k := (es ! k)\<lparr>hosted := True\<rparr>])"

definition assign_hosts :: "entry list \<Rightarrow> entry list" where
  "assign_hosts es = fold (host_step (written_all es)) [0..<length es] es"

section \<open>The list\<close>

record build_state =
  cmds :: "cmd list"
  b_reads :: range_set
  b_writes :: range_set
  names :: "(nat \<times> string) list"
  n_barriers :: u64
  n_hoisted :: u64
  n_fences :: u64
  n_hosted :: u64

definition initial_build :: build_state where
  "initial_build = \<lparr>cmds = [], b_reads = sa_set_clear, b_writes = sa_set_clear, names = [],
     n_barriers = 0, n_hoisted = 0, n_fences = 0, n_hosted = 0\<rparr>"

definition push :: "cmd list \<Rightarrow> build_state \<Rightarrow> build_state" where
  "push xs s = s\<lparr>cmds := cmds s @ xs\<rparr>"

definition prefix_cmds :: "nat \<Rightarrow> cmd list" where
  "prefix_cmds k = [Base15 k, Call Prefix k]"

text \<open>The FENCE engines an entry needs: bit 1 (ST) for its reads and writes, bit 0 (LD) for its writes.\<close>
definition fence_mask :: "build_state \<Rightarrow> dispatch \<Rightarrow> u64" where
  "fence_mask s x =
     (if sa_set_overlaps (b_writes s) (reads x) \<or> sa_set_overlaps (b_writes s) (writes x) then 2 else 0)
     OR (if sa_set_overlaps (b_reads s) (writes x) then 1 else 0)"

text \<open>The barrier before entry \<open>i\<close>: whether its prefix runs early, and the list with its FENCE.\<close>
definition emit_barrier :: "entry list \<Rightarrow> nat \<Rightarrow> build_state \<Rightarrow> bool \<times> build_state" where
  "emit_barrier es i s0 =
     (let x = e_d (es ! i); s = s0\<lparr>n_barriers := n_barriers s0 + 1\<rparr>; mask = fence_mask s x;
          early = (mask \<noteq> 0 \<and> prefix_phys x \<noteq> 0 \<and> \<not> hosted (es ! i)
                   \<and> \<not> sa_set_overlaps (b_writes s) (prefix_reads x));
          s1 = (if early then (push (prefix_cmds i) s)\<lparr>b_reads := sa_set_add (b_reads s) (prefix_reads x),
                                                       n_hoisted := n_hoisted s + 1\<rparr> else s);
          s2 = (if mask \<noteq> 0 then
                  (push [Fence mask] s1)\<lparr>n_fences := n_fences s1 + 1,
                     b_writes := (if bit mask 1 then sa_set_clear else b_writes s1),
                     b_reads := (if bit mask 0 then sa_set_clear else b_reads s1)\<rparr>
                else s1)
      in (early, s2))"

text \<open>The commands of entry \<open>i\<close> after its barrier.\<close>
definition entry_cmds :: "entry list \<Rightarrow> nat \<Rightarrow> bool \<Rightarrow> cmd list" where
  "entry_cmds es i early =
     (let x = e_d (es ! i) in
      setreg_cmds (regs x)
      @ (if prefix_phys x \<noteq> 0 \<and> \<not> hosted (es ! i) \<and> \<not> early then prefix_cmds i else [])
      @ (if head_phys x \<noteq> 0 then
           Call Head i # (case host (es ! i) of None \<Rightarrow> [] | Some k \<Rightarrow> prefix_cmds k)
         else [])
      @ [Call Body i])"

definition emit_entry :: "entry list \<Rightarrow> nat \<Rightarrow> build_state \<Rightarrow> build_state" where
  "emit_entry es i s =
     (let (early, s1) = (if barrier (es ! i) \<and> i > 0 then emit_barrier es i s else (False, s));
          x = e_d (es ! i);
          s2 = (if i < 1024 then s1\<lparr>names := names s1 @ [(length (cmds s1), dname x)]\<rparr> else s1);
          s3 = push (entry_cmds es i early) s2;
          s4 = (case (if head_phys x \<noteq> 0 then host (es ! i) else None) of
                  None \<Rightarrow> s3
                | Some k \<Rightarrow> s3\<lparr>b_reads := sa_set_add (b_reads s3) (prefix_reads (e_d (es ! k))),
                               n_hosted := n_hosted s3 + 1\<rparr>)
      in s4\<lparr>b_reads := sa_set_add (b_reads s4) (reads x), b_writes := sa_set_add (b_writes s4) (writes x)\<rparr>)"

text \<open>\<^verbatim>\<open>sa_batch_build\<close>: the entries with their hosts and the finished list.\<close>
definition sa_batch_build :: "entry list \<Rightarrow> entry list \<times> build_state" where
  "sa_batch_build es =
     (let hs = assign_hosts es
      in (hs, push [End] (fold (emit_entry hs) [0..<length hs] initial_build)))"

section \<open>Add, barrier, flush\<close>

definition sa_entry_descriptors :: "dispatch \<Rightarrow> nat" where
  "sa_entry_descriptors x = (length (regs x) + 3) div 3 + 1 + 3 + 2"

definition entry_capacity :: nat where
  "entry_capacity = 1024"

definition batch_rows :: "entry list \<Rightarrow> row list" where
  "batch_rows es = (case sa_batch_build es of (hs, s) \<Rightarrow> map (cmd_row hs) (cmds s))"

text \<open>How a finished list ended: its completion status decides the status of the flush.\<close>
definition flush_status :: "status + completion \<Rightarrow> status + completion" where
  "flush_status r =
     (case r of
        Inl e \<Rightarrow> Inl e
      | Inr d \<Rightarrow> if c_status d \<noteq> 0 then Inl INTERNAL else if c_end d \<noteq> 0x5A then Inl INTERNAL else Inr d)"

text \<open>
  \<^verbatim>\<open>sa_context_batch_flush\<close>; \<open>env\<close> is whether profiling is on, \<open>host_ns\<close> the measured time, \<open>g\<close>
  and \<open>m\<close> the recorder's allocations.
\<close>
definition sa_context_batch_flush ::
  "'dev transport_run \<Rightarrow> bool \<Rightarrow> bool \<Rightarrow> bool \<Rightarrow> u64 \<Rightarrow> 'dev sa_context \<Rightarrow> 'dev sa_context \<times> (status + unit)" where
  "sa_context_batch_flush run env g m host_ns c =
     (if entries c = [] then (c\<lparr>batch_fence := False\<rparr>, Inr ())
      else
        let (hs, s) = sa_batch_build (entries c);
            rs = map (cmd_row hs) (cmds s);
            c1 = sa_record_list g m rs c;
            (dev, r) = (if dry_run c1 then (device c1, Inr (completion_end 0x5A))
                        else run (device c1) (batch_phys c1) rs);
            c2 = c1\<lparr>device := dev, lists := lists c1 + 1, entries := [], entry_descriptors := 0,
                    batch_fence := False, batch_names := names s,
                    batch_barriers := batch_barriers c1 + n_barriers s, batch_hoisted := batch_hoisted c1 + n_hoisted s,
                    batch_fences := batch_fences c1 + n_fences s, batch_hosted := batch_hosted c1 + n_hosted s\<rparr>
        in case flush_status r of
             Inl e \<Rightarrow> (c2, Inl e)
           | Inr d \<Rightarrow> (c2\<lparr>prof := sa_context_profile_record env (prof c2) ''(list of dispatches)'' (c_cycles d) host_ns (Some d)\<rparr>,
                       Inr ()))"

text \<open>
  \<^verbatim>\<open>sa_context_batch_add\<close>; \<open>calloc_ok\<close> is whether the first call gets its entry table.
\<close>
definition sa_context_batch_add ::
  "'dev transport_run \<Rightarrow> bool \<Rightarrow> bool \<Rightarrow> bool \<Rightarrow> u64 \<Rightarrow> bool \<Rightarrow> 'dev sa_context \<Rightarrow> dispatch \<Rightarrow> 'dev sa_context \<times> (status + unit)" where
  "sa_context_batch_add run env g m host_ns calloc_ok c x =
     (if length (regs x) > 24 \<or> length (reads x) > 16 \<or> length (writes x) > 16 \<or> length (prefix_reads x) > 16
      then (c, Inl OUT_OF_RANGE)
      else if \<not> entries_ready c \<and> \<not> calloc_ok then (c, Inl RESOURCE_EXHAUSTED)
      else
        let c1 = c\<lparr>entries_ready := True\<rparr>; need = sa_entry_descriptors x;
            (c2, r) = (if length (entries c1) = entry_capacity \<or> entry_descriptors c1 + need + 1 > batch_capacity c1
                       then sa_context_batch_flush run env g m host_ns c1 else (c1, Inr ()))
        in case r of
             Inl e \<Rightarrow> (c2, Inl e)
           | Inr _ \<Rightarrow>
               (c2\<lparr>entries := entries c2 @ [\<lparr>e_d = x, barrier = batch_fence c2, host = None, hosted = False\<rparr>],
                   batch_fence := False, entry_descriptors := entry_descriptors c2 + need,
                   dispatches := dispatches c2 + 1\<rparr>, Inr ()))"

definition sa_context_batch_barrier :: "'dev sa_context \<Rightarrow> 'dev sa_context" where
  "sa_context_batch_barrier c = c\<lparr>batch_fence := True\<rparr>"

section \<open>Where the prefixes run\<close>

text \<open>Entries as they are recorded: no host assigned yet.\<close>
definition fresh :: "entry list \<Rightarrow> bool" where
  "fresh es \<longleftrightarrow> (\<forall>e \<in> set es. host e = None \<and> \<not> hosted e)"

text \<open>
  What the hosting loop maintains, for the entries below \<open>k\<close>: a hosted prefix runs inside
  exactly one earlier dispatch, that has a head and touches, like those between, no SPAD_B, and
  no dispatch of the batch writes what it reads.
\<close>
definition hosts_ok :: "entry list \<Rightarrow> nat \<Rightarrow> entry list \<Rightarrow> bool" where
  "hosts_ok es k hs \<longleftrightarrow> length hs = length es
     \<and> (\<forall>i < length es. e_d (hs ! i) = e_d (es ! i) \<and> barrier (hs ! i) = barrier (es ! i))
     \<and> (\<forall>b < length es. \<forall>q. host (hs ! b) = Some q \<longrightarrow>
          b < q \<and> q < k \<and> head_phys (e_d (es ! b)) \<noteq> 0 \<and> prefix_phys (e_d (es ! q)) \<noteq> 0 \<and> hosted (hs ! q)
          \<and> \<not> sa_set_overlaps (written_all es) (prefix_reads (e_d (es ! q)))
          \<and> (\<forall>j. b \<le> j \<and> j < q \<longrightarrow> \<not> spad_b (e_d (es ! j))))
     \<and> (\<forall>b < length es. \<forall>b' < length es. host (hs ! b) = host (hs ! b') \<and> host (hs ! b) \<noteq> None \<longrightarrow> b = b')
     \<and> (\<forall>q < length es. hosted (hs ! q) \<longrightarrow> q < k \<and> (\<exists>b < length es. host (hs ! b) = Some q))"

lemma host_scan_Some:
  assumes "host_scan es j best = Some b" and "\<forall>i. j \<le> i \<and> i < k \<longrightarrow> \<not> spad_b (e_d (es ! i))" and "j \<le> k"
    and "\<forall>c. best = Some c \<longrightarrow> c < k \<and> head_phys (e_d (es ! c)) \<noteq> 0 \<and> host (es ! c) = None
          \<and> (\<forall>i. c \<le> i \<and> i < k \<longrightarrow> \<not> spad_b (e_d (es ! i)))"
  shows "b < k \<and> head_phys (e_d (es ! b)) \<noteq> 0 \<and> host (es ! b) = None
          \<and> (\<forall>i. b \<le> i \<and> i < k \<longrightarrow> \<not> spad_b (e_d (es ! i)))"
  using assms
proof (induction es j best rule: host_scan.induct)
  case (1 es best)
  then show ?case by simp
next
  case (2 es j best)
  show ?case
  proof (cases "spad_b (e_d (es ! j))")
    case True
    with 2(2) have "best = Some b" by (simp del: split_paired_All)
    with 2(5) show ?thesis by blast
  next
    case False
    have rest: "\<forall>i. j \<le> i \<and> i < k \<longrightarrow> \<not> spad_b (e_d (es ! i))"
    proof (intro allI impI)
      fix i assume "j \<le> i \<and> i < k"
      with False 2(3) show "\<not> spad_b (e_d (es ! i))" by (cases "i = j") simp_all
    qed
    show ?thesis
    proof (rule 2(1) [OF False])
      show "host_scan es j (if head_phys (e_d (es ! j)) \<noteq> 0 \<and> host (es ! j) = None then Some j else best) = Some b"
        using 2(2) False by simp
      show "\<forall>i. j \<le> i \<and> i < k \<longrightarrow> \<not> spad_b (e_d (es ! i))" by (rule rest)
      show "j \<le> k" using 2(4) by simp
      show "\<forall>c. (if head_phys (e_d (es ! j)) \<noteq> 0 \<and> host (es ! j) = None then Some j else best) = Some c \<longrightarrow>
          c < k \<and> head_phys (e_d (es ! c)) \<noteq> 0 \<and> host (es ! c) = None
          \<and> (\<forall>i. c \<le> i \<and> i < k \<longrightarrow> \<not> spad_b (e_d (es ! i)))"
        using 2(4,5) rest by auto
    qed
  qed
qed

lemma hosts_ok_Suc: "hosts_ok es k hs \<Longrightarrow> hosts_ok es (Suc k) hs"
  unfolding hosts_ok_def
  by (elim conjE, intro conjI) (assumption | blast intro: less_SucI)+

lemma host_step_ok:
  assumes "hosts_ok es k hs" and "k < length es"
  shows "hosts_ok es (Suc k) (host_step (written_all es) k hs)"
proof (cases "prefix_phys (e_d (hs ! k)) = 0 \<or> sa_set_overlaps (written_all es) (prefix_reads (e_d (hs ! k)))
    \<or> host_scan hs k None = None")
  case True
  then have "host_step (written_all es) k hs = hs" by (auto simp: host_step_def)
  with hosts_ok_Suc [OF assms(1)] show ?thesis by simp
next
  case False
  then obtain b where sc: "host_scan hs k None = Some b" by auto
  have none: "\<forall>i. k \<le> i \<and> i < k \<longrightarrow> \<not> spad_b (e_d (hs ! i))" by auto
  have b: "b < k" "head_phys (e_d (hs ! b)) \<noteq> 0" "host (hs ! b) = None"
    "\<forall>i. b \<le> i \<and> i < k \<longrightarrow> \<not> spad_b (e_d (hs ! i))"
    using host_scan_Some [OF sc none] by simp_all
  let ?hs = "hs[b := (hs ! b)\<lparr>host := Some k\<rparr>, k := (hs ! k)\<lparr>hosted := True\<rparr>]"
  have st: "host_step (written_all es) k hs = ?hs" using False sc by (simp add: host_step_def)
  have len: "length hs = length es" using assms(1) by (simp add: hosts_ok_def)
  have d: "e_d (?hs ! i) = e_d (hs ! i)" "barrier (?hs ! i) = barrier (hs ! i)"
    "host (?hs ! i) = (if i = b then Some k else host (hs ! i))"
    "hosted (?hs ! i) = (i = k \<or> hosted (hs ! i))" if "i < length es" for i
    using that b(1) assms(2) len by (auto simp: nth_list_update)
  have old: "q < k" if "host (hs ! i) = Some q" "i < length es" for i q
    using assms(1) that unfolding hosts_ok_def by blast
  have dd: "e_d (hs ! i) = e_d (es ! i)" "barrier (hs ! i) = barrier (es ! i)" if "i < length es" for i
    using assms(1) that unfolding hosts_ok_def by blast+
  have bl: "b < length es" using b(1) assms(2) by simp
  have A: "\<forall>i < length es. \<forall>q. host (?hs ! i) = Some q \<longrightarrow>
          i < q \<and> q < Suc k \<and> head_phys (e_d (es ! i)) \<noteq> 0 \<and> prefix_phys (e_d (es ! q)) \<noteq> 0 \<and> hosted (?hs ! q)
          \<and> \<not> sa_set_overlaps (written_all es) (prefix_reads (e_d (es ! q)))
          \<and> (\<forall>j. i \<le> j \<and> j < q \<longrightarrow> \<not> spad_b (e_d (es ! j)))"
  proof (intro allI impI)
    fix i q assume i: "i < length es" and h: "host (?hs ! i) = Some q"
    show "i < q \<and> q < Suc k \<and> head_phys (e_d (es ! i)) \<noteq> 0 \<and> prefix_phys (e_d (es ! q)) \<noteq> 0 \<and> hosted (?hs ! q)
          \<and> \<not> sa_set_overlaps (written_all es) (prefix_reads (e_d (es ! q)))
          \<and> (\<forall>j. i \<le> j \<and> j < q \<longrightarrow> \<not> spad_b (e_d (es ! j)))"
    proof (cases "i = b")
      case True
      with h d(3) [OF i] have q: "q = k" by simp
      have "\<not> spad_b (e_d (es ! j))" if "b \<le> j" "j < k" for j
        using b(4) that dd(1) [of j] assms(2) by auto
      with True q b False dd(1) [OF bl] dd(1) [OF assms(2)] d(4) [OF assms(2)] show ?thesis by auto
    next
      case False
      with h d(3) [OF i] have hi: "host (hs ! i) = Some q" by simp
      from old [OF this i] assms(2) have ql: "q < length es" by simp
      from assms(1) i hi d(4) [OF ql] show ?thesis unfolding hosts_ok_def by (auto simp: less_SucI)
    qed
  qed
  have B: "\<forall>i < length es. \<forall>j < length es. host (?hs ! i) = host (?hs ! j) \<and> host (?hs ! i) \<noteq> None \<longrightarrow> i = j"
  proof (intro allI impI)
    fix i j assume ij: "i < length es" "j < length es" and e: "host (?hs ! i) = host (?hs ! j) \<and> host (?hs ! i) \<noteq> None"
    from assms(1) ij have "host (hs ! i) = host (hs ! j) \<and> host (hs ! i) \<noteq> None \<longrightarrow> i = j"
      unfolding hosts_ok_def by blast
    moreover have "host (hs ! i) \<noteq> Some k" "host (hs ! j) \<noteq> Some k" using old ij by blast+
    ultimately show "i = j" using e d(3) [OF ij(1)] d(3) [OF ij(2)] by (auto split: if_splits)
  qed
  have C: "\<forall>q < length es. hosted (?hs ! q) \<longrightarrow> q < Suc k \<and> (\<exists>i < length es. host (?hs ! i) = Some q)"
  proof (intro allI impI)
    fix q assume q: "q < length es" and h: "hosted (?hs ! q)"
    show "q < Suc k \<and> (\<exists>i < length es. host (?hs ! i) = Some q)"
    proof (cases "q = k")
      case True
      with bl d(3) [OF bl] show ?thesis by auto
    next
      case False
      with h d(4) [OF q] assms(1) q obtain i where "q < k" "i < length es" "host (hs ! i) = Some q"
        unfolding hosts_ok_def by blast
      moreover from this b(3) have "i \<noteq> b" by auto
      ultimately show ?thesis using d(3) [of i] by auto
    qed
  qed
  have D: "\<forall>i < length es. e_d (?hs ! i) = e_d (es ! i) \<and> barrier (?hs ! i) = barrier (es ! i)"
    using d(1,2) dd by metis
  have "length ?hs = length es" by (simp add: len)
  with A B C D show ?thesis
    unfolding st hosts_ok_def by (intro conjI)
qed

lemma assign_hosts_ok:
  assumes "fresh es"
  shows "hosts_ok es (length es) (assign_hosts es)"
  unfolding assign_hosts_def
proof (rule fold_upt_invariant [where P = "hosts_ok es"])
  from assms show "hosts_ok es 0 es" by (simp add: hosts_ok_def fresh_def)
next
  show "hosts_ok es i hs \<Longrightarrow> hosts_ok es (Suc i) (host_step (written_all es) i hs)" if "i < length es" for i hs
    by (rule host_step_ok) (use that in simp_all)
qed

section \<open>Hazards\<close>

text \<open>The DDR a command loads from and stores to, and the dispatch it belongs to.\<close>
fun loads :: "entry list \<Rightarrow> cmd \<Rightarrow> range set" where
  "loads es (Call Prefix k) = set (prefix_reads (e_d (es ! k)))"
| "loads es (Call Head k) = set (reads (e_d (es ! k)))"
| "loads es (Call Body k) = set (reads (e_d (es ! k)))"
| "loads es _ = {}"

fun stores :: "entry list \<Rightarrow> cmd \<Rightarrow> range set" where
  "stores es (Call Body k) = set (writes (e_d (es ! k)))"
| "stores es _ = {}"

fun owner :: "cmd \<Rightarrow> nat option" where
  "owner (Call p k) = Some k"
| "owner _ = None"

fun ld_fence :: "cmd \<Rightarrow> bool" where
  "ld_fence (Fence m) = bit m 0"
| "ld_fence _ = False"

fun st_fence :: "cmd \<Rightarrow> bool" where
  "st_fence (Fence m) = bit m 1"
| "st_fence _ = False"

definition conflict :: "range set \<Rightarrow> range set \<Rightarrow> bool" where
  "conflict A B \<longleftrightarrow> (\<exists>a \<in> A. \<exists>b \<in> B. range_overlaps a b)"

lemma conflict_empty [simp]: "\<not> conflict {} B" "\<not> conflict A {}"
  by (simp_all add: conflict_def)

lemma conflict_mono: "conflict A B \<Longrightarrow> A \<subseteq> A' \<Longrightarrow> B \<subseteq> B' \<Longrightarrow> conflict A' B'"
  by (auto simp: conflict_def)

lemma conflict_Un: "conflict A (B \<union> C) \<longleftrightarrow> conflict A B \<or> conflict A C"
  by (auto simp: conflict_def)

lemma untracked_conflict: "set_tracks s R \<Longrightarrow> \<not> sa_set_overlaps s rs \<Longrightarrow> A \<subseteq> R \<Longrightarrow> \<not> conflict A (set rs)"
  using rset.overlaps_sound by (fastforce simp: conflict_def)

text \<open>
  Stores, or loads, that may still run when a command is fetched: those of the other dispatches
  since the last FENCE that waits for the engine.
\<close>
definition stores_clear :: "entry list \<Rightarrow> cmd list \<Rightarrow> nat \<Rightarrow> range set \<Rightarrow> bool" where
  "stores_clear es pre i A \<longleftrightarrow>
     (\<forall>d \<in> set (since st_fence pre). owner d \<noteq> Some i \<longrightarrow> \<not> conflict (stores es d) A)"

definition loads_clear :: "entry list \<Rightarrow> cmd list \<Rightarrow> nat \<Rightarrow> range set \<Rightarrow> bool" where
  "loads_clear es pre i A \<longleftrightarrow>
     (\<forall>d \<in> set (since ld_fence pre). owner d \<noteq> Some i \<longrightarrow> \<not> conflict (loads es d) A)"

text \<open>
  A command fetched after \<open>pre\<close> is safe: a dispatch after a barrier, and any prefix that runs
  inside another dispatch or after a barrier, meets no conflicting access that may still run.
\<close>
fun fenced_ok :: "entry list \<Rightarrow> cmd list \<Rightarrow> cmd \<Rightarrow> bool" where
  "fenced_ok es pre (Call Body i) =
     (barrier (es ! i) \<longrightarrow> stores_clear es pre i (set (reads (e_d (es ! i))) \<union> set (writes (e_d (es ! i))))
        \<and> loads_clear es pre i (set (writes (e_d (es ! i)))))"
| "fenced_ok es pre (Call Head i) =
     (barrier (es ! i) \<longrightarrow> stores_clear es pre i (set (reads (e_d (es ! i)))))"
| "fenced_ok es pre (Call Prefix i) =
     (barrier (es ! i) \<or> hosted (es ! i) \<longrightarrow> stores_clear es pre i (set (prefix_reads (e_d (es ! i)))))"
| "fenced_ok es pre _ = True"

definition checked :: "('a list \<Rightarrow> 'a \<Rightarrow> bool) \<Rightarrow> 'a list \<Rightarrow> bool" where
  "checked ok xs \<longleftrightarrow> (\<forall>pre c post. xs = pre @ c # post \<longrightarrow> ok pre c)"

lemma checked_Nil [simp]: "checked ok []"
  by (simp add: checked_def)

lemma checked_append:
  "checked ok (xs @ ys) \<longleftrightarrow> checked ok xs \<and> (\<forall>pre c post. ys = pre @ c # post \<longrightarrow> ok (xs @ pre) c)"
proof
  assume "checked ok (xs @ ys)"
  then show "checked ok xs \<and> (\<forall>pre c post. ys = pre @ c # post \<longrightarrow> ok (xs @ pre) c)"
    unfolding checked_def by (metis append.assoc append_Cons)
next
  assume r: "checked ok xs \<and> (\<forall>pre c post. ys = pre @ c # post \<longrightarrow> ok (xs @ pre) c)"
  show "checked ok (xs @ ys)"
    unfolding checked_def
  proof (intro allI impI)
    fix pre c post assume "xs @ ys = pre @ c # post"
    then consider us where "xs = pre @ us" "us @ ys = c # post" | us where "pre = xs @ us" "ys = us @ c # post"
      by (auto simp: append_eq_append_conv2)
    then show "ok pre c"
    proof cases
      case 1
      show ?thesis
      proof (cases us)
        case Nil
        with 1 have "pre = xs" "ys = [] @ c # post" by simp_all
        with r show ?thesis by (metis append_Nil2)
      next
        case (Cons a as)
        with 1 r show ?thesis by (auto simp: checked_def)
      qed
    next
      case 2
      with r show ?thesis by simp
    qed
  qed
qed

lemma set_since_append:
  "\<forall>y \<in> set ys. \<not> P y \<Longrightarrow> set (since P (xs @ ys)) = set ys \<union> set (since P xs)"
  by (subst since_append) (auto simp: since_none)

lemma clear_append:
  "\<forall>y \<in> set ys. \<not> st_fence y \<Longrightarrow> stores_clear es (xs @ ys) i A \<longleftrightarrow>
     stores_clear es xs i A \<and> (\<forall>d \<in> set ys. owner d \<noteq> Some i \<longrightarrow> \<not> conflict (stores es d) A)"
  "\<forall>y \<in> set ys. \<not> ld_fence y \<Longrightarrow> loads_clear es (xs @ ys) i A \<longleftrightarrow>
     loads_clear es xs i A \<and> (\<forall>d \<in> set ys. owner d \<noteq> Some i \<longrightarrow> \<not> conflict (loads es d) A)"
  by (auto simp: stores_clear_def loads_clear_def set_since_append)

lemma stores_clear_mono: "stores_clear es pre i B \<Longrightarrow> A \<subseteq> B \<Longrightarrow> stores_clear es pre i A"
  unfolding stores_clear_def using conflict_mono by blast

lemma clear_after_fence [simp]:
  "bit m 1 \<Longrightarrow> stores_clear es (xs @ [Fence m]) i A"
  "bit m 0 \<Longrightarrow> loads_clear es (xs @ [Fence m]) i A"
  by (simp_all add: stores_clear_def loads_clear_def)

section \<open>What the builder tracks\<close>

definition tracked :: "entry list \<Rightarrow> build_state \<Rightarrow> bool" where
  "tracked es s \<longleftrightarrow> set_tracks (b_reads s) (\<Union>d \<in> set (since ld_fence (cmds s)). loads es d)
     \<and> set_tracks (b_writes s) (\<Union>d \<in> set (since st_fence (cmds s)). stores es d)"

definition owners_below :: "nat \<Rightarrow> cmd list \<Rightarrow> bool" where
  "owners_below n xs \<longleftrightarrow> (\<forall>d \<in> set xs. \<forall>k. owner d = Some k \<longrightarrow> k < n)"

definition build_inv :: "entry list \<Rightarrow> nat \<Rightarrow> build_state \<Rightarrow> bool" where
  "build_inv es i s \<longleftrightarrow> checked (fenced_ok es) (cmds s) \<and> tracked es s
     \<and> owners_below (length es) (cmds s) \<and> (i = 0 \<longrightarrow> cmds s = [])"

text \<open>The barrier did its work: entry \<open>i\<close> meets nothing it conflicts with.\<close>
definition entry_clear :: "entry list \<Rightarrow> nat \<Rightarrow> cmd list \<Rightarrow> bool" where
  "entry_clear es i xs \<longleftrightarrow>
     stores_clear es xs i (set (reads (e_d (es ! i))) \<union> set (writes (e_d (es ! i))))
     \<and> loads_clear es xs i (set (writes (e_d (es ! i))))"

lemma owners_below_append [simp]: "owners_below n (xs @ ys) \<longleftrightarrow> owners_below n xs \<and> owners_below n ys"
  by (auto simp: owners_below_def)

lemma push_simps [simp]:
  "cmds (push xs s) = cmds s @ xs" "b_reads (push xs s) = b_reads s" "b_writes (push xs s) = b_writes s"
  "names (push xs s) = names s"
  by (simp_all add: push_def)

lemma mask_bits:
  "bit (fence_mask s x) 1 \<longleftrightarrow> sa_set_overlaps (b_writes s) (reads x) \<or> sa_set_overlaps (b_writes s) (writes x)"
  "bit (fence_mask s x) 0 \<longleftrightarrow> sa_set_overlaps (b_reads s) (writes x)"
  "fence_mask s x = 0 \<longleftrightarrow> \<not> bit (fence_mask s x) 1 \<and> \<not> bit (fence_mask s x) 0"
proof -
  have two: "bit (2 :: u64) 1" "\<not> bit (2 :: u64) 0" "bit (1 :: u64) 0" "\<not> bit (1 :: u64) 1"
    by (simp_all add: bit_1_iff bit_0)
  then show a: "bit (fence_mask s x) 1 \<longleftrightarrow> sa_set_overlaps (b_writes s) (reads x) \<or> sa_set_overlaps (b_writes s) (writes x)"
    and b: "bit (fence_mask s x) 0 \<longleftrightarrow> sa_set_overlaps (b_reads s) (writes x)"
    by (simp_all add: fence_mask_def bit_or_iff)
  show "fence_mask s x = 0 \<longleftrightarrow> \<not> bit (fence_mask s x) 1 \<and> \<not> bit (fence_mask s x) 0"
    unfolding a b by (auto simp: fence_mask_def)
qed

lemma tracked_push:
  assumes "tracked es s" and "\<forall>y \<in> set xs. \<not> ld_fence y \<and> \<not> st_fence y \<and> loads es y = {} \<and> stores es y = {}"
  shows "tracked es (push xs s)"
  using assms by (simp add: tracked_def set_since_append)

lemma prefix_cmds_props [simp]:
  "set (prefix_cmds k) = {Base15 k, Call Prefix k}"
  by (auto simp: prefix_cmds_def)

lemma setreg_cmds_props: "c \<in> set (setreg_cmds ps) \<Longrightarrow> \<exists>qs. c = Setreg qs"
  by (induction ps rule: setreg_cmds.induct) auto

lemma list_split2: "[a, b] = pre @ c # post \<Longrightarrow> pre = [] \<and> c = a \<and> post = [b] \<or> pre = [a] \<and> c = b \<and> post = []"
  by (cases pre; cases "tl pre") auto

text \<open>
  The barrier stage keeps what is tracked and checked, and leaves the entry clear; the early
  prefix meets no store that may still run.
\<close>
lemma emit_barrier_props:
  assumes inv: "build_inv es i s" and i: "i < length es" and eb: "emit_barrier es i s = (early, s')"
  shows "checked (fenced_ok es) (cmds s')" "tracked es s'" "owners_below (length es) (cmds s')"
    "entry_clear es i (cmds s')"
proof -
  let ?x = "e_d (es ! i)" and ?mask = "fence_mask s (e_d (es ! i))"
  have fm: "fence_mask (s\<lparr>n_barriers := n\<rparr>) y = fence_mask s y" for n y
    by (simp add: fence_mask_def)
  note eb' = eb [unfolded emit_barrier_def Let_def, simplified, unfolded fm]
  have tr: "tracked es s" and ch: "checked (fenced_ok es) (cmds s)" and ob: "owners_below (length es) (cmds s)"
    using inv by (simp_all add: build_inv_def)
  define new where "new = (if early then prefix_cmds i else [])"
  have early: "early \<longleftrightarrow> ?mask \<noteq> 0 \<and> prefix_phys ?x \<noteq> 0 \<and> \<not> hosted (es ! i) \<and> \<not> sa_set_overlaps (b_writes s) (prefix_reads ?x)"
    using eb' by auto
  have cm: "cmds s' = (cmds s @ new) @ (if ?mask \<noteq> 0 then [Fence ?mask] else [])"
    using eb' early by (auto simp: new_def)
  have bw: "b_writes s' = (if bit ?mask 1 then sa_set_clear else b_writes s)"
    using eb' by (auto split: if_splits)
  have br: "b_reads s' = (if bit ?mask 0 then sa_set_clear
      else if early then sa_set_add (b_reads s) (prefix_reads ?x) else b_reads s)"
    using eb' by (auto split: if_splits)
  have nf: "\<forall>y \<in> set new. \<not> ld_fence y" "\<forall>y \<in> set new. \<not> st_fence y"
    by (auto simp: new_def)
  have st_new: "\<forall>y \<in> set new. stores es y = {}" "\<forall>y \<in> set new. owner y = Some i \<or> loads es y = {}"
    by (auto simp: new_def)
  have ldF: "set (since ld_fence (cmds s')) = set (since ld_fence (cmds s @ new)) \<union> (if ?mask \<noteq> 0 then {Fence ?mask} else {})"
    if "\<not> bit ?mask 0"
    using that by (cases "?mask = 0") (simp_all add: cm append_assoc [symmetric] del: append_assoc)
  have stF: "set (since st_fence (cmds s')) = set (since st_fence (cmds s @ new)) \<union> (if ?mask \<noteq> 0 then {Fence ?mask} else {})"
    if "\<not> bit ?mask 1"
    using that by (cases "?mask = 0") (simp_all add: cm append_assoc [symmetric] del: append_assoc)
  have clear_st: "stores_clear es (cmds s @ new) i A" if "stores_clear es (cmds s) i A" for A
    using that st_new by (auto simp: clear_append(1) [OF nf(2)])
  show "owners_below (length es) (cmds s')"
    using ob i by (auto simp: cm new_def owners_below_def)
  have unt_st: "stores_clear es (cmds s) i (set rs)" if "\<not> sa_set_overlaps (b_writes s) rs" for rs
    using tr that untracked_conflict unfolding tracked_def stores_clear_def by blast
  have unt_ld: "loads_clear es (cmds s) i (set rs)" if "\<not> sa_set_overlaps (b_reads s) rs" for rs
    using tr that untracked_conflict unfolding tracked_def loads_clear_def by blast
  show "checked (fenced_ok es) (cmds s')"
  proof -
    have "checked (fenced_ok es) (cmds s @ new)"
      unfolding checked_append
    proof (intro conjI ch allI impI)
      fix pre c post assume n: "new = pre @ c # post"
      then have e: early by (auto simp: new_def split: if_splits)
      from e n have "c = Base15 i \<or> c = Call Prefix i \<and> pre = [Base15 i]"
        by (auto simp: new_def prefix_cmds_def dest: list_split2)
      moreover from e early have "stores_clear es (cmds s) i (set (prefix_reads ?x))"
        by (intro unt_st) simp
      then have "stores_clear es (cmds s @ [Base15 i]) i (set (prefix_reads ?x))"
        by (subst clear_append(1)) auto
      ultimately show "fenced_ok es (cmds s @ pre) c" by auto
    qed
    then show ?thesis
      unfolding cm by (subst checked_append) (auto simp: append_eq_Cons_conv Cons_eq_append_conv)
  qed
  show "tracked es s'"
    unfolding tracked_def
  proof
    show "set_tracks (b_reads s') (\<Union>d \<in> set (since ld_fence (cmds s')). loads es d)"
    proof (cases "bit ?mask 0")
      case True
      then have "?mask \<noteq> 0" by auto
      with True show ?thesis by (simp add: cm br set_tracks_def since_append)
    next
      case False
      then have "(\<Union>d \<in> set (since ld_fence (cmds s')). loads es d)
         = (\<Union>d \<in> set (since ld_fence (cmds s @ new)). loads es d)"
        by (simp add: ldF)
      moreover have "set_tracks (b_reads s') (\<Union>d \<in> set (since ld_fence (cmds s @ new)). loads es d)"
      proof -
        have split: "(\<Union>d \<in> set (since ld_fence (cmds s @ new)). loads es d)
            = (\<Union>d \<in> set (since ld_fence (cmds s)). loads es d) \<union> (\<Union>d \<in> set new. loads es d)"
          by (auto simp: set_since_append [OF nf(1)])
        show ?thesis
        proof (cases early)
          case True
          then have "(\<Union>d \<in> set new. loads es d) = set (prefix_reads ?x)" by (simp add: new_def)
          with True tr show ?thesis
            unfolding split by (simp add: br False tracked_def set_add_tracks)
        next
          case False
          then have "(\<Union>d \<in> set new. loads es d) = {}" by (simp add: new_def)
          with False \<open>\<not> bit ?mask 0\<close> tr show ?thesis
            unfolding split by (simp add: br tracked_def)
        qed
      qed
      ultimately show ?thesis by simp
    qed
  next
    show "set_tracks (b_writes s') (\<Union>d \<in> set (since st_fence (cmds s')). stores es d)"
    proof (cases "bit ?mask 1")
      case True
      then have "?mask \<noteq> 0" by auto
      with True show ?thesis by (simp add: cm bw set_tracks_def since_append)
    next
      case False
      then have "(\<Union>d \<in> set (since st_fence (cmds s')). stores es d)
         = (\<Union>d \<in> set (since st_fence (cmds s)). stores es d)"
        using st_new by (auto simp: stF set_since_append [OF nf(2)])
      then show ?thesis using tr False by (simp add: bw tracked_def)
    qed
  qed
  show "entry_clear es i (cmds s')"
    unfolding entry_clear_def
  proof
    show "stores_clear es (cmds s') i (set (reads ?x) \<union> set (writes ?x))"
    proof (cases "bit ?mask 1")
      case True
      then have "?mask \<noteq> 0" by auto
      with True show ?thesis by (simp add: cm stores_clear_def loads_clear_def since_append)
    next
      case False
      with mask_bits(1) [of s ?x] have "stores_clear es (cmds s) i (set (reads ?x) \<union> set (writes ?x))"
        using unt_st by (auto simp: stores_clear_def conflict_Un)
      from clear_st [OF this] False show ?thesis by (auto simp: stF stores_clear_def)
    qed
  next
    show "loads_clear es (cmds s') i (set (writes ?x))"
    proof (cases "bit ?mask 0")
      case True
      then have "?mask \<noteq> 0" by auto
      with True show ?thesis by (simp add: cm stores_clear_def loads_clear_def since_append)
    next
      case False
      with mask_bits(2) [of s ?x] have "loads_clear es (cmds s) i (set (writes ?x))"
        using unt_ld by simp
      then have "loads_clear es (cmds s @ new) i (set (writes ?x))"
        using st_new by (auto simp: clear_append(2) [OF nf(1)])
      with False show ?thesis by (auto simp: ldF loads_clear_def)
    qed
  qed
qed

lemma conflict_sym: "conflict A B \<Longrightarrow> conflict B A"
  unfolding conflict_def using range_overlaps_sym by blast

text \<open>A prefix with a host is read-only data for the whole batch.\<close>
lemma hosted_prefix_clear:
  assumes "hosts_ok es (length es) hs" and "k < length es" and "hosted (hs ! k)" and "j < length es"
  shows "\<not> conflict (set (writes (e_d (hs ! j)))) (set (prefix_reads (e_d (hs ! k))))"
proof -
  from assms obtain b where "b < length es" "host (hs ! b) = Some k" unfolding hosts_ok_def by blast
  with assms(1) have "\<not> sa_set_overlaps (written_all es) (prefix_reads (e_d (es ! k)))"
    unfolding hosts_ok_def by blast
  then have "\<not> ranges_overlap (writes (e_d (es ! j))) (prefix_reads (e_d (es ! k)))"
    using rset.disjoint_from_all [of "\<lambda>e. writes (e_d e)" es _ "es ! j"] assms(4) by (simp add: written_all_def)
  moreover have "e_d (hs ! j) = e_d (es ! j)" "e_d (hs ! k) = e_d (es ! k)"
    using assms unfolding hosts_ok_def by blast+
  ultimately show ?thesis by (simp add: conflict_def ranges_overlap_def)
qed

lemma host_props:
  assumes "hosts_ok es (length es) hs" and "host (hs ! b) = Some k" and "b < length es"
  shows "b < k" "k < length es" "hosted (hs ! k)" "prefix_phys (e_d (hs ! k)) \<noteq> 0" "head_phys (e_d (hs ! b)) \<noteq> 0"
    "\<forall>j. b \<le> j \<and> j < k \<longrightarrow> \<not> spad_b (e_d (hs ! j))"
proof -
  from assms show bk: "b < k" and k: "k < length es" and "hosted (hs ! k)"
    unfolding hosts_ok_def by blast+
  have d: "e_d (hs ! i) = e_d (es ! i)" if "i < length es" for i
    using assms(1) that unfolding hosts_ok_def by blast
  show "prefix_phys (e_d (hs ! k)) \<noteq> 0" "head_phys (e_d (hs ! b)) \<noteq> 0"
  proof -
    have "prefix_phys (e_d (es ! k)) \<noteq> 0" "head_phys (e_d (es ! b)) \<noteq> 0"
      using assms unfolding hosts_ok_def by blast+
    then show "prefix_phys (e_d (hs ! k)) \<noteq> 0" "head_phys (e_d (hs ! b)) \<noteq> 0"
      by (simp_all add: d k assms(3))
  qed
  show "\<forall>j. b \<le> j \<and> j < k \<longrightarrow> \<not> spad_b (e_d (hs ! j))"
  proof (intro allI impI)
    fix j assume j: "b \<le> j \<and> j < k"
    with k d [of j] have "e_d (hs ! j) = e_d (es ! j)" by simp
    moreover have "\<not> spad_b (e_d (es ! j))" using assms j unfolding hosts_ok_def by blast
    ultimately show "\<not> spad_b (e_d (hs ! j))" by simp
  qed
qed

text \<open>The commands an entry emits, one by one.\<close>
lemma entry_cmds_cases:
  assumes "c \<in> set (entry_cmds hs i early)"
  obtains (setreg) ps where "c = Setreg ps"
  | (base) k where "c = Base15 k"
  | (own) "c = Call Prefix i" "\<not> hosted (hs ! i)" "\<not> early"
  | (guest) k where "c = Call Prefix k" "host (hs ! i) = Some k"
  | (head) "c = Call Head i"
  | (body) "c = Call Body i"
  using assms
  by (auto simp: entry_cmds_def Let_def split: if_splits option.splits dest: setreg_cmds_props)

text \<open>
  A dispatch says what it loads: the ranges of its prefix are among its reads.
\<close>
definition prefix_declared :: "entry list \<Rightarrow> bool" where
  "prefix_declared es \<longleftrightarrow> (\<forall>e \<in> set es. set (prefix_reads (e_d e)) \<subseteq> set (reads (e_d e)))"

lemma entry_cmds_no_fence:
  "c \<in> set (entry_cmds hs i early) \<Longrightarrow> \<not> ld_fence c"
  "c \<in> set (entry_cmds hs i early) \<Longrightarrow> \<not> st_fence c"
  by (erule entry_cmds_cases; simp)+

lemma entry_cmds_checked:
  assumes h: "hosts_ok es (length es) hs" and w: "prefix_declared hs" and i: "i < length es"
    and xs: "owners_below (length es) xs" and cl: "barrier (hs ! i) \<Longrightarrow> entry_clear hs i xs"
    and pre: "entry_cmds hs i early = pre @ c # post"
  shows "fenced_ok hs (xs @ pre) c"
proof -
  have len: "length hs = length es" using h by (simp add: hosts_ok_def)
  have sub: "set pre \<subseteq> set (entry_cmds hs i early)" using pre by auto
  have nf: "\<forall>y \<in> set pre. \<not> ld_fence y" "\<forall>y \<in> set pre. \<not> st_fence y"
    using sub entry_cmds_no_fence by blast+
  have in_pre: "owner d = Some i \<or> stores hs d = {}" if "d \<in> set pre" for d
    using that sub by (auto elim!: entry_cmds_cases)
  have ld_pre: "owner d = Some i \<or> loads hs d = {} \<or>
      (\<exists>k. host (hs ! i) = Some k \<and> loads hs d = set (prefix_reads (e_d (hs ! k))))" if "d \<in> set pre" for d
    using that sub by (auto elim!: entry_cmds_cases)
  have st_ext: "stores_clear hs (xs @ pre) i A" if "stores_clear hs xs i A" for A
    unfolding clear_append(1) [OF nf(2)] using that in_pre by (metis conflict_empty(1))
  have wi: "\<not> conflict (set (prefix_reads (e_d (hs ! k)))) (set (writes (e_d (hs ! i))))" if "host (hs ! i) = Some k" for k
    using hosted_prefix_clear [OF h host_props(2,3) [OF h that i] i] conflict_sym by blast
  have "c \<in> set (entry_cmds hs i early)" using pre by simp
  then show ?thesis
  proof (cases rule: entry_cmds_cases)
    case own
    have "set (prefix_reads (e_d (hs ! i))) \<subseteq> set (reads (e_d (hs ! i)))"
      using w i len by (simp add: prefix_declared_def)
    with own cl show ?thesis
      by (auto simp: entry_clear_def intro: st_ext stores_clear_mono)
  next
    case (guest k)
    note hp = host_props [OF h guest(2) i]
    have "\<not> conflict (stores hs d) (set (prefix_reads (e_d (hs ! k))))" if "d \<in> set (xs @ pre)" for d
    proof (cases d)
      case (Call p j)
      show ?thesis
      proof (cases p)
        case Body
        from that Call xs in_pre [of d] i have "j < length es \<or> stores hs d = {}"
          by (auto simp: owners_below_def Body)
        with hosted_prefix_clear [OF h hp(2,3)] Call Body show ?thesis by auto
      qed (simp_all add: Call)
    qed simp_all
    then show ?thesis using guest set_since_subset [of st_fence "xs @ pre"] by (auto simp: stores_clear_def)
  next
    case head
    with cl show ?thesis by (auto simp: entry_clear_def intro: st_ext stores_clear_mono)
  next
    case body
    have "loads_clear hs (xs @ pre) i (set (writes (e_d (hs ! i))))" if "barrier (hs ! i)"
      using cl [OF that] ld_pre wi by (fastforce simp: clear_append(2) [OF nf(1)] entry_clear_def)
    with body cl show ?thesis by (auto simp: entry_clear_def intro: st_ext)
  qed simp_all
qed

lemma entry_cmds_loads:
  "(\<Union>d \<in> set (entry_cmds hs i early). loads hs d) \<subseteq>
     set (reads (e_d (hs ! i))) \<union> set (prefix_reads (e_d (hs ! i)))
     \<union> (case (if head_phys (e_d (hs ! i)) \<noteq> 0 then host (hs ! i) else None) of
          None \<Rightarrow> {} | Some k \<Rightarrow> set (prefix_reads (e_d (hs ! k))))"
  "(\<Union>d \<in> set (entry_cmds hs i early). stores hs d) \<subseteq> set (writes (e_d (hs ! i)))"
  by (auto simp: entry_cmds_def Let_def split: if_splits option.splits dest: setreg_cmds_props)

lemma emit_entry_inv:
  assumes h: "hosts_ok es (length es) hs" and w: "prefix_declared hs" and i: "i < length es"
    and inv: "build_inv hs i s"
  shows "build_inv hs (Suc i) (emit_entry hs i s)"
proof -
  have len: "length hs = length es" using h by (simp add: hosts_ok_def)
  obtain early s1 where st: "(if barrier (hs ! i) \<and> i > 0 then emit_barrier hs i s else (False, s)) = (early, s1)"
    by fastforce
  have one: "checked (fenced_ok hs) (cmds s1)" "tracked hs s1" "owners_below (length hs) (cmds s1)"
    "barrier (hs ! i) \<Longrightarrow> entry_clear hs i (cmds s1)"
  proof -
    have "checked (fenced_ok hs) (cmds s1) \<and> tracked hs s1 \<and> owners_below (length hs) (cmds s1) \<and>
      (barrier (hs ! i) \<longrightarrow> entry_clear hs i (cmds s1))"
    proof (cases "barrier (hs ! i) \<and> i > 0")
      case True
      with st have eb: "emit_barrier hs i s = (early, s1)" by simp
      from i len have "i < length hs" by simp
      from emit_barrier_props [OF inv this eb] show ?thesis by simp
    next
      case False
      with st inv show ?thesis
        by (auto simp: build_inv_def entry_clear_def stores_clear_def loads_clear_def)
    qed
    then show "checked (fenced_ok hs) (cmds s1)" "tracked hs s1" "owners_below (length hs) (cmds s1)"
      "barrier (hs ! i) \<Longrightarrow> entry_clear hs i (cmds s1)" by auto
  qed
  let ?x = "e_d (hs ! i)" and ?ec = "entry_cmds hs i early"
  let ?g = "if head_phys ?x \<noteq> 0 then host (hs ! i) else None"
  let ?gr = "case ?g of None \<Rightarrow> [] | Some k \<Rightarrow> prefix_reads (e_d (hs ! k))"
  let ?s' = "emit_entry hs i s"
  have cm: "cmds ?s' = cmds s1 @ ?ec"
    by (auto simp: emit_entry_def st Let_def split: option.splits)
  have br: "b_reads ?s' = sa_set_add (sa_set_add (b_reads s1) ?gr) (reads ?x)"
    by (auto simp: emit_entry_def st Let_def split: option.splits)
  have bw: "b_writes ?s' = sa_set_add (b_writes s1) (writes ?x)"
    by (auto simp: emit_entry_def st Let_def split: option.splits)
  have nf: "\<forall>y \<in> set ?ec. \<not> ld_fence y" "\<forall>y \<in> set ?ec. \<not> st_fence y"
    using entry_cmds_no_fence by blast+
  have pr: "set (prefix_reads ?x) \<subseteq> set (reads ?x)"
    using w i len by (simp add: prefix_declared_def)
  have "checked (fenced_ok hs) (cmds ?s')"
    unfolding cm checked_append
  proof (intro conjI allI impI one(1))
    fix pre c post assume "?ec = pre @ c # post"
    then show "fenced_ok hs (cmds s1 @ pre) c"
      using entry_cmds_checked [OF h w i _ one(4)] one(3) len by simp
  qed
  moreover have "tracked hs ?s'"
    unfolding tracked_def
  proof
    have "set_tracks (sa_set_add (sa_set_add (b_reads s1) ?gr) (reads ?x))
        ((\<Union>d \<in> set (since ld_fence (cmds s1)). loads hs d) \<union> set ?gr \<union> set (reads ?x))"
      using one(2) by (intro set_add_tracks) (simp add: tracked_def)
    moreover have "(\<Union>d \<in> set (since ld_fence (cmds ?s')). loads hs d) \<subseteq>
        (\<Union>d \<in> set (since ld_fence (cmds s1)). loads hs d) \<union> set ?gr \<union> set (reads ?x)"
      using entry_cmds_loads(1) [of hs i early] pr
      by (cases ?g) (simp_all only: cm set_since_append [OF nf(1)] UN_Un option.case, auto)
    ultimately show "set_tracks (b_reads ?s') (\<Union>d \<in> set (since ld_fence (cmds ?s')). loads hs d)"
      unfolding br by (rule rset.tracks_mono)
  next
    have "set_tracks (sa_set_add (b_writes s1) (writes ?x))
        ((\<Union>d \<in> set (since st_fence (cmds s1)). stores hs d) \<union> set (writes ?x))"
      using one(2) by (intro set_add_tracks) (simp add: tracked_def)
    moreover have "(\<Union>d \<in> set (since st_fence (cmds ?s')). stores hs d) \<subseteq>
        (\<Union>d \<in> set (since st_fence (cmds s1)). stores hs d) \<union> set (writes ?x)"
      using entry_cmds_loads(2) [of hs i early] by (auto simp: cm set_since_append [OF nf(2)])
    ultimately show "set_tracks (b_writes ?s') (\<Union>d \<in> set (since st_fence (cmds ?s')). stores hs d)"
      unfolding bw by (rule rset.tracks_mono)
  qed
  moreover have "owners_below (length hs) ?ec"
    using i len host_props(2) [OF h] by (fastforce simp: owners_below_def elim!: entry_cmds_cases)
  ultimately show ?thesis using one(3) cm by (simp add: build_inv_def)
qed

lemma initial_build_inv: "build_inv hs 0 initial_build"
  by (simp add: build_inv_def initial_build_def tracked_def owners_below_def set_tracks_def)

lemma batch_checked:
  assumes "fresh es" and "prefix_declared es" and "sa_batch_build es = (hs, s)"
  shows "checked (fenced_ok hs) (cmds s)"
proof -
  have hs: "hs = assign_hosts es" and s: "s = push [End] (fold (emit_entry hs) [0..<length hs] initial_build)"
    using assms(3) by (auto simp: sa_batch_build_def Let_def)
  have h: "hosts_ok es (length es) hs" unfolding hs by (rule assign_hosts_ok [OF assms(1)])
  then have len: "length hs = length es" and d: "\<And>i. i < length es \<Longrightarrow> e_d (hs ! i) = e_d (es ! i)"
    unfolding hosts_ok_def by blast+
  have w: "prefix_declared hs"
    using assms(2) d len by (metis prefix_declared_def in_set_conv_nth)
  have "build_inv hs (length hs) (fold (emit_entry hs) [0..<length hs] initial_build)"
    by (rule fold_upt_invariant [where P = "build_inv hs"])
       (auto simp: initial_build_inv len intro: emit_entry_inv [OF h w])
  then show ?thesis
    by (auto simp: s build_inv_def checked_append append_eq_Cons_conv Cons_eq_append_conv)
qed

section \<open>The engines\<close>

text \<open>
  The device as far as DDR goes: commands are fetched in order and a CALL's loads and stores then
  run on the LD and ST engines for as long as they like; a FENCE is passed once the engines of
  its mask are idle. A state holds the commands fetched, those to come, and the calls whose
  loads and whose stores may still be running.
\<close>
type_synonym engines = "cmd list \<times> cmd list \<times> cmd set \<times> cmd set"

fun is_fence :: "cmd \<Rightarrow> bool" where
  "is_fence (Fence m) = True"
| "is_fence _ = False"

inductive engine_step :: "engines \<Rightarrow> engines \<Rightarrow> bool" where
  issue: "\<not> is_fence c \<Longrightarrow> engine_step (dn, c # td, L, S) (dn @ [c], td, insert c L, insert c S)"
| pass: "(bit m 0 \<longrightarrow> L = {}) \<Longrightarrow> (bit m 1 \<longrightarrow> S = {}) \<Longrightarrow>
    engine_step (dn, Fence m # td, L, S) (dn @ [Fence m], td, L, S)"
| load_done: "c \<in> L \<Longrightarrow> engine_step (dn, td, L, S) (dn, td, L - {c}, S)"
| store_done: "c \<in> S \<Longrightarrow> engine_step (dn, td, L, S) (dn, td, L, S - {c})"

inductive_simps engine_step_iff: "engine_step (dn, td, L, S) e"

definition engines_inv :: "cmd list \<Rightarrow> engines \<Rightarrow> bool" where
  "engines_inv all_cmds e \<longleftrightarrow> (case e of (dn, td, L, S) \<Rightarrow>
     dn @ td = all_cmds \<and> L \<subseteq> set (since ld_fence dn) \<and> S \<subseteq> set (since st_fence dn))"

lemma engine_step_inv: "engine_step e e' \<Longrightarrow> engines_inv xs e \<Longrightarrow> engines_inv xs e'"
proof (induction rule: engine_step.induct)
  case (issue c dn td L S)
  then have "\<not> ld_fence c" "\<not> st_fence c" by (cases c; simp)+
  with issue show ?case by (auto simp: engines_inv_def)
qed (auto simp: engines_inv_def)

lemma engines_reach_inv:
  assumes "engine_step\<^sup>*\<^sup>* ([], xs, {}, {}) e"
  shows "engines_inv xs e"
  using assms
proof (induction rule: rtranclp_induct)
  case base
  then show ?case by (simp add: engines_inv_def)
next
  case (step e e')
  then show ?case using engine_step_inv by blast
qed

text \<open>
  Fetching \<open>c\<close> meets no race: with a barrier before its dispatch, the body meets no running store
  of another dispatch to what it reads or writes and no running load of another dispatch from
  what it writes, the head no running store to what it reads; a prefix that runs in another
  dispatch, or in one with a barrier, no running store to what it reads.
\<close>
fun race_free :: "entry list \<Rightarrow> cmd set \<Rightarrow> cmd set \<Rightarrow> cmd \<Rightarrow> bool" where
  "race_free es L S (Call Body i) =
     (barrier (es ! i) \<longrightarrow>
        (\<forall>d \<in> S. owner d \<noteq> Some i \<longrightarrow>
           \<not> conflict (stores es d) (set (reads (e_d (es ! i))) \<union> set (writes (e_d (es ! i)))))
        \<and> (\<forall>d \<in> L. owner d \<noteq> Some i \<longrightarrow> \<not> conflict (loads es d) (set (writes (e_d (es ! i))))))"
| "race_free es L S (Call Head i) =
     (barrier (es ! i) \<longrightarrow>
        (\<forall>d \<in> S. owner d \<noteq> Some i \<longrightarrow> \<not> conflict (stores es d) (set (reads (e_d (es ! i))))))"
| "race_free es L S (Call Prefix i) =
     (barrier (es ! i) \<or> hosted (es ! i) \<longrightarrow>
        (\<forall>d \<in> S. owner d \<noteq> Some i \<longrightarrow> \<not> conflict (stores es d) (set (prefix_reads (e_d (es ! i))))))"
| "race_free es L S _ = True"

lemma fenced_race_free:
  "fenced_ok es pre c \<Longrightarrow> L \<subseteq> set (since ld_fence pre) \<Longrightarrow> S \<subseteq> set (since st_fence pre) \<Longrightarrow> race_free es L S c"
proof (cases c)
  case (Call p i)
  then show "fenced_ok es pre c \<Longrightarrow> L \<subseteq> set (since ld_fence pre) \<Longrightarrow> S \<subseteq> set (since st_fence pre) \<Longrightarrow> race_free es L S c"
    by (cases p) (simp_all add: stores_clear_def loads_clear_def subset_iff)
qed simp_all


text \<open>Entries for the witnesses: a dispatch, and a range of DDR.\<close>
definition mk_range :: "u64 \<Rightarrow> range" where
  "mk_range a = \<lparr>r_begin = a, r_end = a + 64\<rparr>"

definition mk_dispatch :: "u32 \<Rightarrow> u32 \<Rightarrow> bool \<Rightarrow> range list \<Rightarrow> range list \<Rightarrow> range list \<Rightarrow> dispatch" where
  "mk_dispatch pre hp b rs ws ps = \<lparr>prefix_phys = pre, head_phys = hp, body_phys = 0x3000, prefix_base = 0,
     regs = [(0, 1)], spad_b = b, reads = rs, writes = ws, prefix_reads = ps, dname = ''d''\<rparr>"

definition mk_entry :: "bool \<Rightarrow> dispatch \<Rightarrow> entry" where
  "mk_entry bar x = \<lparr>e_d = x, barrier = bar, host = None, hosted = False\<rparr>"

text \<open>One dispatch writes a range, the next, after a barrier, reads it.\<close>
definition raw_batch :: "entry list" where
  "raw_batch = [mk_entry False (mk_dispatch 0 0 False [] [mk_range 0] []),
     mk_entry True (mk_dispatch 0 0 False [mk_range 0] [] [])]"

lemma raw_batch_build:
  "cmds (snd (sa_batch_build raw_batch)) =
     [Setreg [(0, 1)], Call Body 0, Fence 2, Setreg [(0, 1)], Call Body 1, End]"
  by code_simp

lemma raw_batch_reach:
  "engine_step\<^sup>*\<^sup>* ([], cmds (snd (sa_batch_build raw_batch)), {}, {})
     ([Setreg [(0, 1)], Call Body 0, Fence 2, Setreg [(0, 1)]], [Call Body 1, End],
      {Setreg [(0, 1)], Call Body 0}, {Setreg [(0, 1)]})"
proof -
  let ?r = "Setreg [(0, 1)]"
  have "engine_step ([], [?r, Call Body 0, Fence 2, ?r, Call Body 1, End], {}, {})
      ([] @ [?r], [Call Body 0, Fence 2, ?r, Call Body 1, End], {?r}, {?r})"
    by (rule issue) simp
  moreover have "engine_step ([] @ [?r], [Call Body 0, Fence 2, ?r, Call Body 1, End], {?r}, {?r})
      ([?r] @ [Call Body 0], [Fence 2, ?r, Call Body 1, End], {?r, Call Body 0}, {?r, Call Body 0})"
    using issue [of "Call Body 0" "[?r]" "[Fence 2, ?r, Call Body 1, End]" "{?r}" "{?r}"] by (simp add: insert_commute)
  moreover have "engine_step ([?r] @ [Call Body 0], [Fence 2, ?r, Call Body 1, End], {?r, Call Body 0}, {?r, Call Body 0})
      ([?r, Call Body 0], [Fence 2, ?r, Call Body 1, End], {?r, Call Body 0}, {?r})"
    using store_done [of "Call Body 0" "{?r, Call Body 0}"] by (simp add: insert_Diff_if)
  moreover have "engine_step ([?r, Call Body 0], [Fence 2, ?r, Call Body 1, End], {?r, Call Body 0}, {?r})
      ([?r, Call Body 0], [Fence 2, ?r, Call Body 1, End], {?r, Call Body 0}, {})"
    using store_done [of ?r "{?r}"] by simp
  moreover have "engine_step ([?r, Call Body 0], [Fence 2, ?r, Call Body 1, End], {?r, Call Body 0}, {})
      ([?r, Call Body 0] @ [Fence 2], [?r, Call Body 1, End], {?r, Call Body 0}, {})"
    by (rule pass) (simp_all add: bit_0)
  moreover have "engine_step ([?r, Call Body 0] @ [Fence 2], [?r, Call Body 1, End], {?r, Call Body 0}, {})
      (([?r, Call Body 0] @ [Fence 2]) @ [?r], [Call Body 1, End], {?r, Call Body 0}, {?r})"
    using issue [of ?r "[?r, Call Body 0] @ [Fence 2]" "[Call Body 1, End]" "{?r, Call Body 0}" "{}"] by simp
  ultimately show ?thesis
    by (simp add: raw_batch_build)
qed


text \<open>
  A wave: after one barrier come two dispatches, of which only the second reads what the
  dispatch before the barrier writes.
\<close>
definition wave_batch :: "entry list" where
  "wave_batch = [mk_entry False (mk_dispatch 0 0 False [] [mk_range 0] []),
     mk_entry True (mk_dispatch 0 0 False [mk_range 4096] [] []),
     mk_entry False (mk_dispatch 0 0 False [mk_range 0] [] [])]"

lemma wave_batch_build:
  "cmds (snd (sa_batch_build wave_batch)) =
     [Setreg [(0, 1)], Call Body 0, Setreg [(0, 1)], Call Body 1, Setreg [(0, 1)], Call Body 2, End]"
  by code_simp

lemma issue_all:
  "\<forall>c \<in> set xs. \<not> is_fence c \<Longrightarrow> engine_step\<^sup>*\<^sup>* (dn, xs @ ys, L, S) (dn @ xs, ys, set xs \<union> L, set xs \<union> S)"
proof (induction xs arbitrary: dn L S)
  case Nil
  then show ?case by simp
next
  case (Cons c xs)
  have "engine_step (dn, (c # xs) @ ys, L, S) (dn @ [c], xs @ ys, insert c L, insert c S)"
    using Cons.prems by (simp add: issue)
  moreover have "engine_step\<^sup>*\<^sup>* (dn @ [c], xs @ ys, insert c L, insert c S) (dn @ c # xs, ys, insert c (set xs) \<union> L, insert c (set xs) \<union> S)"
    using Cons.IH [of "dn @ [c]" "insert c L" "insert c S"] Cons.prems by simp
  ultimately show ?case by (simp add: converse_rtranclp_into_rtranclp)
qed

text \<open>
  C28. Only the dispatch that carries the barrier is checked against what came before it: in a
  wave of two dispatches after a barrier whose second one reads what the first dispatch of the
  batch writes, the list has no FENCE at all, and the second one can be fetched while that store
  is still running.
\<close>
theorem wave_second_dispatch_unfenced:
  "filter is_fence (cmds (snd (sa_batch_build wave_batch))) = [] \<and>
   (\<exists>dn td L S. engine_step\<^sup>*\<^sup>* ([], cmds (snd (sa_batch_build wave_batch)), {}, {}) (dn, Call Body 2 # td, L, S)
      \<and> Call Body 0 \<in> S
      \<and> conflict (stores wave_batch (Call Body 0)) (set (reads (e_d (wave_batch ! 2)))))"
proof
  show "filter is_fence (cmds (snd (sa_batch_build wave_batch))) = []"
    by (simp add: wave_batch_build)
  let ?xs = "[Setreg [(0, 1)], Call Body 0, Setreg [(0, 1)], Call Body 1, Setreg [(0, 1)]]"
  have "engine_step\<^sup>*\<^sup>* ([], ?xs @ [Call Body 2, End], {}, {}) ([] @ ?xs, [Call Body 2, End], set ?xs \<union> {}, set ?xs \<union> {})"
    by (rule issue_all) simp
  moreover have "conflict (stores wave_batch (Call Body 0)) (set (reads (e_d (wave_batch ! 2))))"
    by (simp add: wave_batch_def mk_entry_def mk_dispatch_def conflict_def mk_range_def range_overlaps_def)
  ultimately show "\<exists>dn td L S. engine_step\<^sup>*\<^sup>* ([], cmds (snd (sa_batch_build wave_batch)), {}, {}) (dn, Call Body 2 # td, L, S)
      \<and> Call Body 0 \<in> S
      \<and> conflict (stores wave_batch (Call Body 0)) (set (reads (e_d (wave_batch ! 2))))"
    unfolding wave_batch_build
    by (intro exI [of _ ?xs] exI [of _ "[End]"] exI [of _ "set ?xs"]) simp
qed

section \<open>The shape of the list\<close>

lemma emit_entry_cmds:
  "\<exists>new early m. cmds (emit_entry hs i s) = cmds s @ new @ entry_cmds hs i early
    \<and> (early \<longrightarrow> new = prefix_cmds i @ [Fence m] \<and> prefix_phys (e_d (hs ! i)) \<noteq> 0 \<and> \<not> hosted (hs ! i))
    \<and> (\<not> early \<longrightarrow> new = [] \<or> new = [Fence m])"
proof -
  obtain early s1 where st: "(if barrier (hs ! i) \<and> i > 0 then emit_barrier hs i s else (False, s)) = (early, s1)"
    by fastforce
  have cm: "cmds (emit_entry hs i s) = cmds s1 @ entry_cmds hs i early"
    by (auto simp: emit_entry_def st Let_def split: option.splits)
  show ?thesis
  proof (cases "barrier (hs ! i) \<and> i > 0")
    case True
    with st have eb: "emit_barrier hs i s = (early, s1)" by simp
    let ?m = "fence_mask (s\<lparr>n_barriers := n_barriers s + 1\<rparr>) (e_d (hs ! i))"
    from eb cm show ?thesis
      by (intro exI [of _ "if early then prefix_cmds i @ [Fence ?m] else if ?m = 0 then [] else [Fence ?m]"]
            exI [of _ early] exI [of _ ?m])
         (auto simp: emit_barrier_def Let_def)
  next
    case False
    with st cm show ?thesis by (intro exI [of _ "[]"] exI [of _ False]) auto
  qed
qed

lemma length_setreg_cmds: "length (setreg_cmds ps) = (length ps + 2) div 3"
proof (induction ps rule: setreg_cmds.induct)
  case (2 p ps)
  then show ?case by (cases "length ps < 2") auto
qed simp

definition own_prefix :: "entry list \<Rightarrow> nat \<Rightarrow> nat" where
  "own_prefix hs i = of_bool (prefix_phys (e_d (hs ! i)) \<noteq> 0 \<and> \<not> hosted (hs ! i))"

definition guest_prefix :: "entry list \<Rightarrow> nat \<Rightarrow> nat" where
  "guest_prefix hs i = of_bool (head_phys (e_d (hs ! i)) \<noteq> 0 \<and> host (hs ! i) \<noteq> None)"

lemma emit_entry_length:
  "length (cmds (emit_entry hs i s)) \<le>
     length (cmds s) + ((length (regs (e_d (hs ! i))) + 2) div 3 + 3 + 2 * own_prefix hs i + 2 * guest_prefix hs i)"
proof -
  obtain new early m where e: "cmds (emit_entry hs i s) = cmds s @ new @ entry_cmds hs i early"
    "early \<longrightarrow> new = prefix_cmds i @ [Fence m] \<and> prefix_phys (e_d (hs ! i)) \<noteq> 0 \<and> \<not> hosted (hs ! i)"
    "\<not> early \<longrightarrow> new = [] \<or> new = [Fence m]"
    using emit_entry_cmds [of hs i s] by blast
  show ?thesis
  proof (cases early)
    case True
    with e(2) show ?thesis
      by (auto simp: e(1) entry_cmds_def Let_def length_setreg_cmds prefix_cmds_def own_prefix_def guest_prefix_def
          split: option.splits)
  next
    case False
    with e(3) show ?thesis
      by (auto simp: e(1) entry_cmds_def Let_def length_setreg_cmds prefix_cmds_def own_prefix_def guest_prefix_def
          split: option.splits)
  qed
qed

lemma emit_all_length:
  "length (cmds (fold (emit_entry hs) [0..<n] s)) \<le>
     length (cmds s) + (\<Sum>i<n. (length (regs (e_d (hs ! i))) + 2) div 3 + 3) + 2 * (\<Sum>i<n. own_prefix hs i + guest_prefix hs i)"
proof (induction n)
  case 0
  then show ?case by simp
next
  case (Suc n)
  with emit_entry_length [of hs n "fold (emit_entry hs) [0..<n] s"] show ?case by simp
qed

text \<open>Every hosted prefix moves two commands from its own dispatch to its host: the sum does not grow.\<close>
lemma prefixes_amortised:
  assumes "hosts_ok es (length es) hs"
  shows "(\<Sum>i<length es. own_prefix hs i + guest_prefix hs i) \<le> length es"
proof -
  let ?G = "{i. i < length es \<and> host (hs ! i) \<noteq> None}" and ?H = "{k. k < length es \<and> hosted (hs ! k)}"
  have "inj_on (\<lambda>i. the (host (hs ! i))) ?G"
    using assms unfolding hosts_ok_def inj_on_def by (metis (mono_tags, lifting) mem_Collect_eq option.expand)
  moreover have "(\<lambda>i. the (host (hs ! i))) ` ?G \<subseteq> ?H"
    using host_props(2,3) [OF assms] by force
  ultimately have "card ?G \<le> card ?H" by (intro card_inj_on_le) auto
  moreover have "(\<Sum>i<length es. guest_prefix hs i) \<le> card ?G"
  proof -
    have "(\<Sum>i<length es. guest_prefix hs i) \<le> (\<Sum>i<length es. of_bool (host (hs ! i) \<noteq> None))"
      by (rule sum_mono) (simp add: guest_prefix_def)
    also have "\<dots> = card ?G" by (simp add: sum.If_cases of_bool_def Int_def)
    finally show ?thesis .
  qed
  moreover have "(\<Sum>i<length es. own_prefix hs i) + card ?H \<le> length es"
  proof -
    have "(\<Sum>i<length es. own_prefix hs i) + card ?H \<le>
        (\<Sum>i<length es. of_bool (\<not> hosted (hs ! i))) + (\<Sum>i<length es. of_bool (hosted (hs ! i)))"
    proof (rule add_mono)
      show "(\<Sum>i<length es. own_prefix hs i) \<le> (\<Sum>i<length es. of_bool (\<not> hosted (hs ! i)))"
        by (rule sum_mono) (simp add: own_prefix_def)
      show "card ?H \<le> (\<Sum>i<length es. of_bool (hosted (hs ! i)))"
        by (simp add: sum.If_cases of_bool_def Int_def)
    qed
    also have "\<dots> = (\<Sum>i<length es. of_bool (\<not> hosted (hs ! i)) + of_bool (hosted (hs ! i)))"
      by (rule sum.distrib [symmetric])
    also have "\<dots> = (\<Sum>i<length es. 1)" by (rule sum.cong) auto
    finally show ?thesis by simp
  qed
  ultimately show ?thesis by (simp add: sum.distrib)
qed

text \<open>How often each prefix is called while entry \<open>i\<close> is emitted.\<close>
lemma count_setreg [simp]: "count_list (setreg_cmds ps) (Call p k) = 0"
  by (induction ps rule: setreg_cmds.induct) auto

lemma emit_entry_count:
  assumes h: "hosts_ok es (length es) hs" and i: "i < length es"
  shows "count_list (cmds (emit_entry hs i s)) (Call Prefix k) = count_list (cmds s) (Call Prefix k)
    + (if k = i then own_prefix hs i else 0) + of_bool (host (hs ! i) = Some k)"
proof -
  obtain new early m where e: "cmds (emit_entry hs i s) = cmds s @ new @ entry_cmds hs i early"
    "early \<longrightarrow> new = prefix_cmds i @ [Fence m] \<and> prefix_phys (e_d (hs ! i)) \<noteq> 0 \<and> \<not> hosted (hs ! i)"
    "\<not> early \<longrightarrow> new = [] \<or> new = [Fence m]"
    using emit_entry_cmds [of hs i s] by blast
  have hd: "host (hs ! i) = Some j \<Longrightarrow> head_phys (e_d (hs ! i)) \<noteq> 0" for j
    using host_props(5) [OF h _ i] by simp
  show ?thesis
  proof (cases early)
    case True
    with e(2) hd show ?thesis
      by (auto simp: e(1) entry_cmds_def Let_def prefix_cmds_def own_prefix_def split: option.splits)
  next
    case False
    with e(3) hd show ?thesis
      by (auto simp: e(1) entry_cmds_def Let_def prefix_cmds_def own_prefix_def split: option.splits)
  qed
qed

lemma emit_all_count:
  assumes "hosts_ok es (length es) hs" and "n \<le> length es"
  shows "count_list (cmds (fold (emit_entry hs) [0..<n] initial_build)) (Call Prefix k) =
    (if k < n then own_prefix hs k else 0) + card {b. b < n \<and> host (hs ! b) = Some k}"
  using assms(2)
proof (induction n)
  case 0
  then show ?case by (simp add: initial_build_def)
next
  case (Suc n)
  have "{b. b < Suc n \<and> host (hs ! b) = Some k} =
      {b. b < n \<and> host (hs ! b) = Some k} \<union> (if host (hs ! n) = Some k then {n} else {})"
    by (auto simp: less_Suc_eq)
  then have "card {b. b < Suc n \<and> host (hs ! b) = Some k} =
      card {b. b < n \<and> host (hs ! b) = Some k} + of_bool (host (hs ! n) = Some k)"
    by (simp add: card_insert_if)
  with Suc emit_entry_count [OF assms(1), of n] show ?case by (simp add: less_Suc_eq)
qed

lemma one_host:
  assumes "hosts_ok es (length es) hs" and "k < length es"
  shows "card {b. b < length es \<and> host (hs ! b) = Some k} = of_bool (hosted (hs ! k))"
proof (cases "hosted (hs ! k)")
  case True
  with assms obtain b where b: "b < length es" "host (hs ! b) = Some k" unfolding hosts_ok_def by blast
  have uniq: "b' = b" if "b' < length es" "host (hs ! b') = Some k" for b'
  proof -
    have "host (hs ! b') = host (hs ! b) \<and> host (hs ! b') \<noteq> None" using b that by simp
    with assms(1) b(1) that(1) show ?thesis unfolding hosts_ok_def by blast
  qed
  have "{b. b < length es \<and> host (hs ! b) = Some k} = {b}" using b uniq by blast
  with True show ?thesis by simp
next
  case False
  with host_props(3) [OF assms(1)] have "{b. b < length es \<and> host (hs ! b) = Some k} = {}" by auto
  with False show ?thesis by simp
qed

text \<open>
  The order within the list: BASE15 right before its prefix, and everything a body relies on
  before the body.
\<close>
fun base_ok :: "cmd list \<Rightarrow> cmd \<Rightarrow> bool" where
  "base_ok pre (Call Prefix k) = (pre \<noteq> [] \<and> last pre = Base15 k)"
| "base_ok pre _ = True"

fun body_ok :: "entry list \<Rightarrow> cmd list \<Rightarrow> cmd \<Rightarrow> bool" where
  "body_ok es pre (Call Body k) =
     ((prefix_phys (e_d (es ! k)) \<noteq> 0 \<longrightarrow> Call Prefix k \<in> set pre)
      \<and> (head_phys (e_d (es ! k)) \<noteq> 0 \<longrightarrow> Call Head k \<in> set pre)
      \<and> set (setreg_cmds (regs (e_d (es ! k)))) \<subseteq> set pre)"
| "body_ok es pre _ = True"

fun is_body :: "cmd \<Rightarrow> bool" where
  "is_body (Call Body k) = True"
| "is_body _ = False"

lemma no_body_setregs [simp]: "filter is_body (setreg_cmds ps) = []"
  by (induction ps rule: setreg_cmds.induct) auto

lemma entry_bodies: "filter is_body (entry_cmds hs i early) = [Call Body i]"
  by (simp add: entry_cmds_def Let_def prefix_cmds_def split: option.splits)

lemma emit_entry_bodies: "filter is_body (cmds (emit_entry hs i s)) = filter is_body (cmds s) @ [Call Body i]"
proof -
  obtain new early m where e: "cmds (emit_entry hs i s) = cmds s @ new @ entry_cmds hs i early"
    "early \<longrightarrow> new = prefix_cmds i @ [Fence m]" "\<not> early \<longrightarrow> new = [] \<or> new = [Fence m]"
    using emit_entry_cmds [of hs i s] by blast
  then have "filter is_body new = []" by (cases early) (auto simp: prefix_cmds_def)
  then show ?thesis by (simp add: e(1) entry_bodies)
qed

lemma emit_all_bodies:
  "filter is_body (cmds (fold (emit_entry hs) [0..<n] initial_build)) = map (Call Body) [0..<n]"
proof (induction n)
  case 0
  then show ?case by (simp add: initial_build_def)
next
  case (Suc n)
  then show ?case by (simp add: emit_entry_bodies)
qed

lemma base_ok_append: "checked base_ok xs \<Longrightarrow> checked base_ok ys \<Longrightarrow> checked base_ok (xs @ ys)"
  unfolding checked_append
proof (intro conjI allI impI)
  fix pre c post assume "checked base_ok ys" and "ys = pre @ c # post"
  then have "base_ok pre c" by (simp add: checked_def)
  then show "base_ok (xs @ pre) c" by (induction pre c rule: base_ok.induct) auto
qed

lemma base_ok_pieces:
  "\<forall>c \<in> set xs. \<forall>k. c \<noteq> Call Prefix k \<Longrightarrow> checked base_ok xs"
  "checked base_ok (prefix_cmds k)"
proof -
  assume *: "\<forall>c \<in> set xs. \<forall>k. c \<noteq> Call Prefix k"
  show "checked base_ok xs"
    unfolding checked_def
  proof (intro allI impI)
    fix pre c post assume "xs = pre @ c # post"
    with * have "\<forall>k. c \<noteq> Call Prefix k" by simp
    then show "base_ok pre c" by (induction pre c rule: base_ok.induct) auto
  qed
next
  show "checked base_ok (prefix_cmds k)"
    unfolding checked_def prefix_cmds_def by (auto dest: list_split2)
qed

lemma entry_cmds_base_ok: "checked base_ok (entry_cmds hs i early)"
proof -
  have "checked base_ok (setreg_cmds ps)" for ps
    by (rule base_ok_pieces(1)) (auto dest: setreg_cmds_props)
  moreover have "checked base_ok (Call Head i # prefix_cmds k)" for k
    using base_ok_append [of "[Call Head i]" "prefix_cmds k"] base_ok_pieces(1) [of "[Call Head i]"] base_ok_pieces(2)
    by simp
  moreover have "checked base_ok [Call Head i]" "checked base_ok [Call Body i]"
    by (rule base_ok_pieces(1), simp)+
  ultimately show ?thesis
    unfolding entry_cmds_def Let_def
    by (intro base_ok_append) (auto simp: base_ok_pieces(2) split: option.splits)
qed

lemma emit_all_base_ok: "checked base_ok (cmds (fold (emit_entry hs) [0..<n] initial_build))"
proof (induction n)
  case 0
  then show ?case by (simp add: initial_build_def)
next
  case (Suc n)
  let ?s = "fold (emit_entry hs) [0..<n] initial_build"
  obtain new early m where e: "cmds (emit_entry hs n ?s) = cmds ?s @ new @ entry_cmds hs n early"
    "early \<longrightarrow> new = prefix_cmds n @ [Fence m]" "\<not> early \<longrightarrow> new = [] \<or> new = [Fence m]"
    using emit_entry_cmds [of hs n ?s] by blast
  have f: "checked base_ok [Fence m]" by (rule base_ok_pieces(1)) simp
  with e(2,3) base_ok_append [OF base_ok_pieces(2) f] have "checked base_ok new"
    by (cases early) auto
  with Suc entry_cmds_base_ok show ?case by (simp add: e(1) base_ok_append)
qed

lemma entry_cmds_front:
  "\<exists>front. entry_cmds hs i early = front @ [Call Body i] \<and> (\<forall>c \<in> set front. \<not> is_body c)
     \<and> set (setreg_cmds (regs (e_d (hs ! i)))) \<subseteq> set front
     \<and> (head_phys (e_d (hs ! i)) \<noteq> 0 \<longrightarrow> Call Head i \<in> set front)
     \<and> (prefix_phys (e_d (hs ! i)) \<noteq> 0 \<and> \<not> hosted (hs ! i) \<and> \<not> early \<longrightarrow> Call Prefix i \<in> set front)"
  unfolding entry_cmds_def Let_def
  by (subst append_assoc [symmetric])+
     (intro exI conjI, rule refl,
      auto simp: Ball_def dest: setreg_cmds_props split: option.splits if_splits)

lemma emit_all_body_ok:
  assumes h: "hosts_ok es (length es) hs" and "n \<le> length es"
  shows "checked (body_ok hs) (cmds (fold (emit_entry hs) [0..<n] initial_build))"
  using assms(2)
proof (induction n)
  case 0
  then show ?case by (simp add: initial_build_def)
next
  case (Suc n)
  let ?s = "fold (emit_entry hs) [0..<n] initial_build" and ?x = "e_d (hs ! n)"
  obtain new early m where e: "cmds (emit_entry hs n ?s) = cmds ?s @ new @ entry_cmds hs n early"
    "early \<longrightarrow> new = prefix_cmds n @ [Fence m]" "\<not> early \<longrightarrow> new = [] \<or> new = [Fence m]"
    using emit_entry_cmds [of hs n ?s] by blast
  obtain front where f: "entry_cmds hs n early = front @ [Call Body n]" "\<forall>c \<in> set front. \<not> is_body c"
    "set (setreg_cmds (regs ?x)) \<subseteq> set front" "head_phys ?x \<noteq> 0 \<longrightarrow> Call Head n \<in> set front"
    "prefix_phys ?x \<noteq> 0 \<and> \<not> hosted (hs ! n) \<and> \<not> early \<longrightarrow> Call Prefix n \<in> set front"
    using entry_cmds_front [of hs n early] by blast
  have nb: "\<forall>c \<in> set (new @ front). \<not> is_body c"
    using e(2,3) f(2) by (cases early) auto
  have no_body: "body_ok hs pre c" if "\<not> is_body c" for pre c
    using that by (induction hs pre c rule: body_ok.induct) auto
  have pre: "Call Prefix n \<in> set (cmds ?s @ new @ front)" if "prefix_phys ?x \<noteq> 0"
  proof (cases "hosted (hs ! n)")
    case True
    from Suc.prems have "n < length es" by simp
    with h True obtain b where b: "b < length es" "host (hs ! b) = Some n"
      unfolding hosts_ok_def by blast
    from host_props(1) [OF h b(2,1)] have "b \<in> {b. b < n \<and> host (hs ! b) = Some n}" using b by simp
    moreover have "finite {b. b < n \<and> host (hs ! b) = Some n}" by simp
    ultimately have "card {b. b < n \<and> host (hs ! b) = Some n} \<noteq> 0" by (metis card_0_eq empty_iff)
    with emit_all_count [OF h, of n n] Suc.prems have "count_list (cmds ?s) (Call Prefix n) \<noteq> 0" by simp
    then show ?thesis by (metis UnI1 count_notin set_append)
  next
    case False
    with that f(5) e(2) show ?thesis by (cases early) auto
  qed
  have "checked (body_ok hs) (cmds ?s @ (new @ front))"
    unfolding checked_append using Suc nb no_body by fastforce
  moreover have "body_ok hs (cmds ?s @ new @ front) (Call Body n)"
    using pre f(3,4) by auto
  ultimately have "checked (body_ok hs) ((cmds ?s @ new @ front) @ [Call Body n])"
    by (subst checked_append) (auto simp: append_eq_Cons_conv Cons_eq_append_conv)
  then show ?case by (simp add: e(1) f(1))
qed

text \<open>Where a prefix is called: inside its own dispatch, or inside its host.\<close>
fun place_ok :: "entry list \<Rightarrow> cmd list \<Rightarrow> cmd \<Rightarrow> bool" where
  "place_ok hs pre (Call Prefix k) =
     (\<exists>b. filter is_body pre = map (Call Body) [0..<b] \<and> (b = k \<or> b < length hs \<and> host (hs ! b) = Some k))"
| "place_ok hs pre _ = True"

lemma emit_all_place_ok:
  assumes "n \<le> length hs"
  shows "checked (place_ok hs) (cmds (fold (emit_entry hs) [0..<n] initial_build))"
  using assms
proof (induction n)
  case 0
  then show ?case by (simp add: initial_build_def)
next
  case (Suc n)
  let ?s = "fold (emit_entry hs) [0..<n] initial_build"
  obtain new early m where e: "cmds (emit_entry hs n ?s) = cmds ?s @ new @ entry_cmds hs n early"
    "early \<longrightarrow> new = prefix_cmds n @ [Fence m]" "\<not> early \<longrightarrow> new = [] \<or> new = [Fence m]"
    using emit_entry_cmds [of hs n ?s] by blast
  obtain front where f: "entry_cmds hs n early = front @ [Call Body n]" "\<forall>c \<in> set front. \<not> is_body c"
    using entry_cmds_front [of hs n early] by blast
  have nb: "filter is_body (new @ front) = []"
    using e(2,3) f(2) by (cases early) (auto simp: prefix_cmds_def)
  have "place_ok hs (cmds ?s @ pre) c" if "new @ entry_cmds hs n early = pre @ c # post" for pre c post
  proof (cases "c = Call Body n")
    case False
    with that f(1) have "(new @ front) @ [Call Body n] = pre @ c # post" by simp
    then have "\<exists>q. new @ front = pre @ c # q"
      using False by (cases post rule: rev_cases) (auto simp: butlast_append)
    then obtain q where q: "new @ front = pre @ c # q" ..
    with nb have "filter is_body pre = []" by (metis append_is_Nil_conv filter_append)
    then have "filter is_body (cmds ?s @ pre) = map (Call Body) [0..<n]"
      by (simp add: emit_all_bodies)
    moreover have "k = n \<or> host (hs ! n) = Some k" if c: "c = Call Prefix k" for k
    proof -
      have "c \<in> set new \<or> c \<in> set (entry_cmds hs n early)"
        using q f(1) by (metis UnE append_is_Nil_conv in_set_conv_decomp list.distinct(1) set_append UnCI)
      with c e(2,3) show ?thesis by (cases early) (auto elim!: entry_cmds_cases)
    qed
    ultimately show ?thesis
      using Suc.prems by (induction hs "cmds ?s @ pre" c rule: place_ok.induct) auto
  qed simp
  with Suc show ?case by (simp add: e(1) checked_append)
qed

lemma filter_upt_split:
  assumes "filter P xs = map f [0..<n]" and "inj f" and "xs = pre @ f k # post" and "P (f k)"
  shows "filter P pre = map f [0..<k]"
proof -
  have eq: "filter P pre @ f k # filter P post = map f [0..<n]"
    using assms by simp
  let ?j = "length (filter P pre)"
  have j: "?j < n" using arg_cong [OF eq, of length] by simp
  have "f k = f ?j"
    using arg_cong [OF eq, of "\<lambda>l. l ! ?j"] j by simp
  with assms(2) have "k = ?j" by (simp add: inj_eq)
  moreover have "filter P pre = take ?j (map f [0..<n])"
    using arg_cong [OF eq, of "take ?j"] by simp
  ultimately show ?thesis using j by (simp add: take_map)
qed

lemma build_facts:
  assumes "fresh es" and "sa_batch_build es = (hs, s)"
  shows "hosts_ok es (length es) hs" and "length hs = length es"
    and "\<And>i. i < length es \<Longrightarrow> e_d (hs ! i) = e_d (es ! i)"
    and "\<And>i. i < length es \<Longrightarrow> barrier (hs ! i) = barrier (es ! i)"
    and "cmds s = cmds (fold (emit_entry hs) [0..<length es] initial_build) @ [End]"
proof -
  have hs: "hs = assign_hosts es" and s: "s = push [End] (fold (emit_entry hs) [0..<length hs] initial_build)"
    using assms(2) by (auto simp: sa_batch_build_def Let_def)
  show h: "hosts_ok es (length es) hs" unfolding hs by (rule assign_hosts_ok [OF assms(1)])
  then show len: "length hs = length es" unfolding hosts_ok_def by blast
  show "e_d (hs ! i) = e_d (es ! i)" "barrier (hs ! i) = barrier (es ! i)" if "i < length es" for i
    using h that unfolding hosts_ok_def by blast+
  show "cmds s = cmds (fold (emit_entry hs) [0..<length es] initial_build) @ [End]"
    by (simp add: s len)
qed

lemma checked_snoc_End: "checked ok xs \<Longrightarrow> ok xs End \<Longrightarrow> checked ok (xs @ [End])"
  by (subst checked_append) (auto simp: append_eq_Cons_conv Cons_eq_append_conv)


text \<open>A dispatch with a head and no use of SPAD_B hosts the prefix of the next one.\<close>
definition host_batch :: "entry list" where
  "host_batch = [mk_entry False (mk_dispatch 0 0x40 False [] [mk_range 0] []),
     mk_entry True (mk_dispatch 0x80 0 True [mk_range 4096] [] [mk_range 4096])]"

lemma host_batch_build:
  "cmds (snd (sa_batch_build host_batch)) =
     [Setreg [(0, 1)], Call Head 0, Base15 1, Call Prefix 1, Call Body 0, Setreg [(0, 1)], Call Body 1, End]"
  by code_simp

lemma host_batch_fresh: "fresh host_batch"
  by (simp add: fresh_def host_batch_def mk_entry_def)




section \<open>Capacity\<close>

lemma build_length:
  assumes "fresh es" and "sa_batch_build es = (hs, s)"
  shows "length (cmds s) \<le> (\<Sum>e \<leftarrow> es. sa_entry_descriptors (e_d e)) + 1"
proof -
  note b = build_facts [OF assms]
  have "length (cmds s) \<le> (\<Sum>i<length es. (length (regs (e_d (hs ! i))) + 2) div 3 + 3)
      + 2 * (\<Sum>i<length es. own_prefix hs i + guest_prefix hs i) + 1"
    using emit_all_length [of hs "length es" initial_build] by (simp add: b(5) initial_build_def)
  also have "\<dots> \<le> (\<Sum>i<length es. (length (regs (e_d (hs ! i))) + 2) div 3 + 3) + 2 * length es + 1"
    using prefixes_amortised [OF b(1)] by simp
  also have "\<dots> = (\<Sum>i<length es. (length (regs (e_d (hs ! i))) + 2) div 3 + 5) + 1"
    by (simp add: sum.distrib)
  also have "\<dots> \<le> (\<Sum>i<length es. sa_entry_descriptors (e_d (es ! i))) + 1"
    by (intro add_mono sum_mono order.refl) (simp add: b(3) sa_entry_descriptors_def)
  also have "(\<Sum>i<length es. sa_entry_descriptors (e_d (es ! i))) = (\<Sum>e \<leftarrow> es. sa_entry_descriptors (e_d e))"
    by (simp add: sum_list_sum_nth atLeast0LessThan)
  finally show ?thesis .
qed

lemma cmd_rows_shape:
  assumes "fresh es" and "sa_batch_build es = (hs, s)" and "c \<in> set (cmds s)"
  shows "length (cmd_row hs c) = 8"
proof -
  note b = build_facts [OF assms(1,2)]
  have setreg: "length ps \<le> 3" if "Setreg ps \<in> set (setreg_cmds qs)" for ps qs
    using that by (induction qs rule: setreg_cmds.induct) auto
  have "\<forall>ps. Setreg ps \<in> set (cmds (fold (emit_entry hs) [0..<n] initial_build)) \<longrightarrow> length ps \<le> 3" for n
  proof (induction n)
    case 0
    then show ?case by (simp add: initial_build_def)
  next
    case (Suc n)
    let ?s = "fold (emit_entry hs) [0..<n] initial_build"
    obtain new early m where e: "cmds (emit_entry hs n ?s) = cmds ?s @ new @ entry_cmds hs n early"
      "early \<longrightarrow> new = prefix_cmds n @ [Fence m]" "\<not> early \<longrightarrow> new = [] \<or> new = [Fence m]"
      using emit_entry_cmds [of hs n ?s] by blast
    have "Setreg ps \<notin> set new" for ps using e(2,3) by (cases early) auto
    moreover have "length ps \<le> 3" if "Setreg ps \<in> set (entry_cmds hs n early)" for ps
      using that setreg by (auto simp: entry_cmds_def Let_def split: if_splits option.splits)
    ultimately show ?case using Suc by (auto simp: e(1))
  qed
  with assms(3) have "\<forall>ps. c = Setreg ps \<longrightarrow> length ps \<le> 3" by (auto simp: b(5))
  then show ?thesis
  proof (cases c)
    case (Call p k)
    then show ?thesis by (cases p) (simp_all add: length_ops)
  qed (simp_all add: length_ops length_setreg)
qed

text \<open>What add, barrier and flush maintain of the recorded batch.\<close>
definition batch_ok :: "'dev sa_context \<Rightarrow> bool" where
  "batch_ok c \<longleftrightarrow> fresh (entries c) \<and> length (entries c) \<le> entry_capacity
     \<and> entry_descriptors c = (\<Sum>e \<leftarrow> entries c. sa_entry_descriptors (e_d e))
     \<and> entry_descriptors c + 1 \<le> batch_capacity c"

lemma flush_empties:
  "entries (fst (sa_context_batch_flush run env g m ns c)) = []"
  "entry_descriptors c = 0 \<or> entries c \<noteq> [] \<Longrightarrow> entry_descriptors (fst (sa_context_batch_flush run env g m ns c)) = 0"
  "batch_capacity (fst (sa_context_batch_flush run env g m ns c)) = batch_capacity c"
  "batch_fence (fst (sa_context_batch_flush run env g m ns c)) = False"
  by (auto simp: sa_context_batch_flush_def Let_def sa_record_list_def split: prod.splits sum.splits)

lemma flush_batch_ok:
  assumes "batch_ok c"
  shows "batch_ok (fst (sa_context_batch_flush run env g m ns c))"
proof -
  have "entry_descriptors c = 0 \<or> entries c \<noteq> []"
    using assms by (cases "entries c") (auto simp: batch_ok_def)
  with assms show ?thesis
    by (simp add: batch_ok_def flush_empties fresh_def)
qed

lemma add_batch_ok:
  assumes "batch_ok c" and "16 \<le> batch_capacity c"
  shows "batch_ok (fst (sa_context_batch_add run env g m ns ok c x))"
proof (cases "length (regs x) > 24 \<or> length (reads x) > 16 \<or> length (writes x) > 16 \<or> length (prefix_reads x) > 16
    \<or> \<not> entries_ready c \<and> \<not> ok")
  case True
  with assms show ?thesis by (auto simp: sa_context_batch_add_def)
next
  case False
  then have "length (regs x) \<le> 24" by simp
  then have need: "sa_entry_descriptors x \<le> 15" unfolding sa_entry_descriptors_def by linarith
  have mem: "(\<not> entries_ready c \<and> \<not> ok) = False" using False by blast
  let ?c1 = "c\<lparr>entries_ready := True\<rparr>"
  have ok1: "batch_ok ?c1" using assms(1) by (simp add: batch_ok_def)
  show ?thesis
  proof (cases "length (entries ?c1) = entry_capacity \<or>
      entry_descriptors ?c1 + sa_entry_descriptors x + 1 > batch_capacity ?c1")
    case True
    obtain c2 r where f: "sa_context_batch_flush run env g m ns ?c1 = (c2, r)" by fastforce
    have c2: "batch_ok c2" "entries c2 = []" "entry_descriptors c2 = 0" "batch_capacity c2 = batch_capacity c"
      using flush_batch_ok [OF ok1, where run = run and env = env and g = g and m = m and ns = ns] flush_empties [where run = run and env = env and g = g and m = m and ns = ns and c = ?c1] ok1
      by (auto simp: f batch_ok_def)
    from False True f have add: "sa_context_batch_add run env g m ns ok c x =
        (case r of Inl e \<Rightarrow> (c2, Inl e) | Inr u \<Rightarrow>
          (c2\<lparr>entries := entries c2 @ [\<lparr>e_d = x, barrier = batch_fence c2, host = None, hosted = False\<rparr>],
             batch_fence := False, entry_descriptors := entry_descriptors c2 + sa_entry_descriptors x,
             dispatches := dispatches c2 + 1\<rparr>, Inr ()))"
      by (simp add: sa_context_batch_add_def Let_def mem del: de_Morgan_conj)
    show ?thesis
      using c2 need assms(2) unfolding add
      by (cases r) (auto simp: batch_ok_def fresh_def entry_capacity_def)
  next
    case fits: False
    with False have add: "sa_context_batch_add run env g m ns ok c x =
        (?c1\<lparr>entries := entries ?c1 @ [\<lparr>e_d = x, barrier = batch_fence ?c1, host = None, hosted = False\<rparr>],
             batch_fence := False, entry_descriptors := entry_descriptors ?c1 + sa_entry_descriptors x,
             dispatches := dispatches ?c1 + 1\<rparr>, Inr ())"
      by (simp add: sa_context_batch_add_def Let_def mem del: de_Morgan_conj)
    show ?thesis
      using ok1 fits unfolding add by (auto simp: batch_ok_def fresh_def)
  qed
qed

text \<open>
  C20. The batch never outgrows its list: recording, barriers and flushes keep the entry count
  and the reserved descriptors within the context's limits, and the list a flush builds from any
  such batch, every prefix counted once although a dispatch may carry two, has at most
  \<^verbatim>\<open>batch_capacity\<close> descriptors of eight words each.
\<close>
theorem batch_fits:
  assumes "batch_ok c" and "16 \<le> batch_capacity c"
  shows "batch_ok (fst (sa_context_batch_add run env g m ns ok c x))
    \<and> batch_ok (sa_context_batch_barrier c)
    \<and> batch_ok (fst (sa_context_batch_flush run env g m ns c))
    \<and> length (batch_rows (entries c)) \<le> batch_capacity c
    \<and> (\<forall>r \<in> set (batch_rows (entries c)). length r = 8)"
proof (intro conjI)
  show "batch_ok (fst (sa_context_batch_add run env g m ns ok c x))" by (rule add_batch_ok [OF assms])
  show "batch_ok (sa_context_batch_barrier c)"
    using assms(1) by (simp add: batch_ok_def sa_context_batch_barrier_def)
  show "batch_ok (fst (sa_context_batch_flush run env g m ns c))" by (rule flush_batch_ok [OF assms(1)])
  obtain hs s where b: "sa_batch_build (entries c) = (hs, s)" by fastforce
  have fr: "fresh (entries c)" using assms(1) by (simp add: batch_ok_def)
  from build_length [OF fr b] assms(1) show "length (batch_rows (entries c)) \<le> batch_capacity c"
    by (simp add: batch_rows_def b batch_ok_def)
  show "\<forall>r \<in> set (batch_rows (entries c)). length r = 8"
    using cmd_rows_shape [OF fr b] by (auto simp: batch_rows_def b)
qed

lemma small_batch_ok: "batch_ok (small_context\<lparr>entries := host_batch, entry_descriptors := 14\<rparr>)"
  by (simp add: batch_ok_def small_context_def host_batch_def mk_entry_def mk_dispatch_def fresh_def
      sa_entry_descriptors_def entry_capacity_def)

theorem batch_fits_witness:
  "length (batch_rows host_batch) \<le> 64"
  using batch_fits [OF small_batch_ok] by (simp add: small_context_def)

section \<open>The list, fetched\<close>

text \<open>The registers after a command, the commands with the registers they meet, and what the unit does.\<close>
definition entry_point :: "dispatch \<Rightarrow> part \<Rightarrow> u32" where
  "entry_point x p = (case p of Prefix \<Rightarrow> prefix_phys x | Head \<Rightarrow> head_phys x | Body \<Rightarrow> body_phys x)"

fun exec_cmd :: "(u32 \<Rightarrow> regfile \<Rightarrow> regfile) \<Rightarrow> entry list \<Rightarrow> cmd \<Rightarrow> regfile \<Rightarrow> regfile" where
  "exec_cmd call es (Setreg ps) f = write_regs ps f"
| "exec_cmd call es (Base15 k) f = f(15 := prefix_base (e_d (es ! k)))"
| "exec_cmd call es (Call p k) f = call (entry_point (e_d (es ! k)) p) f"
| "exec_cmd call es _ f = f"

fun trace :: "(u32 \<Rightarrow> regfile \<Rightarrow> regfile) \<Rightarrow> entry list \<Rightarrow> cmd list \<Rightarrow> regfile \<Rightarrow> (cmd \<times> regfile) list" where
  "trace call es [] f = []"
| "trace call es (c # cs) f = (c, f) # trace call es cs (exec_cmd call es c f)"

fun event :: "entry list \<Rightarrow> cmd \<times> regfile \<Rightarrow> fetch_event list" where
  "event es (Call p k, f) = [Called (entry_point (e_d (es ! k)) p) f]"
| "event es (Fence m, f) = [Fenced (m AND 15)]"
| "event es (End, f) = [Ended 0x5A]"
| "event es (_, f) = []"

definition cmd_ok :: "entry list \<Rightarrow> cmd \<Rightarrow> bool" where
  "cmd_ok es c = (case c of
      Setreg ps \<Rightarrow> length ps \<le> 3 \<and> (\<forall>(r, v) \<in> set ps. unat r < 24)
    | Call p k \<Rightarrow> aligned_dispatch (e_d (es ! k))
    | End \<Rightarrow> False
    | _ \<Rightarrow> True)"

lemma fetch_setreg:
  "length ps \<le> 3 \<Longrightarrow> \<forall>(r, v) \<in> set ps. unat r < 24 \<Longrightarrow>
     fetch_list call (sa_desc_setreg ps # rs) f = fetch_list call rs (write_regs ps f)"
  by (simp add: op_rows setreg_row_writes)

lemma fetch_rows_trace:
  "\<forall>c \<in> set cs. cmd_ok es c \<Longrightarrow>
     fetch_list call (map (cmd_row es) (cs @ [End])) f = concat (map (event es) (trace call es (cs @ [End]) f))"
proof (induction cs arbitrary: f)
  case Nil
  then show ?case by (simp add: fetch_end del: fetch_list.simps)
next
  case (Cons c cs)
  let ?rs = "map (cmd_row es) (cs @ [End])"
  have IH: "fetch_list call ?rs g = concat (map (event es) (trace call es (cs @ [End]) g))" for g
    by (rule Cons.IH) (use Cons.prems in simp)
  have ok: "cmd_ok es c" using Cons.prems by simp
  show ?case
  proof (cases c)
    case (Setreg ps)
    with ok fetch_setreg [of ps call ?rs f] IH show ?thesis by (simp add: cmd_ok_def)
  next
    case (Base15 k)
    with fetch_setreg [of "[(15, prefix_base (e_d (es ! k)))]" call ?rs f] IH show ?thesis by simp
  next
    case (Call p k)
    with ok IH show ?thesis
      by (cases p) (simp_all add: cmd_ok_def aligned_dispatch_def fetch_call entry_point_def del: fetch_list.simps)
  next
    case (Fence m)
    with IH show ?thesis by (simp add: fetch_fence del: fetch_list.simps)
  next
    case End
    with ok show ?thesis by (simp add: cmd_ok_def)
  qed
qed

lemma trace_append:
  "trace call es (xs @ ys) f = trace call es xs f @ trace call es ys (fold (exec_cmd call es) xs f)"
  by (induction xs arbitrary: f) auto

text \<open>
  The templates of the batch behave: those of an entry keep the registers its dispatch set, and
  a prefix, which may run inside another dispatch, changes no register.
\<close>
definition templates_keep :: "(u32 \<Rightarrow> regfile \<Rightarrow> regfile) \<Rightarrow> entry list \<Rightarrow> bool" where
  "templates_keep call es \<longleftrightarrow> (\<forall>e \<in> set es.
     (\<forall>g. call (prefix_phys (e_d e)) g = g)
     \<and> (\<forall>g. \<forall>(r, v) \<in> set (regs (e_d e)). call (head_phys (e_d e)) g (unat r) = g (unat r)))"

definition regs_hold :: "dispatch \<Rightarrow> regfile \<Rightarrow> bool" where
  "regs_hold x g \<longleftrightarrow> (\<forall>(r, v) \<in> set (regs x). g (unat r) = v)"

definition registers_set :: "entry list \<Rightarrow> cmd \<times> regfile \<Rightarrow> bool" where
  "registers_set es cf = (case cf of
      (Call Prefix k, g) \<Rightarrow> g 15 = prefix_base (e_d (es ! k))
    | (Call p k, g) \<Rightarrow> regs_hold (e_d (es ! k)) g
    | _ \<Rightarrow> True)"

lemma setreg_cmds_fold: "fold (exec_cmd call es) (setreg_cmds ps) f = write_regs ps f"
proof (induction ps arbitrary: f rule: setreg_cmds.induct)
  case 1
  then show ?case by simp
next
  case (2 p ps)
  have "write_regs (drop 2 ps) (write_regs (take 3 (p # ps)) f) = write_regs (p # ps) f"
    by (metis append_take_drop_id drop_Suc_Cons numeral_2_eq_2 numeral_3_eq_3 write_regs_append)
  with 2 show ?case by simp
qed

lemma setreg_cmds_trace: "cf \<in> set (trace call es (setreg_cmds ps) f) \<Longrightarrow> registers_set es cf"
  by (induction ps arbitrary: f rule: setreg_cmds.induct) (auto simp: registers_set_def)

lemma entry_trace:
  assumes keep: "templates_keep call es" and len: "i < length es" and k: "\<And>k. host (es ! i) = Some k \<Longrightarrow> k < length es"
    and ok: "regs_ok (e_d (es ! i))" and n15: "15 \<notin> fst ` set (regs (e_d (es ! i)))"
    and cf: "cf \<in> set (trace call es (entry_cmds es i early) f)"
  shows "registers_set es cf"
proof -
  let ?x = "e_d (es ! i)" and ?f = "write_regs (regs (e_d (es ! i))) f"
  have h0: "regs_hold ?x ?f" using ok by (auto simp: regs_hold_def regs_ok_def intro: write_regs_in)
  have ne: "unat r \<noteq> 15" if "(r, v) \<in> set (regs ?x)" for r v
  proof
    assume "unat r = 15"
    then have "r = 15" by (simp add: word_unat_eq_iff)
    with that n15 show False by force
  qed
  have upd: "regs_hold ?x (g(15 := b))" if "regs_hold ?x g" for g b
    using that ne by (auto simp: regs_hold_def)
  have upd': "regs_hold ?x (\<lambda>a. if a = 15 then b else g a)" if "regs_hold ?x g" for g b
    using upd [OF that, of b] by (simp add: fun_upd_def)
  have pre: "call (prefix_phys (e_d (es ! j))) g = g" if "j < length es" for j g
    using keep that by (simp add: templates_keep_def)
  have head: "regs_hold ?x (call (head_phys ?x) g)" if "regs_hold ?x g" for g
    using keep that nth_mem [OF len] by (fastforce simp: templates_keep_def regs_hold_def)
  show ?thesis
    using cf unfolding entry_cmds_def Let_def
    by (auto simp: trace_append setreg_cmds_fold prefix_cmds_def registers_set_def entry_point_def pre len k h0 upd upd' head
        split: if_splits option.splits dest!: setreg_cmds_trace)
qed

lemma setreg_cmds_ok:
  "\<forall>(r, v) \<in> set ps. unat r < 24 \<Longrightarrow> c \<in> set (setreg_cmds ps) \<Longrightarrow> cmd_ok es c"
proof (induction ps rule: setreg_cmds.induct)
  case (2 p ps)
  have "\<forall>(r, v) \<in> set (drop 2 ps). unat r < 24" "\<forall>(r, v) \<in> set (take 2 ps). unat r < 24"
    using 2(2) by (auto dest: in_set_dropD in_set_takeD)
  with 2 show ?case by (auto simp: cmd_ok_def)
qed simp

text \<open>A dispatch the runtime can batch: valid registers but BASE15, aligned entry points.\<close>
definition batchable :: "entry list \<Rightarrow> bool" where
  "batchable es \<longleftrightarrow> fresh es \<and>
     (\<forall>e \<in> set es. regs_ok (e_d e) \<and> aligned_dispatch (e_d e) \<and> 15 \<notin> fst ` set (regs (e_d e)))"

lemma entry_cmds_ok:
  assumes "\<forall>e \<in> set hs. regs_ok (e_d e) \<and> aligned_dispatch (e_d e)" and "i < length hs"
    and "\<And>k. host (hs ! i) = Some k \<Longrightarrow> k < length hs" and "c \<in> set (entry_cmds hs i early)"
  shows "cmd_ok hs c"
proof -
  have ok: "regs_ok (e_d (hs ! j))" "aligned_dispatch (e_d (hs ! j))" if "j < length hs" for j
    using assms(1) that by auto
  show ?thesis
    using assms(2,3,4) ok setreg_cmds_ok [of "regs (e_d (hs ! i))" c hs]
    by (auto simp: entry_cmds_def Let_def regs_ok_def split: if_splits option.splits) (auto simp: cmd_ok_def)
qed

lemma batch_trace:
  assumes h: "hosts_ok es (length es) hs" and ok: "\<forall>e \<in> set hs. regs_ok (e_d e) \<and> aligned_dispatch (e_d e)
      \<and> 15 \<notin> fst ` set (regs (e_d e))"
    and keep: "templates_keep call hs" and "n \<le> length hs"
  shows "(\<forall>c \<in> set (cmds (fold (emit_entry hs) [0..<n] initial_build)). cmd_ok hs c)
    \<and> (\<forall>cf \<in> set (trace call hs (cmds (fold (emit_entry hs) [0..<n] initial_build)) f). registers_set hs cf)"
  using assms(4)
proof (induction n)
  case 0
  then show ?case by (simp add: initial_build_def)
next
  case (Suc n)
  let ?s = "fold (emit_entry hs) [0..<n] initial_build"
  have len: "length hs = length es" using h by (simp add: hosts_ok_def)
  obtain new early m where e: "cmds (emit_entry hs n ?s) = cmds ?s @ new @ entry_cmds hs n early"
    "early \<longrightarrow> new = prefix_cmds n @ [Fence m]" "\<not> early \<longrightarrow> new = [] \<or> new = [Fence m]"
    using emit_entry_cmds [of hs n ?s] by blast
  have n: "n < length hs" using Suc.prems by simp
  have okn: "regs_ok (e_d (hs ! n))" "aligned_dispatch (e_d (hs ! n))" "15 \<notin> fst ` set (regs (e_d (hs ! n)))"
    using ok n by auto
  have k: "k < length hs" if "host (hs ! n) = Some k" for k
    using host_props(2) [OF h that] n len by simp
  have "cmd_ok hs c" if "c \<in> set new" for c
    using that e(2,3) okn(2) by (cases early) (auto simp: cmd_ok_def)
  moreover have "cmd_ok hs c" if "c \<in> set (entry_cmds hs n early)" for c
    using entry_cmds_ok [OF _ n k that] ok by blast
  moreover have "registers_set hs cf" if "cf \<in> set (trace call hs new g)" for cf g
    using that e(2,3) by (cases early) (auto simp: prefix_cmds_def registers_set_def)
  moreover have "registers_set hs cf" if "cf \<in> set (trace call hs (entry_cmds hs n early) g)" for cf g
    by (rule entry_trace [OF keep n k okn(1,3) that])
  ultimately show ?case using Suc by (auto simp: e(1) trace_append)
qed

lemma trace_mem: "(c, g) \<in> set (trace call es cs f) \<Longrightarrow> c \<in> set cs"
  by (induction cs arbitrary: f) auto

lemma emit_all_owners:
  assumes h: "hosts_ok es (length es) hs" and "n \<le> length es"
  shows "owners_below (length es) (cmds (fold (emit_entry hs) [0..<n] initial_build))"
  using assms(2)
proof (induction n)
  case 0
  then show ?case by (simp add: initial_build_def owners_below_def)
next
  case (Suc n)
  let ?s = "fold (emit_entry hs) [0..<n] initial_build"
  obtain new early m where e: "cmds (emit_entry hs n ?s) = cmds ?s @ new @ entry_cmds hs n early"
    "early \<longrightarrow> new = prefix_cmds n @ [Fence m]" "\<not> early \<longrightarrow> new = [] \<or> new = [Fence m]"
    using emit_entry_cmds [of hs n ?s] by blast
  have "owners_below (length es) new"
    using e(2,3) Suc.prems by (cases early) (auto simp: owners_below_def)
  moreover have "owners_below (length es) (entry_cmds hs n early)"
    using Suc.prems host_props(2) [OF h] by (fastforce simp: owners_below_def elim!: entry_cmds_cases)
  ultimately show ?case using Suc by (simp add: e(1))
qed

text \<open>
  C19. The batch, run by the fetch unit: the descriptors do what the commands say, none is
  rejected, the list ends with 0x5A; and when the templates keep the registers their dispatch
  set and prefixes change none, every head and every body is called with all register values of
  its own dispatch in place, and every prefix with its base in BASE15, wherever it was moved.
\<close>
theorem batch_registers:
  assumes "batchable es" and "sa_batch_build es = (hs, s)" and "templates_keep call es"
  shows "fetch_list call (batch_rows es) f = concat (map (event hs) (trace call hs (cmds s) f))
    \<and> (\<forall>c g. (c, g) \<in> set (trace call hs (cmds s) f) \<longrightarrow> (case c of
         Call Prefix k \<Rightarrow> g 15 = prefix_base (e_d (es ! k))
       | Call p k \<Rightarrow> (\<forall>(r, v) \<in> set (regs (e_d (es ! k))). g (unat r) = v)
       | _ \<Rightarrow> True))"
proof -
  have fr: "fresh es" using assms(1) by (simp add: batchable_def)
  note b = build_facts [OF fr assms(2)]
  have mem: "\<exists>e' \<in> set es. e_d e = e_d e'" if "e \<in> set hs" for e
    using that b(2,3) by (metis in_set_conv_nth)
  have ok: "\<forall>e \<in> set hs. regs_ok (e_d e) \<and> aligned_dispatch (e_d e) \<and> 15 \<notin> fst ` set (regs (e_d e))"
  proof
    fix e assume "e \<in> set hs"
    with mem obtain e' where "e' \<in> set es" "e_d e = e_d e'" by blast
    with assms(1) show "regs_ok (e_d e) \<and> aligned_dispatch (e_d e) \<and> 15 \<notin> fst ` set (regs (e_d e))"
      by (simp add: batchable_def)
  qed
  have keep: "templates_keep call hs"
    unfolding templates_keep_def
  proof
    fix e assume "e \<in> set hs"
    with mem obtain e' where "e' \<in> set es" "e_d e = e_d e'" by blast
    with assms(3) show "(\<forall>g. call (prefix_phys (e_d e)) g = g)
        \<and> (\<forall>g. \<forall>(r, v) \<in> set (regs (e_d e)). call (head_phys (e_d e)) g (unat r) = g (unat r))"
      by (simp add: templates_keep_def)
  qed
  note tr = batch_trace [OF b(1) ok keep, of "length es" f, unfolded b(2), OF order.refl]
  have "fetch_list call (batch_rows es) f = concat (map (event hs) (trace call hs (cmds s) f))"
    unfolding batch_rows_def assms(2) prod.case b(5) using tr by (intro fetch_rows_trace) blast
  moreover have "case c of Call Prefix k \<Rightarrow> g 15 = prefix_base (e_d (es ! k))
       | Call p k \<Rightarrow> (\<forall>(r, v) \<in> set (regs (e_d (es ! k))). g (unat r) = v) | _ \<Rightarrow> True"
    if cg: "(c, g) \<in> set (trace call hs (cmds s) f)" for c g
  proof (cases c)
    case (Call p k)
    have "(c, g) \<in> set (trace call hs (cmds (fold (emit_entry hs) [0..<length es] initial_build)) f)"
      using cg Call by (auto simp: b(5) trace_append)
    with tr have rs: "registers_set hs (c, g)" by blast
    have "c \<in> set (cmds (fold (emit_entry hs) [0..<length es] initial_build))"
      using trace_mem [OF cg] Call by (auto simp: b(5))
    then have "k < length es"
      using emit_all_owners [OF b(1) order.refl] Call by (auto simp: owners_below_def)
    with rs Call b(3) show ?thesis by (cases p) (auto simp: registers_set_def regs_hold_def)
  qed simp_all
  ultimately show ?thesis by blast
qed

lemma host_batch_ok: "batchable host_batch"
  by (simp add: batchable_def host_batch_def mk_entry_def mk_dispatch_def fresh_def regs_ok_def aligned_dispatch_def)

theorem batch_registers_witness:
  "fetch_list (\<lambda>a g. g) (batch_rows host_batch) (\<lambda>_. 0) =
     concat (map (event (fst (sa_batch_build host_batch)))
       (trace (\<lambda>a g. g) (fst (sa_batch_build host_batch)) (cmds (snd (sa_batch_build host_batch))) (\<lambda>_. 0)))"
  using batch_registers [OF host_batch_ok prod.collapse [symmetric], of "\<lambda>a g. g" "\<lambda>_. 0"]
  by (simp add: templates_keep_def)

section \<open>Flush\<close>

text \<open>
  C21. Flushing a non-empty batch clears it in every case, together with a pending barrier. The
  list of the recorded entries is run exactly once at the batch's address (or not at all while a
  dry recorder is set); the flush succeeds exactly when the device reports status 0 and the END
  value 0x5A, and only then is the list profiled; otherwise the transport's own error, or
  INTERNAL, is returned.
\<close>
theorem batch_flush_correct:
  assumes "entries c \<noteq> []" and "sa_context_batch_flush run env g m ns c = (c', st)"
    and "(dv, r) = (if dry_run c then (device c, Inr (completion_end 0x5A))
                  else run (device c) (batch_phys c) (batch_rows (entries c)))"
  shows "entries c' = [] \<and> entry_descriptors c' = 0 \<and> \<not> batch_fence c' \<and> lists c' = lists c + 1 \<and> device c' = dv
    \<and> (case r of
         Inl e \<Rightarrow> st = Inl e \<and> prof c' = prof c
       | Inr d \<Rightarrow> if c_status d = 0 \<and> c_end d = 0x5A
                 then st = Inr () \<and> prof c' = sa_context_profile_record env (prof c) ''(list of dispatches)'' (c_cycles d) ns (Some d)
                 else st = Inl INTERNAL \<and> prof c' = prof c)"
proof -
  obtain hs s where b: "sa_batch_build (entries c) = (hs, s)" by fastforce
  have rows: "batch_rows (entries c) = map (cmd_row hs) (cmds s)" by (simp add: batch_rows_def b)
  have prof: "prof (sa_record_list g m rs c) = prof c" for rs by (simp add: sa_record_list_def)
  show ?thesis
  proof (cases r)
    case (Inl e)
    with assms rows prof show ?thesis
      by (auto simp: sa_context_batch_flush_def b Let_def flush_status_def split: prod.splits if_splits)
  next
    case (Inr d)
    with assms rows prof show ?thesis
      by (auto simp: sa_context_batch_flush_def b Let_def flush_status_def split: prod.splits if_splits)
  qed
qed

theorem batch_flush_correct_witness:
  "case sa_context_batch_flush (\<lambda>d p rs. (d, Inl DATA_LOSS)) True True True 0 (small_context\<lparr>entries := host_batch\<rparr>) of
     (c', st) \<Rightarrow> entries c' = [] \<and> lists c' = 1 \<and> st = Inl DATA_LOSS"
  using batch_flush_correct [of "small_context\<lparr>entries := host_batch\<rparr>" "\<lambda>d p rs. (d, Inl DATA_LOSS)" True True True 0,
      OF _ prod.collapse [symmetric], of 0 "Inl DATA_LOSS"]
  by (simp add: small_context_def host_batch_def dry_run_def split_beta)

end
