(* ===== verification/SaRv.thy ===== *)
theory SaRv
  imports Batch "HOL-Library.Char_ord" "HOL-Library.List_Lexorder" "HOL-Library.Sublist"
begin

text \<open>
  Dispatches through generated RISC-V code (\<^verbatim>\<open>compiler/runtime/sa/sa_rv.c\<close>): the symbol of an
  export, the lookup of its function in a code image or in the executable's own code, and the
  call with its argument block. The transport's \<^verbatim>\<open>run_call\<close> is a parameter.
\<close>

section \<open>State\<close>

text \<open>\<^verbatim>\<open>sa_rv.state\<close>: 0 not loaded, 1 off, 2 an image, 3 the executables' embedded code.\<close>
datatype rv_mode = NotLoaded | Off | Image | Embedded

record rv_entry =
  symbol :: string
  offset :: u32

record rv =
  rv_mode :: rv_mode
  rv_code_phys :: u32
  rv_entries :: "rv_entry list"
  scratch_phys :: u32
  scratch_ready :: bool
  only :: string

text \<open>The transport as this file sees it: whether it has \<^verbatim>\<open>run_call\<close>, and whether it is the board.\<close>
record call_transport =
  has_run_call :: bool
  is_board :: bool

section \<open>Symbols\<close>

definition alnum :: "char \<Rightarrow> bool" where
  "alnum ch \<longleftrightarrow> (CHR ''a'' \<le> ch \<and> ch \<le> CHR ''z'') \<or> (CHR ''A'' \<le> ch \<and> ch \<le> CHR ''Z'')
     \<or> (CHR ''0'' \<le> ch \<and> ch \<le> CHR ''9'')"

text \<open>The name with every character but letters and digits replaced (also \<^verbatim>\<open>riscvSymbol\<close> of the compiler).\<close>
definition rv_symbol :: "string \<Rightarrow> string" where
  "rv_symbol name = map (\<lambda>ch. if alnum ch then ch else CHR ''_'') name"

section \<open>Lookup\<close>

text \<open>\<^verbatim>\<open>bsearch\<close> over the table \<^verbatim>\<open>qsort\<close> ordered by symbol: halving the interval from \<open>lo\<close> to \<open>hi\<close>.\<close>
function rv_bsearch :: "string \<Rightarrow> rv_entry list \<Rightarrow> nat \<Rightarrow> nat \<Rightarrow> rv_entry option" where
  "rv_bsearch key es lo hi =
     (if lo \<ge> hi then None
      else let mid = (lo + hi) div 2; s = symbol (es ! mid) in
           if key = s then Some (es ! mid)
           else if key < s then rv_bsearch key es lo mid
           else rv_bsearch key es (Suc mid) hi)"
  by pat_completeness auto
termination
  by (relation "measure (\<lambda>(key, es, lo, hi). hi - lo)") auto

declare rv_bsearch.simps [simp del]

definition rv_find :: "string \<Rightarrow> rv \<Rightarrow> u32" where
  "rv_find key r =
     (case rv_bsearch key (rv_entries r) 0 (length (rv_entries r)) of
        None \<Rightarrow> 0
      | Some e \<Rightarrow> rv_code_phys r + offset e)"

text \<open>\<^verbatim>\<open>strtok(list, ",")\<close>: the non-empty parts.\<close>
fun split_commas :: "string \<Rightarrow> string \<Rightarrow> string list" where
  "split_commas acc [] = (if acc = [] then [] else [acc])"
| "split_commas acc (ch # cs) =
     (if ch = CHR '','' then (if acc = [] then split_commas [] cs else acc # split_commas [] cs)
      else split_commas (acc @ [ch]) cs)"

text \<open>\<^verbatim>\<open>SA_RV_ONLY\<close>: does one of its names occur in the symbol?\<close>
definition only_hit :: "string \<Rightarrow> string \<Rightarrow> bool" where
  "only_hit only_list fn = list_ex (\<lambda>t. sublist t fn) (split_commas [] only_list)"

text \<open>
  \<^verbatim>\<open>sa_rv_lookup\<close> once the state is loaded; \<open>cap\<close> is the symbol buffer, \<open>scratch\<close> the result of
  allocating the argument block. The symbol written and the function (0: none).
\<close>
definition sa_rv_lookup ::
  "call_transport \<Rightarrow> status + u32 \<Rightarrow> rv \<Rightarrow> string \<Rightarrow> nat \<Rightarrow> u32 \<Rightarrow> bool \<Rightarrow> rv \<times> (status + string \<times> u32)" where
  "sa_rv_lookup t scratch r name cap embedded_phys required =
     (if length name + 1 > cap then (r, Inr ([], 0))
      else
        let fn = rv_symbol name in
        if required then
          (if embedded_phys \<noteq> 0 \<and> has_run_call t \<and> is_board t then
             (if scratch_ready r then (r, Inr (fn, embedded_phys))
              else case scratch of
                     Inl e \<Rightarrow> (r, Inl e)
                   | Inr p \<Rightarrow> (r\<lparr>scratch_ready := True, scratch_phys := p\<rparr>, Inr (fn, embedded_phys)))
           else if rv_mode r = Image then (r, Inr (fn, rv_find fn r))
           else (r, Inr (fn, 0)))
        else if rv_mode r \<noteq> Image \<and> rv_mode r \<noteq> Embedded then (r, Inr (fn, 0))
        else if only r = ''rv_only'' then (r, Inr (fn, 0))
        else if only r \<noteq> [] \<and> \<not> only_hit (only r) fn then (r, Inr (fn, 0))
        else if rv_mode r = Embedded then (r, Inr (fn, embedded_phys))
        else (r, Inr (fn, rv_find fn r)))"

text \<open>\<^verbatim>\<open>sa_rv_symbol_at\<close>\<close>
definition sa_rv_symbol_at :: "rv \<Rightarrow> u32 \<Rightarrow> string option" where
  "sa_rv_symbol_at r phys = map_option symbol (find (\<lambda>e. rv_code_phys r + offset e = phys) (rv_entries r))"

section \<open>Calls\<close>

text \<open>The argument block: 16 binding addresses, then the constants, 64 words.\<close>
definition rv_block :: "u32 list \<Rightarrow> u32 list \<Rightarrow> u32 list" where
  "rv_block binds cs =
     map (\<lambda>i. if i < length binds then binds ! i else 0) [0..<16]
     @ take 48 cs @ replicate (48 - length cs) 0"

text \<open>The result of a call: status of the transport, of the device, then success.\<close>
definition call_status :: "status + completion \<Rightarrow> status + completion" where
  "call_status res =
     (case res of Inl e \<Rightarrow> Inl e | Inr d \<Rightarrow> if c_status d \<noteq> 0 then Inl INTERNAL else Inr d)"

definition sa_rv_call ::
  "'dev transport_run \<Rightarrow> ('dev \<Rightarrow> u32 \<Rightarrow> u32 \<Rightarrow> u32 list \<Rightarrow> string \<Rightarrow> 'dev \<times> (status + completion))
     \<Rightarrow> bool \<Rightarrow> bool \<Rightarrow> bool \<Rightarrow> u64 \<Rightarrow> rv \<Rightarrow> 'dev sa_context \<Rightarrow> string \<Rightarrow> string \<Rightarrow> u32 \<Rightarrow> u32 list \<Rightarrow> u32 list
     \<Rightarrow> 'dev sa_context \<times> (status + unit)" where
  "sa_rv_call run run_call env g m host_ns r c name fn code binds cs =
     (if length binds > 16 \<or> length cs > 48 then (c, Inl OUT_OF_RANGE)
      else case sa_context_batch_flush run env g m host_ns c of
        (c1, Inl e) \<Rightarrow> (c1, Inl e)
      | (c1, Inr _) \<Rightarrow>
          (let block = rv_block binds cs;
               c2 = c1\<lparr>recording := map_option (\<lambda>q. sa_record_add g m q code block) (recording c1)\<rparr>;
               count = (\<lambda>x. x\<lparr>dispatches := dispatches x + 1, rv_calls := rv_calls x + 1\<rparr>)
           in if dry_run c2 then (count c2, Inr ())
              else
                let (dev, res) = run_call (device c2) code (scratch_phys r) block fn;
                    c3 = count (c2\<lparr>device := dev\<rparr>)
                in case call_status res of
                     Inl e \<Rightarrow> (c3, Inl e)
                   | Inr d \<Rightarrow> (c3\<lparr>prof := sa_context_profile_record env (prof c3) name (c_cycles d) host_ns (Some d)\<rparr>, Inr ())))"

section \<open>Lemmas\<close>

lemma length_rv_block: "length cs \<le> 48 \<Longrightarrow> length (rv_block binds cs) = 64"
  by (simp add: rv_block_def)

lemma rv_block_nth:
  assumes "length binds \<le> 16" and "length cs \<le> 48"
  shows "i < length binds \<Longrightarrow> rv_block binds cs ! i = binds ! i"
    and "i < length cs \<Longrightarrow> rv_block binds cs ! (16 + i) = cs ! i"
  using assms by (simp_all add: rv_block_def nth_append)

text \<open>On a table in strictly increasing symbol order the search is the lookup by symbol.\<close>
definition rv_sorted :: "rv_entry list \<Rightarrow> bool" where
  "rv_sorted es \<longleftrightarrow> sorted_wrt (\<lambda>a b. symbol a < symbol b) es"

lemma bsearch_Some: "hi \<le> length es \<Longrightarrow> rv_bsearch key es lo hi = Some e \<Longrightarrow> e \<in> set es \<and> symbol e = key"
proof (induction key es lo hi rule: rv_bsearch.induct)
  case (1 key es lo hi)
  show ?case
  proof (cases "lo \<ge> hi")
    case True
    with 1 show ?thesis by (simp add: rv_bsearch.simps)
  next
    case False
    let ?m = "(lo + hi) div 2"
    have m: "?m < hi" "lo \<le> ?m" using False by auto
    consider "key = symbol (es ! ?m)" | "key \<noteq> symbol (es ! ?m)" "key < symbol (es ! ?m)"
      | "key \<noteq> symbol (es ! ?m)" "\<not> key < symbol (es ! ?m)" by blast
    then show ?thesis
    proof cases
      case 1
      with False have "rv_bsearch key es lo hi = Some (es ! ?m)"
        by (subst rv_bsearch.simps) (simp add: Let_def)
      with 1 "1.prems" m show ?thesis by simp
    next
      case 2
      with False "1.prems" m "1.IH"(1) [OF False refl refl 2] show ?thesis
        by (simp add: rv_bsearch.simps [of key es lo hi])
    next
      case 3
      with False "1.prems" m "1.IH"(2) [OF False refl refl 3] show ?thesis
        by (simp add: rv_bsearch.simps [of key es lo hi])
    qed
  qed
qed

lemma bsearch_found:
  assumes "rv_sorted es" and "hi \<le> length es" and "lo \<le> i" and "i < hi"
  shows "rv_bsearch (symbol (es ! i)) es lo hi = Some (es ! i)"
  using assms
proof (induction "symbol (es ! i)" es lo hi rule: rv_bsearch.induct)
  case (1 es lo hi)
  let ?m = "(lo + hi) div 2" and ?key = "symbol (es ! i)"
  have ne: "\<not> lo \<ge> hi" using 1 by simp
  then have m: "?m < hi" "lo \<le> ?m" by auto
  have less: "symbol (es ! a) < symbol (es ! b)" if "a < b" "b < hi" for a b
    using "1.prems"(1,2) that by (simp add: rv_sorted_def sorted_wrt_iff_nth_less)
  consider "i = ?m" | "i < ?m" | "?m < i" by linarith
  then show ?case
  proof cases
    case 1
    with ne show ?thesis by (subst rv_bsearch.simps) (simp add: Let_def)
  next
    case 2
    with less m(1) have k: "?key < symbol (es ! ?m)" by blast
    then have k': "?key \<noteq> symbol (es ! ?m)" by auto
    have "rv_bsearch ?key es lo ?m = Some (es ! i)"
      using "1.hyps"(1) [OF ne refl refl k' k] "1.prems" 2 m by simp
    with ne k k' show ?thesis by (simp add: rv_bsearch.simps [of ?key es lo hi])
  next
    case 3
    with less "1.prems"(4) have k: "symbol (es ! ?m) < ?key" by blast
    then have k': "?key \<noteq> symbol (es ! ?m)" "\<not> ?key < symbol (es ! ?m)" by auto
    have "rv_bsearch ?key es (Suc ?m) hi = Some (es ! i)"
      using "1.hyps"(2) [OF ne refl refl k'] "1.prems" 3 m by simp
    with ne k' show ?thesis by (simp add: rv_bsearch.simps [of ?key es lo hi])
  qed
qed

lemma bsearch_iff:
  assumes "rv_sorted es"
  shows "rv_bsearch key es 0 (length es) = Some e \<longleftrightarrow> e \<in> set es \<and> symbol e = key"
proof
  show "rv_bsearch key es 0 (length es) = Some e \<Longrightarrow> e \<in> set es \<and> symbol e = key"
    by (rule bsearch_Some [OF order.refl])
next
  assume "e \<in> set es \<and> symbol e = key"
  then obtain i where "i < length es" "es ! i = e" "symbol (es ! i) = key" by (metis in_set_conv_nth)
  with bsearch_found [OF assms order.refl, of 0 i] show "rv_bsearch key es 0 (length es) = Some e" by simp
qed

text \<open>
  C27. With a code image loaded and no name filter, an export finds the function of its symbol
  exactly when the image has one: the address is the image's base plus the function's offset,
  and without an entry it is 0; the binary search never misses an entry of the sorted table.
\<close>
theorem rv_lookup_image:
  assumes "rv_mode r = Image" and "rv_sorted (rv_entries r)" and "only r = []" and "length name < cap"
  shows "(\<forall>e \<in> set (rv_entries r). symbol e = rv_symbol name \<longrightarrow>
            sa_rv_lookup t scratch r name cap emb False = (r, Inr (rv_symbol name, rv_code_phys r + offset e)))
    \<and> (rv_symbol name \<notin> symbol ` set (rv_entries r) \<longrightarrow>
            sa_rv_lookup t scratch r name cap emb False = (r, Inr (rv_symbol name, 0)))"
proof -
  have look: "sa_rv_lookup t scratch r name cap emb False = (r, Inr (rv_symbol name, rv_find (rv_symbol name) r))"
    using assms by (simp add: sa_rv_lookup_def Let_def)
  have "rv_find (rv_symbol name) r = rv_code_phys r + offset e"
    if "e \<in> set (rv_entries r)" "symbol e = rv_symbol name" for e
    using bsearch_iff [OF assms(2), of "rv_symbol name" e] that by (simp add: rv_find_def)
  moreover have "rv_find (rv_symbol name) r = 0" if "rv_symbol name \<notin> symbol ` set (rv_entries r)"
  proof (cases "rv_bsearch (rv_symbol name) (rv_entries r) 0 (length (rv_entries r))")
    case None
    then show ?thesis by (simp add: rv_find_def)
  next
    case (Some e)
    with bsearch_iff [OF assms(2)] that show ?thesis by (metis image_eqI)
  qed
  ultimately show ?thesis unfolding look by simp
qed

definition small_rv :: rv where
  "small_rv = \<lparr>rv_mode = Image, rv_code_phys = 0x1000, rv_entries = [\<lparr>symbol = ''a_b'', offset = 0x40\<rparr>,
     \<lparr>symbol = ''f'', offset = 0x80\<rparr>], scratch_phys = 0, scratch_ready = True, only = []\<rparr>"

theorem rv_lookup_image_witness:
  "sa_rv_lookup \<lparr>has_run_call = True, is_board = False\<rparr> (Inr 0) small_rv ''a.b'' 160 0 False =
     (small_rv, Inr (''a_b'', 0x1040))"
proof -
  have "rv_symbol ''a.b'' = ''a_b''" by code_simp
  moreover have "''a_b'' < ''f''" by code_simp
  ultimately show ?thesis
    using rv_lookup_image [of small_rv "''a.b''" 160 "\<lparr>has_run_call = True, is_board = False\<rparr>" "Inr 0" 0]
    by (simp add: small_rv_def rv_sorted_def)
qed

text \<open>
  A call of generated code: too many arguments are refused before anything happens;
  otherwise the recorded dispatches are flushed first and their error is the call's. Then the
  function runs once, on the device as the flush left it, with a block of 64 words that holds
  every binding address and every constant at its place and zeros elsewhere, and the call
  succeeds exactly when the transport does and the device reports status 0; under a dry
  recorder it only records the block.
\<close>
theorem rv_call_correct:
  assumes "sa_rv_call run run_call env g True ns r c name fn code binds cs = (c', st)"
    and "sa_context_batch_flush run env g True ns c = (c1, fst1)"
    and "(dv, res) = run_call (device c1) code (scratch_phys r) block fn"
    and "block = rv_block binds cs"
  shows "if length binds > 16 \<or> length cs > 48 then c' = c \<and> st = Inl OUT_OF_RANGE
    else (case fst1 of Inl e \<Rightarrow> c' = c1 \<and> st = Inl e | Inr _ \<Rightarrow>
       length block = 64
       \<and> (\<forall>i < length binds. block ! i = binds ! i) \<and> (\<forall>i < length cs. block ! (16 + i) = cs ! i)
       \<and> entries c' = entries c1 \<and> rv_calls c' = rv_calls c1 + 1 \<and> dispatches c' = dispatches c1 + 1
       \<and> (if dry_run c1 then device c' = device c1 \<and> st = Inr ()
         else device c' = dv \<and> (st = Inr () \<longleftrightarrow> (\<exists>d. res = Inr d \<and> c_status d = 0))))"
proof (cases "length binds > 16 \<or> length cs > 48")
  case True
  with assms(1) show ?thesis by (simp add: sa_rv_call_def)
next
  case False
  show ?thesis
  proof (cases fst1)
    case (Inl e)
    with False assms(1,2) show ?thesis by (auto simp: sa_rv_call_def)
  next
    case (Inr u)
    have dry: "dry_run (c1\<lparr>recording := map_option (\<lambda>q. sa_record_add g True q code block) (recording c1)\<rparr>) = dry_run c1"
      by (cases "recording c1") (simp_all add: dry_run_def)
    have "(if dry_run c1 then device c' = device c1 \<and> st = Inr ()
         else device c' = dv \<and> (st = Inr () \<longleftrightarrow> (\<exists>d. res = Inr d \<and> c_status d = 0)))
       \<and> entries c' = entries c1 \<and> rv_calls c' = rv_calls c1 + 1 \<and> dispatches c' = dispatches c1 + 1"
    proof (cases "dry_run c1")
      case True
      with Inr False assms(1,2) dry show ?thesis
        by (auto simp: sa_rv_call_def Let_def assms(4))
    next
      case nd: False
      with Inr False assms(1,2,3) dry show ?thesis
        by (cases res) (auto simp: sa_rv_call_def Let_def assms(4) call_status_def split: prod.splits if_splits)
    qed
    with Inr False rv_block_nth [of binds cs] length_rv_block [of cs binds] show ?thesis
      by (simp add: assms(4))
  qed
qed

theorem rv_call_correct_witness:
  "rv_calls (fst (sa_rv_call (\<lambda>d p rs. (d, Inr (completion_end 0x5A))) (\<lambda>d a s b f. (d + 1, Inr (completion_end 0)))
      True True True 0 small_rv small_context ''f'' ''f'' 0x1080 [0x100, 0x200] [7])) = 1"
  using rv_call_correct [OF prod.collapse [symmetric] prod.collapse [symmetric] prod.collapse refl,
      where run = "\<lambda>d p rs. (d, Inr (completion_end 0x5A))" and r = small_rv and c = small_context
        and run_call = "\<lambda>d a s b f. (d + 1, Inr (completion_end 0))" and env = True and g = True and ns = 0
        and name = "''f''" and fn = "''f''" and code = "0x1080" and binds = "[0x100, 0x200]" and cs = "[7]"]
  by (simp add: small_context_def sa_context_batch_flush_def)

end
