(* ===== verification/Loader.thy ===== *)
theory Loader
  imports SaRv
begin

text \<open>
  The executable loader (\<^verbatim>\<open>compiler/runtime/sa/sa_loader.c\<close>): parsing and checking of an sa-desc
  file, the registers of a dispatch from an export's setup table, the dispatch record handed to
  the context, and the two ways of running it. A read outside the file or outside an argument
  array is undefined in C; here it is \<open>None\<close>, so that its absence is a theorem. Offsets and
  sizes of the file are 32-bit and their sums are computed in 64 bits, where they cannot wrap;
  they are natural numbers here.
\<close>

section \<open>Reading\<close>

type_synonym 'a ld = "(status + 'a) option"

definition bind_ld :: "'a ld \<Rightarrow> ('a \<Rightarrow> 'b ld) \<Rightarrow> 'b ld" where
  "bind_ld m f = (case m of None \<Rightarrow> None | Some (Inl e) \<Rightarrow> Some (Inl e) | Some (Inr x) \<Rightarrow> f x)"

abbreviation ret :: "'a \<Rightarrow> 'a ld" where
  "ret x \<equiv> Some (Inr x)"

definition fail_if :: "bool \<Rightarrow> status \<Rightarrow> unit ld" where
  "fail_if b e = (if b then Some (Inl e) else ret ())"

fun map_ld :: "('a \<Rightarrow> 'b ld) \<Rightarrow> 'a list \<Rightarrow> 'b list ld" where
  "map_ld f [] = ret []"
| "map_ld f (x # xs) = bind_ld (f x) (\<lambda>y. bind_ld (map_ld f xs) (\<lambda>ys. ret (y # ys)))"

text \<open>The bytes \<open>[off, off + n)\<close> of the file, and the little-endian number they hold.\<close>
definition file_slice :: "u8 list \<Rightarrow> nat \<Rightarrow> nat \<Rightarrow> u8 list ld" where
  "file_slice data off n = (if off + n \<le> length data then ret (take n (drop off data)) else None)"

fun le_value :: "u8 list \<Rightarrow> nat" where
  "le_value [] = 0"
| "le_value (b # bs) = unat b + 256 * le_value bs"

definition field :: "u8 list \<Rightarrow> nat \<Rightarrow> nat \<Rightarrow> nat" where
  "field bs off n = le_value (take n (drop off bs))"

section \<open>The file\<close>

record file_header =
  version :: u32
  h_d :: u32
  h_caps :: u32
  export_count :: u32
  export_offset :: u32
  templates_offset :: u32
  templates_bytes :: u32
  strings_offset :: u32
  strings_bytes :: u32
  ext_offset :: u32
  code_offset :: u32

record file_export =
  name_offset :: u32
  name_length :: u32
  template_offset :: u32
  descriptor_count :: u32
  binding_count :: u16
  constant_count :: u16
  setup_count :: u32
  est_cycles :: u32
  setup_offset :: u32

record file_ext =
  prefix_count :: u32
  f_prefix_reads :: u32
  f_writes :: u32
  f_reads :: u32
  head_count :: u32
  flags :: u32
  f_prefix_reg :: u32

text \<open>\<^verbatim>\<open>sa_setup_t\<close>: \<open>s_kind\<close> has the register kind in its low and a right shift in its high four bits.\<close>
record setup_entry =
  s_kind :: u8
  s_reg :: u8
  s_binding :: u8
  s_constant :: u16
  s_mul :: u32
  s_add :: u32

definition sa_magic :: "u8 list" where
  "sa_magic = [0x53, 0x41, 0x44, 0x45, 0x53, 0x43, 0x31, 0]"

definition parse_header :: "u8 list \<Rightarrow> file_header" where
  "parse_header b = (let w = \<lambda>k. of_nat (field b k 4) in
     \<lparr>version = w 8, h_d = w 12, h_caps = w 16, export_count = w 20, export_offset = w 24, templates_offset = w 28,
      templates_bytes = w 32, strings_offset = w 36, strings_bytes = w 40, ext_offset = w 44, code_offset = w 48\<rparr>)"

definition parse_export :: "u8 list \<Rightarrow> file_export" where
  "parse_export b = (let w = \<lambda>k. of_nat (field b k 4) in
     \<lparr>name_offset = w 0, name_length = w 4, template_offset = w 8, descriptor_count = w 12,
      binding_count = of_nat (field b 16 2), constant_count = of_nat (field b 18 2), setup_count = w 20,
      est_cycles = w 24, setup_offset = w 28\<rparr>)"

definition parse_ext :: "u8 list \<Rightarrow> file_ext" where
  "parse_ext b = (let w = \<lambda>k. of_nat (field b k 4) in
     \<lparr>prefix_count = w 0, f_prefix_reads = w 4, f_writes = w 8, f_reads = w 12, head_count = w 16, flags = w 20,
      f_prefix_reg = w 24\<rparr>)"

text \<open>Before version 3: no prefix or head, every binding read and written, SPAD_B used.\<close>
definition default_ext :: file_ext where
  "default_ext = \<lparr>prefix_count = 0, f_prefix_reads = 0, f_writes = 0xFFFF, f_reads = 0xFFFF, head_count = 0,
     flags = 1, f_prefix_reg = 0\<rparr>"

definition parse_setup :: "u8 list \<Rightarrow> setup_entry" where
  "parse_setup b = \<lparr>s_kind = of_nat (field b 0 1), s_reg = of_nat (field b 1 1), s_binding = of_nat (field b 2 1),
     s_constant = of_nat (field b 4 2), s_mul = of_nat (field b 8 4), s_add = of_nat (field b 12 4)\<rparr>"

section \<open>The executable\<close>

text \<open>\<^verbatim>\<open>sa_export_t\<close> with its dispatch attributes (\<open>a_\<close>, 8 bits each); \<open>rv_state\<close> 0, 1, 2 as in C.\<close>
record export =
  x_name :: "u8 list"
  x_prefix_phys :: u32
  x_head_phys :: u32
  x_entry_phys :: u32
  x_prefix_reads :: u32
  x_writes :: u32
  x_reads :: u32
  x_prefix_reg :: u32
  x_spad_b :: bool
  rv_only :: bool
  x_descriptor_count :: u32
  x_est_cycles :: u32
  x_setup :: "setup_entry list"
  rv_state :: nat
  rv_phys :: u32
  rv_embedded :: u32
  rv_fn :: string
  a_bindings :: u8
  a_constants :: u8

text \<open>The exports, the templates as copied to the device and the code of the exports, by position.\<close>
record executable =
  exports :: "export list"
  templates :: "u8 list"
  rvcode :: "(nat \<times> u8 list) list"

section \<open>Checks\<close>

definition sa_check_range :: "u8 list \<Rightarrow> nat \<Rightarrow> nat \<Rightarrow> unit ld" where
  "sa_check_range data off n = fail_if (off + n > length data) INVALID_ARGUMENT"

definition kind_of :: "setup_entry \<Rightarrow> nat" where
  "kind_of s = unat (s_kind s AND 15)"

definition bad_setup :: "file_export \<Rightarrow> setup_entry \<Rightarrow> bool" where
  "bad_setup x s \<longleftrightarrow>
     kind_of s = 0 \<and> (unat (s_reg s) > 15 \<or> unat (s_binding s) \<ge> unat (binding_count x))
     \<or> kind_of s = 1 \<and> unat (s_reg s) > 7
     \<or> kind_of s > 1
     \<or> sint (s_constant s) \<ge> int (unat (constant_count x))"

definition header_checks :: "u8 list \<Rightarrow> u32 \<Rightarrow> u32 \<Rightarrow> u8 list \<Rightarrow> file_header \<Rightarrow> unit ld" where
  "header_checks data dev_d dev_caps hb h =
     bind_ld (fail_if (take 8 hb \<noteq> sa_magic \<or> version h < 1 \<or> version h > 3) INVALID_ARGUMENT) (\<lambda>_.
     bind_ld (fail_if (h_d h \<noteq> dev_d) INCOMPATIBLE) (\<lambda>_.
     bind_ld (fail_if (dev_caps \<noteq> 0 \<and> (h_caps h AND NOT dev_caps AND 0x03E00000) \<noteq> 0) INCOMPATIBLE) (\<lambda>_.
     bind_ld (sa_check_range data (unat (export_offset h)) (unat (export_count h) * 32)) (\<lambda>_.
     bind_ld (sa_check_range data (unat (templates_offset h)) (unat (templates_bytes h))) (\<lambda>_.
     bind_ld (sa_check_range data (unat (strings_offset h)) (unat (strings_bytes h))) (\<lambda>_.
     bind_ld (if version h \<ge> 3 then sa_check_range data (unat (ext_offset h)) (unat (export_count h) * 32) else ret ()) (\<lambda>_.
     fail_if (export_count h = 0 \<or> templates_bytes h = 0 \<or> unat (templates_bytes h) mod 64 \<noteq> 0) INVALID_ARGUMENT)))))))"

definition read_export :: "u8 list \<Rightarrow> file_header \<Rightarrow> nat \<Rightarrow> file_export ld" where
  "read_export data h i = bind_ld (file_slice data (unat (export_offset h) + i * 32) 32) (\<lambda>b. ret (parse_export b))"

text \<open>The first pass over the exports (from version 2 on): their setup tables are in the file.\<close>
definition check_setup_tables :: "u8 list \<Rightarrow> file_header \<Rightarrow> unit ld" where
  "check_setup_tables data h =
     (if version h \<ge> 2 then
        bind_ld (map_ld (\<lambda>i. bind_ld (read_export data h i) (\<lambda>x.
            bind_ld (fail_if (setup_count x > 24) INVALID_ARGUMENT) (\<lambda>_.
            sa_check_range data (unat (setup_offset x)) (unat (setup_count x) * 16)))) [0..<unat (export_count h)])
          (\<lambda>_. ret ())
      else ret ())"

text \<open>The loaded export; \<open>strs\<close> are the copied strings, \<open>tmpl\<close> the templates' address.\<close>
definition make_export :: "u8 list \<Rightarrow> u32 \<Rightarrow> file_export \<Rightarrow> file_ext \<Rightarrow> setup_entry list \<Rightarrow> export" where
  "make_export strs tmpl x ext ss =
     (let t = tmpl + template_offset x in
      \<lparr>x_name = take (unat (name_length x)) (drop (unat (name_offset x)) strs),
       x_prefix_phys = (if prefix_count ext \<noteq> 0 then t else 0),
       x_head_phys = (if head_count ext \<noteq> 0 then t + 64 * prefix_count ext else 0),
       x_entry_phys = t + 64 * (prefix_count ext + head_count ext),
       x_prefix_reads = f_prefix_reads ext, x_writes = f_writes ext, x_reads = f_reads ext,
       x_prefix_reg = f_prefix_reg ext, x_spad_b = bit (flags ext) 0, rv_only = bit (flags ext) 1,
       x_descriptor_count = descriptor_count x, x_est_cycles = est_cycles x, x_setup = ss, rv_state = 0,
       rv_phys = 0, rv_embedded = 0, rv_fn = [], a_bindings = ucast (binding_count x),
       a_constants = ucast (constant_count x)\<rparr>)"

text \<open>The checks on an export's entry in the file, and on its extension.\<close>
definition bad_range :: "file_header \<Rightarrow> file_export \<Rightarrow> bool" where
  "bad_range h x \<longleftrightarrow> unat (name_offset x) + unat (name_length x) > unat (strings_bytes h)
     \<or> unat (template_offset x) mod 64 \<noteq> 0
     \<or> unat (template_offset x) + 64 * unat (descriptor_count x) > unat (templates_bytes h)"

definition bad_ext :: "file_export \<Rightarrow> file_ext \<Rightarrow> bool" where
  "bad_ext x ext \<longleftrightarrow> unat (prefix_count ext) + unat (head_count ext) \<ge> unat (descriptor_count x) \<or> f_prefix_reg ext > 14"

definition setups_of :: "file_header \<Rightarrow> file_export \<Rightarrow> nat" where
  "setups_of h x = (if version h \<ge> 2 then unat (setup_count x) else 0)"

text \<open>One export of the second pass.\<close>
definition load_export :: "u8 list \<Rightarrow> file_header \<Rightarrow> u8 list \<Rightarrow> u32 \<Rightarrow> nat \<Rightarrow> export ld" where
  "load_export data h strs tmpl i =
     bind_ld (read_export data h i) (\<lambda>x.
     bind_ld (fail_if (bad_range h x) INVALID_ARGUMENT) (\<lambda>_.
     bind_ld (fail_if (binding_count x > 16 \<or> setups_of h x = 0 \<and> constant_count x > 6) INVALID_ARGUMENT) (\<lambda>_.
     bind_ld (map_ld (\<lambda>j. bind_ld (file_slice data (unat (setup_offset x) + j * 16) 16) (\<lambda>b. ret (parse_setup b)))
       [0..<setups_of h x]) (\<lambda>ss.
     bind_ld (fail_if (list_ex (bad_setup x) ss) INVALID_ARGUMENT) (\<lambda>_.
     bind_ld (if version h \<ge> 3 then bind_ld (file_slice data (unat (ext_offset h) + i * 32) 32) (\<lambda>b. ret (parse_ext b))
              else ret default_ext) (\<lambda>ext.
     bind_ld (fail_if (bad_ext x ext) INVALID_ARGUMENT) (\<lambda>_.
     ret (make_export strs tmpl x ext ss))))))))"

section \<open>The exports' RISC-V code\<close>

definition pad64 :: "nat \<Rightarrow> nat" where
  "pad64 n = (n + 63) div 64 * 64"

definition read_code_entry :: "u8 list \<Rightarrow> file_header \<Rightarrow> nat \<Rightarrow> (nat \<times> nat) ld" where
  "read_code_entry data h i =
     bind_ld (file_slice data (unat (code_offset h) + 8 * i) 8) (\<lambda>b. ret (field b 0 4, field b 4 4))"

text \<open>The copies: at \<open>pos\<close> the code of each export that has some; its address goes to the export.\<close>
fun copy_code :: "u8 list \<Rightarrow> u32 \<Rightarrow> nat \<Rightarrow> (export \<times> nat \<times> nat) list \<Rightarrow> (export list \<times> (nat \<times> u8 list) list) ld" where
  "copy_code data base pos [] = ret ([], [])"
| "copy_code data base pos ((x, off, n) # rest) =
     (if n = 0 then bind_ld (copy_code data base pos rest) (\<lambda>(xs, cs). ret (x # xs, cs))
      else bind_ld (file_slice data off n) (\<lambda>b.
           bind_ld (copy_code data base (pos + pad64 n) rest) (\<lambda>(xs, cs).
             ret (x\<lparr>rv_embedded := base + of_nat pos\<rparr> # xs, (pos, b) # cs))))"

definition load_code :: "u8 list \<Rightarrow> (nat \<Rightarrow> nat \<Rightarrow> status + u32) \<Rightarrow> file_header \<Rightarrow> export list \<Rightarrow> (export list \<times> (nat \<times> u8 list) list) ld" where
  "load_code data place h xs =
     (if code_offset h = 0 then ret (xs, [])
      else
        bind_ld (fail_if (unat (code_offset h) + 8 * unat (export_count h) > length data) INVALID_ARGUMENT) (\<lambda>_.
        bind_ld (map_ld (\<lambda>i. bind_ld (read_code_entry data h i) (\<lambda>(off, n).
             bind_ld (fail_if (n \<noteq> 0 \<and> off + n > length data) INVALID_ARGUMENT) (\<lambda>_. ret (off, n))))
           [0..<unat (export_count h)]) (\<lambda>es.
        let total = (\<Sum>(off, n) \<leftarrow> es. pad64 n) in
        if total = 0 then ret (xs, [])
        else bind_ld (Some (place 1 total)) (\<lambda>base. copy_code data base 0 (zip xs es)))))"

text \<open>
  \<^verbatim>\<open>sa_executable_create\<close> for a device of size \<open>dev_d\<close> and capabilities \<open>dev_caps\<close>; \<open>host\<close> is the
  outcome of the host allocation and \<open>place k n\<close> the physical address of the \<open>n\<close> bytes, 64-byte
  aligned, allocated in the arena for the templates (0) and the code (1).
\<close>
definition sa_executable_create ::
  "u32 \<Rightarrow> u32 \<Rightarrow> status + unit \<Rightarrow> (nat \<Rightarrow> nat \<Rightarrow> status + u32) \<Rightarrow> u8 list \<Rightarrow> executable ld" where
  "sa_executable_create dev_d dev_caps host_alloc place data =
     bind_ld (sa_check_range data 0 64) (\<lambda>_.
     bind_ld (file_slice data 0 64) (\<lambda>hb.
     let h = parse_header hb in
     bind_ld (header_checks data dev_d dev_caps hb h) (\<lambda>_.
     bind_ld (check_setup_tables data h) (\<lambda>_.
     bind_ld (Some host_alloc) (\<lambda>_.
     bind_ld (file_slice data (unat (strings_offset h)) (unat (strings_bytes h))) (\<lambda>strs.
     bind_ld (Some (place 0 (unat (templates_bytes h)))) (\<lambda>tmpl.
     bind_ld (file_slice data (unat (templates_offset h)) (unat (templates_bytes h))) (\<lambda>ts.
     bind_ld (map_ld (load_export data h strs tmpl) [0..<unat (export_count h)]) (\<lambda>xs.
     bind_ld (load_code data place h xs) (\<lambda>(xs', code).
     ret \<lparr>exports = xs', templates = ts, rvcode = code\<rparr>))))))))))"

section \<open>Registers of a dispatch\<close>

fun map_st :: "('a \<Rightarrow> status + 'b) \<Rightarrow> 'a list \<Rightarrow> status + 'b list" where
  "map_st f [] = Inr []"
| "map_st f (x # xs) = bind_st (f x) (\<lambda>y. bind_st (map_st f xs) (\<lambda>ys. Inr (y # ys)))"

text \<open>
  \<open>((constant * mul) >> shift) + add\<close> in 64-bit signed arithmetic; a constant the caller did not
  pass is a read outside the array.
\<close>
definition setup_value :: "setup_entry \<Rightarrow> u32 list \<Rightarrow> int ld" where
  "setup_value s cs =
     (if sint (s_constant s) \<ge> 0 then
        (if unat (s_constant s) < length cs then
           ret (sint (s_add s) + int (unat (cs ! unat (s_constant s))) * sint (s_mul s) div 2 ^ unat (drop_bit 4 (s_kind s)))
         else None)
      else ret (sint (s_add s)))"

definition setup_reg :: "u32 list \<Rightarrow> u32 list \<Rightarrow> setup_entry \<Rightarrow> (u32 \<times> u32) ld" where
  "setup_reg phys cs s =
     bind_ld (setup_value s cs) (\<lambda>v.
       if kind_of s = 0 then
         (if unat (s_binding s) < length phys then ret (ucast (s_reg s), phys ! unat (s_binding s) + word_of_int v) else None)
       else ret (16 + ucast (s_reg s), word_of_int v))"

definition sa_export_regs :: "transport \<Rightarrow> export \<Rightarrow> u64 list \<Rightarrow> u32 list \<Rightarrow> (u32 \<times> u32) list ld" where
  "sa_export_regs t x ptrs cs =
     (if length ptrs > 16 then Some (Inl OUT_OF_RANGE)
      else bind_ld (Some (map_st (sa_context_phys t) ptrs)) (\<lambda>phys.
        if x_setup x = [] then
          (if length cs > 6 then Some (Inl OUT_OF_RANGE)
           else ret (zip (map of_nat [0..<length ptrs]) phys @ zip (map (\<lambda>i. 16 + of_nat i) [0..<length cs]) cs))
        else map_ld (setup_reg phys cs) (x_setup x)))"

definition name_string :: "u8 list \<Rightarrow> string" where
  "name_string bs = map (\<lambda>b. char_of (unat b)) bs"

text \<open>The ranges of the bindings in a mask.\<close>
definition mask_ranges :: "u32 \<Rightarrow> (u64 \<times> u64) list \<Rightarrow> range list" where
  "mask_ranges m bs =
     map (\<lambda>(i, b, n). \<lparr>r_begin = b, r_end = b + n\<rparr>) (filter (\<lambda>(i, _). bit m i) (enumerate 0 (take 16 bs)))"

definition sa_export_dispatch :: "export \<Rightarrow> (u32 \<times> u32) list \<Rightarrow> (u64 \<times> u64) list \<Rightarrow> dispatch" where
  "sa_export_dispatch x ps bs =
     \<lparr>prefix_phys = x_prefix_phys x, head_phys = x_head_phys x, body_phys = x_entry_phys x,
      prefix_base = fold (\<lambda>(r, v) acc. if r = x_prefix_reg x then v else acc) ps 0,
      regs = ps, spad_b = x_spad_b x, reads = mask_ranges (x_reads x) bs, writes = mask_ranges (x_writes x) bs,
      prefix_reads = mask_ranges (x_prefix_reads x) bs, dname = name_string (x_name x)\<rparr>"

section \<open>Running\<close>

text \<open>What the process and the device provide to the functions below.\<close>
record 'dev host_env =
  run :: "'dev transport_run"
  run_call :: "'dev \<Rightarrow> u32 \<Rightarrow> u32 \<Rightarrow> u32 list \<Rightarrow> string \<Rightarrow> 'dev \<times> (status + completion)"
  call_tr :: call_transport
  scratch_alloc :: "status + u32"
  profiling :: bool
  grow_ok :: bool
  copy_ok :: bool
  calloc_ok :: bool
  immediate :: bool       \<comment> \<open>\<^verbatim>\<open>SA_NO_BATCH\<close>, or a profile other than batch\<close>
  elapsed :: u64

definition sa_export_run_now ::
  "'dev host_env \<Rightarrow> 'dev sa_context \<Rightarrow> export \<Rightarrow> (u32 \<times> u32) list \<Rightarrow> 'dev sa_context \<times> (status + unit)" where
  "sa_export_run_now he c x ps =
     (case sa_context_dispatch (run he) (grow_ok he) (copy_ok he) c (sa_export_dispatch x ps []) of
        (c1, Inl e) \<Rightarrow> (c1, Inl e)
      | (c1, Inr d) \<Rightarrow>
          (let c2 = c1\<lparr>prof := sa_context_profile_record (profiling he) (prof c1) (name_string (x_name x)) (c_cycles d)
                              (elapsed he) (Some d)\<rparr>
           in if c_status d \<noteq> 0 then (c2, Inl INTERNAL)
              else if c_end d \<noteq> 0x5A then (c2, Inl INTERNAL)
              else (c2, Inr ())))"

text \<open>\<^verbatim>\<open>sa_executable_issue_call\<close>: only workgroup (0, 0, 0) runs the dispatch.\<close>
definition sa_executable_issue_call ::
  "'dev host_env \<Rightarrow> 'dev sa_context \<Rightarrow> executable \<Rightarrow> nat \<Rightarrow> u32 \<times> u32 \<times> u32 \<Rightarrow> u64 list \<Rightarrow> u32 list
     \<Rightarrow> ('dev sa_context \<times> (status + unit)) option" where
  "sa_executable_issue_call he c e ordinal wg ptrs cs =
     (if ordinal \<ge> length (exports e) then Some (c, Inl INVALID_ARGUMENT)
      else case wg of (wx, wy, wz) \<Rightarrow>
        if (wx OR wy OR wz) \<noteq> 0 then Some (c, Inr ())
        else
          let x = exports e ! ordinal in
          if rv_only x then Some (c, Inl FAILED_PRECONDITION)
          else case sa_export_regs (transport c) x ptrs cs of
                 None \<Rightarrow> None
               | Some (Inl er) \<Rightarrow> Some (c, Inl er)
               | Some (Inr ps) \<Rightarrow> Some (sa_export_run_now he c x ps))"

text \<open>
  \<^verbatim>\<open>sa_executable_append\<close> (\<open>isa\<close>: the executable is one of this loader): the context, the
  executable (whose export remembers the lookup of its code), the code image and the status.
\<close>
definition sa_executable_append ::
  "'dev host_env \<Rightarrow> bool \<Rightarrow> 'dev sa_context \<Rightarrow> executable \<Rightarrow> rv \<Rightarrow> nat \<Rightarrow> (u64 \<times> u64) list \<Rightarrow> u32 list
     \<Rightarrow> ('dev sa_context \<times> executable \<times> rv \<times> (status + unit)) option" where
  "sa_executable_append he isa c e r ordinal bs cs =
     (if \<not> isa then Some (c, e, r, Inl INVALID_ARGUMENT)
      else if ordinal \<ge> length (exports e) then Some (c, e, r, Inl INVALID_ARGUMENT)
      else
        let x = exports e ! ordinal in
        if length bs \<noteq> unat (a_bindings x) \<or> length cs \<noteq> unat (a_constants x) then Some (c, e, r, Inl INVALID_ARGUMENT)
        else
          let (r1, look) =
                (if rv_state x = 0 then
                   (case sa_rv_lookup (call_tr he) (scratch_alloc he) r (name_string (x_name x)) 160 (rv_embedded x) (rv_only x) of
                      (r1, Inl er) \<Rightarrow> (r1, Inl er)
                    | (r1, Inr (fn, p)) \<Rightarrow> (r1, Inr (x\<lparr>rv_phys := p, rv_fn := fn, rv_state := (if p \<noteq> 0 then 2 else 1)\<rparr>)))
                 else (r, Inr x))
          in case look of
               Inl er \<Rightarrow> Some (c, e, r1, Inl er)
             | Inr x1 \<Rightarrow>
                 (let e1 = e\<lparr>exports := (exports e)[ordinal := x1]\<rparr> in
                  if rv_only x1 \<and> rv_state x1 \<noteq> 2 then Some (c, e1, r1, Inl FAILED_PRECONDITION)
                  else if rv_state x1 = 2 then
                    (case map_st (sa_context_phys (transport c)) (map fst bs) of
                       Inl er \<Rightarrow> Some (c, e1, r1, Inl er)
                     | Inr phys \<Rightarrow>
                         (case sa_rv_call (run he) (run_call he) (profiling he) (grow_ok he) (copy_ok he) (elapsed he) r1 c
                                 (name_string (x_name x1)) (rv_fn x1) (rv_phys x1) phys cs of
                            (c1, st) \<Rightarrow> Some (c1, e1, r1, st)))
                  else case sa_export_regs (transport c) x1 (map fst bs) cs of
                         None \<Rightarrow> None
                       | Some (Inl er) \<Rightarrow> Some (c, e1, r1, Inl er)
                       | Some (Inr ps) \<Rightarrow>
                           (case (if immediate he then sa_export_run_now he c x1 ps
                                  else sa_context_batch_add (run he) (profiling he) (grow_ok he) (copy_ok he) (elapsed he)
                                         (calloc_ok he) c (sa_export_dispatch x1 ps bs)) of
                              (c1, st) \<Rightarrow> Some (c1, e1, r1, st))))"

section \<open>Queries\<close>

definition sa_executable_lookup :: "executable \<Rightarrow> u8 list \<Rightarrow> status + nat" where
  "sa_executable_lookup e name =
     (case find (\<lambda>(i, x). x_name x = name) (enumerate 0 (exports e)) of
        None \<Rightarrow> Inl NOT_FOUND
      | Some (i, _) \<Rightarrow> Inr i)"

text \<open>
  \<^verbatim>\<open>sa_loader_infer_format\<close>: the size it reports. An empty span stands for data of unknown size,
  of which the header is read; \<open>data\<close> is what is there and \<open>known\<close> whether its length was given.
\<close>
definition sa_loader_infer_format :: "bool \<Rightarrow> u8 list \<Rightarrow> nat \<Rightarrow> nat ld" where
  "sa_loader_infer_format known data capacity =
     (if known \<and> length data \<noteq> 0 \<and> length data < 64 then Some (Inl INCOMPATIBLE)
      else bind_ld (file_slice data 0 64) (\<lambda>hb.
        if take 8 hb \<noteq> sa_magic then Some (Inl INCOMPATIBLE)
        else if capacity < 11 then Some (Inl OUT_OF_RANGE)
        else ret (unat (strings_offset (parse_header hb)) + unat (strings_bytes (parse_header hb)))))"

section \<open>Reads stay inside the file\<close>

lemma bind_ld_simps [simp]:
  "bind_ld (Some (Inl e)) f = Some (Inl e)"
  "bind_ld (Some (Inr x)) f = f x"
  "bind_ld None f = None"
  by (simp_all add: bind_ld_def)

lemma bind_ld_ret_iff: "bind_ld m f = ret y \<longleftrightarrow> (\<exists>x. m = ret x \<and> f x = ret y)"
  by (cases m) (auto simp: bind_ld_def split: sum.splits)

lemma fail_if_ret [simp]: "fail_if b e = ret x \<longleftrightarrow> \<not> b"
  by (simp add: fail_if_def)

lemma check_range_ret [simp]: "sa_check_range d n k = ret x \<longleftrightarrow> n + k \<le> length d"
  by (auto simp: sa_check_range_def)

lemma slice_ret: "file_slice d off n = ret b \<longleftrightarrow> off + n \<le> length d \<and> b = take n (drop off d)"
  by (auto simp: file_slice_def)

lemma map_ld_ret: "map_ld f xs = ret ys \<Longrightarrow> length ys = length xs \<and> (\<forall>i < length xs. f (xs ! i) = ret (ys ! i))"
  by (induction xs arbitrary: ys) (auto simp: bind_ld_ret_iff nth_Cons split: nat.splits)

text \<open>A computation that reads nothing outside its arrays, and how it is composed.\<close>
definition in_bounds :: "'a ld \<Rightarrow> bool" where
  "in_bounds m \<longleftrightarrow> m \<noteq> None"

lemma in_bounds_simps [simp]:
  "in_bounds (Some r)" "in_bounds (fail_if b e)" "in_bounds (sa_check_range d n k)"
  "in_bounds (file_slice d off n) \<longleftrightarrow> off + n \<le> length d"
  by (simp_all add: in_bounds_def fail_if_def sa_check_range_def file_slice_def)

lemma in_bounds_bind [intro]:
  "in_bounds m \<Longrightarrow> (\<And>x. m = ret x \<Longrightarrow> in_bounds (f x)) \<Longrightarrow> in_bounds (bind_ld m f)"
  by (cases m) (auto simp: in_bounds_def bind_ld_def split: sum.splits)

lemma in_bounds_map [intro]: "(\<And>x. x \<in> set xs \<Longrightarrow> in_bounds (f x)) \<Longrightarrow> in_bounds (map_ld f xs)"
  by (induction xs) (auto intro!: in_bounds_bind)

lemma in_bounds_split: "(\<And>a b. p = (a, b) \<Longrightarrow> in_bounds (f a b)) \<Longrightarrow> in_bounds (case p of (a, b) \<Rightarrow> f a b)"
  by (cases p) simp

lemma header_checks_ret:
  "header_checks data dd dc hb h = ret u \<Longrightarrow>
     unat (export_offset h) + unat (export_count h) * 32 \<le> length data
     \<and> unat (templates_offset h) + unat (templates_bytes h) \<le> length data
     \<and> unat (strings_offset h) + unat (strings_bytes h) \<le> length data
     \<and> (version h \<ge> 3 \<longrightarrow> unat (ext_offset h) + unat (export_count h) * 32 \<le> length data)
     \<and> unat (templates_bytes h) mod 64 = 0 \<and> take 8 hb = sa_magic \<and> h_d h = dd"
  by (auto simp: header_checks_def bind_ld_ret_iff split: if_splits)

lemma header_checks_in_bounds: "in_bounds (header_checks data dd dc hb h)"
  unfolding header_checks_def by (intro in_bounds_bind in_bounds_simps) simp

lemma read_export_in_bounds:
  "unat (export_offset h) + unat (export_count h) * 32 \<le> length data \<Longrightarrow> i < unat (export_count h) \<Longrightarrow>
     in_bounds (read_export data h i)"
  unfolding read_export_def by (intro in_bounds_bind) auto

lemma setup_tables_ret:
  assumes "check_setup_tables data h = ret u" and "version h \<ge> 2" and "i < unat (export_count h)"
  shows "\<exists>x. read_export data h i = ret x \<and> unat (setup_count x) \<le> 24
    \<and> unat (setup_offset x) + unat (setup_count x) * 16 \<le> length data"
proof -
  from assms obtain us where "map_ld (\<lambda>i. bind_ld (read_export data h i) (\<lambda>x.
      bind_ld (fail_if (setup_count x > 24) INVALID_ARGUMENT) (\<lambda>_.
        sa_check_range data (unat (setup_offset x)) (unat (setup_count x) * 16)))) [0..<unat (export_count h)] = ret us"
    by (auto simp: check_setup_tables_def bind_ld_ret_iff)
  from conjunct2 [OF map_ld_ret [OF this]] assms(3) have "\<exists>u. bind_ld (read_export data h i) (\<lambda>x.
      bind_ld (fail_if (setup_count x > 24) INVALID_ARGUMENT) (\<lambda>_.
        sa_check_range data (unat (setup_offset x)) (unat (setup_count x) * 16))) = ret u"
    by auto
  then obtain x where "read_export data h i = ret x" "\<not> setup_count x > 24"
    "unat (setup_offset x) + unat (setup_count x) * 16 \<le> length data"
    by (auto simp: bind_ld_ret_iff)
  then show ?thesis by (auto simp: word_le_nat_alt not_less)
qed

lemma setup_tables_in_bounds:
  "unat (export_offset h) + unat (export_count h) * 32 \<le> length data \<Longrightarrow> in_bounds (check_setup_tables data h)"
  unfolding check_setup_tables_def
  by (auto intro!: in_bounds_bind in_bounds_map intro: read_export_in_bounds)

lemma load_export_in_bounds:
  assumes "unat (export_offset h) + unat (export_count h) * 32 \<le> length data" and "i < unat (export_count h)"
    and "version h \<ge> 3 \<longrightarrow> unat (ext_offset h) + unat (export_count h) * 32 \<le> length data"
    and "check_setup_tables data h = ret u"
  shows "in_bounds (load_export data h strs tmpl i)"
proof -
  have ext: "unat (ext_offset h) + i * 32 + 32 \<le> length data" if "version h \<ge> 3"
    using assms(2,3) that by auto
  have tab: "unat (setup_offset x) + j * 16 + 16 \<le> length data"
    if "read_export data h i = ret x" "j < setups_of h x" for x j
    using setup_tables_ret [OF assms(4) _ assms(2)] that by (auto simp: setups_of_def split: if_splits)
  show ?thesis
    unfolding load_export_def Let_def
  proof (intro in_bounds_bind in_bounds_map read_export_in_bounds [OF assms(1,2)] in_bounds_simps)
    show "in_bounds (if 3 \<le> version h then bind_ld (file_slice data (unat (ext_offset h) + i * 32) 32) (\<lambda>b. ret (parse_ext b))
        else ret default_ext)"
      using ext by (auto intro!: in_bounds_bind)
  next
    fix x j
    assume "read_export data h i = ret x" "j \<in> set [0..<setups_of h x]"
    with tab have "unat (setup_offset x) + j * 16 + 16 \<le> length data" by simp
    then show "in_bounds (file_slice data (unat (setup_offset x) + j * 16) 16)" by simp
  qed
qed

lemma copy_code_in_bounds:
  "\<forall>(x, off, n) \<in> set es. n \<noteq> 0 \<longrightarrow> off + n \<le> length data \<Longrightarrow> in_bounds (copy_code data base pos es)"
proof (induction data base pos es rule: copy_code.induct)
  case (2 data base pos x off n rest)
  show ?case
  proof (cases "n = 0")
    case True
    with 2 show ?thesis by (auto intro!: in_bounds_bind in_bounds_split)
  next
    case False
    with "2.prems" have fits: "off + n \<le> length data" by simp
    have "in_bounds (copy_code data base (pos + pad64 n) rest)"
      using 2(2) [OF False] "2.prems" by simp
    with False fits show ?thesis by (auto intro!: in_bounds_bind in_bounds_split)
  qed
qed simp

lemma code_entries:
  assumes "map_ld (\<lambda>i. bind_ld (read_code_entry data h i) (\<lambda>(off, n).
             bind_ld (fail_if (n \<noteq> 0 \<and> off + n > length data) INVALID_ARGUMENT) (\<lambda>_. ret (off, n)))) is = ret es"
  shows "\<forall>(x, off, n) \<in> set (zip xs es). n \<noteq> 0 \<longrightarrow> off + n \<le> length data"
proof (rule ballI, clarify)
  fix x off n assume "(x, off, n) \<in> set (zip xs es)" and nz: "n > 0"
  then obtain i where i: "i < length es" "es ! i = (off, n)" by (auto simp: set_zip)
  note m = map_ld_ret [OF assms]
  have "\<exists>a b. read_code_entry data h (is ! i) = ret (a, b) \<and> \<not> (b \<noteq> 0 \<and> a + b > length data) \<and> (a, b) = es ! i"
    using m i(1) by (auto simp: bind_ld_ret_iff)
  with i(2) nz show "off + n \<le> length data" by auto
qed

lemma load_code_in_bounds: "in_bounds (load_code data place h xs)"
proof (cases "code_offset h = 0")
  case True
  then show ?thesis by (simp add: load_code_def)
next
  case False
  have entry: "in_bounds (read_code_entry data h i)"
    if "unat (code_offset h) + 8 * unat (export_count h) \<le> length data" "i < unat (export_count h)" for i
    unfolding read_code_entry_def using that by (intro in_bounds_bind) auto
  show ?thesis
    unfolding load_code_def Let_def if_not_P [OF False]
  proof (intro in_bounds_bind in_bounds_map in_bounds_split in_bounds_simps)
    fix u i assume "fail_if (length data < unat (code_offset h) + 8 * unat (export_count h)) INVALID_ARGUMENT = ret u"
      and "i \<in> set [0..<unat (export_count h)]"
    then show "in_bounds (read_code_entry data h i)" by (intro entry) auto
  next
    fix es
    assume "map_ld (\<lambda>i. bind_ld (read_code_entry data h i) (\<lambda>(off, n).
             bind_ld (fail_if (n \<noteq> 0 \<and> off + n > length data) INVALID_ARGUMENT) (\<lambda>_. ret (off, n))))
           [0..<unat (export_count h)] = ret es"
    from code_entries [OF this, of xs] show "in_bounds (if (\<Sum>(off, n) \<leftarrow> es. pad64 n) = 0 then ret (xs, [])
        else bind_ld (Some (place 1 (\<Sum>(off, n) \<leftarrow> es. pad64 n))) (\<lambda>base. copy_code data base 0 (zip xs es)))"
      by (auto intro!: in_bounds_bind copy_code_in_bounds simp del: sum_list_eq_0_iff)
  qed
qed

text \<open>
  C17. Whatever bytes it is given, loading an executable never reads outside them: the range
  checks on the header's tables, on every setup table and on every code entry cover all reads.
\<close>
theorem loader_reads_in_bounds: "sa_executable_create dev_d dev_caps host_alloc place data \<noteq> None"
proof -
  have "in_bounds (sa_executable_create dev_d dev_caps host_alloc place data)"
    unfolding sa_executable_create_def Let_def
    by (intro in_bounds_bind header_checks_in_bounds load_code_in_bounds in_bounds_map in_bounds_simps
          setup_tables_in_bounds load_export_in_bounds)
       (auto dest: header_checks_ret)
  then show ?thesis by (simp add: in_bounds_def)
qed

section \<open>What a loaded export guarantees\<close>

text \<open>\<open>a\<close> is the address of a whole descriptor of the \<open>n\<close> template bytes at \<open>tmpl\<close>.\<close>
definition entry_in :: "u32 \<Rightarrow> nat \<Rightarrow> u32 \<Rightarrow> bool" where
  "entry_in tmpl n a \<longleftrightarrow> (\<exists>k. a = tmpl + of_nat (64 * k) \<and> 64 * k + 64 \<le> n)"

definition valid_setup :: "export \<Rightarrow> setup_entry \<Rightarrow> bool" where
  "valid_setup x s \<longleftrightarrow> kind_of s \<le> 1 \<and> (kind_of s = 0 \<longrightarrow> unat (s_reg s) \<le> 15 \<and> unat (s_binding s) < unat (a_bindings x))
     \<and> (kind_of s = 1 \<longrightarrow> unat (s_reg s) \<le> 7)"

definition valid_export :: "u32 \<Rightarrow> nat \<Rightarrow> export \<Rightarrow> bool" where
  "valid_export tmpl n x \<longleftrightarrow>
     (x_prefix_phys x = 0 \<or> entry_in tmpl n (x_prefix_phys x))
     \<and> (x_head_phys x = 0 \<or> entry_in tmpl n (x_head_phys x)) \<and> entry_in tmpl n (x_entry_phys x)
     \<and> unat (a_bindings x) \<le> 16 \<and> (x_setup x = [] \<longrightarrow> unat (a_constants x) \<le> 6) \<and> length (x_setup x) \<le> 24
     \<and> (\<forall>s \<in> set (x_setup x). valid_setup x s) \<and> unat (x_prefix_reg x) \<le> 14"

lemma unat_ucast_u16_u8: "unat w < 256 \<Longrightarrow> unat (ucast (w :: u16) :: u8) = unat w"
  by (simp add: unsigned_ucast_eq take_bit_nat_eq_self)

lemma entry_in_step:
  assumes "unat off mod 64 = 0" and "unat off + 64 * unat d \<le> n" and "unat p < unat d"
  shows "entry_in tmpl n (tmpl + off + 64 * p)"
proof -
  have "64 * (unat off div 64) = unat off" using assms(1) by auto
  then have "of_nat (64 * (unat off div 64 + unat p)) = off + 64 * p"
    by (simp only: distrib_left of_nat_add) simp
  moreover have "64 * (unat off div 64 + unat p) + 64 \<le> n"
    using assms \<open>64 * (unat off div 64) = unat off\<close> by (simp only: distrib_left)
  ultimately show ?thesis unfolding entry_in_def by (metis add.assoc)
qed

lemma load_export_valid:
  assumes tabs: "check_setup_tables data h = ret u" and i: "i < unat (export_count h)"
    and l: "load_export data h strs tmpl i = ret x"
  shows "valid_export tmpl (unat (templates_bytes h)) x"
proof -
  from l obtain f ss ext where f: "read_export data h i = ret f" and rng: "\<not> bad_range h f"
    and cnt: "\<not> (binding_count f > 16 \<or> setups_of h f = 0 \<and> constant_count f > 6)"
    and ss: "map_ld (\<lambda>j. bind_ld (file_slice data (unat (setup_offset f) + j * 16) 16) (\<lambda>b. ret (parse_setup b)))
      [0..<setups_of h f] = ret ss" "\<not> list_ex (bad_setup f) ss"
    and ext0: "\<not> bad_ext f ext" and x: "x = make_export strs tmpl f ext ss"
    unfolding load_export_def bind_ld_ret_iff fail_if_ret option.inject sum.inject by metis
  note x = x [unfolded make_export_def Let_def] and ext = ext0 [unfolded bad_ext_def]
  from rng have tm: "unat (template_offset f) mod 64 = 0"
      "unat (template_offset f) + 64 * unat (descriptor_count f) \<le> unat (templates_bytes h)"
    by (auto simp: bad_range_def)
  have b16: "unat (binding_count f) \<le> 16" using cnt by (simp add: not_less word_le_nat_alt)
  then have ab: "unat (ucast (binding_count f) :: u8) = unat (binding_count f)" by (simp add: unat_ucast_u16_u8)
  have n24: "setups_of h f \<le> 24" using setup_tables_ret [OF tabs _ i] f by (auto simp: setups_of_def)
  have len: "length ss = setups_of h f" using map_ld_ret [OF ss(1)] by simp
  have ac: "unat (ucast (constant_count f) :: u8) \<le> 6" if "ss = []"
  proof -
    have "unat (constant_count f) \<le> 6" using that len cnt by (auto simp: not_less word_le_nat_alt)
    then show ?thesis by (simp add: unat_ucast_u16_u8)
  qed
  have sum: "unat (prefix_count ext + head_count ext) = unat (prefix_count ext) + unat (head_count ext)"
  proof -
    have "unat (descriptor_count f) < 2 ^ 32" using unsigned_less [of "descriptor_count f", where 'a = nat] by simp
    with ext show ?thesis by (simp add: unat_word_ariths)
  qed
  have valid: "valid_setup x s" if "s \<in> set ss" for s
    using ss(2) that ab by (auto simp: valid_setup_def bad_setup_def x list_ex_iff not_less)
  have pre: "entry_in tmpl (unat (templates_bytes h)) (tmpl + template_offset f)"
    using entry_in_step [OF tm, of 0] ext by auto
  have hd: "entry_in tmpl (unat (templates_bytes h)) (tmpl + template_offset f + 64 * prefix_count ext)"
    using entry_in_step [OF tm, of "prefix_count ext"] ext by auto
  have en: "entry_in tmpl (unat (templates_bytes h)) (tmpl + template_offset f + 64 * (prefix_count ext + head_count ext))"
    using entry_in_step [OF tm, of "prefix_count ext + head_count ext"] ext sum by auto
  have reg: "unat (f_prefix_reg ext) \<le> 14" using ext by (simp add: not_less word_le_nat_alt)
  show ?thesis
    unfolding valid_export_def
  proof (intro conjI ballI impI)
    show "x_prefix_phys x = 0 \<or> entry_in tmpl (unat (templates_bytes h)) (x_prefix_phys x)" using pre by (simp add: x)
    show "x_head_phys x = 0 \<or> entry_in tmpl (unat (templates_bytes h)) (x_head_phys x)" using hd by (simp add: x)
    show "entry_in tmpl (unat (templates_bytes h)) (x_entry_phys x)" using en by (simp only: x export.simps)
    show "unat (a_bindings x) \<le> 16" using ab b16 by (simp add: x)
    show "x_setup x = [] \<Longrightarrow> unat (a_constants x) \<le> 6" using ac by (simp add: x)
    show "length (x_setup x) \<le> 24" using n24 len by (simp add: x)
    show "s \<in> set (x_setup x) \<Longrightarrow> valid_setup x s" for s using valid by (simp add: x)
    show "unat (x_prefix_reg x) \<le> 14" using reg by (simp add: x)
  qed
qed

text \<open>\<open>y\<close> is \<open>x\<close> up to the address of its code.\<close>
definition same_but_code :: "export \<Rightarrow> export \<Rightarrow> bool" where
  "same_but_code y x \<longleftrightarrow> (\<exists>v. y = x\<lparr>rv_embedded := v\<rparr>)"

lemma same_but_code_intros: "same_but_code x x" "same_but_code (x\<lparr>rv_embedded := v\<rparr>) x"
  unfolding same_but_code_def by (intro exI [of _ "rv_embedded x"], simp) blast

lemma copy_code_exports:
  "copy_code data base pos es = ret (xs, cs) \<Longrightarrow> list_all2 same_but_code xs (map fst es)"
proof (induction data base pos es arbitrary: xs cs rule: copy_code.induct)
  case (1 data base pos)
  then show ?case by simp
next
  case (2 data base pos x off n rest)
  show ?case
  proof (cases "n = 0")
    case True
    with 2(3) obtain ys where y: "copy_code data base pos rest = ret (ys, cs)" "xs = x # ys"
      by (auto simp: bind_ld_ret_iff)
    from 2(1) [OF True y(1)] y(2) same_but_code_intros(1) show ?thesis by simp
  next
    case False
    with 2(3) obtain ys ds where y: "copy_code data base (pos + pad64 n) rest = ret (ys, ds)"
      "xs = x\<lparr>rv_embedded := base + of_nat pos\<rparr> # ys"
      by (auto simp: bind_ld_ret_iff)
    from 2(2) [OF False y(1)] y(2) same_but_code_intros(2) show ?thesis by simp
  qed
qed

lemma valid_export_embedded [simp]: "valid_export t n (x\<lparr>rv_embedded := v\<rparr>) = valid_export t n x"
  by (simp add: valid_export_def valid_setup_def)

lemma load_code_valid:
  assumes "load_code data place h xs = ret (ys, cs)" and "length xs = unat (export_count h)"
    and "\<forall>x \<in> set xs. valid_export t n x"
  shows "\<forall>y \<in> set ys. valid_export t n y"
proof (cases "ys = xs")
  case True
  with assms show ?thesis by simp
next
  case False
  with assms(1) obtain es base where e: "length es = unat (export_count h)" "copy_code data base 0 (zip xs es) = ret (ys, cs)"
    by (auto simp: load_code_def Let_def bind_ld_ret_iff split: if_splits dest!: map_ld_ret)
  from copy_code_exports [OF e(2)] e(1) assms(2) have "list_all2 same_but_code ys xs" by simp
  from this assms(3) show ?thesis
    by (induction ys xs rule: list_all2_induct) (auto simp: same_but_code_def)
qed

text \<open>
  C18. Every export of a loaded executable is sound: its prefix, head and body start at whole
  descriptors of the copied templates, it has at most 16 bindings and 24 register values, and
  every entry of its setup table writes an existing register, from an existing binding.
\<close>
theorem loaded_exports_valid:
  assumes "sa_executable_create dev_d dev_caps host_alloc place data = ret e"
    and "place 0 (length (templates e)) = Inr tmpl"
  shows "length (templates e) mod 64 = 0 \<and> (\<forall>x \<in> set (exports e). valid_export tmpl (length (templates e)) x)"
proof -
  from assms(1) obtain hb h strs ts tm xs ys code u where
    h: "h = parse_header hb" and chk: "header_checks data dev_d dev_caps hb h = ret ()"
    and tabs: "check_setup_tables data h = ret u"
    and tm: "place 0 (unat (templates_bytes h)) = Inr tm"
    and ts: "file_slice data (unat (templates_offset h)) (unat (templates_bytes h)) = ret ts"
    and xs: "map_ld (load_export data h strs tm) [0..<unat (export_count h)] = ret xs"
    and lc: "load_code data place h xs = ret (ys, code)"
    and e: "e = \<lparr>exports = ys, templates = ts, rvcode = code\<rparr>"
    by (auto simp: sa_executable_create_def Let_def bind_ld_ret_iff)
  have len: "length ts = unat (templates_bytes h)" using ts by (auto simp: slice_ret)
  have t: "tm = tmpl" using assms(2) tm len e by simp
  have "valid_export tmpl (length ts) x" if "x \<in> set xs" for x
  proof -
    note m = map_ld_ret [OF xs]
    from that obtain i where "i < length xs" "xs ! i = x" by (auto simp: in_set_conv_nth)
    with m have "load_export data h strs tm i = ret x" "i < unat (export_count h)" by auto
    from load_export_valid [OF tabs this(2,1)] show ?thesis by (simp add: t len)
  qed
  moreover have "length xs = unat (export_count h)" using map_ld_ret [OF xs] by simp
  ultimately have "\<forall>y \<in> set ys. valid_export tmpl (length ts) y"
    using load_code_valid [OF lc] by blast
  with header_checks_ret [OF chk] e len show ?thesis by simp
qed

text \<open>A version 2 file: one export with one binding, one constant and a setup table of two entries.\<close>

definition le32 :: "nat \<Rightarrow> u8 list" where
  "le32 n = [of_nat n, of_nat (n div 256), of_nat (n div 65536), of_nat (n div 16777216)]"

definition sample_file :: "u8 list" where
  "sample_file = sa_magic @ concat (map le32 [2, 16, 0, 1, 64, 96, 64, 160, 4, 0, 0]) @ replicate 12 0
     @ concat (map le32 [0, 4, 0, 1, 0x10001, 2, 0, 164]) @ replicate 64 7 @ [0x67, 0x65, 0x6D, 0x6D]
     @ [0, 3, 0, 0] @ le32 0xFFFF @ le32 0 @ le32 8 @ [1, 0, 0, 0] @ le32 0 @ le32 2 @ le32 5"

definition sample_header :: file_header where
  "sample_header = \<lparr>version = 2, h_d = 16, h_caps = 0, export_count = 1, export_offset = 64, templates_offset = 96,
     templates_bytes = 64, strings_offset = 160, strings_bytes = 4, ext_offset = 0, code_offset = 0\<rparr>"

definition sample_entry :: file_export where
  "sample_entry = \<lparr>name_offset = 0, name_length = 4, template_offset = 0, descriptor_count = 1, binding_count = 1,
     constant_count = 1, setup_count = 2, est_cycles = 0, setup_offset = 164\<rparr>"

definition sample_export :: export where
  "sample_export = make_export [0x67, 0x65, 0x6D, 0x6D] 0x1000 sample_entry default_ext
     [parse_setup [0, 3, 0, 0, 0xFF, 0xFF, 0, 0, 0, 0, 0, 0, 8, 0, 0, 0],
      parse_setup [1, 0, 0, 0, 0, 0, 0, 0, 2, 0, 0, 0, 5, 0, 0, 0]]"

lemma sample_parts:
  "length sample_file = 196"
  "file_slice sample_file 160 4 = ret [0x67, 0x65, 0x6D, 0x6D]"
  "file_slice sample_file 96 64 = ret (replicate 64 7)"
  "file_slice sample_file 164 16 = ret [0, 3, 0, 0, 0xFF, 0xFF, 0, 0, 0, 0, 0, 0, 8, 0, 0, 0]"
  "file_slice sample_file 180 16 = ret [1, 0, 0, 0, 0, 0, 0, 0, 2, 0, 0, 0, 5, 0, 0, 0]"
  "take 8 sample_file = sa_magic"
  by (simp_all add: file_slice_def sample_file_def sa_magic_def le32_def)

lemma sample_header_parsed: "parse_header (take 64 sample_file) = sample_header"
  by (simp add: parse_header_def sample_file_def sa_magic_def le32_def field_def sample_header_def)

lemma sample_entry_read: "read_export sample_file sample_header 0 = ret sample_entry"
  by (simp add: read_export_def parse_export_def file_slice_def bind_ld_def sample_file_def sa_magic_def le32_def
      field_def sample_header_def sample_entry_def)

lemma sample_checks:
  "header_checks sample_file 16 0 (take 64 sample_file) sample_header = ret ()"
  "check_setup_tables sample_file sample_header = ret ()"
proof -
  show "header_checks sample_file 16 0 (take 64 sample_file) sample_header = ret ()"
    by (simp add: header_checks_def sa_check_range_def fail_if_def bind_ld_def sample_parts) (simp add: sample_header_def)
  have "setup_count sample_entry = 2" "setup_offset sample_entry = 164" "export_count sample_header = 1"
    by (simp_all add: sample_header_def sample_entry_def)
  then show "check_setup_tables sample_file sample_header = ret ()"
    by (simp add: check_setup_tables_def sa_check_range_def fail_if_def bind_ld_def sample_parts sample_entry_read)
qed

lemma sample_setups_good:
  "\<not> bad_setup sample_entry (parse_setup [0, 3, 0, 0, 0xFF, 0xFF, 0, 0, 0, 0, 0, 0, 8, 0, 0, 0])"
  "\<not> bad_setup sample_entry (parse_setup [1, 0, 0, 0, 0, 0, 0, 0, 2, 0, 0, 0, 5, 0, 0, 0])"
  by (simp_all add: bad_setup_def kind_of_def parse_setup_def sample_entry_def field_def)

lemma sample_loaded: "load_export sample_file sample_header [0x67, 0x65, 0x6D, 0x6D] 0x1000 0 = ret sample_export"
proof -
  have "\<not> bad_range sample_header sample_entry" "\<not> bad_ext sample_entry default_ext" "setups_of sample_header sample_entry = 2"
    by (simp_all add: bad_range_def bad_ext_def setups_of_def sample_header_def sample_entry_def default_ext_def)
  moreover have "setup_offset sample_entry = 164" "binding_count sample_entry = 1" "version sample_header = 2"
    by (simp_all add: sample_entry_def sample_header_def)
  ultimately show ?thesis
    by (simp add: load_export_def sample_entry_read bind_ld_def fail_if_def sample_parts sample_export_def
        upt_rec numeral_2_eq_2 [symmetric] sample_setups_good)
qed

definition sample_executable :: executable where
  "sample_executable = \<lparr>exports = [sample_export], templates = replicate 64 7, rvcode = []\<rparr>"

lemma sample_created: "sa_executable_create 16 0 (Inr ()) (\<lambda>_ _. Inr 0x1000) sample_file = ret sample_executable"
proof -
  have "file_slice sample_file 0 64 = ret (take 64 sample_file)"
    by (simp add: file_slice_def sample_parts)
  moreover have "load_code sample_file (\<lambda>_ _. Inr 0x1000) sample_header [sample_export] = ret ([sample_export], [])"
    by (simp add: load_code_def sample_header_def)
  moreover have "export_count sample_header = 1" "strings_offset sample_header = 160" "strings_bytes sample_header = 4"
    "templates_offset sample_header = 96" "templates_bytes sample_header = 64"
    by (simp_all add: sample_header_def)
  ultimately show ?thesis
    by (simp add: sa_executable_create_def sample_header_parsed sample_checks sample_loaded bind_ld_def sample_parts
        sample_executable_def Let_def sa_check_range_def fail_if_def)
qed

theorem loaded_exports_valid_witness:
  "length (exports sample_executable) = 1
   \<and> list_all (valid_export 0x1000 (length (templates sample_executable))) (exports sample_executable)"
proof -
  have "length (exports sample_executable) = 1" by (simp add: sample_executable_def)
  with loaded_exports_valid [OF sample_created, of "0x1000"] show ?thesis by (simp add: list_all_iff)
qed

end
