(* ===== verification/DescList.thy ===== *)
theory DescList
  imports Prelude
begin

text \<open>
  The descriptor encoder of the compiler (\<^verbatim>\<open>compiler/plugins/sa/target/DescList.{h,cpp}\<close>): a list
  of 64-byte rows, each method appending one. A call that aborts the compiler (more than two
  dynamic fields, a SETREG of no or more than three registers) is \<open>None\<close>. A float argument is
  given by its 32 bits, which is all the encoder uses of it.
\<close>

section \<open>Rows\<close>

text \<open>\<^verbatim>\<open>struct Dyn\<close>: a field taken from a PARAM register, or to which it is added.\<close>
record dyn =
  d_field :: u32
  d_param :: u32
  d_add :: bool

definition dyn_byte :: "dyn \<Rightarrow> u64" where
  "dyn_byte d = zext64 (d_field d OR push_bit 4 (d_param d AND 7) OR (if d_add d then 0x80 else 0))"

definition dyn_flags :: "dyn list \<Rightarrow> u64" where
  "dyn_flags ds = fold (\<lambda>(i, d) f. f OR push_bit (16 + 8 * i) (dyn_byte d)) (enumerate 0 ds) 0"

text \<open>A row from its words after the header: \<^verbatim>\<open>Row w{}\<close> is zero elsewhere.\<close>
definition row_of :: "u64 \<Rightarrow> u64 list \<Rightarrow> row" where
  "row_of w0 ws = take 8 (w0 # ws @ replicate 7 0)"

definition desc_put :: "u32 \<Rightarrow> u64 \<Rightarrow> u64 list \<Rightarrow> dyn list \<Rightarrow> row list \<Rightarrow> row list option" where
  "desc_put op flags ws ds rows =
     (if length ds > 2 then None
      else Some (rows @ [row_of (push_bit 32 (of_nat (length rows)) OR (flags OR dyn_flags ds) OR zext64 op) ws]))"

definition RELOC :: u64 where "RELOC = 0x100"
definition FENCE_BEFORE :: u64 where "FENCE_BEFORE = 0x800"

definition dma_flags :: "int \<Rightarrow> bool \<Rightarrow> u64" where
  "dma_flags base fence_before =
     (if fence_before then FENCE_BEFORE else 0) OR
     (if base \<ge> 0 then RELOC OR push_bit 9 (word_of_int (base AND 3)) OR push_bit 13 (word_of_int (drop_bit 2 base AND 3))
      else 0)"

section \<open>Commands\<close>

definition desc_ld :: "u32 \<Rightarrow> u32 \<Rightarrow> u32 \<Rightarrow> u32 \<Rightarrow> u32 \<Rightarrow> int \<Rightarrow> u32 \<Rightarrow> bool \<Rightarrow> dyn list \<Rightarrow> row list \<Rightarrow> row list option" where
  "desc_ld ddr la nrows row_bytes pitch base mode fence_before =
     desc_put 0x01 (dma_flags base fence_before)
       [zext64 ddr, zext64 la OR push_bit 32 (zext64 nrows) OR push_bit 48 (zext64 row_bytes),
        zext64 pitch OR push_bit 32 (zext64 mode)]"

definition desc_st :: "u32 \<Rightarrow> u32 \<Rightarrow> u32 \<Rightarrow> u32 \<Rightarrow> u32 \<Rightarrow> int \<Rightarrow> bool \<Rightarrow> dyn list \<Rightarrow> row list \<Rightarrow> row list option" where
  "desc_st ddr la nrows row_bytes pitch base fence_before =
     desc_put 0x02 (dma_flags base fence_before)
       [zext64 ddr, zext64 la OR push_bit 32 (zext64 nrows) OR push_bit 48 (zext64 row_bytes), zext64 pitch]"

definition desc_ex :: "u32 \<Rightarrow> u32 \<Rightarrow> u32 \<Rightarrow> u32 \<Rightarrow> bool \<Rightarrow> u32 \<Rightarrow> u32 \<Rightarrow> u32 \<Rightarrow> u32 \<Rightarrow> bool \<Rightarrow> dyn list \<Rightarrow> row list \<Rightarrow> row list option" where
  "desc_ex a b c kt accumulate repeat bstep cstep crow fence_before =
     desc_put 0x03 (dma_flags (-1) fence_before)
       [zext64 a OR push_bit 16 (zext64 b) OR push_bit 32 (zext64 c) OR push_bit 48 (zext64 kt)
          OR push_bit 60 (of_bool accumulate),
        zext64 repeat OR push_bit 16 (zext64 bstep) OR push_bit 32 (zext64 cstep) OR push_bit 48 (zext64 crow)]"

definition desc_transpose :: "u32 \<Rightarrow> u32 \<Rightarrow> u32 \<Rightarrow> u32 \<Rightarrow> u32 \<Rightarrow> bool \<Rightarrow> dyn list \<Rightarrow> row list \<Rightarrow> row list option" where
  "desc_transpose src dst len types stride fence_before =
     desc_put 0x04 (dma_flags (-1) fence_before)
       [zext64 src, zext64 dst OR push_bit 32 (zext64 len), 6 OR push_bit 8 (zext64 types), 0, 0, 0,
        push_bit 48 (zext64 stride)]"

definition desc_ldparam :: "u32 \<Rightarrow> u32 \<Rightarrow> u32 \<Rightarrow> u32 \<Rightarrow> int \<Rightarrow> bool \<Rightarrow> dyn list \<Rightarrow> row list \<Rightarrow> row list option" where
  "desc_ldparam addr param mul add base fence_before =
     desc_put 0x17 (dma_flags base fence_before)
       [zext64 addr, zext64 (param AND 7), zext64 (mul AND 0xFFFF), zext64 add]"

definition desc_fence :: "u32 \<Rightarrow> row list \<Rightarrow> row list option" where
  "desc_fence m = desc_put 0x10 0 [zext64 m] []"

text \<open>\<^verbatim>\<open>struct VeFp\<close>; \<open>fp_t2\<close> is \<open>None\<close> for -1.\<close>
record ve_fp =
  fp_func :: u32
  fp_m1 :: u32
  fp_m2 :: u32
  fp_reduce :: u32
  fp_swapneg :: bool
  fp_imm :: u32
  fp_A :: u32
  fp_B :: u32
  fp_rowlen :: u32
  fp_valid :: u32
  fp_p1 :: u32
  fp_t2 :: "u32 option"

definition ve_types :: "u32 \<Rightarrow> ve_fp \<Rightarrow> u32" where
  "ve_types types fp = (case fp_t2 fp of None \<Rightarrow> types | Some t \<Rightarrow> types OR push_bit 4 (if t = 0 then 1 else t))"

definition ve_flags :: "ve_fp \<Rightarrow> u64" where
  "ve_flags fp = 1 OR push_bit 1 (zext64 (fp_func fp)) OR push_bit 4 (zext64 (fp_m1 fp)) OR push_bit 6 (zext64 (fp_m2 fp))
     OR push_bit 8 (zext64 (fp_reduce fp)) OR push_bit 10 (of_bool (fp_swapneg fp))"

definition desc_ve_fp :: "u32 \<Rightarrow> u32 \<Rightarrow> u32 \<Rightarrow> u32 \<Rightarrow> u32 \<Rightarrow> u32 \<Rightarrow> u32 \<Rightarrow> ve_fp \<Rightarrow> bool \<Rightarrow> dyn list \<Rightarrow> row list \<Rightarrow> row list option" where
  "desc_ve_fp src1 src2 dst len op types period fp fence_before =
     desc_put 0x04 (dma_flags (-1) fence_before)
       [zext64 src1 OR push_bit 32 (zext64 src2), zext64 dst OR push_bit 32 (zext64 len),
        (zext64 op OR push_bit 8 (zext64 (ve_types types fp)) OR push_bit 16 (zext64 period) OR push_bit 32 1
           OR push_bit 48 0) OR push_bit 53 (ve_flags fp),
        0 OR push_bit 32 0x80000000, 0x7FFFFFFF OR push_bit 32 (zext64 (fp_imm fp)),
        zext64 (fp_A fp) OR push_bit 32 (zext64 (fp_B fp)),
        zext64 (fp_rowlen fp) OR push_bit 16 (zext64 (fp_valid fp)) OR push_bit 32 (zext64 (fp_p1 fp))]"

text \<open>The selector bytes of a SETREG, from byte \<open>i\<close> on.\<close>
fun setreg_sels :: "nat \<Rightarrow> u32 list \<Rightarrow> u64" where
  "setreg_sels i [] = 0"
| "setreg_sels i (r # rs) = push_bit (8 * i) (zext64 (0x40 OR r)) OR setreg_sels (Suc i) rs"

definition desc_setreg :: "(u32 \<times> u32) list \<Rightarrow> dyn list \<Rightarrow> u32 \<Rightarrow> row list \<Rightarrow> row list option" where
  "desc_setreg regs ds add_mask rows =
     (if regs = [] \<or> length regs > 3 then None
      else desc_put 0x14 0
        (setreg_sels 0 (map fst regs) # take 3 (map (zext64 \<circ> snd) regs @ replicate 3 0) @ [zext64 (add_mask AND 7)]) ds rows)"

definition desc_loop_end :: "u32 \<Rightarrow> u32 \<Rightarrow> u32 \<Rightarrow> u32 \<Rightarrow> u32 \<Rightarrow> u32 \<Rightarrow> row list \<Rightarrow> row list option" where
  "desc_loop_end offset count k1 s1 k2 s2 =
     desc_put 0x13 0
       [zext64 offset, zext64 count OR push_bit 16 (zext64 (k1 AND 7)) OR push_bit 19 (zext64 (k2 AND 7)), zext64 s1, zext64 s2] []"

definition desc_ret :: "row list \<Rightarrow> row list option" where
  "desc_ret = desc_put 0x16 0 [] []"

section \<open>Bytes\<close>

definition word_bytes :: "u64 \<Rightarrow> u8 list" where
  "word_bytes w = map (\<lambda>b. ucast (drop_bit (8 * b) w)) [0..<8]"

definition row_bytes_of :: "row \<Rightarrow> u8 list" where
  "row_bytes_of r = concat (map word_bytes r)"

definition desc_bytes :: "row list \<Rightarrow> u8 list" where
  "desc_bytes rows = concat (map row_bytes_of rows)"

section \<open>Shape\<close>

lemma length_row_of [simp]: "length (row_of w ws) = 8"
  by (simp add: row_of_def)

lemma row_of_0 [simp, row_simps]: "row_of w ws ! 0 = w"
  by (simp add: row_of_def)

lemma row_of_Suc [row_simps]: "i < 7 \<Longrightarrow> row_of w ws ! Suc i = (if i < length ws then ws ! i else 0)"
  by (simp add: row_of_def nth_append)

lemma length_word_bytes [simp]: "length (word_bytes w) = 8"
  by (simp add: word_bytes_def)

lemma length_row_bytes: "length r = 8 \<Longrightarrow> length (row_bytes_of r) = 64"
  by (simp add: row_bytes_of_def length_concat comp_def sum_list_triv)

lemma length_desc_bytes: "\<forall>r \<in> set rows. length r = 8 \<Longrightarrow> length (desc_bytes rows) = 64 * length rows"
  by (induction rows) (simp_all add: desc_bytes_def length_row_bytes)

lemma desc_put_Some: "desc_put op fl ws ds rows = Some rows' \<longleftrightarrow> length ds \<le> 2 \<and> rows' = rows @
    [row_of (push_bit 32 (of_nat (length rows)) OR (fl OR dyn_flags ds) OR zext64 op) ws]"
  by (auto simp: desc_put_def)

end
