(* ===== verification/Sahw.thy ===== *)
theory Sahw
  imports DescList
begin

text \<open>
  The command level of the compiler: the operations of the sahw dialect
  (\<^verbatim>\<open>compiler/plugins/sa/dialect/SahwOps.td\<close>) and their serialization to descriptors
  (\<^verbatim>\<open>compiler/plugins/sa/transforms/SahwSerialize.cpp\<close>). An I64 attribute is a 64-bit word, a
  float attribute its 32 bits. A register is the index of the operation defining it among the
  template's register definitions; the number assigned to it (attribute \<^verbatim>\<open>reg\<close>) is \<open>None\<close> until
  the registers are assigned.
\<close>

section \<open>Operations\<close>

text \<open>The attributes of every command: dynamic fields and \<^verbatim>\<open>fence_before\<close>.\<close>
record cmd_attrs =
  h_dyn :: "nat list"
  h_fields :: "u32 list"
  h_adds :: "bool list"
  h_fence :: bool

text \<open>\<^verbatim>\<open>LinArgs\<close>: \<open>((push constant * mul) >> shift) + add\<close>, without the constant when it is negative.\<close>
record lin_args =
  l_constant :: u64
  l_mul :: u64
  l_shift :: u64
  l_add :: u64

datatype reg_def =
    BaseDef u64 lin_args "nat option"
  | ParamDef lin_args "nat option"
  | PrivateDef "nat option"

record ld_args =
  ld_ddr :: u64
  ld_laddr :: u64
  ld_rows :: u64
  ld_row_bytes :: u64
  ld_pitch :: u64
  ld_mode :: u64
  ld_xword :: u64
  ld_cstep :: u64
  ld_gemv_acc :: bool

record st_args =
  st_ddr :: u64
  st_laddr :: u64
  st_rows :: u64
  st_row_bytes :: u64
  st_pitch :: u64

record ex_args =
  ex_a :: u64
  ex_b :: u64
  ex_c :: u64
  ex_kt :: u64
  ex_accumulate :: bool
  ex_repeat :: u64
  ex_bstep :: u64
  ex_cstep :: u64
  ex_crow :: u64

record ve_args =
  ve_src1 :: u64
  ve_src2 :: u64
  ve_dst :: u64
  ve_length :: u64
  ve_op :: u64
  ve_ty :: u64
  ve_period :: u64
  ve_isfp :: bool
  ve_func :: u64
  ve_m1 :: u64
  ve_m2 :: u64
  ve_reduce :: u64
  ve_swapneg :: bool
  ve_imm :: u32
  ve_a :: u32
  ve_b :: u32
  ve_rowlen :: u64
  ve_valid :: u64
  ve_p1 :: u64
  ve_scale :: u64
  ve_shift :: u64
  ve_zp :: u64
  ve_lo :: u64
  ve_hi :: u64

record tr_args =
  tr_src :: u64
  tr_dst :: u64
  tr_length :: u64
  tr_types :: u64
  tr_stride :: u64

record ldp_args =
  ldp_addr :: u64
  ldp_mul :: u64
  ldp_add :: u64

text \<open>\<open>Loop\<close>: count, \<open>k1\<close>, \<open>s1\<close>, \<open>k2\<close>, \<open>s2\<close> and the body. \<open>Other\<close>: any operation of another kind.\<close>
datatype op =
    Loop u64 nat u64 nat u64 cmd_attrs "op list"
  | Ld "nat option" ld_args cmd_attrs
  | St "nat option" st_args cmd_attrs
  | Ex ex_args cmd_attrs
  | Ve ve_args cmd_attrs
  | Transpose tr_args cmd_attrs
  | LdParam "nat option" nat ldp_args cmd_attrs
  | Fence u64
  | SetReg "nat list" "u64 list" u64 cmd_attrs
  | Other

text \<open>\<^verbatim>\<open>sahw.template\<close>: its register definitions in order, and its sections.\<close>
record sahw_template =
  t_defs :: "reg_def list"
  t_prefix :: "op list option"
  t_head :: "op list option"
  t_body :: "op list option"
  t_est_cycles :: u64
  t_unsupported :: bool
  t_riscv_only :: bool

section \<open>Serializer\<close>

datatype ser_error =
    Base_not_assigned | Two_bases_in_prefix | Bad_dynamic | Param_not_assigned | Loop_param_not_assigned
  | Store_in_prefix | Target_not_assigned | Bad_setreg | Unexpected_op | No_body

text \<open>\<^verbatim>\<open>Serializer\<close>, with the rows and the next tag \<^verbatim>\<open>emit\<close> passes by reference.\<close>
record ser =
  sr_rows :: "row list"
  sr_tag :: u32
  sr_reads :: u32
  sr_writes :: u32
  sr_prefix_reads :: u32
  sr_prefix_reg :: "nat option"
  sr_spad_b :: bool

definition reg_of :: "reg_def list \<Rightarrow> nat \<Rightarrow> nat option" where
  "reg_of defs v = (if v < length defs then (case defs ! v of BaseDef _ _ r \<Rightarrow> r | ParamDef _ r \<Rightarrow> r | PrivateDef r \<Rightarrow> r) else None)"

definition binding_of :: "reg_def list \<Rightarrow> nat \<Rightarrow> nat" where
  "binding_of defs v = (if v < length defs then (case defs ! v of BaseDef b _ _ \<Rightarrow> unat b | _ \<Rightarrow> 0) else 0)"

text \<open>\<^verbatim>\<open>RELOC | uint64_t(r & 3) << 9 | uint64_t(r >> 2 & 3) << 13\<close>\<close>
definition reloc_flags :: "nat \<Rightarrow> u64" where
  "reloc_flags r = RELOC OR push_bit 9 (of_nat r AND 3) OR push_bit 13 (drop_bit 2 (of_nat r) AND 3)"

definition dyn_slot :: "u32 \<Rightarrow> nat \<Rightarrow> bool \<Rightarrow> u64" where
  "dyn_slot f p a = scast f OR push_bit 4 (of_nat p AND 7) OR (if a then 0x80 else 0)"

text \<open>The dynamic slots from slot \<open>i\<close> on, or the failure of a register that has no number.\<close>
fun dyn_slots :: "reg_def list \<Rightarrow> nat \<Rightarrow> nat list \<Rightarrow> u32 list \<Rightarrow> bool list \<Rightarrow> ser_error + u64" where
  "dyn_slots defs i (v # vs) (f # fs) (a # as) =
     (case reg_of defs v of None \<Rightarrow> Inl Param_not_assigned
      | Some p \<Rightarrow> bind_st (dyn_slots defs (Suc i) vs fs as) (\<lambda>w. Inr (push_bit (16 + 8 * i) (dyn_slot f p a) OR w)))"
| "dyn_slots defs i _ _ _ = Inr 0"

text \<open>The relocation of a command with a base: BASE15 in the prefix, which has a single base.\<close>
definition base_flags :: "reg_def list \<Rightarrow> bool \<Rightarrow> nat option \<Rightarrow> ser \<Rightarrow> ser_error + (u64 \<times> ser)" where
  "base_flags defs in_prefix base s =
     (case base of None \<Rightarrow> Inr (0, s)
      | Some v \<Rightarrow>
          if in_prefix then
            (case sr_prefix_reg s of
               None \<Rightarrow> Inr (reloc_flags 15, s\<lparr>sr_prefix_reg := reg_of defs v\<rparr>)
             | Some r \<Rightarrow> if reg_of defs v = Some r then Inr (reloc_flags 15, s) else Inl Two_bases_in_prefix)
          else (case reg_of defs v of None \<Rightarrow> Inl Base_not_assigned | Some r \<Rightarrow> Inr (reloc_flags r, s)))"

definition ser_header :: "reg_def list \<Rightarrow> bool \<Rightarrow> nat option \<Rightarrow> cmd_attrs \<Rightarrow> ser \<Rightarrow> ser_error + (u64 \<times> ser)" where
  "ser_header defs in_prefix base h s =
     bind_st (base_flags defs in_prefix base s) (\<lambda>(f, s1).
       if length (h_dyn h) > 2 \<or> length (h_fields h) \<noteq> length (h_dyn h) \<or> length (h_adds h) \<noteq> length (h_dyn h)
       then Inl Bad_dynamic
       else bind_st (dyn_slots defs 0 (h_dyn h) (h_fields h) (h_adds h)) (\<lambda>d.
         Inr ((if h_fence h then FENCE_BEFORE else 0) OR f OR d, s1)))"

definition lo32 :: "u64 \<Rightarrow> u64" where
  "lo32 x = x AND 0xFFFFFFFF"

text \<open>The opcode and the words after the header of a command.\<close>
definition ld_words :: "ld_args \<Rightarrow> u64 list" where
  "ld_words o' =
     [lo32 (ld_ddr o'), lo32 (ld_laddr o') OR push_bit 32 (ld_rows o') OR push_bit 48 (ld_row_bytes o'),
      lo32 (ld_pitch o') OR push_bit 32 (ld_mode o') OR push_bit 34 (ld_xword o' AND 0xFFFF)
        OR push_bit 50 (ld_cstep o' AND 0xFF) OR push_bit 58 (of_bool (ld_gemv_acc o'))]"

definition st_words :: "st_args \<Rightarrow> u64 list" where
  "st_words o' =
     [lo32 (st_ddr o'), lo32 (st_laddr o') OR push_bit 32 (st_rows o') OR push_bit 48 (st_row_bytes o'), st_pitch o']"

definition ex_words :: "ex_args \<Rightarrow> u64 list" where
  "ex_words o' =
     [ex_a o' OR push_bit 16 (ex_b o') OR push_bit 32 (ex_c o') OR push_bit 48 (ex_kt o') OR push_bit 60 (of_bool (ex_accumulate o')),
      ex_repeat o' OR push_bit 16 (ex_bstep o') OR push_bit 32 (ex_cstep o') OR push_bit 48 (ex_crow o')]"

definition ve_fp_bits :: "ve_args \<Rightarrow> u64" where
  "ve_fp_bits o' = of_bool (ve_isfp o') OR push_bit 1 (ve_func o') OR push_bit 4 (ve_m1 o') OR push_bit 6 (ve_m2 o')
     OR push_bit 8 (ve_reduce o') OR push_bit 10 (of_bool (ve_swapneg o'))"

definition ve_words :: "ve_args \<Rightarrow> u64 list" where
  "ve_words o' =
     [lo32 (ve_src1 o') OR push_bit 32 (ve_src2 o'), lo32 (ve_dst o') OR push_bit 32 (ve_length o'),
      ve_op o' OR push_bit 8 (ve_ty o') OR push_bit 16 (ve_period o') OR push_bit 32 (ve_scale o' AND 0xFFFF)
        OR push_bit 48 (ve_shift o') OR push_bit 53 (ve_fp_bits o'),
      lo32 (ve_zp o') OR push_bit 32 (lo32 (ve_lo o')), lo32 (ve_hi o') OR push_bit 32 (zext64 (ve_imm o')),
      zext64 (ve_a o') OR push_bit 32 (zext64 (ve_b o')),
      ve_rowlen o' OR push_bit 16 (ve_valid o') OR push_bit 32 (ve_p1 o')]"

definition tr_words :: "tr_args \<Rightarrow> u64 list" where
  "tr_words o' =
     [tr_src o', lo32 (tr_dst o') OR push_bit 32 (tr_length o'), 6 OR push_bit 8 (tr_types o'), 0, 0, 0, push_bit 48 (tr_stride o')]"

text \<open>\<^verbatim>\<open>put\<close>: the row, tagged; the tag counts on.\<close>
definition ser_put :: "u64 \<Rightarrow> u64 \<Rightarrow> u64 list \<Rightarrow> ser \<Rightarrow> ser" where
  "ser_put flags opc ws s =
     s\<lparr>sr_rows := sr_rows s @ [row_of (push_bit 32 (zext64 (sr_tag s)) OR flags OR opc) ws], sr_tag := sr_tag s + 1\<rparr>"

definition in_spad_b :: "u64 \<Rightarrow> bool" where
  "in_spad_b a \<longleftrightarrow> drop_bit 28 (lo32 a) = 2"

text \<open>Whether a command touches SPAD_B (\<^verbatim>\<open>touchesSpadB\<close> of the passes, the same test in the serializer).\<close>
fun touches_spad_b :: "op \<Rightarrow> bool" where
  "touches_spad_b (Ex _ _) = True"
| "touches_spad_b (Ld _ a _) = in_spad_b (ld_laddr a)"
| "touches_spad_b (St _ a _) = in_spad_b (st_laddr a)"
| "touches_spad_b (Ve a _) = (in_spad_b (ve_src1 a) \<or> in_spad_b (ve_src2 a) \<or> in_spad_b (ve_dst a))"
| "touches_spad_b (Transpose a _) = (in_spad_b (tr_src a) \<or> in_spad_b (tr_dst a))"
| "touches_spad_b _ = False"

definition binding_bit :: "reg_def list \<Rightarrow> nat option \<Rightarrow> u32" where
  "binding_bit defs base = (case base of None \<Rightarrow> 0 | Some v \<Rightarrow> push_bit (binding_of defs v) 1)"

text \<open>The selectors of a SETREG's targets (PARAM registers), from byte \<open>i\<close> on.\<close>
fun target_sels :: "reg_def list \<Rightarrow> nat \<Rightarrow> nat list \<Rightarrow> ser_error + u64" where
  "target_sels defs i [] = Inr 0"
| "target_sels defs i (v # vs) =
     (case reg_of defs v of None \<Rightarrow> Inl Target_not_assigned
      | Some p \<Rightarrow> bind_st (target_sels defs (Suc i) vs) (\<lambda>w. Inr (push_bit (8 * i) (zext64 (0x40 OR (16 + of_nat p))) OR w)))"

text \<open>One command that is not a loop.\<close>
definition emit_cmd :: "reg_def list \<Rightarrow> bool \<Rightarrow> op \<Rightarrow> ser \<Rightarrow> ser_error + ser" where
  "emit_cmd defs in_prefix o' s =
     (case o' of
        Ld base a h \<Rightarrow> bind_st (ser_header defs in_prefix base h s) (\<lambda>(f, s1).
          Inr (ser_put f 0x01 (ld_words a)
            (if in_prefix then s1\<lparr>sr_prefix_reads := sr_prefix_reads s1 OR binding_bit defs base\<rparr>
             else s1\<lparr>sr_reads := sr_reads s1 OR binding_bit defs base\<rparr>)))
      | St base a h \<Rightarrow>
          if in_prefix then Inl Store_in_prefix
          else bind_st (ser_header defs in_prefix base h s) (\<lambda>(f, s1).
            Inr (ser_put f 0x02 (st_words a) (s1\<lparr>sr_writes := sr_writes s1 OR binding_bit defs base\<rparr>)))
      | Ex a h \<Rightarrow> bind_st (ser_header defs in_prefix None h s) (\<lambda>(f, s1). Inr (ser_put f 0x03 (ex_words a) s1))
      | Ve a h \<Rightarrow> bind_st (ser_header defs in_prefix None h s) (\<lambda>(f, s1). Inr (ser_put f 0x04 (ve_words a) s1))
      | Transpose a h \<Rightarrow> bind_st (ser_header defs in_prefix None h s) (\<lambda>(f, s1). Inr (ser_put f 0x04 (tr_words a) s1))
      | LdParam base tgt a h \<Rightarrow> bind_st (ser_header defs in_prefix base h s) (\<lambda>(f, s1).
          case reg_of defs tgt of None \<Rightarrow> Inl Target_not_assigned
          | Some p \<Rightarrow> Inr (ser_put f 0x17 [lo32 (ldp_addr a), of_nat p AND 7, ldp_mul a AND 0xFFFF, lo32 (ldp_add a)]
              (s1\<lparr>sr_reads := sr_reads s1 OR binding_bit defs base\<rparr>)))
      | Fence m \<Rightarrow> Inr (ser_put 0 0x10 [m] s)
      | SetReg tgts vals add_mask h \<Rightarrow> bind_st (ser_header defs in_prefix None h s) (\<lambda>(f, s1).
          if tgts = [] \<or> length tgts > 3 \<or> length vals \<noteq> length tgts then Inl Bad_setreg
          else bind_st (target_sels defs 0 tgts) (\<lambda>w.
            Inr (ser_put f 0x14 (w # take 3 (map lo32 vals @ replicate 3 0) @ [add_mask AND 7]) s1)))
      | _ \<Rightarrow> Inl Unexpected_op)"

text \<open>\<^verbatim>\<open>Serializer::emit\<close>.\<close>
fun emit :: "reg_def list \<Rightarrow> bool \<Rightarrow> op list \<Rightarrow> ser \<Rightarrow> ser_error + ser" where
  "emit defs in_prefix [] s = Inr s"
| "emit defs in_prefix (Loop count k1 s1 k2 s2 h body # ops) s =
     bind_st (emit defs in_prefix body s) (\<lambda>t.
       case (reg_of defs k1, reg_of defs k2) of
         (Some r1, Some r2) \<Rightarrow>
           bind_st (ser_header defs in_prefix None h t) (\<lambda>(f, t1).
             emit defs in_prefix ops (ser_put f 0x13
               [zext64 (sr_tag s - sr_tag t), count OR push_bit 16 (of_nat r1 AND 7) OR push_bit 19 (of_nat r2 AND 7), lo32 s1, lo32 s2] t1))
       | _ \<Rightarrow> Inl Loop_param_not_assigned)"
| "emit defs in_prefix (o' # ops) s =
     bind_st (emit_cmd defs in_prefix o' (if in_prefix then s else s\<lparr>sr_spad_b := sr_spad_b s \<or> touches_spad_b o'\<rparr>))
       (\<lambda>t. emit defs in_prefix ops t)"

section \<open>Exports\<close>

text \<open>\<^verbatim>\<open>SetupEntry\<close> with \<open>se_base\<close> for the kind BASE.\<close>
record setup_spec =
  se_base :: bool
  se_reg :: u8
  se_binding :: u8
  se_constant :: u16
  se_mul :: u32
  se_shift :: u8
  se_add :: u32

record serialized_export =
  x_templ :: "u8 list"
  x_setups :: "setup_spec list"
  x_prefix :: u32
  x_preads :: u32
  x_wr :: u32
  x_rd :: u32
  x_head :: u32
  x_flags :: u32
  x_preg :: u32
  x_cycles :: u32

definition lin_setup :: "bool \<Rightarrow> nat \<Rightarrow> u64 \<Rightarrow> lin_args \<Rightarrow> setup_spec" where
  "lin_setup is_base r b l =
     \<lparr>se_base = is_base, se_reg = of_nat r, se_binding = ucast b, se_constant = ucast (l_constant l),
      se_mul = ucast (l_mul l), se_shift = ucast (l_shift l), se_add = ucast (l_add l)\<rparr>"

fun setup_entries :: "reg_def list \<Rightarrow> ser_error + setup_spec list" where
  "setup_entries [] = Inr []"
| "setup_entries (BaseDef b l r # ds) =
     (case r of None \<Rightarrow> Inl Base_not_assigned
      | Some n \<Rightarrow> bind_st (setup_entries ds) (\<lambda>xs. Inr (lin_setup True n b l # xs)))"
| "setup_entries (ParamDef l r # ds) =
     (case r of None \<Rightarrow> Inl Param_not_assigned
      | Some n \<Rightarrow> bind_st (setup_entries ds) (\<lambda>xs. Inr (lin_setup False n 0 l # xs)))"
| "setup_entries (PrivateDef r # ds) = setup_entries ds"

definition ser_ret :: "u32 \<Rightarrow> row" where
  "ser_ret tag = row_of (push_bit 32 (zext64 tag) OR 0x16) []"

definition init_ser :: ser where
  "init_ser = \<lparr>sr_rows = [], sr_tag = 0, sr_reads = 0, sr_writes = 0, sr_prefix_reads = 0, sr_prefix_reg = None,
     sr_spad_b = False\<rparr>"

text \<open>A section and its RET: the number of rows it took.\<close>
definition emit_section :: "reg_def list \<Rightarrow> bool \<Rightarrow> op list \<Rightarrow> ser \<Rightarrow> ser_error + (nat \<times> ser)" where
  "emit_section defs in_prefix ops s =
     bind_st (emit defs in_prefix ops s) (\<lambda>t.
       let u = t\<lparr>sr_rows := sr_rows t @ [ser_ret (sr_tag t)]\<rparr> in Inr (length (sr_rows u) - length (sr_rows s), u))"

definition emit_optional :: "reg_def list \<Rightarrow> bool \<Rightarrow> op list option \<Rightarrow> ser \<Rightarrow> ser_error + (nat \<times> ser)" where
  "emit_optional defs in_prefix ops s = (case ops of None \<Rightarrow> Inr (0, s) | Some os \<Rightarrow> emit_section defs in_prefix os s)"

text \<open>The three sections: the row counts of prefix and head, and the final state.\<close>
definition emit_sections :: "sahw_template \<Rightarrow> op list \<Rightarrow> ser_error + (nat \<times> nat \<times> ser)" where
  "emit_sections t body =
     bind_st (emit_optional (t_defs t) True (t_prefix t) init_ser) (\<lambda>(np, s1).
     bind_st (emit_optional (t_defs t) False (t_head t) (s1\<lparr>sr_tag := 0\<rparr>)) (\<lambda>(nh, s2).
     bind_st (emit_section (t_defs t) False body s2) (\<lambda>(nb, s3). Inr (np, nh, s3))))"

definition serialize_template :: "sahw_template \<Rightarrow> ser_error + serialized_export" where
  "serialize_template t =
     bind_st (setup_entries (t_defs t)) (\<lambda>setups.
     case t_body t of None \<Rightarrow> Inl No_body
     | Some body \<Rightarrow>
         bind_st (emit_sections t body) (\<lambda>(np, nh, s).
           Inr \<lparr>x_templ = desc_bytes (sr_rows s),
             x_setups = (if t_unsupported t then [] else setups),
             x_prefix = of_nat np, x_preads = sr_prefix_reads s, x_wr = sr_writes s,
             x_rd = sr_reads s OR sr_prefix_reads s, x_head = of_nat nh,
             x_flags = (if t_unsupported t then 1 else of_bool (sr_spad_b s) OR (if t_riscv_only t then 2 else 0)),
             x_preg = (case sr_prefix_reg s of None \<Rightarrow> 0 | Some r \<Rightarrow> of_nat r),
             x_cycles = (if t_unsupported t then 0xFFFFFFFF else ucast (t_est_cycles t))\<rparr>))"

end
