(* ===== verification/SahwEncode.thy ===== *)
theory SahwEncode
  imports Sahw
begin

text \<open>
  The two encoders of descriptors agree: the serializer of the sahw dialect
  (\<^verbatim>\<open>SahwSerialize.cpp\<close>) and the DescList class (\<^verbatim>\<open>DescList.cpp\<close>).
\<close>

section \<open>The serializer writes what DescList writes\<close>

text \<open>A call of a DescList method, in the argument range both encoders have.\<close>
datatype desc_call =
    Call_ld "nat option" u32 u32 u32 u32 u32 u32 bool "(nat \<times> u32 \<times> bool) list"
  | Call_st "nat option" u32 u32 u32 u32 u32 bool "(nat \<times> u32 \<times> bool) list"
  | Call_ex u32 u32 u32 u32 bool u32 u32 u32 u32 bool "(nat \<times> u32 \<times> bool) list"
  | Call_ve u32 u32 u32 u32 u32 u32 u32 ve_fp bool "(nat \<times> u32 \<times> bool) list"
  | Call_transpose u32 u32 u32 u32 u32 bool "(nat \<times> u32 \<times> bool) list"
  | Call_ldparam "nat option" nat u32 u32 u32 bool "(nat \<times> u32 \<times> bool) list"
  | Call_fence u32
  | Call_setreg "(nat \<times> u32) list" u32 "(nat \<times> u32 \<times> bool) list"

text \<open>The dynamic fields with the PARAM registers' numbers, and as attributes of an operation.\<close>
definition dyns_of :: "reg_def list \<Rightarrow> (nat \<times> u32 \<times> bool) list \<Rightarrow> dyn list" where
  "dyns_of defs ds = map (\<lambda>(v, f, a). \<lparr>d_field = f, d_param = of_nat (the (reg_of defs v)), d_add = a\<rparr>) ds"

definition attrs_of :: "bool \<Rightarrow> (nat \<times> u32 \<times> bool) list \<Rightarrow> cmd_attrs" where
  "attrs_of fence ds = \<lparr>h_dyn = map fst ds, h_fields = map (fst \<circ> snd) ds, h_adds = map (snd \<circ> snd) ds, h_fence = fence\<rparr>"

definition base_arg :: "reg_def list \<Rightarrow> nat option \<Rightarrow> int" where
  "base_arg defs b = (case b of None \<Rightarrow> -1 | Some v \<Rightarrow> int (the (reg_of defs v)))"

fun call_method :: "reg_def list \<Rightarrow> desc_call \<Rightarrow> row list \<Rightarrow> row list option" where
  "call_method defs (Call_ld b ddr la n rb p m f ds) rs = desc_ld ddr la n rb p (base_arg defs b) m f (dyns_of defs ds) rs"
| "call_method defs (Call_st b ddr la n rb p f ds) rs = desc_st ddr la n rb p (base_arg defs b) f (dyns_of defs ds) rs"
| "call_method defs (Call_ex a b c kt acc rep bs cs cr f ds) rs = desc_ex a b c kt acc rep bs cs cr f (dyns_of defs ds) rs"
| "call_method defs (Call_ve s1 s2 d n opc ty per fp f ds) rs = desc_ve_fp s1 s2 d n opc ty per fp f (dyns_of defs ds) rs"
| "call_method defs (Call_transpose s d n ty st f ds) rs = desc_transpose s d n ty st f (dyns_of defs ds) rs"
| "call_method defs (Call_ldparam b p a m ad f ds) rs =
     desc_ldparam a (of_nat (the (reg_of defs p))) m ad (base_arg defs b) f (dyns_of defs ds) rs"
| "call_method defs (Call_fence m) rs = desc_fence m rs"
| "call_method defs (Call_setreg vs am ds) rs =
     desc_setreg (map (\<lambda>(v, x). (16 + of_nat (the (reg_of defs v)), x)) vs) (dyns_of defs ds) am rs"

text \<open>The operation with the same attributes.\<close>
fun op_of_call :: "desc_call \<Rightarrow> op" where
  "op_of_call (Call_ld b ddr la n rb p m f ds) =
     Ld b \<lparr>ld_ddr = zext64 ddr, ld_laddr = zext64 la, ld_rows = zext64 n, ld_row_bytes = zext64 rb, ld_pitch = zext64 p,
           ld_mode = zext64 m, ld_xword = 0, ld_cstep = 0, ld_gemv_acc = False\<rparr> (attrs_of f ds)"
| "op_of_call (Call_st b ddr la n rb p f ds) =
     St b \<lparr>st_ddr = zext64 ddr, st_laddr = zext64 la, st_rows = zext64 n, st_row_bytes = zext64 rb, st_pitch = zext64 p\<rparr>
       (attrs_of f ds)"
| "op_of_call (Call_ex a b c kt acc rep bs cs cr f ds) =
     Ex \<lparr>ex_a = zext64 a, ex_b = zext64 b, ex_c = zext64 c, ex_kt = zext64 kt, ex_accumulate = acc, ex_repeat = zext64 rep,
         ex_bstep = zext64 bs, ex_cstep = zext64 cs, ex_crow = zext64 cr\<rparr> (attrs_of f ds)"
| "op_of_call (Call_ve s1 s2 d n opc ty per fp f ds) =
     Ve \<lparr>ve_src1 = zext64 s1, ve_src2 = zext64 s2, ve_dst = zext64 d, ve_length = zext64 n, ve_op = zext64 opc,
         ve_ty = zext64 (ve_types ty fp), ve_period = zext64 per, ve_isfp = True, ve_func = zext64 (fp_func fp),
         ve_m1 = zext64 (fp_m1 fp), ve_m2 = zext64 (fp_m2 fp), ve_reduce = zext64 (fp_reduce fp),
         ve_swapneg = fp_swapneg fp, ve_imm = fp_imm fp, ve_a = fp_A fp, ve_b = fp_B fp, ve_rowlen = zext64 (fp_rowlen fp),
         ve_valid = zext64 (fp_valid fp), ve_p1 = zext64 (fp_p1 fp), ve_scale = 1, ve_shift = 0, ve_zp = 0,
         ve_lo = -2147483648, ve_hi = 2147483647\<rparr> (attrs_of f ds)"
| "op_of_call (Call_transpose s d n ty st f ds) =
     Transpose \<lparr>tr_src = zext64 s, tr_dst = zext64 d, tr_length = zext64 n, tr_types = zext64 ty, tr_stride = zext64 st\<rparr>
       (attrs_of f ds)"
| "op_of_call (Call_ldparam b p a m ad f ds) =
     LdParam b p \<lparr>ldp_addr = zext64 a, ldp_mul = zext64 m, ldp_add = zext64 ad\<rparr> (attrs_of f ds)"
| "op_of_call (Call_fence m) = Fence (zext64 m)"
| "op_of_call (Call_setreg vs am ds) = SetReg (map fst vs) (map (zext64 \<circ> snd) vs) (zext64 am) (attrs_of False ds)"

text \<open>The registers a call names: all with numbers, the bases BASE registers, the others PARAM registers.\<close>
definition base_num :: "reg_def list \<Rightarrow> nat option \<Rightarrow> bool" where
  "base_num defs b = (case b of None \<Rightarrow> True | Some v \<Rightarrow> (case reg_of defs v of None \<Rightarrow> False | Some r \<Rightarrow> r < 16))"

definition param_num :: "reg_def list \<Rightarrow> nat \<Rightarrow> bool" where
  "param_num defs v = (case reg_of defs v of None \<Rightarrow> False | Some r \<Rightarrow> r < 8)"

definition dyns_ok :: "reg_def list \<Rightarrow> (nat \<times> u32 \<times> bool) list \<Rightarrow> bool" where
  "dyns_ok defs ds = list_all (\<lambda>(v, f, a). param_num defs v \<and> f < 16) ds"

fun call_ok :: "reg_def list \<Rightarrow> desc_call \<Rightarrow> bool" where
  "call_ok defs (Call_ld b _ _ _ _ _ _ _ ds) = (base_num defs b \<and> dyns_ok defs ds)"
| "call_ok defs (Call_st b _ _ _ _ _ _ ds) = (base_num defs b \<and> dyns_ok defs ds)"
| "call_ok defs (Call_ex _ _ _ _ _ _ _ _ _ _ ds) = dyns_ok defs ds"
| "call_ok defs (Call_ve _ _ _ _ _ _ _ _ _ ds) = dyns_ok defs ds"
| "call_ok defs (Call_transpose _ _ _ _ _ _ ds) = dyns_ok defs ds"
| "call_ok defs (Call_ldparam b p _ _ _ _ ds) = (base_num defs b \<and> param_num defs p \<and> dyns_ok defs ds)"
| "call_ok defs (Call_fence _) = True"
| "call_ok defs (Call_setreg vs _ ds) = (list_all (param_num defs \<circ> fst) vs \<and> dyns_ok defs ds)"

lemma lo32_take_bit: "lo32 x = take_bit 32 x"
  by (simp add: lo32_def take_bit_eq_mask mask_eq_exp_minus_1)

lemma lo32_zext64 [simp]: "lo32 (zext64 x) = zext64 x"
  unfolding lo32_take_bit by (rule bit_eqI) (auto simp: bit_simps dest: bit_imp_le_length)

lemma bit_of_less:
  assumes "(x :: u32) < 2 ^ n" and "n < 32" and "bit x i" shows "i < n"
proof -
  from assms(1) have "take_bit n x = x"
    using less_mask_eq [of x n] by (simp add: take_bit_eq_mask)
  with assms(3) show ?thesis by (metis bit_take_bit_iff)
qed

lemma scast_small: "f < 16 \<Longrightarrow> (scast (f :: u32) :: u64) = zext64 f"
proof (rule bit_eqI)
  fix n assume "f < 16"
  then have "bit f i \<longrightarrow> i < 4" for i using bit_of_less [of f 4 i] by auto
  then show "bit (scast f :: u64) n = bit (zext64 f) n"
    by (cases "n \<le> 31") (fastforce simp: bit_simps)+
qed

lemma zext64_of_nat: "n < 2 ^ 32 \<Longrightarrow> zext64 (of_nat n) = of_nat n"
  by (rule word_unat_eq_iff [THEN iffD2]) (simp add: unsigned_ucast_eq unsigned_of_nat take_bit_nat_eq_self)

lemma zext64_and: "zext64 (a AND b) = zext64 a AND zext64 b"
  by (rule bit_eqI) (auto simp: bit_simps)

lemma zext64_push: "x < 2 ^ m \<Longrightarrow> n + m < 32 \<Longrightarrow> zext64 (push_bit n x) = push_bit n (zext64 x)"
  by (rule bit_eqI) (use bit_of_less [of x m] in \<open>fastforce simp: bit_simps\<close>)

lemma and7_less: "(x :: u32) AND 7 < 2 ^ 3"
  by (rule le_less_trans [OF word_and_le1]) simp

lemma and7_64: "zext64 (x AND 7) = zext64 x AND 7"
  by (simp add: zext64_and)

lemma less_8_cases: "(p :: nat) < 8 \<longleftrightarrow> p = 0 \<or> p = 1 \<or> p = 2 \<or> p = 3 \<or> p = 4 \<or> p = 5 \<or> p = 6 \<or> p = 7"
  by arith

lemma less_16_cases: "(p :: nat) < 16 \<longleftrightarrow> p < 8 \<or> p = 8 \<or> p = 9 \<or> p = 10 \<or> p = 11 \<or> p = 12 \<or> p = 13 \<or> p = 14 \<or> p = 15"
  by arith

lemma dyn_byte_slot:
  "p < 8 \<Longrightarrow> f < 16 \<Longrightarrow> dyn_byte \<lparr>d_field = f, d_param = of_nat p, d_add = a\<rparr> = dyn_slot f p a"
proof -
  assume p: "p < 8" and f: "f < 16"
  have "zext64 (push_bit 4 (of_nat p AND 7)) = push_bit 4 (of_nat p AND 7)"
    using p unfolding less_8_cases by (elim disjE) simp_all
  moreover have "zext64 (if a then 0x80 else 0) = (if a then 0x80 else 0)" by simp
  ultimately show ?thesis
    using f unfolding dyn_byte_def dyn_slot_def by (simp only: ucast_or64 scast_small dyn.simps)
qed

lemma dma_flags_reloc:
  "r < 16 \<Longrightarrow> dma_flags (int r) fence = (if fence then FENCE_BEFORE else 0) OR reloc_flags r"
  "dma_flags (-1) fence = (if fence then FENCE_BEFORE else 0)"
proof -
  assume "r < 16"
  then show "dma_flags (int r) fence = (if fence then FENCE_BEFORE else 0) OR reloc_flags r"
    unfolding less_16_cases less_8_cases
    by (elim disjE) (simp_all add: dma_flags_def reloc_flags_def RELOC_def FENCE_BEFORE_def)
qed (simp add: dma_flags_def)

lemma dyn_slots_flags:
  assumes "dyns_ok defs ds" and "length ds \<le> 2"
  shows "dyn_slots defs 0 (map fst ds) (map (fst \<circ> snd) ds) (map (snd \<circ> snd) ds) = Inr (dyn_flags (dyns_of defs ds))"
proof -
  consider "ds = []" | a where "ds = [a]" | a b where "ds = [a, b]"
    using assms(2) by (cases ds; cases "tl ds"; cases "tl (tl ds)") auto
  then show ?thesis
    using assms(1)
    by cases (auto simp: dyns_ok_def param_num_def dyns_of_def dyn_flags_def dyn_byte_slot or.assoc split: option.splits)
qed

lemma ser_header_call:
  assumes "base_num defs b" and "dyns_ok defs ds"
  shows "ser_header defs False b (attrs_of f ds) s =
    (if length ds > 2 then Inl Bad_dynamic
     else Inr (dma_flags (base_arg defs b) f OR dyn_flags (dyns_of defs ds), s))"
proof (cases b)
  case None
  then show ?thesis
    using dyn_slots_flags [OF assms(2)]
    by (simp add: ser_header_def base_flags_def attrs_of_def base_arg_def dma_flags_reloc)
next
  case (Some v)
  with assms(1) obtain r where r: "reg_of defs v = Some r" "r < 16"
    by (auto simp: base_num_def split: option.splits)
  with Some show ?thesis
    using dyn_slots_flags [OF assms(2)]
    by (simp add: ser_header_def base_flags_def attrs_of_def base_arg_def dma_flags_reloc or.assoc)
qed

lemma length_dyns_of [simp]: "length (dyns_of defs ds) = length ds"
  by (simp add: dyns_of_def)

lemma rows_put [simp]:
  "sr_rows (ser_put f opc ws s) = sr_rows s @ [row_of (push_bit 32 (zext64 (sr_tag s)) OR f OR opc) ws]"
  by (simp add: ser_put_def)

lemma target_sels_call:
  "list_all (param_num defs \<circ> fst) vs \<Longrightarrow>
     target_sels defs i (map fst vs) = Inr (setreg_sels i (map (\<lambda>x. 16 + of_nat (the (reg_of defs (fst x)))) vs))"
  by (induction vs arbitrary: i) (auto simp: param_num_def split: option.splits)

definition rows_result :: "ser_error + ser \<Rightarrow> row list option" where
  "rows_result r = (case r of Inl e \<Rightarrow> None | Inr s \<Rightarrow> Some (sr_rows s))"

lemma rows_result_simps [simp]: "rows_result (Inl e) = None" "rows_result (Inr s) = Some (sr_rows s)"
  by (simp_all add: rows_result_def)

lemma lo32_consts: "lo32 0 = 0" "lo32 (- 2147483648) = 0x80000000" "lo32 2147483647 = 0x7FFFFFFF"
  by (simp_all add: lo32_def)

lemma setreg_vals: "map lo32 (map (zext64 \<circ> snd) vs) = map (zext64 \<circ> snd) vs"
  by simp

text \<open>
  C29. The serializer and the DescList encoder are the same encoding: for every command both can
  express, with registers numbered in range, the serializer appends exactly the row the DescList
  method appends to the same list, and fails exactly where that method aborts.
\<close>
theorem serializer_is_desclist:
  assumes "call_ok defs c" and "sr_tag s = of_nat (length (sr_rows s))" and "length (sr_rows s) < 2 ^ 32"
  shows "rows_result (emit defs False [op_of_call c] s) = call_method defs c (sr_rows s)"
proof -
  note tag = assms(2) zext64_of_nat [OF assms(3)]
  note enc = emit_cmd_def ser_header_call desc_put_def tag
  show ?thesis
  proof (cases c)
    case (Call_ld b ddr la n rb p m f ds)
    with assms(1) show ?thesis by (simp add: enc desc_ld_def ld_words_def)
  next
    case (Call_st b ddr la n rb p f ds)
    with assms(1) show ?thesis by (simp add: enc desc_st_def st_words_def)
  next
    case (Call_ex a b c kt acc rep bs cs cr f ds)
    with assms(1) show ?thesis
      using ser_header_call [of defs None ds f] by (simp add: enc desc_ex_def ex_words_def base_num_def base_arg_def)
  next
    case (Call_ve s1 s2 d n opc ty per fp f ds)
    with assms(1) show ?thesis
      using ser_header_call [of defs None ds f]
      by (simp add: enc desc_ve_fp_def ve_words_def base_num_def base_arg_def ve_fp_bits_def ve_flags_def lo32_consts or.assoc)
  next
    case (Call_transpose s d n ty st f ds)
    with assms(1) show ?thesis
      using ser_header_call [of defs None ds f]
      by (simp add: enc desc_transpose_def tr_words_def base_num_def base_arg_def)
  next
    case (Call_ldparam b p a m ad f ds)
    then obtain r where "reg_of defs p = Some r" "r < 8"
      using assms(1) by (auto simp: param_num_def split: option.splits)
    with Call_ldparam assms(1) show ?thesis
      by (simp add: enc desc_ldparam_def zext64_and zext64_of_nat)
  next
    case (Call_fence m)
    then show ?thesis by (simp add: enc desc_fence_def dyn_flags_def)
  next
    case (Call_setreg vs am ds)
    with assms(1) show ?thesis
      using ser_header_call [of defs None ds False] target_sels_call [of defs vs 0]
      by (simp add: enc desc_setreg_def base_num_def base_arg_def dma_flags_reloc setreg_vals zext64_and comp_def split_beta)
  qed
qed


definition sample_defs :: "reg_def list" where
  "sample_defs = [BaseDef 0 \<lparr>l_constant = -1, l_mul = 1, l_shift = 0, l_add = 0\<rparr> (Some 5), PrivateDef (Some 7)]"

theorem serializer_is_desclist_witness:
  "rows_result (emit sample_defs False [op_of_call (Call_ld (Some 0) 64 0x10000000 4 32 48 1 True [(1, 2, True)])] init_ser)
   = Some [[0x00F22B01, 64, 0x0020000410000000, 0x100000030, 0, 0, 0, 0]]"
proof -
  let ?c = "Call_ld (Some 0) 64 0x10000000 4 32 48 1 True [(1, 2, True)]"
  have "call_ok sample_defs ?c"
    by (simp add: base_num_def dyns_ok_def param_num_def sample_defs_def reg_of_def)
  then have 1: "rows_result (emit sample_defs False [op_of_call ?c] init_ser) = call_method sample_defs ?c (sr_rows init_ser)"
    by (rule serializer_is_desclist) (simp_all add: init_ser_def)
  have r4: "replicate 4 (0 :: u64) = [0, 0, 0, 0]" by (simp add: numeral_eq_Suc)
  have "call_method sample_defs ?c (sr_rows init_ser) = Some [[0x00F22B01, 64, 0x0020000410000000, 0x100000030, 0, 0, 0, 0]]"
    by (simp add: desc_ld_def desc_put_def base_arg_def sample_defs_def reg_of_def dyns_of_def dyn_flags_def dyn_byte_def
        dma_flags_def RELOC_def FENCE_BEFORE_def init_ser_def row_of_def r4)
  with 1 show ?thesis by simp
qed

end
