(* ===== verification/CmdFetch.thy ===== *)
theory CmdFetch
  imports Fetch SahwEncode
begin

text \<open>
  The descriptor fetch unit on the templates of the exports (\<^verbatim>\<open>rtl/sysarray/sa_cmdfetch.v\<close>):
  dynamic fields, the decoding of commands, loops, calls. Prefetching, the AXI bursts and the
  handshake with the scheduler are not modelled: a step is the decoding of one descriptor, and the
  trace records the commands and the waits in the order the scheduler gets them. The word an
  LDPARAM reads is a function of the trace so far, since earlier stores may have written it.
  Below it, what a block of sahw operations means, and the theorem that the unit, running the
  descriptors the serializer wrote, does just that.
\<close>

section \<open>Dynamic fields\<close>

text \<open>Word, lowest bit and width of a dynamic field of an opcode.\<close>
definition field_of :: "u64 \<Rightarrow> nat \<Rightarrow> (nat \<times> nat \<times> nat) option" where
  "field_of opc f =
     (if opc = 0x01 \<or> opc = 0x02 then
        (if f = 1 then Some (1, 0, 32) else if f = 2 then Some (2, 0, 16) else if f = 3 then Some (2, 32, 16)
         else if f = 4 then Some (2, 48, 16) else if f = 5 then Some (3, 0, 32) else None)
      else if opc = 0x03 then
        (if f = 1 then Some (1, 0, 16) else if f = 2 then Some (1, 16, 16) else if f = 3 then Some (1, 32, 16)
         else if f = 4 then Some (1, 48, 12) else if f = 5 then Some (2, 0, 12) else if f = 6 then Some (2, 16, 16)
         else if f = 7 then Some (2, 32, 16) else None)
      else if opc = 0x04 then
        (if f = 1 then Some (1, 0, 16) else if f = 2 then Some (1, 32, 16) else if f = 3 then Some (2, 0, 16)
         else if f = 4 then Some (2, 32, 32) else if f = 5 then Some (7, 16, 16) else if f = 6 then Some (7, 0, 16)
         else if f = 7 then Some (7, 32, 16) else if f = 8 then Some (3, 16, 16) else if f = 9 then Some (6, 0, 32)
         else if f = 10 then Some (6, 32, 32) else if f = 11 then Some (5, 32, 32) else None)
      else if opc = 0x11 \<or> opc = 0x15 \<or> opc = 0x17 then (if f = 1 then Some (1, 0, 32) else None)
      else if opc = 0x13 then (if f = 1 then Some (2, 0, 16) else None)
      else if opc = 0x14 then (if 1 \<le> f \<and> f \<le> 3 then Some (1 + f, 0, 32) else None)
      else None)"

definition set_field :: "nat \<Rightarrow> nat \<Rightarrow> u64 \<Rightarrow> u64 \<Rightarrow> u64" where
  "set_field lsb n v w = (w AND NOT (push_bit lsb (mask n))) OR push_bit lsb (take_bit n v)"

definition opcode :: "row \<Rightarrow> u64" where
  "opcode r = bits 0 8 (r ! 0)"

definition patch_slot :: "regfile \<Rightarrow> nat \<Rightarrow> row \<Rightarrow> row option" where
  "patch_slot f i r =
     (let slot = bits (16 + 8 * i) 8 (r ! 0); k = unat (take_bit 4 slot) in
      if k = 0 then Some r
      else case field_of (opcode r) k of None \<Rightarrow> None
        | Some (wd, lsb, n) \<Rightarrow>
            (let p = zext64 (f (16 + unat (bits 4 3 slot))) in
             Some (r[wd := set_field lsb n (if bit slot 7 then bits lsb n (r ! wd) + p else p) (r ! wd)])))"

definition patch_row :: "regfile \<Rightarrow> row \<Rightarrow> row option" where
  "patch_row f r = (case patch_slot f 0 r of None \<Rightarrow> None | Some r1 \<Rightarrow> patch_slot f 1 r1)"

section \<open>Commands\<close>

text \<open>The packets of \<^verbatim>\<open>sa_defs.vh\<close>, their operands in the order of the \<^verbatim>\<open>pkt_*\<close> functions.\<close>
datatype packet = Pkt_ld u32 "u64 list" | Pkt_st u32 "u64 list" | Pkt_ex "u64 list" | Pkt_ve "u64 list"

text \<open>What happens in order: a command for the engines, or a wait for those of a mask (0: all).\<close>
datatype fetch_ev = Packet packet | Wait u64

definition ddr_of :: "regfile \<Rightarrow> row \<Rightarrow> u32" where
  "ddr_of f r = ucast (bits 0 32 (r ! 1)) +
     (if bit (r ! 0) 8 then f (unat (bits 9 2 (r ! 0) OR push_bit 2 (bits 13 2 (r ! 0)))) else 0)"

definition cmd_pkt :: "regfile \<Rightarrow> row \<Rightarrow> packet" where
  "cmd_pkt f r =
     (if opcode r = 0x01 then
        Pkt_ld (ddr_of f r) [bits 0 32 (r ! 2), bits 32 16 (r ! 2), bits 48 16 (r ! 2), bits 0 32 (r ! 3), bits 32 2 (r ! 3),
          bits 34 16 (r ! 3), bits 50 8 (r ! 3), bits 58 1 (r ! 3)]
      else if opcode r = 0x02 then
        Pkt_st (ddr_of f r) [bits 0 32 (r ! 2), bits 32 16 (r ! 2), bits 48 16 (r ! 2), bits 0 32 (r ! 3)]
      else if opcode r = 0x03 then
        Pkt_ex [bits 0 16 (r ! 1), bits 16 16 (r ! 1), bits 32 16 (r ! 1), bits 48 12 (r ! 1), bits 60 1 (r ! 1),
          (if bits 0 12 (r ! 2) = 0 then 0 else bits 0 12 (r ! 2) - 1), bits 16 16 (r ! 2), bits 32 16 (r ! 2), bits 48 16 (r ! 2)]
      else
        Pkt_ve [bits 0 32 (r ! 1), bits 32 32 (r ! 1), bits 0 32 (r ! 2), bits 32 32 (r ! 2), bits 0 8 (r ! 3), bits 8 6 (r ! 3),
          bits 16 16 (r ! 3), bits 32 16 (r ! 3), bits 48 5 (r ! 3), bits 0 32 (r ! 4), bits 32 32 (r ! 4), bits 0 32 (r ! 5),
          bits 53 11 (r ! 3), bits 32 32 (r ! 5), bits 0 32 (r ! 6), bits 32 32 (r ! 6), bits 0 16 (r ! 7), bits 16 16 (r ! 7),
          bits 32 16 (r ! 7), bits 48 16 (r ! 7)])"

type_synonym exec_state = "regfile \<times> fetch_ev list"

definition waits_before :: "row \<Rightarrow> fetch_ev list" where
  "waits_before r = (if bit (r ! 0) 11 then [Wait 0] else [])"

definition is_cmd :: "u64 \<Rightarrow> bool" where
  "is_cmd opc \<longleftrightarrow> opc = 0x01 \<or> opc = 0x02 \<or> opc = 0x03 \<or> opc = 0x04"

text \<open>Opcodes that let the unit go on with the next descriptor.\<close>
definition plain_opcode :: "u64 \<Rightarrow> bool" where
  "plain_opcode opc \<longleftrightarrow> is_cmd opc \<or> opc = 0x10 \<or> opc = 0x14 \<or> opc = 0x17"

text \<open>A descriptor with such an opcode, its dynamic fields already replaced.\<close>
definition plain_effect :: "(fetch_ev list \<Rightarrow> u32 \<Rightarrow> u32) \<Rightarrow> row \<Rightarrow> exec_state \<Rightarrow> exec_state option" where
  "plain_effect ldw r st =
     (let (f, tr) = st in
      if is_cmd (opcode r) then Some (f, tr @ waits_before r @ [Packet (cmd_pkt f r)])
      else if opcode r = 0x10 then Some (f, tr @ [Wait (bits 0 4 (r ! 1))])
      else if opcode r = 0x14 then map_option (\<lambda>g. (g, tr)) (setreg_row r f)
      else if opcode r = 0x17 then
        (let a = ddr_of f r; tr' = tr @ waits_before r in
         if a AND 3 \<noteq> 0 then None
         else Some (f(16 + unat (bits 0 3 (r ! 2)) := ldw tr' a * ucast (bits 0 16 (r ! 3)) + ucast (bits 0 32 (r ! 4))), tr'))
      else None)"

definition exec_row :: "(fetch_ev list \<Rightarrow> u32 \<Rightarrow> u32) \<Rightarrow> row \<Rightarrow> exec_state \<Rightarrow> exec_state option" where
  "exec_row ldw r0 st =
     (if bit (r0 ! 0) 15 then None
      else case patch_row (fst st) r0 of None \<Rightarrow> None | Some r \<Rightarrow> plain_effect ldw r st)"

section \<open>The unit\<close>

text \<open>The loop stack (innermost level first) and the call stack.\<close>
record fetch =
  f_pc :: u32
  f_regs :: regfile
  f_loops :: "(u32 \<times> nat) list"
  f_calls :: "u32 list"
  f_trace :: "fetch_ev list"

datatype outcome = Running fetch | Ended u32 fetch | Fetch_error fetch

text \<open>\<^verbatim>\<open>DESC_LOOP_END\<close>: \<open>lp_match\<close>, \<open>lp_cur\<close>, the two strides, and the jump or the end of the loop.\<close>
definition loop_end :: "row \<Rightarrow> fetch \<Rightarrow> outcome" where
  "loop_end r m =
     (let cnt = unat (bits 0 16 (r ! 2));
          match = (case f_loops m of [] \<Rightarrow> False | (a, _) # _ \<Rightarrow> a = f_pc m);
          cur = (if match then snd (hd (f_loops m)) else cnt);
          k1 = 16 + unat (bits 16 3 (r ! 2)); k2 = 16 + unat (bits 19 3 (r ! 2));
          s1 = ucast (bits 0 32 (r ! 3)); s2 = ucast (bits 0 32 (r ! 4));
          f = f_regs m;
          f' = (if k1 = k2 then f(k1 := f k1 + s1 + s2) else f(k1 := f k1 + s1, k2 := f k2 + s2));
          tgt = f_pc m + push_bit 6 (ucast (bits 0 26 (r ! 1)))
      in if cnt = 0 \<or> (\<not> match \<and> length (f_loops m) = 2) then Fetch_error m
         else if cur > 1 then
           Running (m\<lparr>f_pc := tgt, f_regs := f',
             f_loops := (f_pc m, cur - 1) # (if match then tl (f_loops m) else f_loops m)\<rparr>)
         else Running (m\<lparr>f_pc := f_pc m + 64, f_regs := f', f_loops := (if match then tl (f_loops m) else f_loops m)\<rparr>))"

definition jump_target :: "row \<Rightarrow> fetch \<Rightarrow> u32 option" where
  "jump_target r m =
     (if bit (r ! 2) 0 then Some (f_pc m + push_bit 6 (ucast (bits 0 26 (r ! 1))))
      else if bits 0 6 (r ! 1) \<noteq> 0 then None
      else Some (ucast (bits 0 32 (r ! 1))))"

definition fetch_step :: "(fetch_ev list \<Rightarrow> u32 \<Rightarrow> u32) \<Rightarrow> (u32 \<Rightarrow> row) \<Rightarrow> fetch \<Rightarrow> outcome" where
  "fetch_step ldw M m =
     (let r0 = M (f_pc m); opc = opcode r0 in
      if plain_opcode opc then
        (case exec_row ldw r0 (f_regs m, f_trace m) of None \<Rightarrow> Fetch_error m
         | Some (f, tr) \<Rightarrow> Running (m\<lparr>f_pc := f_pc m + 64, f_regs := f, f_trace := tr\<rparr>))
      else if bit (r0 ! 0) 15 then Fetch_error m
      else case patch_row (f_regs m) r0 of None \<Rightarrow> Fetch_error m
      | Some r \<Rightarrow>
        if opc = 0x13 then loop_end r m
        else if opc = 0x11 then (case jump_target r m of None \<Rightarrow> Fetch_error m | Some t \<Rightarrow> Running (m\<lparr>f_pc := t\<rparr>))
        else if opc = 0x15 then
          (if length (f_calls m) = 4 then Fetch_error m
           else case jump_target r m of None \<Rightarrow> Fetch_error m
             | Some t \<Rightarrow> Running (m\<lparr>f_pc := t, f_calls := (f_pc m + 64) # f_calls m\<rparr>))
        else if opc = 0x16 then
          (case f_calls m of [] \<Rightarrow> Fetch_error m | a # as \<Rightarrow> Running (m\<lparr>f_pc := a, f_calls := as\<rparr>))
        else if opc = 0x12 then Ended (ucast (bits 0 32 (r ! 1))) m
        else Fetch_error m)"

inductive fetch_rel :: "(fetch_ev list \<Rightarrow> u32 \<Rightarrow> u32) \<Rightarrow> (u32 \<Rightarrow> row) \<Rightarrow> fetch \<Rightarrow> fetch \<Rightarrow> bool" for ldw M where
  step: "fetch_step ldw M m = Running m' \<Longrightarrow> fetch_rel ldw M m m'"

inductive_simps fetch_rel_iff: "fetch_rel ldw M m m'"

abbreviation fetches :: "(fetch_ev list \<Rightarrow> u32 \<Rightarrow> u32) \<Rightarrow> (u32 \<Rightarrow> row) \<Rightarrow> fetch \<Rightarrow> fetch \<Rightarrow> bool" where
  "fetches ldw M \<equiv> (fetch_rel ldw M)\<^sup>*\<^sup>*"

section \<open>The meaning of a block of operations\<close>

text \<open>The descriptors of a block.\<close>
fun nrows :: "op list \<Rightarrow> nat" where
  "nrows [] = 0"
| "nrows (Loop count k1 s1 k2 s2 h body # ops) = nrows body + Suc (nrows ops)"
| "nrows (o' # ops) = Suc (nrows ops)"

fun loop_depth :: "op list \<Rightarrow> nat" where
  "loop_depth [] = 0"
| "loop_depth (Loop count k1 s1 k2 s2 h body # ops) = max (Suc (loop_depth body)) (loop_depth ops)"
| "loop_depth (o' # ops) = loop_depth ops"

fun iterate :: "nat \<Rightarrow> ('s \<Rightarrow> 's option) \<Rightarrow> 's \<Rightarrow> 's option" where
  "iterate 0 f s = Some s"
| "iterate (Suc n) f s = (case f s of None \<Rightarrow> None | Some s' \<Rightarrow> iterate n f s')"

definition bump :: "reg_def list \<Rightarrow> nat \<Rightarrow> u64 \<Rightarrow> nat \<Rightarrow> u64 \<Rightarrow> exec_state \<Rightarrow> exec_state" where
  "bump defs k1 s1 k2 s2 st =
     (let r1 = 16 + the (reg_of defs k1); r2 = 16 + the (reg_of defs k2); f = fst st; g = f(r1 := f r1 + ucast s1) in
      (g(r2 := g r2 + ucast s2), snd st))"

text \<open>The count of a loop, with its dynamic field.\<close>
definition loop_count :: "regfile \<Rightarrow> row \<Rightarrow> nat option" where
  "loop_count f r = map_option (\<lambda>r'. unat (bits 0 16 (r' ! 2))) (patch_row f r)"

text \<open>
  A loop runs its body at least once; its count, when dynamic, is taken at the end of the first
  pass, and the strides are added after every pass. A dynamic count that reads 0 at the end of any
  pass is an error.
\<close>
definition next_pass :: "reg_def list \<Rightarrow> nat \<Rightarrow> u64 \<Rightarrow> nat \<Rightarrow> u64 \<Rightarrow> row \<Rightarrow> exec_state \<Rightarrow> exec_state option" where
  "next_pass defs k1 s1 k2 s2 r st =
     (case loop_count (fst st) r of None \<Rightarrow> None
      | Some c \<Rightarrow> if c = 0 then None else Some (bump defs k1 s1 k2 s2 st))"

fun exec :: "(fetch_ev list \<Rightarrow> u32 \<Rightarrow> u32) \<Rightarrow> reg_def list \<Rightarrow> op list \<Rightarrow> row list \<Rightarrow> exec_state \<Rightarrow> exec_state option" where
  "exec ldw defs [] rs st = Some st"
| "exec ldw defs (Loop count k1 s1 k2 s2 h body # ops) rs st =
     (case exec ldw defs body rs st of None \<Rightarrow> None
      | Some st1 \<Rightarrow>
          (case next_pass defs k1 s1 k2 s2 (rs ! nrows body) st1 of None \<Rightarrow> None
           | Some st2 \<Rightarrow>
               (case iterate (the (loop_count (fst st1) (rs ! nrows body)) - 1)
                       (\<lambda>s. case exec ldw defs body rs s of None \<Rightarrow> None
                            | Some s' \<Rightarrow> next_pass defs k1 s1 k2 s2 (rs ! nrows body) s') st2 of None \<Rightarrow> None
                | Some st3 \<Rightarrow> exec ldw defs ops (drop (Suc (nrows body)) rs) st3)))"
| "exec ldw defs (o' # ops) rs st =
     (case exec_row ldw (hd rs) st of None \<Rightarrow> None | Some st1 \<Rightarrow> exec ldw defs ops (tl rs) st1)"

end
