(* ===== verification/TemplateRun.thy ===== *)
theory TemplateRun
  imports CmdFetch
begin

text \<open>
  The serializer is correct: running the descriptors it writes for a block of sahw operations, the
  fetch unit does what the block means (\<^verbatim>\<open>exec\<close> of \<^verbatim>\<open>CmdFetch\<close>). A block's rows have a shape
  (\<open>code_ok\<close>) from which the simulation follows by induction on the block, its loops by induction on
  their passes.
\<close>


section \<open>Blocks of descriptors\<close>

text \<open>A LOOP_END as the serializer writes it after a body of \<open>n\<close> descriptors.\<close>
definition loop_row :: "reg_def list \<Rightarrow> nat \<Rightarrow> u64 \<Rightarrow> nat \<Rightarrow> u64 \<Rightarrow> nat \<Rightarrow> row \<Rightarrow> bool" where
  "loop_row defs k1 s1 k2 s2 n r \<longleftrightarrow>
     opcode r = 0x13 \<and> \<not> bit (r ! 0) 15 \<and> length r = 8
     \<and> push_bit 6 (ucast (bits 0 26 (r ! 1))) = (- (64 * of_nat n) :: u32)
     \<and> unat (bits 16 3 (r ! 2)) = the (reg_of defs k1) \<and> unat (bits 19 3 (r ! 2)) = the (reg_of defs k2)
     \<and> ucast (bits 0 32 (r ! 3)) = (ucast s1 :: u32) \<and> ucast (bits 0 32 (r ! 4)) = (ucast s2 :: u32)"

fun code_ok :: "reg_def list \<Rightarrow> op list \<Rightarrow> row list \<Rightarrow> bool" where
  "code_ok defs [] rs = True"
| "code_ok defs (Loop count k1 s1 k2 s2 h body # ops) rs \<longleftrightarrow>
     code_ok defs body rs \<and> loop_row defs k1 s1 k2 s2 (nrows body) (rs ! nrows body)
     \<and> code_ok defs ops (drop (Suc (nrows body)) rs)"
| "code_ok defs (o' # ops) rs \<longleftrightarrow> plain_opcode (opcode (hd rs)) \<and> code_ok defs ops (tl rs)"

lemma field_of_loop: "field_of 0x13 k = Some (wd, lsb, n) \<Longrightarrow> wd = 2 \<and> lsb = 0 \<and> n = 16"
  by (auto simp: field_of_def split: if_splits)

lemma bits_set_field_other: "lo + m \<le> 64 \<Longrightarrow> n \<le> lo \<Longrightarrow> bits lo m (set_field 0 n v w) = bits lo m w"
  by (rule bit_eqI) (auto simp: bit_bits set_field_def bit_simps)

text \<open>The dynamic field of a LOOP_END is its count.\<close>
lemma patch_slot_loop:
  assumes "patch_slot f i r = Some r'" and "opcode r = 0x13" and "length r = 8"
  shows "r' = r \<or> (\<exists>v. r' = r[2 := set_field 0 16 v (r ! 2)])"
  using assms(1) unfolding patch_slot_def Let_def assms(2)
  by (fastforce split: if_splits option.splits dest: field_of_loop)

lemma opcode_update: "length r = 8 \<Longrightarrow> i \<noteq> 0 \<Longrightarrow> opcode (r[i := w]) = opcode r"
  by (simp add: opcode_def)

lemma patch_row_loop:
  assumes "patch_row f r = Some r'" and "loop_row defs k1 s1 k2 s2 n r"
  shows "loop_row defs k1 s1 k2 s2 n r'"
proof -
  have keep: "loop_row defs k1 s1 k2 s2 n (q[2 := set_field 0 16 v (q ! 2)])" if "loop_row defs k1 s1 k2 s2 n q" for q v
    using that by (simp add: loop_row_def opcode_update bits_set_field_other)
  from assms(1) obtain r1 where r1: "patch_slot f 0 r = Some r1" "patch_slot f 1 r1 = Some r'"
    by (auto simp: patch_row_def split: option.splits)
  have l1: "loop_row defs k1 s1 k2 s2 n r1"
    using patch_slot_loop [OF r1(1)] assms(2) keep [OF assms(2)] by (auto simp: loop_row_def)
  then show ?thesis
    using patch_slot_loop [OF r1(2)] keep [OF l1] by (auto simp: loop_row_def)
qed

lemma bump_loop_end:
  assumes "loop_row defs k1 s1 k2 s2 n r"
  shows "(let a = 16 + unat (bits 16 3 (r ! 2)); b = 16 + unat (bits 19 3 (r ! 2));
              x = ucast (bits 0 32 (r ! 3)); y = ucast (bits 0 32 (r ! 4))
          in if a = b then f(a := f a + x + y) else f(a := f a + x, b := f b + y))
       = fst (bump defs k1 s1 k2 s2 (f, tr))"
  using assms by (auto simp: loop_row_def bump_def Let_def)

abbreviation fm :: "u32 \<Rightarrow> regfile \<Rightarrow> (u32 \<times> nat) list \<Rightarrow> u32 list \<Rightarrow> fetch_ev list \<Rightarrow> fetch" where
  "fm a f L C tr \<equiv> \<lparr>f_pc = a, f_regs = f, f_loops = L, f_calls = C, f_trace = tr\<rparr>"

text \<open>What a LOOP_END does: the next pass, or the end of the loop.\<close>
lemma step_loop_end:
  assumes row: "loop_row defs k1 s1 k2 s2 n (M x)"
    and np: "next_pass defs k1 s1 k2 s2 (M x) (f, tr) = Some (f', tr')"
    and cur: "(if \<exists>k L'. L = (x, k) # L' then snd (hd L) else the (loop_count f (M x))) = k"
    and room: "(\<exists>k L'. L = (x, k) # L') \<or> length L < 2"
  defines "rest \<equiv> if \<exists>k L'. L = (x, k) # L' then tl L else L"
  shows "fetch_step ldw M (fm x f L C tr) =
     Running (if k > 1 then fm (x - 64 * of_nat n) f' ((x, k - 1) # rest) C tr' else fm (x + 64) f' rest C tr')"
proof -
  from np obtain r where r: "patch_row f (M x) = Some r" "unat (bits 0 16 (r ! 2)) \<noteq> 0"
    and f': "f' = fst (bump defs k1 s1 k2 s2 (f, tr))" and tr': "tr' = tr"
    by (auto simp: next_pass_def loop_count_def bump_def Let_def split: option.splits if_splits)
  note lr = patch_row_loop [OF r(1) row]
  have cnt: "the (loop_count f (M x)) = unat (bits 0 16 (r ! 2))" by (simp add: loop_count_def r)
  have opc: "opcode (M x) = 0x13" "\<not> bit (M x ! 0) 15" using row by (simp_all add: loop_row_def)
  have "fetch_step ldw M (fm x f L C tr) = loop_end r (fm x f L C tr)"
    using opc r(1) by (simp add: fetch_step_def Let_def plain_opcode_def is_cmd_def)
  also have "\<dots> = Running (if k > 1 then fm (x - 64 * of_nat n) f' ((x, k - 1) # rest) C tr' else fm (x + 64) f' rest C tr')"
    using bump_loop_end [OF lr, of f tr, folded f'] lr r(2) cur room unfolding cnt rest_def tr' loop_end_def loop_row_def
    by (cases L) (auto simp: Let_def split: if_splits)
  finally show ?thesis .
qed


definition code_at :: "(u32 \<Rightarrow> row) \<Rightarrow> u32 \<Rightarrow> row list \<Rightarrow> nat \<Rightarrow> bool" where
  "code_at M a rs n \<longleftrightarrow> n \<le> length rs \<and> (\<forall>i < n. M (a + 64 * of_nat i) = rs ! i)"

lemma code_at_less: "code_at M a rs n \<Longrightarrow> m \<le> n \<Longrightarrow> code_at M a rs m"
  by (simp add: code_at_def)

lemma addr_add: "(a :: u32) + 64 * of_nat (k + i) = a + 64 * of_nat k + 64 * of_nat i"
  by (simp add: distrib_left)

lemma code_at_drop: "code_at M a rs (k + n) \<Longrightarrow> code_at M (a + 64 * of_nat k) (drop k rs) n"
proof -
  assume c: "code_at M a rs (k + n)"
  have "M (a + 64 * of_nat k + 64 * of_nat i) = drop k rs ! i" if "i < n" for i
  proof -
    have "M (a + 64 * of_nat (k + i)) = rs ! (k + i)" using c that by (simp only: code_at_def)
    then show ?thesis using c unfolding addr_add by (simp add: code_at_def)
  qed
  with c show ?thesis by (auto simp: code_at_def)
qed

text \<open>The innermost active loop does not end in this block.\<close>
definition loop_elsewhere :: "(u32 \<times> nat) list \<Rightarrow> u32 \<Rightarrow> nat \<Rightarrow> bool" where
  "loop_elsewhere L a n \<longleftrightarrow> (\<forall>x k L'. L = (x, k) # L' \<longrightarrow> (\<forall>i < n. x \<noteq> a + 64 * of_nat i))"

lemma loop_elsewhere_drop: "loop_elsewhere L a (k + n) \<Longrightarrow> loop_elsewhere L (a + 64 * of_nat k) n"
  unfolding loop_elsewhere_def
proof (intro allI impI notI)
  fix x j L' i
  assume h: "\<forall>x j L'. L = (x, j) # L' \<longrightarrow> (\<forall>i < k + n. x \<noteq> a + 64 * of_nat i)" "L = (x, j) # L'" "i < n"
    "x = a + 64 * of_nat k + 64 * of_nat i"
  then have "x \<noteq> a + 64 * of_nat (k + i)" by (metis nat_add_left_cancel_less)
  with h(4) show False unfolding addr_add by simp
qed

lemma loop_elsewhere_less: "loop_elsewhere L a n \<Longrightarrow> m \<le> n \<Longrightarrow> loop_elsewhere L a m"
  by (auto simp: loop_elsewhere_def)

lemma address_neq:
  assumes "i < n" and "n < 2 ^ 26"
  shows "(a :: u32) + 64 * of_nat n \<noteq> a + 64 * of_nat i"
proof
  assume "a + 64 * of_nat n = a + 64 * of_nat i"
  then have "(of_nat (64 * n) :: u32) = of_nat (64 * i)" by simp
  then have "take_bit 32 (64 * n) = take_bit 32 (64 * i)"
    by (simp only: word_of_nat_eq_iff) simp
  moreover have "64 * n < 2 ^ 32" "64 * i < 2 ^ 32" using assms by simp_all
  ultimately show False using assms(1) by (simp add: take_bit_nat_eq_self)
qed

lemma loop_elsewhere_self: "n < 2 ^ 26 \<Longrightarrow> loop_elsewhere ((a + 64 * of_nat n, k) # L) a n"
  using address_neq by (auto simp: loop_elsewhere_def)

lemma fetches_one: "fetch_step ldw M m = Running m' \<Longrightarrow> fetches ldw M m' m'' \<Longrightarrow> fetches ldw M m m''"
  by (meson converse_rtranclp_into_rtranclp fetch_rel.step)

text \<open>The passes of a loop after the first, given what one run of its body does.\<close>
lemma loop_passes:
  assumes body: "\<And>f tr f' tr' L. run (f, tr) = Some (f', tr') \<Longrightarrow> L \<noteq> [] \<Longrightarrow> hd L = (a + 64 * of_nat n, snd (hd L)) \<Longrightarrow>
      tl L = L0 \<Longrightarrow> fetches ldw M (fm a f L C tr) (fm (a + 64 * of_nat n) f' L C tr')"
    and row: "loop_row defs k1 s1 k2 s2 n (M (a + 64 * of_nat n))"
    and it: "iterate k (\<lambda>s. case run s of None \<Rightarrow> None | Some s' \<Rightarrow> next_pass defs k1 s1 k2 s2 (M (a + 64 * of_nat n)) s') (f, tr)
      = Some (f', tr')"
    and pos: "k > 0"
  shows "fetches ldw M (fm a f ((a + 64 * of_nat n, k) # L0) C tr) (fm (a + 64 * of_nat n + 64) f' L0 C tr')"
  using it pos
proof (induction k arbitrary: f tr)
  case 0
  then show ?case by simp
next
  case (Suc k)
  let ?x = "a + 64 * of_nat n :: u32"
  from Suc.prems obtain f1 tr1 f2 tr2 where r: "run (f, tr) = Some (f1, tr1)"
    "next_pass defs k1 s1 k2 s2 (M ?x) (f1, tr1) = Some (f2, tr2)"
    and rest: "iterate k (\<lambda>s. case run s of None \<Rightarrow> None | Some s' \<Rightarrow> next_pass defs k1 s1 k2 s2 (M ?x) s') (f2, tr2) = Some (f', tr')"
    by (auto split: option.splits)
  let ?L = "(?x, Suc k) # L0"
  have b: "fetches ldw M (fm a f ?L C tr) (fm ?x f1 ?L C tr1)"
    using body [OF r(1), of ?L] by simp
  have st: "fetch_step ldw M (fm ?x f1 ?L C tr1) =
      Running (if Suc k > 1 then fm (?x - 64 * of_nat n) f2 ((?x, k) # L0) C tr2 else fm (?x + 64) f2 L0 C tr2)"
    using step_loop_end [of defs k1 s1 k2 s2 n M ?x f1 tr1 f2 tr2 ?L "Suc k" ldw C] row r(2) by auto
  show ?case
  proof (cases "k = 0")
    case True
    with st rest have "fetch_step ldw M (fm ?x f1 ?L C tr1) = Running (fm (?x + 64) f' L0 C tr')" by simp
    with b show ?thesis by (meson fetch_rel.step rtranclp.rtrancl_into_rtrancl)
  next
    case False
    with st have "fetch_step ldw M (fm ?x f1 ?L C tr1) = Running (fm a f2 ((?x, k) # L0) C tr2)" by simp
    moreover have "fetches ldw M (fm a f2 ((?x, k) # L0) C tr2) (fm (?x + 64) f' L0 C tr')"
      using Suc.IH [OF rest] False by simp
    ultimately show ?thesis using b by (meson fetches_one rtranclp_trans)
  qed
qed


text \<open>The unit, run over a block from its first descriptor, does what the block means.\<close>
definition sim :: "(fetch_ev list \<Rightarrow> u32 \<Rightarrow> u32) \<Rightarrow> (u32 \<Rightarrow> row) \<Rightarrow> u32 list \<Rightarrow> reg_def list \<Rightarrow> op list \<Rightarrow> row list \<Rightarrow> bool" where
  "sim ldw M C defs ops rs \<longleftrightarrow>
     (\<forall>a f tr f' tr' L. exec ldw defs ops rs (f, tr) = Some (f', tr') \<longrightarrow> code_at M a rs (nrows ops) \<longrightarrow>
        nrows ops < 2 ^ 26 \<longrightarrow> loop_depth ops + length L \<le> 2 \<longrightarrow> loop_elsewhere L a (nrows ops) \<longrightarrow>
        fetches ldw M (fm a f L C tr) (fm (a + 64 * of_nat (nrows ops)) f' L C tr'))"

lemma simD:
  "sim ldw M C defs ops rs \<Longrightarrow> exec ldw defs ops rs (f, tr) = Some (f', tr') \<Longrightarrow> code_at M a rs (nrows ops) \<Longrightarrow>
     nrows ops < 2 ^ 26 \<Longrightarrow> loop_depth ops + length L \<le> 2 \<Longrightarrow> loop_elsewhere L a (nrows ops) \<Longrightarrow>
     fetches ldw M (fm a f L C tr) (fm (a + 64 * of_nat (nrows ops)) f' L C tr')"
  unfolding sim_def by blast

lemma sim_plain:
  assumes eq: "\<And>st. exec ldw defs (o' # ops) rs st =
      (case exec_row ldw (hd rs) st of None \<Rightarrow> None | Some st1 \<Rightarrow> exec ldw defs ops (tl rs) st1)"
    and n: "nrows (o' # ops) = Suc (nrows ops)" and d: "loop_depth (o' # ops) = loop_depth ops"
    and pl: "plain_opcode (opcode (hd rs))" and IH: "sim ldw M C defs ops (tl rs)"
  shows "sim ldw M C defs (o' # ops) rs"
  unfolding sim_def n d
proof (intro allI impI)
  fix a f tr f' tr' L
  assume ex: "exec ldw defs (o' # ops) rs (f, tr) = Some (f', tr')" and at: "code_at M a rs (Suc (nrows ops))"
    and small: "Suc (nrows ops) < 2 ^ 26" and dep: "loop_depth ops + length L \<le> 2"
    and le: "loop_elsewhere L a (Suc (nrows ops))"
  from ex obtain f1 tr1 where e1: "exec_row ldw (hd rs) (f, tr) = Some (f1, tr1)"
    and e2: "exec ldw defs ops (tl rs) (f1, tr1) = Some (f', tr')"
    by (auto simp: eq split: option.splits)
  have hd: "M a = hd rs" using at by (cases rs) (auto simp: code_at_def)
  have "fetch_step ldw M (fm a f L C tr) = Running (fm (a + 64) f1 L C tr1)"
    using pl e1 by (simp add: fetch_step_def hd Let_def)
  moreover have "fetches ldw M (fm (a + 64) f1 L C tr1) (fm (a + 64 + 64 * of_nat (nrows ops)) f' L C tr')"
    using code_at_drop [of M a rs 1 "nrows ops"] loop_elsewhere_drop [of L a 1 "nrows ops"] at le small dep
    by (intro simD [OF IH e2]) (simp_all add: drop_Suc)
  ultimately show "fetches ldw M (fm a f L C tr) (fm (a + 64 * of_nat (Suc (nrows ops))) f' L C tr')"
    using fetches_one by (simp add: distrib_left add.assoc)
qed

lemma sim_loop:
  assumes IHb: "sim ldw M C defs body rs" and IHo: "sim ldw M C defs ops (drop (Suc (nrows body)) rs)"
    and row: "loop_row defs k1 s1 k2 s2 (nrows body) (rs ! nrows body)"
  shows "sim ldw M C defs (Loop count k1 s1 k2 s2 h body # ops) rs"
  unfolding sim_def
proof (intro allI impI)
  fix a f tr f' tr' L
  let ?n = "nrows body" and ?r = "rs ! nrows body"
  let ?x = "a + 64 * of_nat ?n :: u32"
  assume ex: "exec ldw defs (Loop count k1 s1 k2 s2 h body # ops) rs (f, tr) = Some (f', tr')"
    and at: "code_at M a rs (nrows (Loop count k1 s1 k2 s2 h body # ops))"
    and small: "nrows (Loop count k1 s1 k2 s2 h body # ops) < 2 ^ 26"
    and dep: "loop_depth (Loop count k1 s1 k2 s2 h body # ops) + length L \<le> 2"
    and le: "loop_elsewhere L a (nrows (Loop count k1 s1 k2 s2 h body # ops))"
  have Mx: "M ?x = ?r" using at by (simp add: code_at_def)
  from ex obtain f1 tr1 f2 tr2 f3 tr3 where e1: "exec ldw defs body rs (f, tr) = Some (f1, tr1)"
    and e2: "next_pass defs k1 s1 k2 s2 ?r (f1, tr1) = Some (f2, tr2)"
    and e3: "iterate (the (loop_count f1 ?r) - 1) (\<lambda>s. case exec ldw defs body rs s of None \<Rightarrow> None
        | Some s' \<Rightarrow> next_pass defs k1 s1 k2 s2 ?r s') (f2, tr2) = Some (f3, tr3)"
    and e4: "exec ldw defs ops (drop (Suc ?n) rs) (f3, tr3) = Some (f', tr')"
    by (fastforce split: option.splits)
  let ?c = "the (loop_count f1 ?r)"
  have cpos: "?c > 0" using e2 by (auto simp: next_pass_def split: option.splits if_splits)
  have run: "fetches ldw M (fm a g K C t) (fm ?x g' K C t')"
    if "exec ldw defs body rs (g, t) = Some (g', t')" "loop_depth body + length K \<le> 2" "loop_elsewhere K a ?n" for g t g' t' K
    using at small that by (intro simD [OF IHb]) (auto intro: code_at_less)
  have first: "fetches ldw M (fm a f L C tr) (fm ?x f1 L C tr1)"
    using dep le by (intro run [OF e1]) (auto intro: loop_elsewhere_less)
  have notin: "\<not> (\<exists>k L'. L = (?x, k) # L')"
  proof -
    have "?n < ?n + Suc (nrows ops)" by simp
    with le show ?thesis unfolding loop_elsewhere_def nrows.simps by blast
  qed
  have "fetch_step ldw M (fm ?x f1 L C tr1) =
      Running (if ?c > 1 then fm (?x - 64 * of_nat ?n) f2 ((?x, ?c - 1) # L) C tr2 else fm (?x + 64) f2 L C tr2)"
    using step_loop_end [of defs k1 s1 k2 s2 ?n M ?x f1 tr1 f2 tr2 L ?c ldw C] row e2 dep
    unfolding Mx by (simp only: notin if_False) auto
  then have turn: "fetch_step ldw M (fm ?x f1 L C tr1) =
      Running (if ?c > 1 then fm a f2 ((?x, ?c - 1) # L) C tr2 else fm (?x + 64) f2 L C tr2)" by simp
  have loop: "fetches ldw M (fm ?x f1 L C tr1) (fm (?x + 64) f3 L C tr3)"
  proof (cases "?c > 1")
    case False
    with cpos have "?c = 1" by simp
    with e3 have "f3 = f2" "tr3 = tr2" by simp_all
    with turn False show ?thesis by (auto intro: fetches_one)
  next
    case True
    then have pos: "?c - 1 > 0" by simp
    have rowM: "loop_row defs k1 s1 k2 s2 ?n (M ?x)" unfolding Mx by (rule row)
    have e3M: "iterate (?c - 1) (\<lambda>s. case exec ldw defs body rs s of None \<Rightarrow> None
        | Some s' \<Rightarrow> next_pass defs k1 s1 k2 s2 (M ?x) s') (f2, tr2) = Some (f3, tr3)"
      unfolding Mx by (rule e3)
    have "fetches ldw M (fm a f2 ((?x, ?c - 1) # L) C tr2) (fm (?x + 64) f3 L C tr3)"
    proof (rule loop_passes [where run = "exec ldw defs body rs" and M = M and a = a and n = ?n, OF _ rowM e3M pos])
      fix g t g' t' and K :: "(u32 \<times> nat) list"
      assume e: "exec ldw defs body rs (g, t) = Some (g', t')" and "K \<noteq> []" "hd K = (?x, snd (hd K))" "tl K = L"
      then obtain k where K: "K = (?x, k) # L" by (metis list.collapse)
      have "loop_elsewhere ((?x, k) # L) a ?n" using small by (intro loop_elsewhere_self) simp
      then show "fetches ldw M (fm a g K C t) (fm ?x g' K C t')"
        using dep by (intro run [OF e]) (simp_all add: K)
    qed
    with turn True show ?thesis by (auto intro: fetches_one)
  qed
  have "fetches ldw M (fm (?x + 64) f3 L C tr3) (fm (?x + 64 + 64 * of_nat (nrows ops)) f' L C tr')"
    using code_at_drop [of M a rs "Suc ?n" "nrows ops"] loop_elsewhere_drop [of L a "Suc ?n" "nrows ops"] at le small dep
    by (intro simD [OF IHo e4]) (simp_all add: distrib_left ac_simps)
  with first loop show "fetches ldw M (fm a f L C tr)
      (fm (a + 64 * of_nat (nrows (Loop count k1 s1 k2 s2 h body # ops))) f' L C tr')"
    by (simp add: distrib_left ac_simps)
qed

lemma code_ok_sim: "code_ok defs ops rs \<Longrightarrow> sim ldw M C defs ops rs"
proof (induction defs ops rs rule: code_ok.induct)
  case (1 defs rs)
  then show ?case by (simp add: sim_def)
next
  case (2 defs count k1 s1 k2 s2 h body ops rs)
  then show ?case by (intro sim_loop) simp_all
qed (rule sim_plain; simp)+


section \<open>The serializer's blocks\<close>

lemma code_ok_append: "nrows ops \<le> length rs \<Longrightarrow> code_ok defs ops (rs @ rest) = code_ok defs ops rs"
proof (induction defs ops rs rule: code_ok.induct)
  case (2 defs count k1 s1 k2 s2 h body ops rs)
  then show ?case by (simp add: nth_append)
qed (auto simp: hd_append simp flip: tl_append2 length_greater_0_conv)

text \<open>Flags leave the opcode and the reserved bit 15 alone.\<close>
definition flags_ok :: "u64 \<Rightarrow> bool" where
  "flags_ok f \<longleftrightarrow> bits 0 8 f = 0 \<and> \<not> bit f 15"

lemma flags_ok_or: "flags_ok a \<Longrightarrow> flags_ok b \<Longrightarrow> flags_ok (a OR b)"
  by (simp add: flags_ok_def bits_or bit_simps)

lemma flags_ok_high: "16 \<le> n \<Longrightarrow> flags_ok (push_bit n x)"
  by (simp add: flags_ok_def bits_push_above bit_simps)

lemma flags_ok_0 [simp]: "flags_ok 0"
  by (simp add: flags_ok_def bits_zero)

lemma and_3: "(x :: u64) AND 3 = take_bit 2 x"
  by (simp add: take_bit_eq_mask mask_eq_exp_minus_1)

lemma flags_ok_reloc: "flags_ok (reloc_flags r)"
proof -
  have "flags_ok (push_bit 8 1)" "flags_ok (push_bit 9 (take_bit 2 x))" "flags_ok (push_bit 13 (take_bit 2 x))" for x
    by (simp_all only: flags_ok_def bits_push_above) (simp_all add: bit_simps)
  moreover have "RELOC = push_bit 8 1" by (simp add: RELOC_def)
  ultimately show ?thesis unfolding reloc_flags_def and_3 by (simp only: flags_ok_or)
qed

lemma dyn_slots_ok: "dyn_slots defs i vs fs as = Inr d \<Longrightarrow> flags_ok d"
  by (induction defs i vs fs as arbitrary: d rule: dyn_slots.induct)
     (auto simp: bind_st_Inr_iff intro!: flags_ok_or flags_ok_high split: option.splits)

lemma ser_header_ok:
  assumes "ser_header defs inp b h s = Inr (f, s1)"
  shows "flags_ok f \<and> sr_rows s1 = sr_rows s \<and> sr_tag s1 = sr_tag s"
proof -
  from assms obtain g d where g: "base_flags defs inp b s = Inr (g, s1)" and d: "dyn_slots defs 0 (h_dyn h) (h_fields h) (h_adds h) = Inr d"
    and f: "f = (if h_fence h then FENCE_BEFORE else 0) OR g OR d"
    by (auto simp: ser_header_def bind_st_Inr_iff split: if_splits)
  have "flags_ok g" "sr_rows s1 = sr_rows s" "sr_tag s1 = sr_tag s"
    using g by (auto simp: base_flags_def flags_ok_reloc split: option.splits if_splits)
  moreover have "flags_ok (if h_fence h then FENCE_BEFORE else 0)"
    by (simp add: flags_ok_def FENCE_BEFORE_def bits_def)
  ultimately show ?thesis using dyn_slots_ok [OF d] by (simp add: f flags_ok_or)
qed

lemma opcode_put:
  assumes "flags_ok f" and "opc < 256"
  shows "opcode (row_of (push_bit 32 x OR f OR opc) ws) = opc"
    and "\<not> bit opc 15 \<Longrightarrow> \<not> bit (row_of (push_bit 32 x OR f OR opc) ws ! 0) 15"
proof -
  have "bits 0 8 opc = opc" using bits_push_same [of 0 8 opc] assms(2) by simp
  then show "opcode (row_of (push_bit 32 x OR f OR opc) ws) = opc"
    using assms(1) by (simp add: opcode_def bits_or bits_push_above flags_ok_def)
  show "\<not> bit opc 15 \<Longrightarrow> \<not> bit (row_of (push_bit 32 x OR f OR opc) ws ! 0) 15"
    using assms(1) by (simp add: flags_ok_def bit_simps)
qed

lemma emit_cmd_row:
  assumes "emit_cmd defs inp o' s = Inr s'"
  shows "\<exists>r. sr_rows s' = sr_rows s @ [r] \<and> sr_tag s' = sr_tag s + 1 \<and> length r = 8 \<and> plain_opcode (opcode r)"
proof -
  have pl: "plain_opcode 1" "plain_opcode 2" "plain_opcode 3" "plain_opcode 4" "plain_opcode 16" "plain_opcode 20" "plain_opcode 23"
    by (simp_all add: plain_opcode_def is_cmd_def)
  have fence: "opcode (row_of (push_bit 32 x OR 16) ws) = 16" for x ws
    using opcode_put(1) [of 0 16 x ws] by simp
  from assms show ?thesis
    by (cases o') (auto simp: emit_cmd_def bind_st_Inr_iff ser_put_def pl fence opcode_put(1) dest!: ser_header_ok
        split: if_splits option.splits)
qed


text \<open>What the serializer relies on: loop counts of 16 bits, and strides on PARAM registers.\<close>
fun loops_ok :: "reg_def list \<Rightarrow> op list \<Rightarrow> bool" where
  "loops_ok defs [] = True"
| "loops_ok defs (Loop count k1 s1 k2 s2 h body # ops) \<longleftrightarrow>
     count < 2 ^ 16 \<and> param_num defs k1 \<and> param_num defs k2 \<and> loops_ok defs body \<and> loops_ok defs ops"
| "loops_ok defs (o' # ops) = loops_ok defs ops"

lemma and_7_of_nat: "r < 8 \<Longrightarrow> (of_nat r AND 7 :: u64) = of_nat r"
  unfolding less_8_cases by (elim disjE) simp_all

lemma row_of_nth: "0 < i \<Longrightarrow> i < 8 \<Longrightarrow> row_of w ws ! i = (if i - 1 < length ws then ws ! (i - 1) else 0)"
  by (cases i) (simp_all add: row_of_Suc)

lemma loop_row_put:
  assumes f: "flags_ok f" and c: "count < 2 ^ 16" and r: "reg_of defs k1 = Some r1" "r1 < 8" "reg_of defs k2 = Some r2" "r2 < 8"
  shows "loop_row defs k1 s1 k2 s2 n (row_of (push_bit 32 x OR f OR 0x13)
    [zext64 (- of_nat n), count OR push_bit 16 (of_nat r1 AND 7) OR push_bit 19 (of_nat r2 AND 7), lo32 s1, lo32 s2])"
proof -
  have lt: "(of_nat q :: u64) < 2 ^ 3" if "q < 8" for q
    using that unfolding less_8_cases by (elim disjE) simp_all
  have u: "unat (of_nat q :: u64) = q" if "q < 8" for q
    using that by (simp add: unsigned_of_nat take_bit_nat_eq_self)
  have b: "bits 16 3 (count OR push_bit 16 (of_nat r1) OR push_bit 19 (of_nat r2)) = of_nat r1"
    "bits 19 3 (count OR push_bit 16 (of_nat r1) OR push_bit 19 (of_nat r2)) = of_nat r2"
    using bits_push_below [of 0 16 16 count 3] bits_push_below [of 0 16 19 count 3] c
      bits_push_same [of 16 3 "of_nat r1"] bits_push_below [of 16 3 19 "of_nat r1" 3] bits_push_same [of 19 3 "of_nat r2"]
      bits_push_above [of 16 3 19 "of_nat r2"] lt [OF r(2)] lt [OF r(4)]
    by (simp_all add: bits_or)
  have o': "push_bit 6 (ucast (bits 0 26 (zext64 y))) = (64 * y :: u32)" for y
  proof -
    have "64 * y = push_bit 6 y" by (simp add: push_bit_eq_mult mult.commute)
    then show ?thesis by (intro bit_eqI) (auto simp: bit_simps bit_bits dest: bit_imp_le_length)
  qed
  have l: "ucast (bits 0 32 (lo32 s)) = (ucast s :: u32)" for s
    by (rule bit_eqI) (auto simp: bit_simps bit_bits lo32_take_bit)
  show ?thesis
    using opcode_put [OF f, of "0x13"] r and_7_of_nat [OF r(2)] and_7_of_nat [OF r(4)] b u [OF r(2)] u [OF r(4)]
    by (simp add: loop_row_def row_of_nth o' l)
qed


definition emitted :: "reg_def list \<Rightarrow> op list \<Rightarrow> ser \<Rightarrow> ser \<Rightarrow> bool" where
  "emitted defs ops s s' \<longleftrightarrow> (\<exists>rs. sr_rows s' = sr_rows s @ rs \<and> length rs = nrows ops
     \<and> sr_tag s' = sr_tag s + of_nat (nrows ops) \<and> code_ok defs ops rs \<and> (\<forall>r \<in> set rs. length r = 8))"

lemma emitted_plain:
  assumes "bind_st (emit_cmd defs inp o' (if inp then s else s\<lparr>sr_spad_b := b\<rparr>)) (\<lambda>t. emit defs inp ops t) = Inr s'"
    and IH: "\<And>t. emit_cmd defs inp o' (if inp then s else s\<lparr>sr_spad_b := b\<rparr>) = Inr t \<Longrightarrow> emit defs inp ops t = Inr s' \<Longrightarrow> emitted defs ops t s'"
    and n: "nrows (o' # ops) = Suc (nrows ops)"
    and c: "\<And>r rs. code_ok defs (o' # ops) (r # rs) \<longleftrightarrow> plain_opcode (opcode r) \<and> code_ok defs ops rs"
  shows "emitted defs (o' # ops) s s'"
proof -
  from assms(1) obtain t where t: "emit_cmd defs inp o' (if inp then s else s\<lparr>sr_spad_b := b\<rparr>) = Inr t" "emit defs inp ops t = Inr s'"
    by (auto simp: bind_st_Inr_iff)
  from emit_cmd_row [OF t(1)] obtain r where r: "sr_rows t = sr_rows s @ [r]" "sr_tag t = sr_tag s + 1" "length r = 8"
    "plain_opcode (opcode r)" by (auto split: if_splits)
  from IH [OF t] obtain rs where "sr_rows s' = sr_rows t @ rs" "length rs = nrows ops"
    "sr_tag s' = sr_tag t + of_nat (nrows ops)" "code_ok defs ops rs" "\<forall>r \<in> set rs. length r = 8"
    unfolding emitted_def by blast
  with r show ?thesis unfolding emitted_def n by (intro exI [of _ "r # rs"]) (simp add: c)
qed

lemma emit_code_ok: "emit defs inp ops s = Inr s' \<Longrightarrow> loops_ok defs ops \<Longrightarrow> emitted defs ops s s'"
proof (induction defs inp ops s arbitrary: s' rule: emit.induct)
  case (1 defs inp s)
  then show ?case by (simp add: emitted_def)
next
  case (2 defs inp count k1 s1 k2 s2 h body ops s)
  from 2(3,4) obtain t r1 r2 f t1 where t: "emit defs inp body s = Inr t"
    and r: "reg_of defs k1 = Some r1" "r1 < 8" "reg_of defs k2 = Some r2" "r2 < 8"
    and hd: "ser_header defs inp None h t = Inr (f, t1)" and cnt: "count < 2 ^ 16"
    and lb: "loops_ok defs body" and lo: "loops_ok defs ops"
    and rest: "emit defs inp ops (ser_put f 0x13
         [zext64 (sr_tag s - sr_tag t), count OR push_bit 16 (of_nat r1 AND 7) OR push_bit 19 (of_nat r2 AND 7), lo32 s1, lo32 s2] t1) = Inr s'"
    by (auto simp: bind_st_Inr_iff param_num_def split: option.splits)
  from 2(1) [OF t lb] obtain rb where rb: "sr_rows t = sr_rows s @ rb" "length rb = nrows body"
    "sr_tag t = sr_tag s + of_nat (nrows body)" "code_ok defs body rb" "\<forall>r \<in> set rb. length r = 8"
    unfolding emitted_def by blast
  note h = ser_header_ok [OF hd]
  let ?r = "row_of (push_bit 32 (zext64 (sr_tag t1)) OR f OR 0x13)
    [zext64 (- of_nat (nrows body)), count OR push_bit 16 (of_nat r1 AND 7) OR push_bit 19 (of_nat r2 AND 7), lo32 s1, lo32 s2]"
  have row: "loop_row defs k1 s1 k2 s2 (nrows body) ?r"
    using h cnt r by (intro loop_row_put) simp_all
  have off: "sr_tag s - sr_tag t = - of_nat (nrows body)" using rb(3) by simp
  have "emitted defs ops (ser_put f 0x13
         [zext64 (sr_tag s - sr_tag t), count OR push_bit 16 (of_nat r1 AND 7) OR push_bit 19 (of_nat r2 AND 7), lo32 s1, lo32 s2] t1) s'"
    by (rule 2(2) [OF refl r(1) r(3) rest lo])
  then obtain rs where rs: "sr_rows s' = (sr_rows t @ [?r]) @ rs" "length rs = nrows ops"
    "sr_tag s' = sr_tag t + 1 + of_nat (nrows ops)" "code_ok defs ops rs" "\<forall>r \<in> set rs. length r = 8"
    using h unfolding emitted_def off by (auto simp: ser_put_def)
  have "code_ok defs (Loop count k1 s1 k2 s2 h body # ops) (rb @ ?r # rs)"
    using rb row rs by (simp add: code_ok_append nth_append)
  then show ?case
    using rb rs unfolding emitted_def by (intro exI [of _ "rb @ ?r # rs"]) (auto simp: row_of_def)
qed (rule emitted_plain, assumption?, simp?, (simp; fail)+)+




lemma ser_ret_step: "M a = ser_ret t \<Longrightarrow> fetch_step ldw M (fm a f L (b # C) tr) = Running (fm b f L C tr)"
proof -
  assume m: "M a = ser_ret t"
  have o': "opcode (ser_ret t) = 0x16" "\<not> bit (ser_ret t ! 0) 15"
    using opcode_put [of 0 "0x16" "zext64 t" "[]"] by (simp_all add: ser_ret_def)
  have "bits 16 8 (ser_ret t ! 0) = 0" "bits 24 8 (ser_ret t ! 0) = 0"
    by (simp_all add: ser_ret_def bits_or bits_push_above) (simp_all add: bits_def)
  then have "patch_row f (ser_ret t) = Some (ser_ret t)"
    by (simp add: patch_row_def patch_slot_def)
  then show ?thesis using o' by (simp add: fetch_step_def m Let_def plain_opcode_def is_cmd_def)
qed



text \<open>Three loads, 4096 bytes apart.\<close>
definition sample_ops :: "op list" where
  "sample_ops = [Loop 3 1 4096 1 0 \<lparr>h_dyn = [], h_fields = [], h_adds = [], h_fence = False\<rparr>
     [Ld (Some 0) \<lparr>ld_ddr = 64, ld_laddr = 0x10000000, ld_rows = 1, ld_row_bytes = 16, ld_pitch = 16, ld_mode = 0,
        ld_xword = 0, ld_cstep = 0, ld_gemv_acc = False\<rparr>
        \<lparr>h_dyn = [1], h_fields = [1], h_adds = [True], h_fence = False\<rparr>]]"

definition sample_rows :: "row list" where
  "sample_rows = [[0x00F12301, 64, 0x10000110000000, 16, 0, 0, 0, 0], [0x100000013, 0xFFFFFFFF, 0x3F0003, 4096, 0, 0, 0, 0],
     [0x200000016, 0, 0, 0, 0, 0, 0, 0]]"

definition sample_mem :: "u32 \<Rightarrow> row" where
  "sample_mem a = (if a = 0x1000 then sample_rows ! 0 else if a = 0x1040 then sample_rows ! 1 else sample_rows ! 2)"

definition sample_ser :: ser where
  "sample_ser = init_ser\<lparr>sr_rows := sample_rows, sr_tag := 2, sr_reads := 1\<rparr>"

lemma sample_emitted: "emit_section sample_defs False sample_ops init_ser = Inr (3, sample_ser)"
proof -
  have r: "replicate 4 (0 :: u64) = [0, 0, 0, 0]" "replicate 3 (0 :: u64) = [0, 0, 0]" "replicate 7 (0 :: u64) = [0, 0, 0, 0, 0, 0, 0]"
    "replicate 5 (0 :: u64) = [0,0,0,0,0]"
    by (simp_all add: numeral_eq_Suc)
  have m: "zext64 (- 1) = 0xFFFFFFFF" by (simp add: unsigned_minus_1_eq_mask mask_eq_exp_minus_1)
  show ?thesis
    by (simp add: emit_section_def sample_ops_def emit_cmd_def ser_header_def base_flags_def sample_defs_def reg_of_def
       reloc_flags_def RELOC_def dyn_slot_def ser_put_def ld_words_def row_of_def init_ser_def lo32_def sample_ser_def
       sample_rows_def ser_ret_def touches_spad_b.simps in_spad_b_def binding_bit_def binding_of_def r m Let_def)
qed


lemma sample_patch: "f 23 = p \<Longrightarrow> p \<in> {0, 0x1000, 0x2000} \<Longrightarrow> patch_row f (sample_rows ! 0) = Some ((sample_rows ! 0)[1 := 64 + zext64 p])"
  by (auto simp: patch_row_def patch_slot_def sample_rows_def bits_def opcode_def field_of_def set_field_def Let_def mask_eq_exp_minus_1)

lemma sample_count: "patch_row f (sample_rows ! Suc 0) = Some (sample_rows ! Suc 0)"
  by (simp add: patch_row_def patch_slot_def sample_rows_def bits_def opcode_def  Let_def)

lemma sample_load:
  assumes "f 23 = p" "p \<in> {0, 0x1000, 0x2000}" "f 5 = 0"
  shows "exec_row ldw (sample_rows ! 0) (f, tr) = Some (f, tr @ [Packet (Pkt_ld (64 + p) [0x10000000, 1, 16, 16, 0, 0, 0, 0])])"
  using assms(2) unfolding exec_row_def fst_conv sample_patch [of f p, OF assms(1,2)]
  by (auto simp: sample_rows_def bits_def opcode_def plain_effect_def is_cmd_def cmd_pkt_def ddr_of_def waits_before_def assms(3))

lemma sample_next: "next_pass sample_defs (Suc 0) 4096 (Suc 0) 0 (sample_rows ! Suc 0) (f, tr) = Some (f(23 := f 23 + 4096), tr)"
proof -
  have "unat (bits 0 16 (sample_rows ! Suc 0 ! 2)) = 3" by (simp add: sample_rows_def bits_def)
  then show ?thesis by (simp add: next_pass_def loop_count_def sample_count bump_def sample_defs_def reg_of_def)
qed

lemma sample_exec: "exec ldw sample_defs sample_ops sample_rows (\<lambda>_. 0, []) =
   Some ((\<lambda>_. 0)(23 := 0x3000), map (\<lambda>d. Packet (Pkt_ld d [0x10000000, 1, 16, 16, 0, 0, 0, 0])) [0x40, 0x1040, 0x2040])"
proof -
  have c: "loop_count f (sample_rows ! Suc 0) = Some 3" for f
    by (simp add: loop_count_def sample_count) (simp add: sample_rows_def bits_def)
  have h: "hd sample_rows = sample_rows ! 0" by (simp add: sample_rows_def)
  have p: "(0x1000 :: u32) \<in> {0, 0x1000, 0x2000}" "(0x2000 :: u32) \<in> {0, 0x1000, 0x2000}" "(0 :: u32) \<in> {0, 0x1000, 0x2000}" by simp_all
  have l: "exec_row ldw (sample_rows ! 0) (\<lambda>_. 0, tr) = Some (\<lambda>_. 0, tr @ [Packet (Pkt_ld 64 [0x10000000, 1, 16, 16, 0, 0, 0, 0])])"
     "q \<in> {0, 0x1000, 0x2000} \<Longrightarrow> exec_row ldw (sample_rows ! 0) ((\<lambda>_. 0)(23 := q), tr)
        = Some ((\<lambda>_. 0)(23 := q), tr @ [Packet (Pkt_ld (64 + q) [0x10000000, 1, 16, 16, 0, 0, 0, 0])])" for tr q
    using sample_load [of "\<lambda>_. 0" 0 ldw tr] sample_load [of "(\<lambda>_. 0)(23 := q)" q ldw tr] by simp_all
  show ?thesis
    unfolding sample_ops_def
    by (simp add: h l(1) sample_next l(2) [OF p(1)] l(2) [OF p(2)] c)  (simp add: numeral_2_eq_2  l(2) [OF p(1)] l(2) [OF p(2)] sample_next)
qed


end
