(* ===== verification/SaTarget.thy ===== *)
theory SaTarget
  imports SahwEncode Loader
begin

text \<open>
  The sa-desc file the compiler writes (\<^verbatim>\<open>SATarget.cpp\<close>, \<^verbatim>\<open>serializeExecutable\<close>), from the
  serialized exports, and the round trip through the runtime's loader (\<^verbatim>\<open>sa_loader.c\<close>). Offsets
  are 32-bit in the source; they are natural numbers here, cut to 32 bits where they are written,
  which is the same for a file below 4 GB. The compiled code of an export is a parameter.
\<close>

section \<open>The file\<close>

definition u32_bytes :: "u32 \<Rightarrow> u8 list" where
  "u32_bytes v = [ucast v, ucast (drop_bit 8 v), ucast (drop_bit 16 v), ucast (drop_bit 24 v)]"

definition u16_bytes :: "u16 \<Rightarrow> u8 list" where
  "u16_bytes v = [ucast v, ucast (drop_bit 8 v)]"

definition resize :: "nat \<Rightarrow> u8 list \<Rightarrow> u8 list" where
  "resize k b = take k (b @ replicate k 0)"

definition round_up :: "nat \<Rightarrow> nat \<Rightarrow> nat" where
  "round_up a n = (n + (a - 1)) div a * a"

text \<open>\<^verbatim>\<open>struct Export\<close>: what the HAL says of an export, and its serialization.\<close>
record out_export =
  oe_name :: "u8 list"
  oe_bindings :: u32
  oe_constants :: u32
  oe_ser :: serialized_export

definition setup_bytes :: "setup_spec \<Rightarrow> u8 list" where
  "setup_bytes st =
     [(if se_base st then 0 else 1) OR push_bit 4 (se_shift st), se_reg st, se_binding st, 0]
     @ u16_bytes (se_constant st) @ u16_bytes 0 @ u32_bytes (se_mul st) @ u32_bytes (se_add st)"

definition export_setups :: "out_export \<Rightarrow> u8 list" where
  "export_setups e = concat (map setup_bytes (x_setups (oe_ser e)))"

text \<open>The export table entry, at these positions in the templates, the strings and the file (setups).\<close>
definition entry_bytes :: "nat \<Rightarrow> nat \<Rightarrow> nat \<Rightarrow> out_export \<Rightarrow> u8 list" where
  "entry_bytes spos tpos setup_pos e =
     u32_bytes (of_nat spos) @ u32_bytes (of_nat (length (oe_name e))) @ u32_bytes (of_nat tpos)
     @ u32_bytes (of_nat (length (x_templ (oe_ser e)) div 64)) @ u16_bytes (ucast (oe_bindings e)) @ u16_bytes (ucast (oe_constants e))
     @ u32_bytes (of_nat (length (x_setups (oe_ser e)))) @ u32_bytes (x_cycles (oe_ser e))
     @ u32_bytes (if x_setups (oe_ser e) = [] then 0 else of_nat setup_pos)"

fun table_bytes :: "nat \<Rightarrow> nat \<Rightarrow> nat \<Rightarrow> out_export list \<Rightarrow> u8 list" where
  "table_bytes spos tpos setup_pos [] = []"
| "table_bytes spos tpos setup_pos (e # es) =
     entry_bytes spos tpos setup_pos e
     @ table_bytes (spos + length (oe_name e)) (tpos + length (x_templ (oe_ser e))) (setup_pos + length (export_setups e)) es"

definition ext_bytes :: "out_export \<Rightarrow> u8 list" where
  "ext_bytes e = (let x = oe_ser e in
     concat (map u32_bytes [x_prefix x, x_preads x, x_wr x, x_rd x, x_head x, x_flags x, x_preg x, 0]))"

text \<open>The required CAPS: DESC, FPVE, CMDX, and GEMV when the target has the unit.\<close>
definition required_caps :: "bool \<Rightarrow> u32" where
  "required_caps gemv = push_bit 21 1 OR push_bit 23 1 OR push_bit 24 1 OR (if gemv then push_bit 25 1 else 0)"

text \<open>The code table (offset and size of each export's code) and the code, 64-byte aligned.\<close>
fun code_table :: "nat \<Rightarrow> u8 list list \<Rightarrow> u8 list" where
  "code_table pos [] = []"
| "code_table pos (c # cs) =
     u32_bytes (if c = [] then 0 else of_nat pos) @ u32_bytes (of_nat (length c)) @ code_table (round_up 64 (pos + length c)) cs"

definition append_code :: "nat \<Rightarrow> u8 list list \<Rightarrow> u8 list \<Rightarrow> u8 list" where
  "append_code n codes blob =
     (if codes = [] then blob
      else
        let tab_off = round_up 16 (length blob);
            b1 = resize tab_off blob @ code_table (round_up 64 (tab_off + 8 * n)) codes;
            b2 = fold (\<lambda>c b. resize (round_up 64 (length b)) b @ c) codes b1
        in take 48 b2 @ u32_bytes (of_nat tab_off) @ drop 52 b2)"

text \<open>The file of exports already in the order of their ordinals.\<close>
definition file_bytes :: "u32 \<Rightarrow> bool \<Rightarrow> out_export list \<Rightarrow> u8 list list \<Rightarrow> u8 list" where
  "file_bytes d gemv es codes =
     (let n = length es; exp_off = 64; tmpl_off = round_up 64 (exp_off + 32 * n);
          tmpl = concat (map (x_templ \<circ> oe_ser) es); strings = concat (map oe_name es);
          str_off = tmpl_off + length tmpl; setup_off = round_up 16 (str_off + length strings);
          setups = concat (map export_setups es);
          ext_off = round_up 16 (setup_off + length setups);
          head = sa_magic @ concat (map u32_bytes [3, d, required_caps gemv, of_nat n, of_nat exp_off, of_nat tmpl_off,
            of_nat (length tmpl), of_nat str_off, of_nat (length strings), of_nat ext_off]);
          b1 = resize tmpl_off (resize 64 head @ table_bytes 0 0 setup_off es) @ tmpl @ strings;
          b2 = resize setup_off b1 @ setups;
          b3 = resize ext_off b2 @ concat (map ext_bytes es)
      in append_code n codes b3)"

text \<open>\<^verbatim>\<open>hal.executable.export\<close>: its ordinal (when it has one), symbol and pipeline layout.\<close>
record hal_export =
  hx_ordinal :: "nat option"
  hx_name :: "u8 list"
  hx_bindings :: nat
  hx_constants :: nat

datatype target_error = Too_many_bindings | No_template | Not_serialized ser_error

text \<open>The exports with their ordinals; one without gets its position (\<open>n\<close>). \<open>tm\<close>: the templates by name.\<close>
fun build_exports :: "(u8 list \<Rightarrow> sahw_template option) \<Rightarrow> nat \<Rightarrow> hal_export list \<Rightarrow> target_error + (nat \<times> out_export) list" where
  "build_exports tm n [] = Inr []"
| "build_exports tm n (x # xs) =
     (if hx_bindings x > 16 then Inl Too_many_bindings
      else case tm (hx_name x) of None \<Rightarrow> Inl No_template
      | Some t \<Rightarrow>
          (case serialize_template t of Inl er \<Rightarrow> Inl (Not_serialized er)
           | Inr se \<Rightarrow>
               bind_st (build_exports tm (Suc n) xs) (\<lambda>es.
                 Inr ((case hx_ordinal x of Some k \<Rightarrow> k | None \<Rightarrow> n,
                       \<lparr>oe_name = hx_name x, oe_bindings = of_nat (hx_bindings x), oe_constants = of_nat (hx_constants x),
                        oe_ser = se\<rparr>) # es))))"

text \<open>\<open>codes\<close>: the rv32 code of each export in the sorted order (none at all, or one string each).\<close>
definition serialize_executable ::
  "u32 \<Rightarrow> bool \<Rightarrow> (u8 list \<Rightarrow> sahw_template option) \<Rightarrow> hal_export list \<Rightarrow> (out_export list \<Rightarrow> u8 list list) \<Rightarrow> target_error + u8 list" where
  "serialize_executable d gemv tm hs codes =
     bind_st (build_exports tm 0 hs) (\<lambda>es.
       let xs = map snd (sort_key fst es) in Inr (file_bytes d gemv xs (codes xs)))"

end
