(* ===== verification/SaTargetLoad.thy ===== *)
theory SaTargetLoad
  imports SaTarget TemplateRun
begin

text \<open>
  The runtime's loader (\<^verbatim>\<open>sa_loader.c\<close>) on a file the compiler wrote (\<^verbatim>\<open>SATarget.cpp\<close>): where each part
  of the file is, what the loader's parsers read there, and the executable it makes of it.
\<close>

section \<open>Reading back what was written\<close>

named_theorems read_back \<open>fields of a byte list built from fixed-size parts\<close>

lemma digits: "x = k * a + r0 \<Longrightarrow> a = k * b + r1 \<Longrightarrow> b = k * c + r2 \<Longrightarrow> r0 + k * (r1 + k * (r2 + k * c)) = (x :: nat)"
  by (simp add: algebra_simps)

lemma unat_byte_sum:
  "le_value (u32_bytes v) = unat v"
proof -
  have "le_value (u32_bytes v) = unat v mod 256 + 256 * (unat v div 256 mod 256 + 256 * (unat v div 65536 mod 256 + 256 * (unat v div 16777216 mod 256)))"
    by (simp add: u32_bytes_def unsigned_ucast_eq unsigned_drop_bit_eq take_bit_eq_mod drop_bit_eq_div unat_div)
  also have "\<dots> = unat v"
  proof -
    have lt: "unat v < 4294967296" using unsigned_less [of v, where 'a = nat] by simp
    have d: "unat v div 65536 = unat v div 256 div 256" "unat v div 16777216 = unat v div 256 div 256 div 256"
      by (simp_all add: div_mult2_eq [symmetric])
    have "unat v div 256 div 256 div 256 mod 256 = unat v div 256 div 256 div 256"
      using lt by (simp add: div_mult2_eq [symmetric] less_mult_imp_div_less)
    with d show ?thesis
      using digits [OF mult_div_mod_eq [symmetric] mult_div_mod_eq [symmetric] mult_div_mod_eq [symmetric], of 256 "unat v"] by simp
  qed
  finally show ?thesis .
qed

lemma le_value_u16: "le_value (u16_bytes v) = unat v"
proof -
  have "le_value (u16_bytes v) = unat v mod 256 + 256 * (unat v div 256 mod 256)"
    by (simp add: u16_bytes_def unsigned_ucast_eq unsigned_drop_bit_eq take_bit_eq_mod drop_bit_eq_div unat_div)
  also have "\<dots> = unat v"
    using unsigned_less [of v, where 'a = nat] by simp
  finally show ?thesis .
qed

lemma length_bytes [simp]: "length (u32_bytes v) = 4" "length (u16_bytes w) = 2"
  by (simp_all add: u32_bytes_def u16_bytes_def)

lemma field_head [read_back]:
  "field (u32_bytes v @ r) 0 4 = unat v" "field (u16_bytes w @ r) 0 2 = unat w" "field (b # r) 0 1 = unat b"
  by (simp_all add: field_def unat_byte_sum le_value_u16)

lemma field_skip [read_back]:
  "4 \<le> k \<Longrightarrow> field (u32_bytes v @ r) k n = field r (k - 4) n"
  "2 \<le> k \<Longrightarrow> field (u16_bytes w @ r) k n = field r (k - 2) n"
  "1 \<le> k \<Longrightarrow> field (b # r) k n = field r (k - 1) n"
  by (simp_all add: field_def drop_Cons')

lemma slice_append: "length a = off \<Longrightarrow> length b = n \<Longrightarrow> file_slice (a @ b @ c) off n = ret b"
  by (simp add: file_slice_def)

definition off_of :: "('a \<Rightarrow> u8 list) \<Rightarrow> 'a list \<Rightarrow> nat \<Rightarrow> nat" where
  "off_of f xs i = sum_list (map (length \<circ> f) (take i xs))"

lemma concat_split:
  assumes "i < length xs"
  shows "concat (map f xs) = concat (map f (take i xs)) @ f (xs ! i) @ concat (map f (drop (Suc i) xs))"
    and "length (concat (map f (take i xs))) = off_of f xs i"
proof -
  have "xs = take i xs @ xs ! i # drop (Suc i) xs" using assms by (rule id_take_nth_drop)
  then have "concat (map f xs) = concat (map f (take i xs @ xs ! i # drop (Suc i) xs))" by simp
  then show "concat (map f xs) = concat (map f (take i xs)) @ f (xs ! i) @ concat (map f (drop (Suc i) xs))"
    by simp
qed (simp add: off_of_def length_concat comp_def)

lemma slice_concat:
  assumes "blob = A @ concat (map f xs) @ C" and "i < length xs" and "length A = off" and "length (f (xs ! i)) = n"
  shows "file_slice blob (off + off_of f xs i) n = ret (f (xs ! i))"
  using slice_append [of "A @ concat (map f (take i xs))" "off + off_of f xs i" "f (xs ! i)" n "concat (map f (drop (Suc i) xs)) @ C"]
    concat_split [OF assms(2), of f] assms(1,3,4) by simp

lemma off_of_const: "(\<And>x. x \<in> set xs \<Longrightarrow> length (f x) = k) \<Longrightarrow> i \<le> length xs \<Longrightarrow> off_of f xs i = k * i"
proof (induction i)
  case (Suc i)
  then have "take (Suc i) xs = take i xs @ [xs ! i]" by (simp add: take_Suc_conv_app_nth)
  with Suc show ?case by (simp add: off_of_def)
qed (simp add: off_of_def)

lemma off_of_bound: "i < length xs \<Longrightarrow> off_of f xs i + length (f (xs ! i)) \<le> length (concat (map f xs))"
  using concat_split [of i xs f] by simp

lemma round_up_ge: "0 < a \<Longrightarrow> n \<le> round_up a n"
proof -
  assume "0 < a"
  have "(n + (a - 1)) div a * a + (n + (a - 1)) mod a = n + (a - 1)" by simp
  moreover have "(n + (a - 1)) mod a \<le> a - 1" using \<open>0 < a\<close> by (simp add: less_imp_le_nat Suc_leI le_diff_conv2 mod_less_divisor)
  ultimately show ?thesis unfolding round_up_def by linarith
qed

lemma resize_pad: "length b \<le> k \<Longrightarrow> resize k b = b @ replicate (k - length b) 0"
  by (simp add: resize_def)

lemma length_setup_bytes [simp]: "length (setup_bytes st) = 16"
  by (simp add: setup_bytes_def)

lemma length_entry_bytes [simp]: "length (entry_bytes a b c e) = 32"
  by (simp add: entry_bytes_def)

lemma length_ext_bytes [simp]: "length (ext_bytes e) = 32"
  by (simp add: ext_bytes_def Let_def)

lemma length_export_setups: "length (export_setups e) = 16 * length (x_setups (oe_ser e))"
  by (simp add: export_setups_def length_concat comp_def sum_list_triv)

text \<open>The entry of export \<open>i\<close> of the table.\<close>
definition entry_at :: "nat \<Rightarrow> nat \<Rightarrow> nat \<Rightarrow> out_export list \<Rightarrow> nat \<Rightarrow> u8 list" where
  "entry_at sp tp up es i = entry_bytes (sp + off_of oe_name es i) (tp + off_of (x_templ \<circ> oe_ser) es i)
     (up + off_of export_setups es i) (es ! i)"

lemma off_of_Cons [simp]: "off_of f (x # xs) 0 = 0" "off_of f (x # xs) (Suc i) = length (f x) + off_of f xs i"
  by (simp_all add: off_of_def)

lemma table_concat: "table_bytes sp tp up es = concat (map (entry_at sp tp up es) [0..<length es])"
proof (induction es arbitrary: sp tp up)
  case Nil
  then show ?case by simp
next
  case (Cons e es)
  have "map (entry_at sp tp up (e # es)) [0..<length (e # es)] =
      entry_bytes sp tp up e # map (\<lambda>i. entry_at sp tp up (e # es) (Suc i)) [0..<length es]"
    by (simp add: upt_conv_Cons map_Suc_upt [symmetric] entry_at_def comp_def del: upt_Suc)
  moreover have "map (\<lambda>i. entry_at sp tp up (e # es) (Suc i)) [0..<length es]
      = map (entry_at (sp + length (oe_name e)) (tp + length (x_templ (oe_ser e))) (up + length (export_setups e)) es) [0..<length es]"
    by (simp add: entry_at_def add.assoc)
  ultimately show ?case by (simp only: table_bytes.simps Cons.IH concat.simps)
qed


section \<open>Layout\<close>

record layout =
  y_tmpl_off :: nat
  y_str_off :: nat
  y_setup_off :: nat
  y_ext_off :: nat

definition layout_of :: "out_export list \<Rightarrow> layout" where
  "layout_of es =
     (let t = round_up 64 (64 + 32 * length es); s = t + length (concat (map (x_templ \<circ> oe_ser) es));
          u = round_up 16 (s + length (concat (map oe_name es)))
      in \<lparr>y_tmpl_off = t, y_str_off = s, y_setup_off = u, y_ext_off = round_up 16 (u + length (concat (map export_setups es)))\<rparr>)"

definition head_bytes :: "u32 \<Rightarrow> bool \<Rightarrow> out_export list \<Rightarrow> u8 list" where
  "head_bytes d gemv es = (let y = layout_of es in
     sa_magic @ concat (map u32_bytes [3, d, required_caps gemv, of_nat (length es), 64, of_nat (y_tmpl_off y),
       of_nat (length (concat (map (x_templ \<circ> oe_ser) es))), of_nat (y_str_off y),
       of_nat (length (concat (map oe_name es))), of_nat (y_ext_off y)]) @ replicate 16 0)"

lemma length_sa_magic [simp]: "length sa_magic = 8"
  by (simp add: sa_magic_def)

lemma length_head_bytes [simp]: "length (head_bytes d gemv es) = 64"
  by (simp add: head_bytes_def Let_def)

lemma length_table: "length (concat (map (entry_at a b c es) [0..<n])) = 32 * n"
  by (induction n) (simp_all add: entry_at_def)

lemma layout_order:
  "64 + 32 * length es \<le> y_tmpl_off (layout_of es)"
  "y_str_off (layout_of es) = y_tmpl_off (layout_of es) + length (concat (map (x_templ \<circ> oe_ser) es))"
  "y_str_off (layout_of es) + length (concat (map oe_name es)) \<le> y_setup_off (layout_of es)"
  "y_setup_off (layout_of es) + length (concat (map export_setups es)) \<le> y_ext_off (layout_of es)"
  using round_up_ge [of 64] round_up_ge [of 16] by (simp_all add: layout_of_def Let_def)

lemma assemble:
  assumes "length h + length t \<le> a" and "b = a + length T" and "b + length S \<le> c" and "c + length U \<le> d"
  shows "\<exists>p q r. resize d (resize c (resize a (h @ t) @ T @ S) @ U) @ E = h @ t @ p @ T @ S @ q @ U @ r @ E
    \<and> length h + length t + length p = a \<and> b + length S + length q = c \<and> c + length U + length r = d"
proof -
  define p where "p = replicate (a - length (h @ t)) (0 :: u8)"
  have p: "resize a (h @ t) = (h @ t) @ p" "length h + length t + length p = a"
    using assms(1) by (simp_all add: resize_pad p_def)
  define B where "B = ((h @ t) @ p) @ T @ S"
  have lB: "length B = b + length S" using p(2) assms(2) by (simp add: B_def)
  define q where "q = replicate (c - length B) (0 :: u8)"
  have q: "resize c B = B @ q" "b + length S + length q = c"
    using assms(3) lB by (simp_all add: resize_pad q_def)
  define F where "F = (B @ q) @ U"
  have lF: "length F = c + length U" using q(2) lB by (simp add: F_def)
  define r where "r = replicate (d - length F) (0 :: u8)"
  have r: "resize d F = F @ r" "c + length U + length r = d"
    using assms(4) lF by (simp_all add: resize_pad r_def)
  have "resize d (resize c (resize a (h @ t) @ T @ S) @ U) @ E = h @ t @ p @ T @ S @ q @ U @ r @ E"
    unfolding p(1) B_def [symmetric] q(1) F_def [symmetric] r(1) by (simp add: F_def B_def)
  with p(2) q(2) r(2) show ?thesis by blast
qed

lemma file_layout:
  fixes es :: "out_export list"
  defines "y \<equiv> layout_of es"
  shows "\<exists>p q r. file_bytes d gemv es [] =
      head_bytes d gemv es @ concat (map (entry_at 0 0 (y_setup_off y) es) [0..<length es]) @ p
      @ concat (map (x_templ \<circ> oe_ser) es) @ concat (map oe_name es) @ q @ concat (map export_setups es) @ r
      @ concat (map ext_bytes es)
    \<and> 64 + 32 * length es + length p = y_tmpl_off y
    \<and> y_str_off y + length (concat (map oe_name es)) + length q = y_setup_off y
    \<and> y_setup_off y + length (concat (map export_setups es)) + length r = y_ext_off y"
proof -
  note o' = layout_order [of es, folded y_def]
  let ?h = "sa_magic @ concat (map u32_bytes [3, d, required_caps gemv, of_nat (length es), of_nat 64, of_nat (y_tmpl_off y),
       of_nat (length (concat (map (x_templ \<circ> oe_ser) es))), of_nat (y_str_off y),
       of_nat (length (concat (map oe_name es))), of_nat (y_ext_off y)])"
  have h: "resize 64 ?h = head_bytes d gemv es"
    by (simp add: resize_pad head_bytes_def y_def Let_def)
  have t: "table_bytes 0 0 (y_setup_off y) es = concat (map (entry_at 0 0 (y_setup_off y) es) [0..<length es])"
    by (rule table_concat)
  have f: "file_bytes d gemv es [] = resize (y_ext_off y) (resize (y_setup_off y)
      (resize (y_tmpl_off y) (resize 64 ?h @ table_bytes 0 0 (y_setup_off y) es)
        @ concat (map (x_templ \<circ> oe_ser) es) @ concat (map oe_name es))
      @ concat (map export_setups es)) @ concat (map ext_bytes es)"
    unfolding file_bytes_def append_code_def Let_def y_def layout_of_def by simp
  have l: "length (head_bytes d gemv es) + length (concat (map (entry_at 0 0 (y_setup_off y) es) [0..<length es]))
      = 64 + 32 * length es" by (simp only: length_head_bytes length_table)
  show ?thesis
    unfolding f h t
    by (rule assemble [OF _ o'(2-4), of "head_bytes d gemv es" "concat (map (entry_at 0 0 (y_setup_off y) es) [0..<length es])"
        "concat (map ext_bytes es)", unfolded l, OF o'(1)])
qed


text \<open>Where each part of the file is.\<close>
lemma file_slices:
  fixes es :: "out_export list" and d gemv
  defines "y \<equiv> layout_of es" and "blob \<equiv> file_bytes d gemv es []"
  shows "file_slice blob 0 64 = ret (head_bytes d gemv es)"
    and "i < length es \<Longrightarrow> file_slice blob (64 + i * 32) 32 = ret (entry_at 0 0 (y_setup_off y) es i)"
    and "file_slice blob (y_tmpl_off y) (length (concat (map (x_templ \<circ> oe_ser) es))) = ret (concat (map (x_templ \<circ> oe_ser) es))"
    and "file_slice blob (y_str_off y) (length (concat (map oe_name es))) = ret (concat (map oe_name es))"
    and "i < length es \<Longrightarrow> j < length (x_setups (oe_ser (es ! i))) \<Longrightarrow>
      file_slice blob (y_setup_off y + off_of export_setups es i + j * 16) 16 = ret (setup_bytes (x_setups (oe_ser (es ! i)) ! j))"
    and "i < length es \<Longrightarrow> file_slice blob (y_ext_off y + i * 32) 32 = ret (ext_bytes (es ! i))"
    and "length blob = y_ext_off y + 32 * length es"
proof -
  let ?H = "head_bytes d gemv es" and ?T = "concat (map (entry_at 0 0 (y_setup_off y) es) [0..<length es])"
    and ?M = "concat (map (x_templ \<circ> oe_ser) es)" and ?S = "concat (map oe_name es)"
    and ?U = "concat (map export_setups es)" and ?E = "concat (map ext_bytes es)"
  from file_layout [of d gemv es, folded y_def blob_def] obtain p q r where
    b: "blob = ?H @ ?T @ p @ ?M @ ?S @ q @ ?U @ r @ ?E" and p: "64 + 32 * length es + length p = y_tmpl_off y"
    and q: "y_str_off y + length ?S + length q = y_setup_off y" and r: "y_setup_off y + length ?U + length r = y_ext_off y"
    by blast
  note so = layout_order(2) [of es, folded y_def]
  have lH: "length ?H = 64" and lT: "length ?T = 32 * length es" by (simp_all only: length_head_bytes length_table)
  have lM: "length (?H @ ?T @ p) = y_tmpl_off y" using p lH lT by simp
  have lS: "length (?H @ ?T @ p @ ?M) = y_str_off y" using lM so by simp
  have lU: "length (?H @ ?T @ p @ ?M @ ?S @ q) = y_setup_off y" using lS q by simp
  have lE: "length (?H @ ?T @ p @ ?M @ ?S @ q @ ?U @ r) = y_ext_off y" using lU r by simp
  show "file_slice blob 0 64 = ret ?H" using slice_append [of "[]" 0 ?H 64] lH unfolding b by simp
  show "file_slice blob (y_tmpl_off y) (length ?M) = ret ?M"
    using slice_append [OF lM refl, of ?M "?S @ q @ ?U @ r @ ?E"] unfolding b by (simp only: append_assoc)
  show "file_slice blob (y_str_off y) (length ?S) = ret ?S"
    using slice_append [OF lS refl, of ?S "q @ ?U @ r @ ?E"] unfolding b by (simp only: append_assoc)
  have bT: "blob = ?H @ ?T @ p @ ?M @ ?S @ q @ ?U @ r @ ?E" by (rule b)
  show "file_slice blob (64 + i * 32) 32 = ret (entry_at 0 0 (y_setup_off y) es i)" if "i < length es"
    using slice_concat [OF bT, of i 64 32] that lH off_of_const [of "[0..<length es]" "entry_at 0 0 (y_setup_off y) es" 32 i]
    by (simp add: entry_at_def mult.commute)
  have bE: "blob = (?H @ ?T @ p @ ?M @ ?S @ q @ ?U @ r) @ ?E @ []" unfolding b by (simp only: append_assoc append_Nil2)
  show "file_slice blob (y_ext_off y + i * 32) 32 = ret (ext_bytes (es ! i))" if "i < length es"
    using slice_concat [OF bE that lE, of 32] off_of_const [of es ext_bytes 32 i] that by (simp add: mult.commute)
  show "length blob = y_ext_off y + 32 * length es"
    using lE unfolding bE length_append [of _ "?E @ []"] by (simp add: length_concat comp_def sum_list_triv)
  show "file_slice blob (y_setup_off y + off_of export_setups es i + j * 16) 16 = ret (setup_bytes (x_setups (oe_ser (es ! i)) ! j))"
    if i: "i < length es" and j: "j < length (x_setups (oe_ser (es ! i)))"
  proof -
    note sp = concat_split [OF i, of export_setups]
    have bU: "blob = ((?H @ ?T @ p @ ?M @ ?S @ q) @ concat (map export_setups (take i es)))
        @ concat (map setup_bytes (x_setups (oe_ser (es ! i)))) @ (concat (map export_setups (drop (Suc i) es)) @ r @ ?E)"
      unfolding b by (subst sp(1)) (simp only: append_assoc export_setups_def)
    have "length ((?H @ ?T @ p @ ?M @ ?S @ q) @ concat (map export_setups (take i es))) = y_setup_off y + off_of export_setups es i"
      using lU sp(2) unfolding length_append [of _ "concat (map export_setups (take i es))"] by simp
    from slice_concat [OF bU j this, of 16] off_of_const [of "x_setups (oe_ser (es ! i))" setup_bytes 16 j] j
    show ?thesis by (simp add: mult.commute)
  qed
qed

lemma field_last [read_back]: "field (u32_bytes v) 0 4 = unat v"
  using field_head(1) [of v "[]"] by simp

lemma field_byte [read_back]: "field (b # r) 0 (Suc 0) = unat b"
  by (simp add: field_def)

lemma field_magic [read_back]: "8 \<le> k \<Longrightarrow> field (sa_magic @ r) k n = field r (k - 8) n"
  by (simp add: field_def)

lemma parse_head_bytes:
  "parse_header (head_bytes d gemv es) = (let y = layout_of es in
     \<lparr>version = 3, h_d = d, h_caps = required_caps gemv, export_count = of_nat (length es), export_offset = 64,
      templates_offset = of_nat (y_tmpl_off y), templates_bytes = of_nat (length (concat (map (x_templ \<circ> oe_ser) es))),
      strings_offset = of_nat (y_str_off y), strings_bytes = of_nat (length (concat (map oe_name es))),
      ext_offset = of_nat (y_ext_off y), code_offset = 0\<rparr>)"
proof -
  have z: "field (replicate 16 0) 0 4 = 0" by (simp add: field_def numeral_eq_Suc)
  show ?thesis by (simp add: parse_header_def head_bytes_def Let_def read_back z)
qed

lemma parse_entry_bytes:
  "parse_export (entry_bytes sp tp up e) =
     \<lparr>name_offset = of_nat sp, name_length = of_nat (length (oe_name e)), template_offset = of_nat tp,
      descriptor_count = of_nat (length (x_templ (oe_ser e)) div 64), binding_count = ucast (oe_bindings e),
      constant_count = ucast (oe_constants e), setup_count = of_nat (length (x_setups (oe_ser e))),
      est_cycles = x_cycles (oe_ser e), setup_offset = (if x_setups (oe_ser e) = [] then 0 else of_nat up)\<rparr>"
  by (simp add: parse_export_def entry_bytes_def Let_def read_back)

lemma parse_ext_bytes:
  "parse_ext (ext_bytes e) = (let x = oe_ser e in
     \<lparr>prefix_count = x_prefix x, f_prefix_reads = x_preads x, f_writes = x_wr x, f_reads = x_rd x,
      head_count = x_head x, flags = x_flags x, f_prefix_reg = x_preg x\<rparr>)"
  by (simp add: parse_ext_def ext_bytes_def Let_def read_back)

definition loaded_setup :: "setup_spec \<Rightarrow> setup_entry" where
  "loaded_setup st = \<lparr>s_kind = (if se_base st then 0 else 1) OR push_bit 4 (se_shift st), s_reg = se_reg st,
     s_binding = se_binding st, s_constant = se_constant st, s_mul = se_mul st, s_add = se_add st\<rparr>"

lemma parse_setup_bytes: "parse_setup (setup_bytes st) = loaded_setup st"
  by (simp add: parse_setup_def setup_bytes_def loaded_setup_def read_back)

lemma take_magic: "take 8 (head_bytes d gemv es) = sa_magic"
  by (simp add: head_bytes_def Let_def)

lemma kind_of_loaded: "kind_of (loaded_setup st) = (if se_base st then 0 else 1)"
  "se_shift st < 16 \<Longrightarrow> drop_bit 4 (s_kind (loaded_setup st)) = se_shift st"
proof -
  have m: "(15 :: u8) = mask 4" by (simp add: mask_eq_exp_minus_1)
  have b: "bit (1 :: u8) n \<longleftrightarrow> n = 0" for n by (simp add: bit_1_iff)
  have "push_bit 4 (se_shift st) AND mask 4 = 0" "(1 OR push_bit 4 (se_shift st)) AND mask 4 = (1 :: u8)"
    by (rule bit_word_eqI, auto simp: bit_simps b)+
  then show "kind_of (loaded_setup st) = (if se_base st then 0 else 1)"
    by (simp add: kind_of_def loaded_setup_def m)
  assume "se_shift st < 16"
  then have "unat (se_shift st) < 2 ^ 4" by (simp add: word_less_nat_alt)
  then have t: "take_bit 4 (se_shift st) = se_shift st" by (simp add: word_unat_eq_iff take_bit_eq_mod unat_mod)
  have s: "bit (se_shift st) n \<Longrightarrow> n < 4" for n by (subst (asm) t [symmetric]) (simp add: bit_take_bit_iff)
  have "drop_bit 4 (push_bit 4 (se_shift st)) = se_shift st" "drop_bit 4 (1 OR push_bit 4 (se_shift st)) = se_shift st"
    by (rule bit_word_eqI, auto simp: bit_simps b dest: s)+
  then show "drop_bit 4 (s_kind (loaded_setup st)) = se_shift st" by (simp add: loaded_setup_def)
qed


section \<open>The executable that was meant\<close>

definition setup_ok :: "out_export \<Rightarrow> setup_spec \<Rightarrow> bool" where
  "setup_ok e st \<longleftrightarrow> se_shift st < 16 \<and> (if se_base st then se_reg st \<le> 15 \<and> unat (se_binding st) < unat (oe_bindings e) else se_reg st \<le> 7)
     \<and> sint (se_constant st) < int (unat (oe_constants e))"

definition export_ok :: "out_export \<Rightarrow> bool" where
  "export_ok e \<longleftrightarrow> (let x = oe_ser e in
     oe_bindings e \<le> 16 \<and> oe_constants e < 2 ^ 15 \<and> (x_setups x = [] \<longrightarrow> oe_constants e \<le> 6)
     \<and> length (x_setups x) \<le> 24 \<and> list_all (setup_ok e) (x_setups x)
     \<and> length (x_templ x) mod 64 = 0 \<and> unat (x_prefix x) + unat (x_head x) < length (x_templ x) div 64 \<and> x_preg x \<le> 14)"

text \<open>The export the loader makes, its template at \<open>t\<close> on the device.\<close>
definition loaded_export :: "u32 \<Rightarrow> out_export \<Rightarrow> export" where
  "loaded_export t e = (let x = oe_ser e in
     \<lparr>x_name = oe_name e, x_prefix_phys = (if x_prefix x \<noteq> 0 then t else 0),
      x_head_phys = (if x_head x \<noteq> 0 then t + 64 * x_prefix x else 0),
      x_entry_phys = t + 64 * (x_prefix x + x_head x), x_prefix_reads = x_preads x, x_writes = x_wr x, x_reads = x_rd x,
      x_prefix_reg = x_preg x, x_spad_b = bit (x_flags x) 0, rv_only = bit (x_flags x) 1,
      x_descriptor_count = of_nat (length (x_templ x) div 64), x_est_cycles = x_cycles x,
      x_setup = map loaded_setup (x_setups x), rv_state = 0, rv_phys = 0, rv_embedded = 0, rv_fn = [],
      a_bindings = ucast (oe_bindings e), a_constants = ucast (oe_constants e)\<rparr>)"

fun loaded_exports :: "u32 \<Rightarrow> out_export list \<Rightarrow> export list" where
  "loaded_exports t [] = []"
| "loaded_exports t (e # es) = loaded_export t e # loaded_exports (t + of_nat (length (x_templ (oe_ser e)))) es"

lemma length_loaded [simp]: "length (loaded_exports t es) = length es"
  by (induction es arbitrary: t) simp_all

lemma loaded_exports_nth:
  "i < length es \<Longrightarrow> loaded_exports t es ! i = loaded_export (t + of_nat (off_of (x_templ \<circ> oe_ser) es i)) (es ! i)"
proof (induction es arbitrary: t i)
  case (Cons e es)
  then show ?case by (cases i) (simp_all add: ac_simps)
qed simp

lemma fits_u32: "n < 2 ^ 32 \<Longrightarrow> unat (of_nat n :: u32) = n"
  by (simp add: take_bit_nat_eq_self unsigned_of_nat)

lemma bad_setup_loaded:
  assumes "setup_ok e st" and "export_ok e" and "binding_count x = ucast (oe_bindings e)" and "constant_count x = ucast (oe_constants e)"
  shows "\<not> bad_setup x (loaded_setup st)"
proof -
  have "unat (ucast (oe_bindings e) :: u16) = unat (oe_bindings e)" "unat (ucast (oe_constants e) :: u16) = unat (oe_constants e)"
    using assms(2) by (simp_all add: export_ok_def Let_def unsigned_ucast_eq take_bit_nat_eq_self word_le_nat_alt word_less_nat_alt)
  with assms(1,3,4) show ?thesis
    by (auto simp: bad_setup_def kind_of_loaded setup_ok_def word_le_nat_alt) (simp_all add: loaded_setup_def)
qed


lemma off_of_mod: "(\<And>x. x \<in> set xs \<Longrightarrow> length (f x) mod k = 0) \<Longrightarrow> off_of f xs i mod k = 0"
proof (induction xs arbitrary: i)
  case Nil
  then show ?case by (simp add: off_of_def)
next
  case (Cons x xs)
  then show ?case by (cases i) (simp_all add: mod_add_eq [symmetric])
qed

lemma map_ld_all: "(\<And>x. x \<in> set xs \<Longrightarrow> f x = ret (g x)) \<Longrightarrow> map_ld f xs = ret (map g xs)"
  by (induction xs) simp_all

text \<open>Every size and position of the file is at most its length.\<close>
lemma file_bounds:
  assumes "i < length es"
  shows "off_of oe_name es i + length (oe_name (es ! i)) \<le> length (concat (map oe_name es))"
    and "off_of (x_templ \<circ> oe_ser) es i + length (x_templ (oe_ser (es ! i))) \<le> length (concat (map (x_templ \<circ> oe_ser) es))"
    and "off_of export_setups es i + 16 * length (x_setups (oe_ser (es ! i))) \<le> length (concat (map export_setups es))"
  using off_of_bound [OF assms, of oe_name] off_of_bound [OF assms, of "x_templ \<circ> oe_ser"] off_of_bound [OF assms, of export_setups]
  by (simp_all add: length_export_setups)

definition file_ok :: "u32 \<Rightarrow> bool \<Rightarrow> out_export list \<Rightarrow> bool" where
  "file_ok d gemv es \<longleftrightarrow> length (file_bytes d gemv es []) < 2 ^ 32 \<and> list_all export_ok es \<and> es \<noteq> []"

lemma sizes:
  assumes "file_ok d gemv es"
  shows "length es < 2 ^ 32" "y_tmpl_off (layout_of es) < 2 ^ 32" "length (concat (map (x_templ \<circ> oe_ser) es)) < 2 ^ 32"
    "y_str_off (layout_of es) < 2 ^ 32" "length (concat (map oe_name es)) < 2 ^ 32" "y_ext_off (layout_of es) < 2 ^ 32"
    "y_setup_off (layout_of es) + length (concat (map export_setups es)) < 2 ^ 32"
  using assms layout_order [of es] unfolding file_ok_def file_slices(7) by linarith+

definition header_of :: "u32 \<Rightarrow> bool \<Rightarrow> out_export list \<Rightarrow> file_header" where
  "header_of d gemv es = parse_header (head_bytes d gemv es)"

lemma header_fields:
  assumes "file_ok d gemv es"
  defines "h \<equiv> header_of d gemv es" and "y \<equiv> layout_of es"
  shows "version h = 3" "h_d h = d" "h_caps h = required_caps gemv" "unat (export_count h) = length es" "unat (export_offset h) = 64"
  "unat (templates_offset h) = y_tmpl_off y" "unat (templates_bytes h) = length (concat (map (x_templ \<circ> oe_ser) es))"
  "unat (strings_offset h) = y_str_off y" "unat (strings_bytes h) = length (concat (map oe_name es))"
  "unat (ext_offset h) = y_ext_off y" "code_offset h = 0"
proof -
  note f = sizes [OF assms(1), folded y_def, THEN fits_u32]
  show "version h = 3" "h_d h = d" "h_caps h = required_caps gemv" "unat (export_count h) = length es" "unat (export_offset h) = 64"
  "unat (templates_offset h) = y_tmpl_off y" "unat (templates_bytes h) = length (concat (map (x_templ \<circ> oe_ser) es))"
  "unat (strings_offset h) = y_str_off y" "unat (strings_bytes h) = length (concat (map oe_name es))"
  "unat (ext_offset h) = y_ext_off y" "code_offset h = 0"
    unfolding h_def header_of_def parse_head_bytes Let_def y_def [symmetric] file_header.simps by (simp_all only: f) simp
qed

lemma read_entry:
  assumes "file_ok d gemv es" and "i < length es"
  shows "read_export (file_bytes d gemv es []) (header_of d gemv es) i =
    ret \<lparr>name_offset = of_nat (off_of oe_name es i), name_length = of_nat (length (oe_name (es ! i))),
      template_offset = of_nat (off_of (x_templ \<circ> oe_ser) es i),
      descriptor_count = of_nat (length (x_templ (oe_ser (es ! i))) div 64), binding_count = ucast (oe_bindings (es ! i)),
      constant_count = ucast (oe_constants (es ! i)), setup_count = of_nat (length (x_setups (oe_ser (es ! i)))),
      est_cycles = x_cycles (oe_ser (es ! i)),
      setup_offset = (if x_setups (oe_ser (es ! i)) = [] then 0 else of_nat (y_setup_off (layout_of es) + off_of export_setups es i))\<rparr>"
  unfolding read_export_def header_fields [OF assms(1)] file_slices(2) [OF assms(2)] bind_ld_simps entry_at_def parse_entry_bytes by simp

lemma entry_fits:
  assumes "file_ok d gemv es" and "i < length es"
  shows "unat (of_nat (off_of oe_name es i) :: u32) = off_of oe_name es i"
    and "unat (of_nat (length (oe_name (es ! i))) :: u32) = length (oe_name (es ! i))"
    and "unat (of_nat (off_of (x_templ \<circ> oe_ser) es i) :: u32) = off_of (x_templ \<circ> oe_ser) es i"
    and "unat (of_nat (length (x_templ (oe_ser (es ! i))) div 64) :: u32) = length (x_templ (oe_ser (es ! i))) div 64"
    and "unat (of_nat (length (x_setups (oe_ser (es ! i)))) :: u32) = length (x_setups (oe_ser (es ! i)))"
    and "unat (of_nat (y_setup_off (layout_of es) + off_of export_setups es i) :: u32) = y_setup_off (layout_of es) + off_of export_setups es i"
  using file_bounds [OF assms(2)] sizes [OF assms(1)] by (auto intro!: fits_u32 simp del: of_nat_add)

text \<open>The second pass over one export of a written file.\<close>
lemma load_written:
  fixes es :: "out_export list"
  assumes w: "file_ok d gemv es" and i: "i < length es"
  shows "load_export (file_bytes d gemv es []) (header_of d gemv es) (concat (map oe_name es)) t i
      = ret (loaded_export (t + of_nat (off_of (x_templ \<circ> oe_ser) es i)) (es ! i))"
proof -
  let ?e = "es ! i" and ?h = "header_of d gemv es" and ?b = "file_bytes d gemv es []"
  note hf = header_fields [OF w] and fit = entry_fits [OF w i] and bnd = file_bounds [OF i]
  have all: "\<And>e. e \<in> set es \<Longrightarrow> export_ok e" using w by (simp add: file_ok_def list_all_iff)
  then have ok: "export_ok ?e" using i by simp
  obtain x where r: "read_export ?b ?h i = ret x" and x: "x = \<lparr>name_offset = of_nat (off_of oe_name es i), name_length = of_nat (length (oe_name (es ! i))),
      template_offset = of_nat (off_of (x_templ \<circ> oe_ser) es i),
      descriptor_count = of_nat (length (x_templ (oe_ser (es ! i))) div 64), binding_count = ucast (oe_bindings (es ! i)),
      constant_count = ucast (oe_constants (es ! i)), setup_count = of_nat (length (x_setups (oe_ser (es ! i)))),
      est_cycles = x_cycles (oe_ser (es ! i)),
      setup_offset = (if x_setups (oe_ser (es ! i)) = [] then 0 else of_nat (y_setup_off (layout_of es) + off_of export_setups es i))\<rparr>"
    using read_entry [OF w i] by blast
  have m64: "off_of (x_templ \<circ> oe_ser) es i mod 64 = 0" using all by (intro off_of_mod) (simp add: export_ok_def Let_def)
  have "64 * (length (x_templ (oe_ser ?e)) div 64) = length (x_templ (oe_ser ?e))" using ok by (auto simp: export_ok_def Let_def)
  with bnd(1,2) m64 have rng: "\<not> bad_range ?h x" by (simp add: bad_range_def hf x fit)
  have n: "setups_of ?h x = length (x_setups (oe_ser ?e))" by (simp add: setups_of_def hf x fit)
  have cnt: "\<not> (binding_count x > 16 \<or> setups_of ?h x = 0 \<and> constant_count x > 6)"
    using ok unfolding n by (auto simp: x export_ok_def Let_def word_le_nat_alt word_less_nat_alt unsigned_ucast_eq take_bit_nat_eq_self)
  have ss: "map_ld (\<lambda>j. bind_ld (file_slice ?b (unat (setup_offset x) + j * 16) 16) (\<lambda>b. ret (parse_setup b))) [0..<setups_of ?h x]
      = ret (map loaded_setup (x_setups (oe_ser ?e)))"
  proof -
    have "map_ld (\<lambda>j. bind_ld (file_slice ?b (unat (setup_offset x) + j * 16) 16) (\<lambda>b. ret (parse_setup b))) [0..<setups_of ?h x]
        = ret (map (\<lambda>j. loaded_setup (x_setups (oe_ser ?e) ! j)) [0..<setups_of ?h x])"
    proof (rule map_ld_all)
      fix j assume "j \<in> set [0..<setups_of ?h x]"
      then have j: "j < length (x_setups (oe_ser ?e))" using n by simp
      then have "unat (setup_offset x) = y_setup_off (layout_of es) + off_of export_setups es i"
        using fit(6) by (auto simp: x simp del: of_nat_add)
      then show "bind_ld (file_slice ?b (unat (setup_offset x) + j * 16) 16) (\<lambda>b. ret (parse_setup b)) = ret (loaded_setup (x_setups (oe_ser ?e) ! j))"
        by (simp only: file_slices(5) [OF i j] bind_ld_simps parse_setup_bytes)
    qed
    also have "map (\<lambda>j. loaded_setup (x_setups (oe_ser ?e) ! j)) [0..<setups_of ?h x] = map loaded_setup (x_setups (oe_ser ?e))"
      unfolding n by (rule nth_equalityI) simp_all
    finally show ?thesis .
  qed
  have bad: "\<not> list_ex (bad_setup x) (map loaded_setup (x_setups (oe_ser ?e)))"
    using ok bad_setup_loaded [OF _ ok, of _ x] by (auto simp: x list_ex_iff list_all_iff export_ok_def Let_def)
  obtain xt where xt: "file_slice ?b (unat (ext_offset ?h) + i * 32) 32 = ret (ext_bytes ?e)" "xt = parse_ext (ext_bytes ?e)"
    using file_slices(6) [OF i] hf(10) by simp
  have ext: "\<not> bad_ext x xt"
    using ok fit(4) by (simp add: bad_ext_def xt(2) parse_ext_bytes x export_ok_def Let_def not_less)
  have nm: "take (length (oe_name ?e)) (drop (off_of oe_name es i) (concat (map oe_name es))) = oe_name ?e"
    using concat_split [OF i, of oe_name] by simp
  have u: "ucast (ucast v :: u16) = (ucast v :: u8)" for v :: u32 by (rule bit_word_eqI) (auto simp: bit_simps)
  have mk: "make_export (concat (map oe_name es)) t x xt (map loaded_setup (x_setups (oe_ser ?e)))
      = loaded_export (t + of_nat (off_of (x_templ \<circ> oe_ser) es i)) ?e"
    unfolding make_export_def loaded_export_def Let_def xt(2) parse_ext_bytes x
    by (simp add: fit(1,2) nm u)
  show ?thesis
    using r rng cnt ss bad ext hf(1) xt(1) mk
    by (simp add: load_export_def fail_if_def xt(2) [symmetric])
qed


lemma tables_written:
  assumes w: "file_ok d gemv es"
  shows "check_setup_tables (file_bytes d gemv es []) (header_of d gemv es) = ret ()"
proof -
  let ?h = "header_of d gemv es" and ?b = "file_bytes d gemv es []"
  note hf = header_fields [OF w]
  have "bind_ld (read_export ?b ?h i) (\<lambda>x. bind_ld (fail_if (setup_count x > 24) INVALID_ARGUMENT) (\<lambda>_.
      sa_check_range ?b (unat (setup_offset x)) (unat (setup_count x) * 16))) = ret ()" if i: "i < length es" for i
  proof -
    let ?n = "length (x_setups (oe_ser (es ! i)))"
    have ok: "?n \<le> 24" using w i by (simp add: file_ok_def list_all_length export_ok_def Let_def)
    note fit = entry_fits [OF w i] and bnd = file_bounds [OF i]
    have "y_setup_off (layout_of es) + off_of export_setups es i + ?n * 16 \<le> length ?b"
      using bnd(3) layout_order(4) [of es] unfolding file_slices(7) by linarith
    moreover have "\<not> (of_nat ?n :: u32) > 24" using ok fit(5) by (simp add: not_less word_le_nat_alt)
    ultimately show ?thesis
      using fit(5,6) by (auto simp: read_entry [OF w i] fail_if_def sa_check_range_def simp del: of_nat_add)
  qed
  then have "map_ld (\<lambda>i. bind_ld (read_export ?b ?h i) (\<lambda>x. bind_ld (fail_if (setup_count x > 24) INVALID_ARGUMENT) (\<lambda>_.
      sa_check_range ?b (unat (setup_offset x)) (unat (setup_count x) * 16)))) [0..<length es] = ret (map (\<lambda>_. ()) [0..<length es])"
    by (intro map_ld_all) simp
  then show ?thesis by (simp add: check_setup_tables_def hf)
qed

definition caps_ok :: "u32 \<Rightarrow> bool \<Rightarrow> bool" where
  "caps_ok dev_caps gemv \<longleftrightarrow> dev_caps = 0 \<or> required_caps gemv AND NOT dev_caps AND 0x03E00000 = 0"

lemma checks_written:
  assumes w: "file_ok d gemv es" and "caps_ok dev_caps gemv"
  shows "header_checks (file_bytes d gemv es []) d dev_caps (head_bytes d gemv es) (header_of d gemv es) = ret ()"
proof -
  let ?h = "header_of d gemv es" and ?b = "file_bytes d gemv es []"
  note hf = header_fields [OF w] and len = file_slices(7) [of d gemv es] and o' = layout_order [of es]
  have all: "\<And>e. e \<in> set es \<Longrightarrow> export_ok e" using w by (simp add: file_ok_def list_all_iff)
  have "length (concat (map (x_templ \<circ> oe_ser) es)) = off_of (x_templ \<circ> oe_ser) es (length es)"
    by (simp add: off_of_def length_concat comp_def)
  then have m: "length (concat (map (x_templ \<circ> oe_ser) es)) mod 64 = 0"
    using off_of_mod [of es "x_templ \<circ> oe_ser" 64] all by (simp add: export_ok_def Let_def)
  obtain e where e: "e \<in> set es" using w by (cases es) (auto simp: file_ok_def)
  have "x_templ (oe_ser e) \<noteq> []" using all [OF e] by (auto simp: export_ok_def Let_def)
  with e have nz: "concat (map (x_templ \<circ> oe_ser) es) \<noteq> []" by auto
  have c0: "export_count ?h \<noteq> 0" "templates_bytes ?h \<noteq> 0"
    using hf(4,7) nz w by (auto simp: file_ok_def simp del: concat_eq_Nil_conv)
  have caps: "\<not> (dev_caps \<noteq> 0 \<and> h_caps ?h AND NOT dev_caps AND 0x03E00000 \<noteq> 0)"
    using assms(2) by (auto simp: hf(3) caps_ok_def)
  have r: "64 + length es * 32 \<le> length ?b" "y_tmpl_off (layout_of es) + length (concat (map (x_templ \<circ> oe_ser) es)) \<le> length ?b"
    "y_str_off (layout_of es) + length (concat (map oe_name es)) \<le> length ?b" "y_ext_off (layout_of es) + length es * 32 \<le> length ?b"
    using o' unfolding len by linarith+
  show ?thesis
    unfolding header_checks_def sa_check_range_def hf(1,2) take_magic
    unfolding hf(4-10)
    using c0 m caps r by (simp add: fail_if_def)
qed

lemma load_file:
  assumes "file_ok d gemv es" and "caps_ok dev_caps gemv"
    and "place 0 (length (concat (map (x_templ \<circ> oe_ser) es))) = Inr t"
  shows "sa_executable_create d dev_caps (Inr ()) place (file_bytes d gemv es [])
    = ret \<lparr>exports = loaded_exports t es, templates = concat (map (x_templ \<circ> oe_ser) es), rvcode = []\<rparr>"
proof -
  let ?h = "header_of d gemv es" and ?b = "file_bytes d gemv es []"
  note hf = header_fields [OF assms(1)]
  have l: "map_ld (load_export ?b ?h (concat (map oe_name es)) t) [0..<length es] = ret (loaded_exports t es)"
  proof -
    have "map_ld (load_export ?b ?h (concat (map oe_name es)) t) [0..<length es] = ret (map (\<lambda>i. loaded_exports t es ! i) [0..<length es])"
      by (intro map_ld_all) (simp add: load_written [OF assms(1)] loaded_exports_nth)
    also have "map (\<lambda>i. loaded_exports t es ! i) [0..<length es] = loaded_exports t es"
      using map_nth [of "loaded_exports t es"] by simp
    finally show ?thesis .
  qed
  have c: "load_code ?b place ?h (loaded_exports t es) = ret (loaded_exports t es, [])" by (simp add: load_code_def hf(11))
  have r: "sa_check_range ?b 0 64 = ret ()"
    using layout_order [of es] by (simp add: sa_check_range_def fail_if_def file_slices(7))
  note steps = r file_slices(1) header_of_def [symmetric] checks_written [OF assms(1,2)] tables_written [OF assms(1)]
    hf(4,6-9) file_slices(3,4) l c assms(3)
  show ?thesis
    by (simp only: sa_executable_create_def steps bind_ld_simps Let_def split)
qed


section \<open>What the serializer guarantees\<close>

lemma emit_rows: "emit defs inp ops s = Inr t \<Longrightarrow> \<exists>rs. sr_rows t = sr_rows s @ rs \<and> (\<forall>r \<in> set rs. length r = 8)"
proof (induction defs inp ops s arbitrary: t rule: emit.induct)
  case (2 defs inp count k1 s1 k2 s2 h body ops s)
  from 2(3) obtain u where u: "emit defs inp body s = Inr u" unfolding emit.simps bind_st_Inr_iff by blast
  obtain r1 where r1: "reg_of defs k1 = Some r1" using 2(3) u by (cases "reg_of defs k1") simp_all
  obtain r2 where r2: "reg_of defs k2 = Some r2" using 2(3) u r1 by (cases "reg_of defs k2") simp_all
  from 2(3) obtain f u1 where hd: "ser_header defs inp None h u = Inr (f, u1)"
    and rest: "emit defs inp ops (ser_put f 0x13
         [zext64 (sr_tag s - sr_tag u), count OR push_bit 16 (of_nat r1 AND 7) OR push_bit 19 (of_nat r2 AND 7), lo32 s1, lo32 s2] u1) = Inr t"
    unfolding emit.simps u bind_st_simps prod.case r1 r2 option.case bind_st_Inr_iff by auto
  from 2(1) [OF u] obtain rb where rb: "sr_rows u = sr_rows s @ rb" "\<forall>r \<in> set rb. length r = 8" by blast
  from 2(2) [OF refl r1 r2 rest] obtain rs where
    "sr_rows t = sr_rows (ser_put f 0x13
         [zext64 (sr_tag s - sr_tag u), count OR push_bit 16 (of_nat r1 AND 7) OR push_bit 19 (of_nat r2 AND 7), lo32 s1, lo32 s2] u1) @ rs"
    "\<forall>r \<in> set rs. length r = 8" by blast
  then show ?case using rb ser_header_ok [OF hd] by (auto simp: ser_put_def)
qed (fastforce simp: bind_st_Inr_iff dest!: emit_cmd_row split: if_splits)+

lemma emit_section_rows:
  assumes "emit_section defs inp ops s = Inr (n, t)"
  shows "\<exists>rs. sr_rows t = sr_rows s @ rs \<and> length rs = n \<and> 0 < n \<and> (\<forall>r \<in> set rs. length r = 8)"
proof -
  from assms obtain u where u: "emit defs inp ops s = Inr u" "sr_rows t = sr_rows u @ [ser_ret (sr_tag u)]"
    "n = length (sr_rows t) - length (sr_rows s)"
    by (auto simp: emit_section_def bind_st_Inr_iff Let_def)
  with emit_rows [OF u(1)] show ?thesis by (auto simp: ser_ret_def)
qed

lemma emit_optional_rows:
  "emit_optional defs inp ops s = Inr (n, t) \<Longrightarrow> \<exists>rs. sr_rows t = sr_rows s @ rs \<and> length rs = n \<and> (\<forall>r \<in> set rs. length r = 8)"
  using emit_section_rows by (cases ops) (force simp: emit_optional_def)+

lemma serialized_sizes:
  assumes "serialize_template t = Inr x"
  shows "length (x_templ x) mod 64 = 0
    \<and> (length (x_templ x) < 2 ^ 32 \<longrightarrow> unat (x_prefix x) + unat (x_head x) < length (x_templ x) div 64)"
proof -
  from assms obtain body np nh s where s: "emit_sections t body = Inr (np, nh, s)"
    and x: "x_templ x = desc_bytes (sr_rows s)" "x_prefix x = of_nat np" "x_head x = of_nat nh"
    by (auto simp: serialize_template_def bind_st_Inr_iff split: option.splits)
  from s obtain s1 s2 nb where s1: "emit_optional (t_defs t) True (t_prefix t) init_ser = Inr (np, s1)"
    and s2: "emit_optional (t_defs t) False (t_head t) (s1\<lparr>sr_tag := 0\<rparr>) = Inr (nh, s2)"
    and s3: "emit_section (t_defs t) False body s2 = Inr (nb, s)"
    by (auto simp: emit_sections_def bind_st_Inr_iff)
  from emit_optional_rows [OF s1] obtain r1 where r1: "sr_rows s1 = sr_rows init_ser @ r1" "length r1 = np" "\<forall>r \<in> set r1. length r = 8" by blast
  from emit_optional_rows [OF s2] obtain r2 where r2: "sr_rows s2 = sr_rows s1 @ r2" "length r2 = nh" "\<forall>r \<in> set r2. length r = 8" by auto
  from emit_section_rows [OF s3] obtain r3 where r3: "sr_rows s = sr_rows s2 @ r3" "length r3 = nb" "0 < nb" "\<forall>r \<in> set r3. length r = 8" by blast
  have "sr_rows s = r1 @ r2 @ r3" "\<forall>r \<in> set (r1 @ r2 @ r3). length r = 8"
    using r1 r2 r3 by (auto simp: init_ser_def)
  with r1 r2 r3 have r: "length (sr_rows s) = np + nh + nb" "0 < nb" "length (x_templ x) = 64 * length (sr_rows s)"
    using length_desc_bytes [of "sr_rows s"] by (simp_all add: init_ser_def x)
  show ?thesis
    using r fits_u32 [of np] fits_u32 [of nh] by (auto simp: x)
qed

text \<open>What the HAL and the register allocation leave of an export's registers.\<close>
definition export_regs_ok :: "out_export \<Rightarrow> bool" where
  "export_regs_ok e \<longleftrightarrow> (let x = oe_ser e in
     oe_constants e < 2 ^ 15 \<and> (x_setups x = [] \<longrightarrow> oe_constants e \<le> 6) \<and> length (x_setups x) \<le> 24
     \<and> list_all (setup_ok e) (x_setups x) \<and> x_preg x \<le> 14)"

definition built :: "nat \<times> out_export \<Rightarrow> bool" where
  "built p \<longleftrightarrow> oe_bindings (snd p) \<le> 16 \<and> (\<exists>t. serialize_template t = Inr (oe_ser (snd p)))"

lemma built_exports: "build_exports tm n hs = Inr es \<Longrightarrow> length es = length hs \<and> list_all built es"
proof (induction tm n hs arbitrary: es rule: build_exports.induct)
  case (2 tm n x xs)
  have b: "\<not> hx_bindings x > 16" using 2(2) by auto
  obtain t where t: "tm (hx_name x) = Some t" using 2(2) b by (cases "tm (hx_name x)") simp_all
  obtain se where se: "serialize_template t = Inr se" using 2(2) b t by (cases "serialize_template t") simp_all
  from 2(2) b t se obtain es' k where r: "build_exports tm (Suc n) xs = Inr es'"
    and es: "es = (k, \<lparr>oe_name = hx_name x, oe_bindings = of_nat (hx_bindings x), oe_constants = of_nat (hx_constants x), oe_ser = se\<rparr>) # es'"
    by (auto simp: bind_st_Inr_iff)
  have "(of_nat (hx_bindings x) :: u32) \<le> 16"
    using b fits_u32 [of "hx_bindings x"] by (simp add: word_le_nat_alt)
  with 2(1) [OF b t se r] se show ?case by (auto simp: es built_def)
qed simp

lemma built_file_ok:
  assumes "build_exports tm 0 hs = Inr es" and "xs = map snd (sort_key fst es)"
    and "hs \<noteq> []" and "length (file_bytes d gemv xs []) < 2 ^ 32" and "list_all export_regs_ok xs"
  shows "file_ok d gemv xs"
proof -
  note b = built_exports [OF assms(1)]
  have set: "set xs = snd ` set es" using assms(2) by simp
  have "export_ok e" if e: "e \<in> set xs" for e
  proof -
    obtain t where t: "serialize_template t = Inr (oe_ser e)" "oe_bindings e \<le> 16" using b e set by (auto simp: list_all_iff built_def)
    obtain i where i: "i < length xs" "xs ! i = e" using e by (auto simp: in_set_conv_nth)
    have "length (x_templ (oe_ser e)) \<le> length (concat (map (x_templ \<circ> oe_ser) xs))"
      using i file_bounds(2) [OF i(1)] by simp
    also have "\<dots> < 2 ^ 32" using assms(4) layout_order [of xs] unfolding file_slices(7) by linarith
    finally show ?thesis
      using serialized_sizes [OF t(1)] t(2) assms(5) e by (auto simp: export_ok_def export_regs_ok_def Let_def list_all_iff)
  qed
  moreover have "length xs = length hs" using assms(2) b by simp
  then have "xs \<noteq> []" using assms(3) by auto
  ultimately show ?thesis using assms(4) by (simp add: file_ok_def list_all_iff)
qed

text \<open>
  C3. What the compiler writes is what the runtime loads: the file of the exports' serialized
  templates (without code of their own) is accepted by a device of the same size that has the
  required capabilities, and the executable has the exports in the order of their ordinals, with
  their names, registers, masks and cycles, the setup tables entry by entry, and each entry point
  at its template in the copy.
\<close>
theorem written_file_loads:
  assumes "serialize_executable d gemv tm hs (\<lambda>_. []) = Inr f" and "build_exports tm 0 hs = Inr es"
    and "xs = map snd (sort_key fst es)" and "hs \<noteq> []" and "length f < 2 ^ 32" and "list_all export_regs_ok xs"
    and "caps_ok dev_caps gemv" and "place 0 (length (concat (map (x_templ \<circ> oe_ser) xs))) = Inr t"
  shows "sa_executable_create d dev_caps (Inr ()) place f
    = ret \<lparr>exports = loaded_exports t xs, templates = concat (map (x_templ \<circ> oe_ser) xs), rvcode = []\<rparr>"
proof -
  have f: "f = file_bytes d gemv xs []" using assms(1-3) by (simp add: serialize_executable_def Let_def)
  have "file_ok d gemv xs" using built_file_ok [OF assms(2,3,4) _ assms(6)] assms(5) unfolding f .
  then show ?thesis unfolding f using load_file [where place = place] assms(7,8) by blast
qed

definition sample_template :: "u64 \<Rightarrow> sahw_template" where
  "sample_template m = \<lparr>t_defs = [BaseDef 1 \<lparr>l_constant = 0xFFFFFFFFFFFFFFFF, l_mul = 0, l_shift = 0, l_add = 64\<rparr> (Some 3)], t_prefix = Some [op.Fence m],
     t_head = None, t_body = Some [op.Fence m], t_est_cycles = 9, t_unsupported = False, t_riscv_only = False\<rparr>"

definition sample_rows2 :: "u64 \<Rightarrow> row list" where
  "sample_rows2 m = [row_of 0x10 [m], row_of 0x100000016 [], row_of 0x10 [m], row_of 0x100000016 []]"

definition sample_se :: "u64 \<Rightarrow> serialized_export" where
  "sample_se m = \<lparr>x_templ = desc_bytes (sample_rows2 m),
     x_setups = [\<lparr>se_base = True, se_reg = 3, se_binding = 1, se_constant = 0xFFFF, se_mul = 0, se_shift = 0, se_add = 64\<rparr>],
     x_prefix = 2, x_preads = 0, x_wr = 0, x_rd = 0, x_head = 0, x_flags = 0, x_preg = 0, x_cycles = 9\<rparr>"

lemma sample_serialized: "serialize_template (sample_template m) = Inr (sample_se m)"
  by (simp add: serialize_template_def sample_template_def emit_sections_def emit_optional_def emit_section_def init_ser_def
      emit_cmd_def ser_put_def ser_ret_def lin_setup_def sample_se_def sample_rows2_def Let_def)

definition sample_out :: "u8 \<Rightarrow> u64 \<Rightarrow> out_export" where
  "sample_out c m = \<lparr>oe_name = [c], oe_bindings = 2, oe_constants = 1, oe_ser = sample_se m\<rparr>"

lemma sample_out_simps [simp]:
  "length (x_templ (oe_ser (sample_out c m))) = 256" "length (export_setups (sample_out c m)) = 16" "oe_name (sample_out c m) = [c]"
  "export_regs_ok (sample_out c m)"
  using length_desc_bytes [of "sample_rows2 m"]
  by (simp_all add: sample_out_def sample_se_def sample_rows2_def row_of_def length_export_setups export_regs_ok_def setup_ok_def)

definition sample_names :: "u8 list \<Rightarrow> sahw_template option" where
  "sample_names n = (if n = [97] then Some (sample_template 1) else if n = [98] then Some (sample_template 2) else None)"

definition sample_hal :: "hal_export list" where
  "sample_hal = [\<lparr>hx_ordinal = Some 1, hx_name = [98], hx_bindings = 2, hx_constants = 1\<rparr>,
     \<lparr>hx_ordinal = Some 0, hx_name = [97], hx_bindings = 2, hx_constants = 1\<rparr>]"

theorem written_file_loads_witness:
  "sa_executable_create 16 0 (Inr ()) (\<lambda>_ _. Inr 0x1000) (file_bytes 16 True [sample_out 97 1, sample_out 98 2] [])
    = ret \<lparr>exports = [loaded_export 0x1000 (sample_out 97 1), loaded_export 0x1100 (sample_out 98 2)],
        templates = desc_bytes (sample_rows2 1) @ desc_bytes (sample_rows2 2), rvcode = []\<rparr>"
proof -
  have b: "build_exports sample_names 0 sample_hal = Inr [(1, sample_out 98 2), (0, sample_out 97 1)]"
    by (simp add: sample_hal_def sample_names_def sample_serialized sample_out_def)
  have s: "[sample_out 97 1, sample_out 98 2] = map snd (sort_key fst [(1 :: nat, sample_out 98 2), (0, sample_out 97 1)])" by simp
  then have f: "serialize_executable 16 True sample_names sample_hal (\<lambda>_. []) = Inr (file_bytes 16 True [sample_out 97 1, sample_out 98 2] [])"
    by (simp add: serialize_executable_def b)
  have t: "x_templ (oe_ser (sample_out c m)) = desc_bytes (sample_rows2 m)" for c m by (simp add: sample_out_def sample_se_def)
  have ne: "sample_hal \<noteq> []" by (simp add: sample_hal_def)
  have l: "length (file_bytes 16 True [sample_out 97 1, sample_out 98 2] []) < 2 ^ 32"
    unfolding file_slices(7) by (simp add: layout_of_def Let_def round_up_def)
  from written_file_loads [OF f b s ne l, of 0 "\<lambda>_ _. Inr 0x1000" "0x1000"] show ?thesis
    by (simp add: caps_ok_def) (simp add: t)
qed

end
