(* ===== verification/RvCore.thy ===== *)
theory RvCore
  imports Prelude
begin

text \<open>
  The decode loop on the RISC-V core (\<^verbatim>\<open>firmware/include/rvsched.h\<close>), which the resident firmware and
  the sim transport share. Memory is a map from physical addresses to the 32-bit word there; the
  macros the includer defines (submitting a list, calling generated code, reading the cycle
  counter) are a parameter, any function of the whole machine state.
\<close>

section \<open>The machine\<close>

record 'd core =
  mem :: "u32 \<Rightarrow> u32"
  dev :: 'd

text \<open>\<^verbatim>\<open>RVS_SUBMIT\<close>, \<^verbatim>\<open>RVS_CALL\<close> and \<^verbatim>\<open>RVS_CYCLES\<close>.\<close>
record 'd rvs_env =
  submit :: "u32 \<Rightarrow> 'd core \<Rightarrow> u32 \<times> 'd core"
  call_code :: "u32 \<Rightarrow> u32 \<Rightarrow> 'd core \<Rightarrow> u32 \<times> 'd core"
  cycles :: "'d core \<Rightarrow> u32 \<times> 'd core"

definition rd :: "'d core \<Rightarrow> u32 \<Rightarrow> u32" where
  "rd c a = mem c a"

definition wr :: "u32 \<Rightarrow> u32 \<Rightarrow> 'd core \<Rightarrow> 'd core" where
  "wr a v c = c\<lparr>mem := (mem c)(a := v)\<rparr>"

section \<open>The table\<close>

definition RVS_MAGIC :: u32 where "RVS_MAGIC = 0x32535652"
definition RVS_E_MAGIC :: u32 where "RVS_E_MAGIC = 0xE0000001"
definition RVS_E_RANGE :: u32 where "RVS_E_RANGE = 0xE0000002"
definition RVS_E_ARGMAX :: u32 where "RVS_E_ARGMAX = 0xE0000003"
definition RVS_F32_ONE :: u32 where "RVS_F32_ONE = 0x3F800000"

text \<open>The words of the table, by their index (\<^verbatim>\<open>RVS_T_*\<close>, from 0).\<close>
record sched_tab =
  q_nitems :: u32
  q_items :: u32
  q_nwords :: u32
  q_words :: u32
  q_pad :: u32
  q_bucket0 :: u32
  q_nbuckets :: u32
  q_buckets :: u32
  q_values :: u32
  q_nblocks :: u32
  q_block :: u32
  q_pos :: u32
  q_steps :: u32
  q_token :: u32
  q_stop :: u32
  q_out :: u32
  q_argmax :: u32
  q_argmax_args :: u32

definition tw :: "'d core \<Rightarrow> u32 \<Rightarrow> u32 \<Rightarrow> u32" where
  "tw c tab i = rd c (tab + 4 * i)"

definition read_tab :: "'d core \<Rightarrow> u32 \<Rightarrow> sched_tab" where
  "read_tab c tab =
     \<lparr>q_nitems = tw c tab 1, q_items = tw c tab 2, q_nwords = tw c tab 3, q_words = tw c tab 4, q_pad = tw c tab 5,
      q_bucket0 = tw c tab 6, q_nbuckets = tw c tab 7, q_buckets = tw c tab 8, q_values = tw c tab 9,
      q_nblocks = tw c tab 10, q_block = tw c tab 11, q_pos = tw c tab 12, q_steps = tw c tab 13, q_token = tw c tab 14,
      q_stop = tw c tab 15, q_out = tw c tab 16, q_argmax = tw c tab 19, q_argmax_args = tw c tab 20\<rparr>"

text \<open>The words of bucket \<open>b\<close> (\<^verbatim>\<open>bk\<close>; \<^verbatim>\<open>RVS_B_*\<close>: token, position, valid mask, logits, block maxima).\<close>
definition bucket_at :: "sched_tab \<Rightarrow> u32 \<Rightarrow> u32" where
  "bucket_at t b = q_buckets t + 32 * (b - q_bucket0 t)"

section \<open>One step\<close>

definition patch_words :: "sched_tab \<Rightarrow> u32 \<Rightarrow> 'd core \<Rightarrow> 'd core" where
  "patch_words t b c =
     fold (\<lambda>i c. wr (rd c (q_words t + 4 * of_nat i)) (rd c (q_values t + 4 * q_nwords t * (b - q_bucket0 t) + 4 * of_nat i)) c)
       [0..<unat (q_nwords t)] c"

definition fill_mask :: "u32 \<Rightarrow> u32 \<Rightarrow> u32 \<Rightarrow> 'd core \<Rightarrow> 'd core" where
  "fill_mask valid vlen pos c =
     fold (\<lambda>i c. wr (valid + 4 * of_nat i) (if of_nat i \<le> pos then RVS_F32_ONE else 0) c) [0..<unat vlen] c"

text \<open>The bucket's words and its whole mask when the bucket changes, else one more valid position.\<close>
definition enter_bucket :: "sched_tab \<Rightarrow> u32 \<Rightarrow> u32 \<Rightarrow> u32 \<Rightarrow> 'd core \<Rightarrow> 'd core" where
  "enter_bucket t cur b pos c =
     (let valid = rd c (bucket_at t b + 8) in
      if b \<noteq> cur then fill_mask valid ((b + 1) * q_pad t) pos (patch_words t b c)
      else wr (valid + 4 * pos) RVS_F32_ONE c)"

text \<open>The 64-bit inputs.\<close>
definition write_inputs :: "u32 \<Rightarrow> u32 \<Rightarrow> u32 \<Rightarrow> 'd core \<Rightarrow> 'd core" where
  "write_inputs bk token pos c =
     (let ta = rd c bk; pa = rd c (bk + 4) in wr (pa + 4) 0 (wr pa pos (wr (ta + 4) 0 (wr ta token c))))"

text \<open>The items from \<open>l\<close> on, \<open>n\<close> of them: the failing status (0: none), its index and the machine.\<close>
fun run_items :: "'d rvs_env \<Rightarrow> u32 \<Rightarrow> nat \<Rightarrow> u32 \<Rightarrow> 'd core \<Rightarrow> u32 \<times> u32 \<times> 'd core" where
  "run_items env items 0 l c = (0, l, c)"
| "run_items env items (Suc n) l c =
     (let a = rd c (items + 8 * l); code = rd c (items + 8 * l + 4);
          (st, c1) = (if code \<noteq> 0 then call_code env code a c else submit env a c)
      in if st \<noteq> 0 then (st, l, c1) else run_items env items n (l + 1) c1)"

text \<open>An unsigned key with the order of the floats.\<close>
definition rvs_key :: "u32 \<Rightarrow> u32" where
  "rvs_key f = (if f AND 0x80000000 \<noteq> 0 then NOT f else f OR 0x80000000)"

definition scan_blocks :: "(u32 \<Rightarrow> u32) \<Rightarrow> u32 \<Rightarrow> u32 \<Rightarrow> u32" where
  "scan_blocks m bm nblocks =
     snd (fold (\<lambda>j (bkey, best). let k = rvs_key (m (bm + 4 * of_nat j)) in if k > bkey then (k, of_nat j) else (bkey, best))
       [1..<unat nblocks] (rvs_key (m bm), 0))"

text \<open>The first position of the block that holds the maximum (0 when none does).\<close>
definition position_in :: "(u32 \<Rightarrow> u32) \<Rightarrow> u32 \<Rightarrow> u32 \<Rightarrow> u32 \<Rightarrow> u32" where
  "position_in m lg block mx =
     (case find (\<lambda>i. let f = m (lg + 4 * of_nat i) in f = mx \<or> push_bit 1 (f OR mx) = 0) [0..<unat block] of
        Some i \<Rightarrow> of_nat i | None \<Rightarrow> 0)"

text \<open>The winning block, by the core or by the kernel at \<open>q_argmax\<close>; \<open>Inl\<close>: the status of a failure.\<close>
definition pick_block :: "'d rvs_env \<Rightarrow> sched_tab \<Rightarrow> u32 \<Rightarrow> 'd core \<Rightarrow> (u32 + u32) \<times> 'd core" where
  "pick_block env t bm c =
     (if q_argmax t \<noteq> 0 then
        let a = q_argmax_args t; (st, c1) = call_code env (q_argmax t) a (wr (a + 256) 0xFFFFFFFF (wr (a + 4) (a + 256) (wr a bm c)));
            best = rd c1 (a + 256)
        in if st \<noteq> 0 \<or> best \<ge> q_nblocks t then (Inl (if st \<noteq> 0 then st else RVS_E_ARGMAX), c1) else (Inr best, c1)
      else (Inr (scan_blocks (mem c) bm (q_nblocks t)), c))"

definition pick_token :: "sched_tab \<Rightarrow> u32 \<Rightarrow> u32 \<Rightarrow> u32 \<Rightarrow> (u32 \<Rightarrow> u32) \<Rightarrow> u32" where
  "pick_token t bm logits best m =
     best * q_block t + position_in m (logits + 4 * q_block t * best) (q_block t) (m (bm + 4 * best))"

definition out_at :: "sched_tab \<Rightarrow> u32 \<Rightarrow> u32" where
  "out_at t s = q_out t + 16 * s"

text \<open>Step \<open>s\<close>, at position \<open>pos\<close> and bucket \<open>cur\<close>: the status that ends the run, or the token and the bucket.\<close>
definition rvs_step :: "'d rvs_env \<Rightarrow> u32 \<Rightarrow> sched_tab \<Rightarrow> u32 \<Rightarrow> u32 \<Rightarrow> u32 \<Rightarrow> u32 \<Rightarrow> 'd core \<Rightarrow> (u32 + u32 \<times> u32) \<times> 'd core" where
  "rvs_step env tab t s pos token cur c =
     (let (t0, c) = cycles env c; b = pos div q_pad t in
      if b < q_bucket0 t \<or> b - q_bucket0 t \<ge> q_nbuckets t then (Inl RVS_E_RANGE, c)
      else
        let bk = bucket_at t b;
            c = write_inputs bk token pos (enter_bucket t cur b pos c);
            (t1, c) = cycles env c;
            (st, l, c) = run_items env (q_items t) (unat (q_nitems t)) 0 c;
            (t2, c) = cycles env c
        in if st \<noteq> 0 then (Inl st, wr (out_at t s + 12) l c)
           else
             let bm = rd c (bk + 16) in
             case pick_block env t bm c of
               (Inl e, c) \<Rightarrow> (Inl e, wr (out_at t s + 12) (q_nitems t) c)
             | (Inr best, c) \<Rightarrow>
                 let tok = pick_token t bm (rd c (bk + 12)) best (mem c);
                     c = wr (out_at t s + 8) (t2 - t1) (wr (out_at t s) tok c);
                     (t3, c) = cycles env c;
                     c = wr (tab + 68) (s + 1) (wr (out_at t s + 4) (t3 - t0) c)
                 in (Inr (tok, b), c))"

text \<open>The steps left, \<open>n\<close>; after generating the stop token none.\<close>
fun rvs_steps :: "'d rvs_env \<Rightarrow> u32 \<Rightarrow> sched_tab \<Rightarrow> nat \<Rightarrow> u32 \<Rightarrow> u32 \<Rightarrow> u32 \<Rightarrow> u32 \<Rightarrow> 'd core \<Rightarrow> u32 \<times> 'd core" where
  "rvs_steps env tab t 0 s pos token cur c = (0, c)"
| "rvs_steps env tab t (Suc n) s pos token cur c =
     (case rvs_step env tab t s pos token cur c of
        (Inl e, c1) \<Rightarrow> (e, c1)
      | (Inr (tok, b), c1) \<Rightarrow> if tok = q_stop t then (0, c1) else rvs_steps env tab t n (s + 1) (pos + 1) tok b c1)"

definition rvs_run :: "'d rvs_env \<Rightarrow> u32 \<Rightarrow> 'd core \<Rightarrow> u32 \<times> 'd core" where
  "rvs_run env tab c =
     (if tw c tab 0 \<noteq> RVS_MAGIC then (RVS_E_MAGIC, wr (tab + 72) RVS_E_MAGIC c)
      else
        let t = read_tab c tab;
            (st, c1) = rvs_steps env tab t (unat (q_steps t)) 0 (q_pos t) (q_token t) 0xFFFFFFFF (wr (tab + 68) 0 c)
        in (st, wr (tab + 72) st c1))"

section \<open>The argmax\<close>

definition magnitude :: "u32 \<Rightarrow> nat" where
  "magnitude f = unat (take_bit 31 f)"

text \<open>The order of the float values (both zeros are 0): sign and magnitude of the bits.\<close>
definition f32_ord :: "u32 \<Rightarrow> int" where
  "f32_ord f = (if bit f 31 then - int (magnitude f) else int (magnitude f))"

lemma top_bit: "bit (0x80000000 :: u32) n \<longleftrightarrow> n = 31"
proof -
  have n: "(0x80000000 :: u32) = push_bit 31 1" by simp
  show ?thesis unfolding n bit_push_bit_iff bit_1_iff by auto
qed

lemma sign_bit: "f AND 0x80000000 \<noteq> 0 \<longleftrightarrow> bit f 31" for f :: u32
proof
  assume "f AND 0x80000000 \<noteq> 0"
  then obtain n where "bit (f AND 0x80000000) n" using bit_eqI [of "f AND 0x80000000" 0] by auto
  then show "bit f 31" unfolding bit_and_iff top_bit by blast
next
  assume "bit f 31"
  then have "bit (f AND 0x80000000) 31" unfolding bit_and_iff top_bit by simp
  then show "f AND 0x80000000 \<noteq> 0" by auto
qed

lemma unat_take_31: "magnitude f = unat f mod 2 ^ 31" for f :: u32
  unfolding magnitude_def take_bit_eq_mod unat_mod by simp

lemma unat_split: "unat f = magnitude f + (if bit f 31 then 2 ^ 31 else 0)" for f :: u32
proof -
  have b: "bit f 31 \<longleftrightarrow> odd (unat f div 2 ^ 31)" unfolding bit_iff_odd [symmetric] by (simp add: bit_unsigned_iff)
  have "unat f < 2 ^ 32" using unsigned_less [of f, where 'a = nat] by simp
  then have "unat f div 2 ^ 31 < 2" by (simp add: less_mult_imp_div_less)
  then have "unat f div 2 ^ 31 = (if bit f 31 then 1 else 0)" unfolding b by (auto simp: less_Suc_eq numeral_2_eq_2)
  then show ?thesis using mult_div_mod_eq [of "2 ^ 31" "unat f"] unfolding unat_take_31 by (auto split: if_splits)
qed

lemma key_value:
  "int (unat (rvs_key f)) = (if bit f 31 then 2 ^ 31 - 1 + f32_ord f else 2 ^ 31 + f32_ord f)"
proof (cases "bit f 31")
  case True
  have "unat (NOT f) = unat (- 1 - f)" by (simp only: not_eq_complement diff_conv_add_uminus add.commute)
  also have "\<dots> = 4294967295 - unat f" by (subst unat_sub) (simp_all add: unsigned_minus_1_eq_mask mask_eq_exp_minus_1)
  finally show ?thesis using True unat_split [of f] unsigned_less [of f, where 'a = nat]
    by (simp add: rvs_key_def sign_bit f32_ord_def)
next
  case False
  have "take_bit 31 (f OR 0x80000000) = take_bit 31 f" "bit (f OR 0x80000000) 31"
    by (intro bit_word_eqI) (auto simp: bit_simps top_bit)
  then show ?thesis using False unat_split [of "f OR 0x80000000"] by (simp add: rvs_key_def sign_bit f32_ord_def magnitude_def)
qed

lemma key_mono: "rvs_key f \<le> rvs_key g \<Longrightarrow> f32_ord f \<le> f32_ord g"
proof -
  assume "rvs_key f \<le> rvs_key g"
  then have "int (unat (rvs_key f)) \<le> int (unat (rvs_key g))" unfolding word_le_nat_alt by (rule of_nat_mono)
  then show ?thesis unfolding key_value  by (simp add: f32_ord_def split: if_splits)
qed

lemma shifted_zero: "push_bit 1 h = 0 \<longleftrightarrow> take_bit 31 h = 0" for h :: u32
proof -
  have "unat (push_bit 1 h) = (2 * unat h) mod (2 * 2 ^ 31)"
    by (simp add: push_bit_eq_mult unat_word_ariths mult.commute)
  also have "\<dots> = 2 * magnitude h" unfolding unat_take_31 by (rule mult_mod_right [symmetric])
  finally show ?thesis by (simp add: word_unat_eq_iff magnitude_def)
qed

lemma same_float: "f = g \<or> push_bit 1 (f OR g) = 0 \<longleftrightarrow> f32_ord f = f32_ord g"
proof -
  have eq: "f = g \<longleftrightarrow> magnitude f = magnitude g \<and> bit f 31 = bit g 31"
    using unat_split [of f] unat_split [of g] unat_take_31 [of f] unat_take_31 [of g]
      mod_less_divisor [of "2 ^ 31" "unat f"] mod_less_divisor [of "2 ^ 31" "unat g"] by (auto simp: word_unat_eq_iff split: if_splits)
  have "take_bit 31 (f OR g) = 0 \<longleftrightarrow> magnitude f = 0 \<and> magnitude g = 0"
    by (simp add: take_bit_or or_eq_0_iff unat_eq_zero magnitude_def)
  then show ?thesis unfolding eq shifted_zero by (auto simp: f32_ord_def)
qed

lemma scan_blocks_max:
  assumes "0 < nblocks"
  shows "\<exists>j < unat nblocks. scan_blocks m bm nblocks = of_nat j
    \<and> (\<forall>i < unat nblocks. rvs_key (m (bm + 4 * of_nat i)) \<le> rvs_key (m (bm + 4 * of_nat j)))
    \<and> (\<forall>i < j. rvs_key (m (bm + 4 * of_nat i)) < rvs_key (m (bm + 4 * of_nat j)))"
proof -
  let ?k = "\<lambda>i. rvs_key (m (bm + 4 * of_nat i))"
  let ?f = "\<lambda>j (bkey, best). let k = ?k j in if k > bkey then (k, of_nat j) else (bkey, best :: u32)"
  have "\<exists>j < n. fold ?f [1..<n] (?k 0, 0) = (?k j, of_nat j) \<and> (\<forall>i < n. ?k i \<le> ?k j) \<and> (\<forall>i < j. ?k i < ?k j)" if "0 < n" for n
    using that
  proof (induction n)
    case (Suc n)
    show ?case
    proof (cases "n = 0")
      case False
      with Suc obtain j where j: "j < n" "fold ?f [1..<n] (?k 0, 0) = (?k j, of_nat j)" "\<forall>i < n. ?k i \<le> ?k j" "\<forall>i < j. ?k i < ?k j"
        by blast
      have f: "fold ?f [1..<Suc n] (?k 0, 0) = ?f n (?k j, of_nat j)" using False j(2) by (simp add: Let_def)
      show ?thesis
      proof (cases "?k n > ?k j")
        case True
        then show ?thesis using j f by (intro exI [of _ n]) (auto simp: less_Suc_eq le_less_trans Let_def)
      next
        case False
        then show ?thesis using j f by (intro exI [of _ j]) (auto simp: less_Suc_eq Let_def)
      qed
    qed simp
  qed simp
  from this [of "unat nblocks"] assms show ?thesis
    by (auto simp: scan_blocks_def word_less_nat_alt)
qed

lemma find_upt:
  "find P [0..<n] = Some i \<longleftrightarrow> i < n \<and> P i \<and> (\<forall>j < i. \<not> P j)"
  by (auto simp: find_Some_iff)

lemma position_found:
  assumes "f32_ord (m (lg + 4 * of_nat i)) = f32_ord mx" and "i < unat block"
  shows "\<exists>p < unat block. position_in m lg block mx = of_nat p \<and> f32_ord (m (lg + 4 * of_nat p)) = f32_ord mx
    \<and> (\<forall>j < p. f32_ord (m (lg + 4 * of_nat j)) \<noteq> f32_ord mx)"
proof -
  let ?P = "\<lambda>i. f32_ord (m (lg + 4 * of_nat i)) = f32_ord mx"
  have "find ?P [0..<unat block] \<noteq> None" using assms by (auto simp: find_None_iff)
  then obtain p where p: "find ?P [0..<unat block] = Some p" by blast
  have "position_in m lg block mx = (case find ?P [0..<unat block] of Some i \<Rightarrow> of_nat i | None \<Rightarrow> 0)"
    unfolding position_in_def Let_def same_float ..
  then have "position_in m lg block mx = of_nat p" unfolding p by simp
  then show ?thesis using p unfolding find_upt by blast
qed

text \<open>
  The word at \<open>bm + 4 j\<close> is the maximum of block \<open>j\<close> of the logits: no logit of the block is larger
  and one has its value.
\<close>
definition block_maxima :: "(u32 \<Rightarrow> u32) \<Rightarrow> u32 \<Rightarrow> u32 \<Rightarrow> u32 \<Rightarrow> u32 \<Rightarrow> bool" where
  "block_maxima m bm logits nblocks block \<longleftrightarrow> (\<forall>j < unat nblocks.
     list_all (\<lambda>i. f32_ord (m (logits + 4 * of_nat (j * unat block + i))) \<le> f32_ord (m (bm + 4 * of_nat j))) [0..<unat block]
     \<and> list_ex (\<lambda>i. f32_ord (m (logits + 4 * of_nat (j * unat block + i))) = f32_ord (m (bm + 4 * of_nat j))) [0..<unat block])"

lemma core_token:
  assumes b: "block_maxima m bm logits (q_nblocks t) (q_block t)" and n: "0 < q_nblocks t"
  defines "v \<equiv> \<lambda>i. f32_ord (m (logits + 4 * of_nat i))" and "N \<equiv> unat (q_nblocks t) * unat (q_block t)"
  shows "\<exists>k < N. pick_token t bm logits (scan_blocks m bm (q_nblocks t)) m = of_nat k \<and> (\<forall>i < N. v i \<le> v k)"
proof -
  let ?B = "unat (q_block t)" and ?M = "\<lambda>j. f32_ord (m (bm + 4 * of_nat j))"
  from scan_blocks_max [OF n, of m bm] obtain j where j: "j < unat (q_nblocks t)" "scan_blocks m bm (q_nblocks t) = of_nat j"
    and mx: "\<forall>i < unat (q_nblocks t). rvs_key (m (bm + 4 * of_nat i)) \<le> rvs_key (m (bm + 4 * of_nat j))" by blast
  from b j(1) obtain i where i: "i < ?B" "v (j * ?B + i) = ?M j"
    by (auto simp: block_maxima_def list_ex_iff v_def)
  have addr: "logits + 4 * q_block t * of_nat j + 4 * of_nat p = logits + 4 * of_nat (j * ?B + p)" for p
    by (simp add: algebra_simps)
  have "f32_ord (m (logits + 4 * q_block t * of_nat j + 4 * of_nat i)) = ?M j" using i(2) unfolding addr v_def .
  from position_found [where m = m and lg = "logits + 4 * q_block t * of_nat j", OF this i(1)] obtain p where p: "p < ?B"
    "position_in m (logits + 4 * q_block t * of_nat j) (q_block t) (m (bm + 4 * of_nat j)) = of_nat p"
    "v (j * ?B + p) = ?M j" unfolding addr v_def by blast
  have k: "j * ?B + p < N"
  proof -
    have "Suc j * ?B \<le> N" unfolding N_def using j(1) by (intro mult_le_mono1) simp
    with p(1) show ?thesis by simp
  qed
  have t: "pick_token t bm logits (scan_blocks m bm (q_nblocks t)) m = of_nat (j * ?B + p)"
    by (simp add: pick_token_def j(2) p(2))
  have "v i \<le> v (j * ?B + p)" if "i < N" for i
  proof -
    have B: "0 < ?B" using p(1) by simp
    have q: "i div ?B < unat (q_nblocks t)" "i mod ?B < ?B" "i div ?B * ?B + i mod ?B = i"
      using that B by (simp_all add: N_def less_mult_imp_div_less)
    with b have "f32_ord (m (logits + 4 * of_nat (i div ?B * ?B + i mod ?B))) \<le> ?M (i div ?B)"
      unfolding block_maxima_def list_all_iff by (metis atLeastLessThan_iff le0 set_upt)
    then have "v i \<le> ?M (i div ?B)" unfolding q(3) v_def .
    also have "\<dots> \<le> ?M j" using mx q(1) by (intro key_mono) blast
    finally show ?thesis using p(3) by simp
  qed
  with k t show ?thesis by blast
qed

section \<open>Patching and the mask\<close>

lemma wr_simps [simp]: "mem (wr a v c) = (mem c)(a := v)" "dev (wr a v c) = dev c" "rd (wr a v c) b = (if b = a then v else rd c b)"
  by (simp_all add: wr_def rd_def)

text \<open>The patch addresses and, in bucket \<open>b\<close>, the values.\<close>
definition patch_addr :: "sched_tab \<Rightarrow> (u32 \<Rightarrow> u32) \<Rightarrow> nat \<Rightarrow> u32" where
  "patch_addr t m i = m (q_words t + 4 * of_nat i)"

definition value_addr :: "sched_tab \<Rightarrow> u32 \<Rightarrow> nat \<Rightarrow> u32" where
  "value_addr t b i = q_values t + 4 * q_nwords t * (b - q_bucket0 t) + 4 * of_nat i"

text \<open>The patched words are distinct and none is a word of the two arrays.\<close>
definition patch_safe :: "sched_tab \<Rightarrow> u32 \<Rightarrow> (u32 \<Rightarrow> u32) \<Rightarrow> bool" where
  "patch_safe t b m \<longleftrightarrow> (let n = unat (q_nwords t) in
     distinct (map (patch_addr t m) [0..<n])
     \<and> (\<forall>i < n. \<forall>j < n. patch_addr t m i \<noteq> q_words t + 4 * of_nat j \<and> patch_addr t m i \<noteq> value_addr t b j))"

lemma patch_loop:
  assumes "patch_safe t b (mem c)" and "k \<le> unat (q_nwords t)"
  defines "c' \<equiv> fold (\<lambda>i c. wr (rd c (q_words t + 4 * of_nat i)) (rd c (value_addr t b i)) c) [0..<k] c"
  shows "(\<forall>i < k. mem c' (patch_addr t (mem c) i) = mem c (value_addr t b i))
    \<and> (\<forall>a. a \<notin> patch_addr t (mem c) ` {..<k} \<longrightarrow> mem c' a = mem c a) \<and> dev c' = dev c"
  using assms(2) unfolding c'_def
proof (induction k)
  case (Suc k)
  let ?c = "fold (\<lambda>i c. wr (rd c (q_words t + 4 * of_nat i)) (rd c (value_addr t b i)) c) [0..<k] c"
  from Suc have IH: "\<forall>i < k. mem ?c (patch_addr t (mem c) i) = mem c (value_addr t b i)"
    "\<And>a. a \<notin> patch_addr t (mem c) ` {..<k} \<Longrightarrow> mem ?c a = mem c a" "dev ?c = dev c" by auto
  have k: "k < unat (q_nwords t)" using Suc by simp
  have far: "patch_addr t (mem c) i \<noteq> q_words t + 4 * of_nat k" "patch_addr t (mem c) i \<noteq> value_addr t b k" if "i < k" for i
    using conjunct2 [OF assms(1) [unfolded patch_safe_def Let_def], rule_format, of i k] that k by simp_all
  have out: "q_words t + 4 * of_nat k \<notin> patch_addr t (mem c) ` {..<k}" "value_addr t b k \<notin> patch_addr t (mem c) ` {..<k}"
    using far [THEN not_sym] by (auto simp: image_iff)
  have ne: "patch_addr t (mem c) i \<noteq> patch_addr t (mem c) k" if "i < k" for i
    using assms(1) that k by (auto simp: patch_safe_def Let_def distinct_conv_nth)
  have s: "fold (\<lambda>i c. wr (rd c (q_words t + 4 * of_nat i)) (rd c (value_addr t b i)) c) [0..<Suc k] c
     = wr (patch_addr t (mem c) k) (mem c (value_addr t b k)) ?c"
    using IH(2) [OF out(1)] IH(2) [OF out(2)] by (simp add: rd_def patch_addr_def)
  show ?case unfolding s using IH ne by (auto simp: less_Suc_eq lessThan_Suc)
qed simp

lemma patch_words_effect:
  assumes "patch_safe t b (mem c)"
  shows "i < unat (q_nwords t) \<Longrightarrow> mem (patch_words t b c) (patch_addr t (mem c) i) = mem c (value_addr t b i)"
    and "a \<notin> patch_addr t (mem c) ` {..<unat (q_nwords t)} \<Longrightarrow> mem (patch_words t b c) a = mem c a"
  using patch_loop [OF assms order.refl] by (simp_all add: patch_words_def value_addr_def)

lemma word_index_inj: "4 * of_nat i = (4 * of_nat j :: u32) \<Longrightarrow> i < 2 ^ 30 \<Longrightarrow> j < 2 ^ 30 \<Longrightarrow> i = j"
proof -
  assume e: "4 * of_nat i = (4 * of_nat j :: u32)" and l: "i < 2 ^ 30" "j < 2 ^ 30"
  have "unat (4 * of_nat k :: u32) = 4 * k" if "k < 2 ^ 30" for k
    using that by (simp add: unat_word_ariths unsigned_of_nat take_bit_nat_eq_self)
  with e l show "i = j" by (metis mult_left_cancel zero_neq_numeral)
qed

text \<open>The mask of a bucket: ones up to the position, zeros after it.\<close>
definition mask_is :: "u32 \<Rightarrow> nat \<Rightarrow> u32 \<Rightarrow> (u32 \<Rightarrow> u32) \<Rightarrow> bool" where
  "mask_is valid vlen pos m \<longleftrightarrow> (\<forall>i < vlen. m (valid + 4 * of_nat i) = (if i \<le> unat pos then RVS_F32_ONE else 0))"

lemma fill_mask_is:
  assumes "unat vlen < 2 ^ 30"
  shows "mask_is valid (unat vlen) pos (mem (fill_mask valid vlen pos c))"
proof -
  let ?f = "\<lambda>i c. wr (valid + 4 * of_nat i) (if of_nat i \<le> pos then RVS_F32_ONE else 0) c"
  have "mask_is valid k pos (mem (fold ?f [0..<k] c))" if "k \<le> unat vlen" for k
    using that
  proof (induction k)
    case (Suc k)
    have u: "of_nat k \<le> pos \<longleftrightarrow> k \<le> unat pos"
      using Suc.prems assms by (simp add: word_le_nat_alt unsigned_of_nat take_bit_nat_eq_self)
    have "valid + 4 * of_nat i \<noteq> valid + 4 * of_nat k" if "i < k" for i
      using word_index_inj [of i k] that Suc.prems assms by auto
    with Suc show ?case by (auto simp: mask_is_def less_Suc_eq u)
  qed (simp add: mask_is_def)
  then show ?thesis by (simp add: fill_mask_def)
qed

lemma mask_step:
  assumes "mask_is valid vlen pos m" and "vlen < 2 ^ 30" and "pos + 1 \<noteq> 0" and "unat (pos + 1) < vlen"
  shows "mask_is valid vlen (pos + 1) (m(valid + 4 * (pos + 1) := RVS_F32_ONE))"
proof -
  have u: "unat (pos + 1) = unat pos + 1" using assms(3) unatSuc [of pos] by (simp add: add.commute)
  have p: "pos + 1 = of_nat (unat pos + 1)" by simp
  have "valid + 4 * of_nat i = valid + 4 * (pos + 1) \<longleftrightarrow> i = unat pos + 1" if "i < vlen" for i
  proof
    assume "valid + 4 * of_nat i = valid + 4 * (pos + 1)"
    then have "4 * of_nat i = (4 * of_nat (unat pos + 1) :: u32)" unfolding p by (simp only: add_left_cancel)
    then show "i = unat pos + 1" by (rule word_index_inj) (use that assms(2,4) u in simp_all)
  qed (simp add: p)
  then show ?thesis using assms(1) by (auto simp: mask_is_def u)
qed

section \<open>Properties\<close>

text \<open>
  C30. The token of a step is an argmax of the logits: when the device left the maximum of every
  block, the block the core picks and the position in it name a logit no smaller than any other
  (as floats).
\<close>
theorem token_is_argmax:
  assumes "block_maxima (mem c) bm logits (q_nblocks t) (q_block t)" and "0 < q_nblocks t" and "q_argmax t = 0"
    and "pick_block env t bm c = (Inr best, c')"
  shows "\<exists>k < unat (q_nblocks t) * unat (q_block t). pick_token t bm logits best (mem c') = of_nat k
    \<and> (\<forall>i < unat (q_nblocks t) * unat (q_block t).
          f32_ord (mem c (logits + 4 * of_nat i)) \<le> f32_ord (mem c (logits + 4 * of_nat k)))"
  using core_token [OF assms(1,2)] assms(3,4) by (auto simp: pick_block_def)

definition sample_tab :: sched_tab where
  "sample_tab = \<lparr>q_nitems = 1, q_items = 0x100, q_nwords = 1, q_words = 0x200, q_pad = 4, q_bucket0 = 0, q_nbuckets = 2,
     q_buckets = 0x300, q_values = 0x400, q_nblocks = 2, q_block = 2, q_pos = 0, q_steps = 1, q_token = 0, q_stop = 0xFFFFFFFF,
     q_out = 0x500, q_argmax = 0, q_argmax_args = 0\<rparr>"

text \<open>Four logits (-2, 1, 3, -1 in binary32) at 0x1000 and the maxima of their two blocks at 0x2000.\<close>
definition sample_logits :: "u32 \<Rightarrow> u32" where
  "sample_logits a = (if a = 0x1000 then 0xC0000000 else if a = 0x1004 then 0x3F800000 else if a = 0x1008 then 0x40400000
     else if a = 0x100C then 0xBF800000 else if a = 0x2000 then 0x3F800000 else if a = 0x2004 then 0x40400000 else 0)"

lemma sample_values:
  "sample_logits 0x1000 = 0xC0000000" "sample_logits 0x1004 = 0x3F800000" "sample_logits 0x1008 = 0x40400000"
  "sample_logits 0x100C = 0xBF800000" "sample_logits 0x2000 = 0x3F800000" "sample_logits 0x2004 = 0x40400000"
  by (simp_all add: sample_logits_def)

lemma sample_ords:
  "f32_ord 0xC0000000 = - 1073741824" "f32_ord 0x3F800000 = 1065353216" "f32_ord 0x40400000 = 1077936128"
  "f32_ord 0xBF800000 = - 1065353216"
  by (simp_all add: f32_ord_def sign_bit [symmetric] unat_take_31)

theorem token_is_argmax_witness:
  "\<exists>k < 4. pick_token sample_tab 0x2000 0x1000 1 sample_logits = of_nat k
     \<and> list_all (\<lambda>i. f32_ord (sample_logits (0x1000 + 4 * of_nat i)) \<le> f32_ord (sample_logits (0x1000 + 4 * of_nat k))) [0..<4]"
proof -
  let ?c = "\<lparr>mem = sample_logits, dev = ()\<rparr>"
  have t: "q_nblocks sample_tab = 2" "q_block sample_tab = 2" "q_argmax sample_tab = 0" by (simp_all add: sample_tab_def)
  have u: "[0..<2] = [0, 1 :: nat]" "[1..<2] = [1 :: nat]" and l: "j < 2 \<longleftrightarrow> j = 0 \<or> j = 1" for j :: nat by (auto simp: upt_rec)
  have b: "block_maxima (mem ?c) 0x2000 0x1000 (q_nblocks sample_tab) (q_block sample_tab)"
    unfolding block_maxima_def t by (auto simp: u l sample_values sample_ords)
  have p: "pick_block undefined sample_tab 0x2000 ?c = (Inr 1, ?c)"
    unfolding pick_block_def scan_blocks_def t using u(2) by (simp add: sample_values rvs_key_def)
  have N: "unat (2 :: u32) * unat (2 :: u32) = 4" by simp
  from token_is_argmax [OF b _ t(3) p] show ?thesis
    unfolding t N by (simp add: list_all_iff Ball_def)
qed




end
