(* ===== verification/RvSched.thy ===== *)
theory RvSched
  imports RvCore SaContext
begin

text \<open>
  The step table of the decode loop (\<^verbatim>\<open>compiler/runtime/sa/sa_rvsched.c\<close>): recording a step per
  bucket, sizing the table in the first pass, writing it in the second, checking later steps against
  it, running it. Sizes and offsets in the table are 32-bit in the source and natural numbers here,
  which is the same for a table below 4 GB. Host pointers into the window are physical addresses
  here; the arena's allocations and the R5 kernel's files are parameters.
\<close>

section \<open>State\<close>

text \<open>\<^verbatim>\<open>sa_rvsched_io_t\<close>\<close>
record rvs_io =
  io_token :: u32
  io_pos :: u32
  io_valid :: u32
  io_logits :: u32
  io_bmax :: u32
  io_vocab :: u32
  io_nblocks :: u32

text \<open>The R5 kernel as loaded: its bytes, block count, and the addresses of its code and arguments.\<close>
record r5_kernel =
  r5_bytes :: u32
  r5_n :: u32
  r5_phys :: u32
  r5_args_phys :: u32

record table_layout =
  y_cap :: nat
  y_copy :: "nat list"
  y_items :: nat
  y_words :: nat
  y_buckets :: nat
  y_values :: nat
  y_out :: nat
  y_bytes :: nat

text \<open>\<^verbatim>\<open>sa_rvsched_t\<close>; a bucket has a recording or not (\<^verbatim>\<open>have\<close>).\<close>
record rvsched =
  v_pad :: u32
  v_b0 :: u32
  v_nb :: u32
  v_max_steps :: u32
  v_nblocks :: u32
  v_block :: u32
  v_pass :: nat
  v_buckets :: "(record_item list \<times> rvs_io) option list"
  v_rec :: recorder
  v_shape :: "(u32 \<times> nat) list"   \<comment> \<open>\<^verbatim>\<open>item_code\<close>, \<^verbatim>\<open>item_words\<close>\<close>
  v_lay :: table_layout
  v_table_phys :: u32
  v_nwords :: nat
  v_last_pos :: u32
  v_r5 :: "r5_kernel option"

definition zero_recorder :: recorder where
  "zero_recorder = \<lparr>dry = False, rec_cap = 0, rec_items = [], rec_dropped = 0\<rparr>"

definition zero_layout :: table_layout where
  "zero_layout = \<lparr>y_cap = 0, y_copy = [], y_items = 0, y_words = 0, y_buckets = 0, y_values = 0, y_out = 0, y_bytes = 0\<rparr>"

definition sa_rvs_clear :: "rvsched \<Rightarrow> rvsched" where
  "sa_rvs_clear s = s\<lparr>v_buckets := replicate (unat (v_nb s)) None\<rparr>"

text \<open>\<open>can_run\<close>: the transport has \<^verbatim>\<open>run_sched\<close>; \<open>m1\<close>, \<open>m2\<close>: the two allocations succeed.\<close>
definition sa_rvsched_create :: "bool \<Rightarrow> bool \<Rightarrow> bool \<Rightarrow> u32 \<Rightarrow> u32 \<Rightarrow> u32 \<Rightarrow> u32 \<Rightarrow> status + rvsched" where
  "sa_rvsched_create can_run m1 m2 pad b0 nb max_steps =
     (if \<not> can_run then Inl UNIMPLEMENTED
      else if pad = 0 \<or> nb = 0 \<or> max_steps = 0 then Inl INVALID_ARGUMENT
      else if \<not> m1 \<or> \<not> m2 then Inl RESOURCE_EXHAUSTED
      else Inr \<lparr>v_pad = pad, v_b0 = b0, v_nb = nb, v_max_steps = max_steps, v_nblocks = 0, v_block = 0, v_pass = 1,
        v_buckets = replicate (unat nb) None, v_rec = zero_recorder, v_shape = [], v_lay = zero_layout, v_table_phys = 0,
        v_nwords = 0, v_last_pos = 0, v_r5 = None\<rparr>)"

section \<open>Recording\<close>

text \<open>From \<^verbatim>\<open>begin\<close> to \<^verbatim>\<open>end\<close> the context records into the schedule's recorder.\<close>
definition sa_rvsched_record_begin :: "rvsched \<Rightarrow> 'dev sa_context \<Rightarrow> rvsched \<times> 'dev sa_context" where
  "sa_rvsched_record_begin s c =
     (let r = (sa_record_free (v_rec s))\<lparr>dry := True\<rparr> in (s\<lparr>v_rec := r\<rparr>, c\<lparr>recording := Some r\<rparr>))"

definition sa_rvsched_record_end ::
  "rvsched \<Rightarrow> 'dev sa_context \<Rightarrow> u32 \<Rightarrow> rvs_io \<Rightarrow> rvsched \<times> 'dev sa_context \<times> (status + unit)" where
  "sa_rvsched_record_end s c bucket io =
     (let r = (case recording c of Some r \<Rightarrow> r | None \<Rightarrow> v_rec s);
          s = s\<lparr>v_rec := r\<rparr>; c = c\<lparr>recording := None\<rparr>; k = unat (bucket - v_b0 s) in
      if bucket < v_b0 s \<or> bucket - v_b0 s \<ge> v_nb s then (s, c, Inl OUT_OF_RANGE)
      else if rec_dropped r \<noteq> 0 \<or> rec_items r = [] then (s, c, Inl RESOURCE_EXHAUSTED)
      else if v_pass s = 3 then
        (s\<lparr>v_rec := sa_record_free r\<rparr>, c,
         if v_buckets s ! k = Some (rec_items r, io) then Inr () else Inl FAILED_PRECONDITION)
      else (s\<lparr>v_buckets := (v_buckets s)[k := Some (rec_items r, io)], v_rec := zero_recorder\<rparr>, c, Inr ()))"

section \<open>The words that differ\<close>

definition item_shape :: "record_item \<Rightarrow> u32 \<times> nat" where
  "item_shape x = (code_phys x, length (words x))"

text \<open>The recordings of all buckets, of the shape of bucket 0's, \<open>r0\<close>.\<close>
fun same_shape :: "record_item list \<Rightarrow> (record_item list \<times> rvs_io) option list \<Rightarrow> status + record_item list list" where
  "same_shape r0 [] = Inr []"
| "same_shape r0 (None # bs) = Inl FAILED_PRECONDITION"
| "same_shape r0 (Some (r, io) # bs) =
     (if length r \<noteq> length r0 then Inl UNIMPLEMENTED
      else if map item_shape r \<noteq> map item_shape r0 then Inl UNIMPLEMENTED
      else bind_st (same_shape r0 bs) (\<lambda>rs. Inr (r # rs)))"

definition word_of :: "record_item list \<Rightarrow> nat \<times> nat \<Rightarrow> u32" where
  "word_of r p = words (r ! fst p) ! snd p"

definition differing :: "record_item list list \<Rightarrow> (nat \<times> nat) list" where
  "differing rs = (let r0 = rs ! 0 in
     concat (map (\<lambda>i. filter (\<lambda>p. list_ex (\<lambda>r. word_of r p \<noteq> word_of r0 p) (tl rs))
       (map (Pair i) [0..<length (words (r0 ! i))])) [0..<length r0]))"

definition bucket_rec :: "(record_item list \<times> rvs_io) option \<Rightarrow> record_item list" where
  "bucket_rec b = (case b of Some (r, _) \<Rightarrow> r | None \<Rightarrow> [])"

definition sa_rvs_diff :: "rvsched \<Rightarrow> status + record_item list list \<times> (nat \<times> nat) list" where
  "sa_rvs_diff s = bind_st (same_shape (bucket_rec (v_buckets s ! 0)) (v_buckets s)) (\<lambda>rs. Inr (rs, differing rs))"

section \<open>The table\<close>

definition align64 :: "nat \<Rightarrow> nat" where
  "align64 x = (x + 63) div 64 * 64"

text \<open>The offsets of the items' copies from \<open>o'\<close> on, and the first free offset.\<close>
fun copy_offsets :: "nat \<Rightarrow> nat list \<Rightarrow> nat list \<times> nat" where
  "copy_offsets o' [] = ([], o')"
| "copy_offsets o' (n # ns) = (let (os, e) = copy_offsets (align64 (o' + 4 * n)) ns in (o' # os, e))"

definition make_layout :: "nat list \<Rightarrow> nat \<Rightarrow> nat \<Rightarrow> nat \<Rightarrow> table_layout" where
  "make_layout ns n nb steps =
     (let cap = n + n div 4 + 64; (os, items) = copy_offsets (align64 (24 * 4)) ns;
          ws = align64 (items + 8 * length ns); bs = align64 (ws + 4 * cap); vs = align64 (bs + 4 * 8 * nb);
          out = align64 (vs + 4 * cap * nb)
      in \<lparr>y_cap = cap, y_copy = os, y_items = items, y_words = ws, y_buckets = bs, y_values = vs, y_out = out,
          y_bytes = align64 (out + 4 * 4 * steps)\<rparr>)"

definition put_words :: "u32 \<Rightarrow> nat \<times> u32 list \<Rightarrow> (u32 \<Rightarrow> u32) \<Rightarrow> u32 \<Rightarrow> u32" where
  "put_words P seg m = fold (\<lambda>(i, w) m. m(P + of_nat (fst seg + 4 * i) := w)) (enumerate 0 (snd seg)) m"

text \<open>The header, an item's copy and its table entry, a bucket's words and values, as written at an offset.\<close>
definition header_words :: "rvsched \<Rightarrow> nat \<Rightarrow> u32 list" where
  "header_words s n = (let P = v_table_phys s; y = v_lay s in
     [RVS_MAGIC, of_nat (length (v_shape s)), P + of_nat (y_items y), of_nat n, P + of_nat (y_words y), v_pad s, v_b0 s, v_nb s,
      P + of_nat (y_buckets y), P + of_nat (y_values y), v_nblocks s, v_block s, 0, 0, 0, 0, P + of_nat (y_out y), 0, 0, 0, 0, 0, 0, 0])"

definition item_segs :: "rvsched \<Rightarrow> record_item list \<Rightarrow> nat \<Rightarrow> (nat \<times> u32 list) list" where
  "item_segs s r0 i = (let y = v_lay s in
     [(y_copy y ! i, words (r0 ! i)), (y_items y + 8 * i, [v_table_phys s + of_nat (y_copy y ! i), fst (v_shape s ! i)])])"

definition word_addr :: "rvsched \<Rightarrow> nat \<times> nat \<Rightarrow> u32" where
  "word_addr s p = v_table_phys s + of_nat (y_copy (v_lay s) ! fst p) + 4 * of_nat (snd p)"

definition io_words :: "rvs_io \<Rightarrow> u32 list" where
  "io_words io = [io_token io, io_pos io, io_valid io, io_logits io, io_bmax io, 0, 0, 0]"

definition bucket_segs :: "rvsched \<Rightarrow> (nat \<times> nat) list \<Rightarrow> record_item list list \<Rightarrow> rvs_io list \<Rightarrow> nat \<Rightarrow> (nat \<times> u32 list) list" where
  "bucket_segs s idx rs ios b = (let y = v_lay s in
     [(y_buckets y + 32 * b, io_words (ios ! b)), (y_values y + 4 * length idx * b, map (word_of (rs ! b)) idx)])"

definition table_segs :: "rvsched \<Rightarrow> (nat \<times> nat) list \<Rightarrow> record_item list list \<Rightarrow> rvs_io list \<Rightarrow> (nat \<times> u32 list) list" where
  "table_segs s idx rs ios =
     (0, header_words s (length idx)) # concat (map (item_segs s (rs ! 0)) [0..<length (v_shape s)])
     @ [(y_words (v_lay s), map (word_addr s) idx)] @ concat (map (bucket_segs s idx rs ios) [0..<unat (v_nb s)])"

definition write_table :: "u32 \<Rightarrow> (nat \<times> u32 list) list \<Rightarrow> (u32 \<Rightarrow> u32) \<Rightarrow> u32 \<Rightarrow> u32" where
  "write_table P segs m = fold (put_words P) segs m"

section \<open>Passes\<close>

text \<open>
  The first pass; \<open>calloc_ok\<close>: the three arrays, \<open>place\<close>: the physical address of the aligned table,
  \<open>r5\<close>: the outcome of loading the kernel of \<^verbatim>\<open>SA_R5\<close>, when it is set.
\<close>
definition end_pass_one :: "bool \<Rightarrow> (nat \<Rightarrow> status + u32) \<Rightarrow> (status + r5_kernel) option \<Rightarrow> rvsched \<Rightarrow> rvsched \<times> (status + unit)" where
  "end_pass_one calloc_ok place r5 s =
     (case sa_rvs_diff s of
        Inl e \<Rightarrow> (s, Inl e)
      | Inr (rs, idx) \<Rightarrow>
          if \<not> calloc_ok then (s, Inl RESOURCE_EXHAUSTED)
          else
            let r0 = rs ! 0;
                y = make_layout (map (length \<circ> words) r0) (length idx) (unat (v_nb s)) (unat (v_max_steps s));
                s1 = s\<lparr>v_shape := map item_shape r0, v_lay := y\<rparr>
            in case place (y_bytes y + 64) of
                 Inl e \<Rightarrow> (s1, Inl e)
               | Inr P \<Rightarrow>
                   (case r5 of
                      Some (Inl e) \<Rightarrow> (s1\<lparr>v_table_phys := P\<rparr>, Inl e)
                    | Some (Inr k) \<Rightarrow> (sa_rvs_clear (s1\<lparr>v_table_phys := P, v_r5 := Some k, v_pass := 2\<rparr>), Inr ())
                    | None \<Rightarrow> (sa_rvs_clear (s1\<lparr>v_table_phys := P, v_pass := 2\<rparr>), Inr ())))"

definition r5_words :: "rvsched \<Rightarrow> (u32 \<Rightarrow> u32) \<Rightarrow> status + (u32 \<Rightarrow> u32)" where
  "r5_words s m =
     (case v_r5 s of
        None \<Rightarrow> Inr m
      | Some k \<Rightarrow>
          if r5_bytes k = 0 then Inr m
          else if r5_n k \<noteq> v_nblocks s then Inl INVALID_ARGUMENT
          else Inr (put_words (v_table_phys s) (76, [r5_phys k, r5_args_phys k]) m))"

definition bucket_io :: "(record_item list \<times> rvs_io) option \<Rightarrow> rvs_io" where
  "bucket_io b = snd (the b)"

text \<open>The logits of all buckets have one shape, of whole blocks.\<close>
definition check_ios :: "rvs_io list \<Rightarrow> status + unit" where
  "check_ios ios = (let io0 = ios ! 0 in
     if list_ex (\<lambda>io. io_vocab io \<noteq> io_vocab io0 \<or> io_nblocks io \<noteq> io_nblocks io0) (tl ios) then Inl FAILED_PRECONDITION
     else if io_nblocks io0 = 0 \<or> io_vocab io0 mod io_nblocks io0 \<noteq> 0 then Inl INVALID_ARGUMENT
     else Inr ())"

text \<open>The second pass writes the table into memory \<open>m\<close>; \<open>malloc_ok\<close>: the index array.\<close>
definition end_pass_two :: "bool \<Rightarrow> rvsched \<Rightarrow> (u32 \<Rightarrow> u32) \<Rightarrow> rvsched \<times> (u32 \<Rightarrow> u32) \<times> (status + unit)" where
  "end_pass_two malloc_ok s m =
     (let r0 = bucket_rec (v_buckets s ! 0) in
      if map item_shape r0 \<noteq> v_shape s then (s, m, Inl FAILED_PRECONDITION)
      else if \<not> malloc_ok then (s, m, Inl RESOURCE_EXHAUSTED)
      else case sa_rvs_diff s of
        Inl e \<Rightarrow> (s, m, Inl e)
      | Inr (rs, idx) \<Rightarrow>
          if length idx > y_cap (v_lay s) then (s, m, Inl RESOURCE_EXHAUSTED)
          else
            let ios = map bucket_io (v_buckets s); io0 = ios ! 0 in
            case check_ios ios of
              Inl e \<Rightarrow> (s, m, Inl e)
            | Inr _ \<Rightarrow>
                let s1 = s\<lparr>v_nblocks := io_nblocks io0, v_block := io_vocab io0 div io_nblocks io0, v_nwords := length idx\<rparr>;
                    m1 = write_table (v_table_phys s) (table_segs s1 idx rs ios) m
                in case r5_words s1 m1 of
                     Inl e \<Rightarrow> (s1, m1, Inl e)
                   | Inr m2 \<Rightarrow> (s1\<lparr>v_pass := 3\<rparr>, m2, Inr ()))"

definition sa_rvsched_end_pass ::
  "bool \<Rightarrow> (nat \<Rightarrow> status + u32) \<Rightarrow> (status + r5_kernel) option \<Rightarrow> rvsched \<Rightarrow> (u32 \<Rightarrow> u32) \<Rightarrow> rvsched \<times> (u32 \<Rightarrow> u32) \<times> (status + unit)" where
  "sa_rvsched_end_pass alloc_ok place r5 s m =
     (if v_pass s = 1 then (case end_pass_one alloc_ok place r5 s of (s', st) \<Rightarrow> (s', m, st))
      else if v_pass s \<noteq> 2 then (s, m, Inl FAILED_PRECONDITION)
      else end_pass_two alloc_ok s m)"

section \<open>Running and queries\<close>

text \<open>
  \<^verbatim>\<open>sa_rvsched_run\<close> with the transport's \<^verbatim>\<open>run_sched\<close> (\<open>sched\<close>): tokens, cycles and device cycles of the
  steps done.
\<close>
definition sa_rvsched_run ::
  "(u32 \<Rightarrow> 'd core \<Rightarrow> u32 \<times> 'd core \<times> (status + unit)) \<Rightarrow> rvsched \<Rightarrow> u32 \<Rightarrow> u32 \<Rightarrow> u32 \<Rightarrow> u32 \<Rightarrow> 'd core
     \<Rightarrow> rvsched \<times> 'd core \<times> (u32 \<times> u32 \<times> u32) list \<times> (status + unit)" where
  "sa_rvsched_run sched s pos steps token stop c =
     (if v_pass s \<noteq> 3 then (s, c, [], Inl FAILED_PRECONDITION)
      else
        let P = v_table_phys s; out = P + of_nat (y_out (v_lay s)); n = (if steps > v_max_steps s then v_max_steps s else steps);
            c1 = wr (P + 72) 0 (wr (P + 68) 0 (wr (P + 60) (if sint stop < 0 then 0xFFFFFFFF else stop)
                   (wr (P + 56) token (wr (P + 52) n (wr (P + 48) pos c)))));
            (st, c2, status) = sched P c1;
            k = (if rd c2 (P + 68) > n then n else rd c2 (P + 68));
            outs = map (\<lambda>i. (rd c2 (out + 16 * of_nat i), rd c2 (out + 16 * of_nat i + 4), rd c2 (out + 16 * of_nat i + 8))) [0..<unat k]
        in (if k \<noteq> 0 then s\<lparr>v_last_pos := pos + k - 1\<rparr> else s, c2, outs,
            case status of Inl e \<Rightarrow> Inl e | Inr _ \<Rightarrow> if st \<noteq> 0 then Inl INTERNAL else Inr ()))"

record rvs_info =
  n_lists :: nat
  n_descriptors :: nat
  n_calls :: nat
  n_words :: nat
  n_table_bytes :: nat
  n_table_phys :: u32
  n_r5_bytes :: u32

definition sa_rvsched_info :: "rvsched \<Rightarrow> rvs_info" where
  "sa_rvsched_info s = (let ls = filter (\<lambda>x. fst x = 0) (v_shape s) in
     \<lparr>n_lists = length ls, n_descriptors = (\<Sum>x \<leftarrow> ls. snd x div 16), n_calls = length (filter (\<lambda>x. fst x \<noteq> 0) (v_shape s)),
      n_words = v_nwords s, n_table_bytes = y_bytes (v_lay s), n_table_phys = v_table_phys s,
      n_r5_bytes = (case v_r5 s of None \<Rightarrow> 0 | Some k \<Rightarrow> r5_bytes k)\<rparr>)"

text \<open>The address of the logits of the bucket that holds \<open>pos\<close>.\<close>
definition sa_rvsched_logits :: "rvsched \<Rightarrow> u32 \<Rightarrow> (u32 \<Rightarrow> u32) \<Rightarrow> u32 option" where
  "sa_rvsched_logits s pos m =
     (let b = pos div v_pad s in
      if b < v_b0 s \<or> b - v_b0 s \<ge> v_nb s \<or> v_pass s \<noteq> 3 then None
      else Some (m (v_table_phys s + of_nat (y_buckets (v_lay s)) + 32 * (b - v_b0 s) + 12)))"

text \<open>Destroying a schedule stops a recording that is its own (\<open>own\<close>).\<close>
definition sa_rvsched_destroy :: "bool \<Rightarrow> 'dev sa_context \<Rightarrow> 'dev sa_context" where
  "sa_rvsched_destroy own c = (if own then c\<lparr>recording := None\<rparr> else c)"

section \<open>Reachable schedules\<close>

text \<open>The states a schedule goes through, whatever the context recorded and the device did (both of one type).\<close>
inductive rvs_state :: "rvsched \<Rightarrow> bool" where
  created: "sa_rvsched_create can_run m1 m2 pad b0 nb steps = Inr s \<Longrightarrow> rvs_state s"
| begun: "rvs_state s \<Longrightarrow> rvs_state (fst (sa_rvsched_record_begin s (c :: unit sa_context)))"
| ended: "rvs_state s \<Longrightarrow> rvs_state (fst (sa_rvsched_record_end s (c :: unit sa_context) bucket io))"
| passed: "rvs_state s \<Longrightarrow> rvs_state (fst (sa_rvsched_end_pass ok place r5 s m))"
| ran: "rvs_state s \<Longrightarrow> rvs_state (fst (sa_rvsched_run sched s pos steps token stop (d :: unit core)))"

text \<open>The layout is the one computed for the items' sizes and some number of patched words.\<close>
definition sized :: "rvsched \<Rightarrow> bool" where
  "sized s \<longleftrightarrow> (\<exists>n. v_lay s = make_layout (map snd (v_shape s)) n (unat (v_nb s)) (unat (v_max_steps s)))"

definition rvs_inv :: "rvsched \<Rightarrow> bool" where
  "rvs_inv s \<longleftrightarrow> length (v_buckets s) = unat (v_nb s) \<and> v_nb s \<noteq> 0 \<and> v_pad s \<noteq> 0
     \<and> (v_pass s = 1 \<or> (v_pass s = 2 \<or> v_pass s = 3) \<and> sized s)"

lemma same_shape_ret:
  "same_shape r0 bs = Inr rs \<Longrightarrow> length rs = length bs
     \<and> (\<forall>b < length bs. map item_shape (rs ! b) = map item_shape r0 \<and> bs ! b = Some (rs ! b, bucket_io (bs ! b)))"
proof (induction r0 bs arbitrary: rs rule: same_shape.induct)
  case (3 r0 r io bs)
  from 3(2) obtain qs where q: "same_shape r0 bs = Inr qs" "rs = r # qs" and s: "length r = length r0" "map item_shape r = map item_shape r0"
    by (auto simp: bind_st_Inr_iff split: if_splits)
  from 3(1) [OF _ _ q(1)] s show ?case by (auto simp: q(2) nth_Cons bucket_io_def split: nat.splits)
qed simp_all

lemma diff_ret:
  assumes "sa_rvs_diff s = Inr (rs, idx)" and "v_buckets s \<noteq> []"
  shows "idx = differing rs" "length rs = length (v_buckets s)" "rs ! 0 = bucket_rec (v_buckets s ! 0)"
    "\<And>b. b < length rs \<Longrightarrow> map item_shape (rs ! b) = map item_shape (rs ! 0) \<and> v_buckets s ! b = Some (rs ! b, bucket_io (v_buckets s ! b))"
proof -
  from assms(1) have r: "same_shape (bucket_rec (v_buckets s ! 0)) (v_buckets s) = Inr rs" and i: "idx = differing rs"
    by (auto simp: sa_rvs_diff_def bind_st_Inr_iff)
  note q = same_shape_ret [OF r]
  show i': "idx = differing rs" by (rule i)
  show l: "length rs = length (v_buckets s)" using q by simp
  have "v_buckets s ! 0 = Some (rs ! 0, bucket_io (v_buckets s ! 0))" using q assms(2) by simp
  then show z: "rs ! 0 = bucket_rec (v_buckets s ! 0)" unfolding bucket_rec_def by (metis case_prod_conv option.simps(5))
  show "\<And>b. b < length rs \<Longrightarrow> map item_shape (rs ! b) = map item_shape (rs ! 0) \<and> v_buckets s ! b = Some (rs ! b, bucket_io (v_buckets s ! b))"
    using q unfolding l z by blast
qed

lemma rvs_inv_last [simp]: "rvs_inv (if b then s\<lparr>v_last_pos := p\<rparr> else s) = rvs_inv s"
  by (simp add: rvs_inv_def sized_def)

lemma rvs_reachable_inv: "rvs_state s \<Longrightarrow> rvs_inv s"
proof (induction rule: rvs_state.induct)
  case (created can_run m1 m2 pad b0 nb steps s)
  then show ?case by (auto simp: sa_rvsched_create_def rvs_inv_def split: if_splits)
next
  case (begun s c)
  then show ?case by (simp add: sa_rvsched_record_begin_def rvs_inv_def sized_def Let_def)
next
  case (ended s c bucket io)
  then show ?case by (auto simp: sa_rvsched_record_end_def rvs_inv_def sized_def Let_def)
next
  case (passed s ok place r5 m)
  have lens: "map (length \<circ> words) r = map snd (map item_shape r)" for r by (simp add: item_shape_def)
  have one: "rvs_inv (fst (end_pass_one ok place r5 s))" if "v_pass s = 1"
    using passed(2) that unfolding end_pass_one_def lens
    by (auto simp: rvs_inv_def sized_def Let_def sa_rvs_clear_def split: sum.splits option.splits prod.splits)
  have two: "rvs_inv (fst (end_pass_two ok s m))" if "v_pass s = 2"
    using passed(2) that by (auto simp: end_pass_two_def rvs_inv_def sized_def Let_def split: sum.splits prod.splits)
  show ?case
  proof (cases "v_pass s = 1 \<or> v_pass s = 2")
    case True
    then show ?thesis using one two by (elim disjE) (simp_all add: sa_rvsched_end_pass_def split_def)
  next
    case False
    then show ?thesis using passed(2) by (simp add: sa_rvsched_end_pass_def)
  qed
next
  case (ran s sched pos steps token stop d)
  then show ?case unfolding sa_rvsched_run_def Let_def split_def by simp
qed

section \<open>The patched words\<close>

definition is_word :: "record_item list \<Rightarrow> nat \<times> nat \<Rightarrow> bool" where
  "is_word r p \<longleftrightarrow> fst p < length r \<and> snd p < length (words (r ! fst p))"

lemma differing_iff:
  "p \<in> set (differing rs) \<longleftrightarrow> is_word (rs ! 0) p \<and> (\<exists>r \<in> set (tl rs). word_of r p \<noteq> word_of (rs ! 0) p)"
  by (cases p) (auto simp: differing_def Let_def is_word_def list_ex_iff image_iff)

lemma distinct_differing: "distinct (differing rs)"
proof -
  have d: "distinct (concat (map (\<lambda>i. filter (Q i) (map (Pair i) (f i))) ns))"
    if "distinct ns" and "\<And>i. distinct (f i)" for Q and f :: "nat \<Rightarrow> nat list" and ns :: "nat list"
    using that by (induction ns) (auto simp: distinct_map inj_on_def)
  then show ?thesis unfolding differing_def Let_def by (intro d) simp_all
qed

lemma not_differing:
  assumes "is_word (rs ! 0) p" and "p \<notin> set (differing rs)" and "b < length rs"
  shows "word_of (rs ! b) p = word_of (rs ! 0) p"
proof (cases b)
  case (Suc k)
  with assms(3) have "rs ! b \<in> set (tl rs)" by (cases rs) auto
  with assms show ?thesis unfolding differing_iff by blast
qed simp

section \<open>Segments\<close>

definition apart :: "nat \<times> u32 list \<Rightarrow> nat \<times> u32 list \<Rightarrow> bool" where
  "apart x y \<longleftrightarrow> fst x + 4 * length (snd x) \<le> fst y \<or> fst y + 4 * length (snd y) \<le> fst x"

text \<open>Memory \<open>m\<close> holds the segment.\<close>
definition holds :: "u32 \<Rightarrow> (u32 \<Rightarrow> u32) \<Rightarrow> nat \<times> u32 list \<Rightarrow> bool" where
  "holds P m x \<longleftrightarrow> (\<forall>i < length (snd x). m (P + of_nat (fst x + 4 * i)) = snd x ! i)"

lemma offset_inj: "P + of_nat a = P + (of_nat b :: u32) \<Longrightarrow> a < 2 ^ 32 \<Longrightarrow> b < 2 ^ 32 \<Longrightarrow> a = b"
  unfolding add_left_cancel by (drule arg_cong [of _ _ unat]) (simp add: unsigned_of_nat take_bit_nat_eq_self)

lemma put_words_effect:
  assumes "a < 2 ^ 32" and "fst x + 4 * length (snd x) \<le> 2 ^ 32"
  shows "put_words P x m (P + of_nat a) =
    (if \<exists>i < length (snd x). a = fst x + 4 * i then snd x ! ((a - fst x) div 4) else m (P + of_nat a))"
  using assms(2)
proof (induction "snd x" arbitrary: x rule: rev_induct)
  case Nil
  then show ?case by (simp add: put_words_def)
next
  case (snoc w ws)
  obtain off where x: "x = (off, ws @ [w])" using snoc(2) by (cases x) auto
  have p: "put_words P x m = (put_words P (off, ws) m)(P + of_nat (off + 4 * length ws) := w)"
    by (simp add: put_words_def x enumerate_append_eq)
  have e: "P + of_nat a = P + (of_nat (off + 4 * length ws) :: u32) \<longleftrightarrow> a = off + 4 * length ws"
    using offset_inj [of P a "off + 4 * length ws"] assms(1) snoc(3) by (auto simp: x)
  have IH: "put_words P (off, ws) m (P + of_nat a) =
      (if \<exists>i < length ws. a = off + 4 * i then ws ! ((a - off) div 4) else m (P + of_nat a))"
    by (rule snoc(1) [of "(off, ws)", unfolded fst_conv snd_conv, OF refl]) (use snoc(3) in \<open>simp add: x\<close>)
  show ?case
  proof (cases "a = off + 4 * length ws")
    case True
    then have "put_words P x m (P + of_nat a) = w" unfolding p by simp
    with True show ?thesis by (auto simp: x nth_append)
  next
    case False
    then have "put_words P x m (P + of_nat a) = put_words P (off, ws) m (P + of_nat a)" unfolding p using e by simp
    with False show ?thesis unfolding IH x by (auto simp: less_Suc_eq nth_append)
  qed
qed

lemma put_words_apart:
  assumes "apart x y" and "fst x + 4 * length (snd x) \<le> 2 ^ 32" and "fst y + 4 * length (snd y) \<le> 2 ^ 32" and "holds P m y"
  shows "holds P (put_words P x m) y"
  unfolding holds_def
proof (intro allI impI)
  fix i assume i: "i < length (snd y)"
  then have "fst y + 4 * i < 2 ^ 32" using assms(3) by linarith
  moreover have "\<not> (\<exists>j < length (snd x). fst y + 4 * i = fst x + 4 * j)" using assms(1) i unfolding apart_def by auto
  ultimately show "put_words P x m (P + of_nat (fst y + 4 * i)) = snd y ! i"
    using put_words_effect [of "fst y + 4 * i" x P m] assms(2,4) i by (simp only: holds_def if_False)
qed

lemma put_words_holds:
  assumes "fst x + 4 * length (snd x) \<le> 2 ^ 32"
  shows "holds P (put_words P x m) x"
  unfolding holds_def
proof (intro allI impI)
  fix i assume i: "i < length (snd x)"
  then have "fst x + 4 * i < 2 ^ 32" using assms by linarith
  from put_words_effect [OF this assms, of P m] i show "put_words P x m (P + of_nat (fst x + 4 * i)) = snd x ! i" by auto
qed

lemma write_table_holds:
  assumes "pairwise apart (set segs)" and "\<forall>x \<in> set segs. fst x + 4 * length (snd x) \<le> 2 ^ 32" and "x \<in> set segs"
  shows "holds P (write_table P segs m) x"
  using assms
proof (induction segs rule: rev_induct)
  case (snoc y segs)
  show ?case
  proof (cases "x = y")
    case True
    then show ?thesis using put_words_holds snoc.prems by (simp add: write_table_def)
  next
    case False
    have "pairwise apart (set segs)" using snoc.prems(1) by (rule pairwise_subset) auto
    moreover have "apart y x" using snoc.prems(1,3) False by (auto simp: pairwise_def)
    ultimately show ?thesis using snoc False put_words_apart by (simp add: write_table_def)
  qed
qed simp

section \<open>Layout\<close>

lemma align64_ge: "x \<le> align64 x"
proof -
  have "(x + 63) div 64 * 64 + (x + 63) mod 64 = x + 63" by simp
  moreover have "(x + 63) mod 64 < 64" by simp
  ultimately show ?thesis unfolding align64_def by linarith
qed

lemma copy_offsets_facts:
  "copy_offsets o' ns = (os, e) \<Longrightarrow> length os = length ns \<and> o' \<le> e
     \<and> (\<forall>i < length ns. o' \<le> os ! i \<and> os ! i + 4 * ns ! i \<le> e)
     \<and> (\<forall>j < length ns. \<forall>i < j. os ! i + 4 * ns ! i \<le> os ! j)"
proof (induction o' ns arbitrary: os e rule: copy_offsets.induct)
  case (2 o' n ns)
  from 2(2) obtain os' where r: "copy_offsets (align64 (o' + 4 * n)) ns = (os', e)" "os = o' # os'"
    by (auto split: prod.splits)
  note IH = 2(1) [OF r(1)]
  have g: "o' + 4 * n \<le> align64 (o' + 4 * n)" by (rule align64_ge)
  have a: "\<forall>i < length (n # ns). o' \<le> os ! i \<and> os ! i + 4 * (n # ns) ! i \<le> e"
  proof (intro allI impI)
    fix i assume "i < length (n # ns)"
    then show "o' \<le> os ! i \<and> os ! i + 4 * (n # ns) ! i \<le> e"
      using IH g by (cases i) (auto simp: r(2) intro: order_trans)
  qed
  have b: "\<forall>j < length (n # ns). \<forall>i < j. os ! i + 4 * (n # ns) ! i \<le> os ! j"
  proof (intro allI impI)
    fix j i assume "j < length (n # ns)" "i < j"
    then show "os ! i + 4 * (n # ns) ! i \<le> os ! j"
      using IH g by (cases j; cases i) (auto simp: r(2) intro: order_trans)
  qed
  have "length os = length (n # ns) \<and> o' \<le> e" using IH g by (auto simp: r(2))
  with a b show ?case by blast
qed simp

lemma layout_facts:
  assumes "y = make_layout ns n0 nb steps" and "n \<le> y_cap y"
  shows "length (y_copy y) = length ns"
    and "i < length ns \<Longrightarrow> 96 \<le> y_copy y ! i \<and> y_copy y ! i + 4 * ns ! i \<le> y_items y"
    and "i < j \<Longrightarrow> j < length ns \<Longrightarrow> y_copy y ! i + 4 * ns ! i \<le> y_copy y ! j"
    and "96 \<le> y_items y" "y_items y + 8 * length ns \<le> y_words y" "y_words y + 4 * n \<le> y_buckets y"
    and "y_buckets y + 32 * nb \<le> y_values y" "y_values y + 4 * n * nb \<le> y_out y" "y_out y \<le> y_bytes y"
proof -
  obtain os e where c: "copy_offsets (align64 (24 * 4)) ns = (os, e)" by (cases "copy_offsets (align64 (24 * 4)) ns")
  note f = copy_offsets_facts [OF c]
  have h: "96 \<le> align64 (24 * 4)" using align64_ge [of "24 * 4"] by simp
  have y: "y_cap y = n0 + n0 div 4 + 64" "y_copy y = os" "y_items y = e" "y_words y = align64 (e + 8 * length ns)"
    "y_buckets y = align64 (y_words y + 4 * y_cap y)" "y_values y = align64 (y_buckets y + 4 * 8 * nb)"
    "y_out y = align64 (y_values y + 4 * y_cap y * nb)" "y_bytes y = align64 (y_out y + 4 * 4 * steps)"
    using assms(1) c by (simp_all add: make_layout_def Let_def)
  show "length (y_copy y) = length ns" using f y(2) by simp
  show "i < length ns \<Longrightarrow> 96 \<le> y_copy y ! i \<and> y_copy y ! i + 4 * ns ! i \<le> y_items y"
    using f h unfolding y(2,3) by (meson order_trans)
  show "i < j \<Longrightarrow> j < length ns \<Longrightarrow> y_copy y ! i + 4 * ns ! i \<le> y_copy y ! j" using f unfolding y(2) by blast
  show "96 \<le> y_items y" using f h unfolding y(3) by linarith
  show "y_items y + 8 * length ns \<le> y_words y" unfolding y(3,4) by (rule align64_ge)
  show "y_words y + 4 * n \<le> y_buckets y" using align64_ge [of "y_words y + 4 * y_cap y"] assms(2) unfolding y(5) by linarith
  show "y_buckets y + 32 * nb \<le> y_values y" using align64_ge [of "y_buckets y + 4 * 8 * nb"] unfolding y(6) by linarith
  have "4 * n * nb \<le> 4 * y_cap y * nb" using assms(2) by simp
  then show "y_values y + 4 * n * nb \<le> y_out y" using align64_ge [of "y_values y + 4 * y_cap y * nb"] unfolding y(7) by linarith
  show "y_out y \<le> y_bytes y" using align64_ge [of "y_out y + 4 * 4 * steps"] unfolding y(8) by linarith
qed

text \<open>The segments of the table by zone (header, copies, items, words, buckets, values) and number.\<close>
definition seg_at :: "rvsched \<Rightarrow> (nat \<times> nat) list \<Rightarrow> record_item list list \<Rightarrow> rvs_io list \<Rightarrow> nat \<Rightarrow> nat \<Rightarrow> nat \<times> u32 list" where
  "seg_at s idx rs ios k i =
     (if k = 0 then (0, header_words s (length idx))
      else if k = 1 then item_segs s (rs ! 0) i ! 0
      else if k = 2 then item_segs s (rs ! 0) i ! 1
      else if k = 3 then (y_words (v_lay s), map (word_addr s) idx)
      else if k = 4 then bucket_segs s idx rs ios i ! 0
      else bucket_segs s idx rs ios i ! 1)"

definition seg_valid :: "rvsched \<Rightarrow> nat \<Rightarrow> nat \<Rightarrow> bool" where
  "seg_valid s k i \<longleftrightarrow> (k = 0 \<or> k = 3) \<and> i = 0 \<or> (k = 1 \<or> k = 2) \<and> i < length (v_shape s) \<or> (k = 4 \<or> k = 5) \<and> i < unat (v_nb s)"

lemma table_segs_set: "x \<in> set (table_segs s idx rs ios) \<longleftrightarrow> (\<exists>k i. seg_valid s k i \<and> x = seg_at s idx rs ios k i)"
proof -
  have two: "set (item_segs s r i) = {item_segs s r i ! 0, item_segs s r i ! 1}" "set (bucket_segs s idx rs ios i) =
    {bucket_segs s idx rs ios i ! 0, bucket_segs s idx rs ios i ! 1}" for r i by (auto simp: item_segs_def bucket_segs_def Let_def)
  have "x \<in> set (table_segs s idx rs ios) \<longleftrightarrow> x = seg_at s idx rs ios 0 0 \<or> (\<exists>i < length (v_shape s). x = seg_at s idx rs ios 1 i)
    \<or> (\<exists>i < length (v_shape s). x = seg_at s idx rs ios 2 i) \<or> x = seg_at s idx rs ios 3 0
    \<or> (\<exists>i < unat (v_nb s). x = seg_at s idx rs ios 4 i) \<or> (\<exists>i < unat (v_nb s). x = seg_at s idx rs ios 5 i)"
    by (auto simp: table_segs_def seg_at_def two)
  also have "\<dots> \<longleftrightarrow> (\<exists>k i. seg_valid s k i \<and> x = seg_at s idx rs ios k i)"
    unfolding seg_valid_def conj_disj_distribR ex_disj_distrib by auto
  finally show ?thesis .
qed

text \<open>A schedule about to write its table: its layout fits the recordings \<open>rs\<close> and the words \<open>idx\<close>.\<close>
definition fits :: "rvsched \<Rightarrow> (nat \<times> nat) list \<Rightarrow> record_item list list \<Rightarrow> bool" where
  "fits s idx rs \<longleftrightarrow> sized s \<and> length idx \<le> y_cap (v_lay s) \<and> map item_shape (rs ! 0) = v_shape s \<and> y_bytes (v_lay s) \<le> 2 ^ 32"

definition zone_lo :: "rvsched \<Rightarrow> nat \<Rightarrow> nat" where
  "zone_lo s k = (if k = 0 then 0 else if k = 1 then 96 else if k = 2 then y_items (v_lay s) else if k = 3 then y_words (v_lay s)
     else if k = 4 then y_buckets (v_lay s) else if k = 5 then y_values (v_lay s) else y_out (v_lay s))"

lemma zone_facts:
  assumes "fits s idx rs"
  defines "y \<equiv> v_lay s" and "nb \<equiv> unat (v_nb s)" and "L \<equiv> length (v_shape s)" and "n \<equiv> length idx"
  shows "length (rs ! 0) = L" "y_items y + 8 * L \<le> y_words y" "y_words y + 4 * n \<le> y_buckets y" "y_buckets y + 32 * nb \<le> y_values y"
    "y_values y + 4 * n * nb \<le> y_out y" "y_out y \<le> 2 ^ 32" "96 \<le> y_items y"
    "i < L \<Longrightarrow> 96 \<le> y_copy y ! i \<and> y_copy y ! i + 4 * length (words (rs ! 0 ! i)) \<le> y_items y"
    "i < j \<Longrightarrow> j < L \<Longrightarrow> y_copy y ! i + 4 * length (words (rs ! 0 ! i)) \<le> y_copy y ! j"
    "i < L \<Longrightarrow> v_shape s ! i = item_shape (rs ! 0 ! i)"
proof -
  obtain n0 where l: "v_lay s = make_layout (map snd (v_shape s)) n0 nb (unat (v_max_steps s))"
    using assms(1) unfolding fits_def sized_def nb_def by blast
  note f = layout_facts [OF l, of n, folded y_def]
  have cap: "n \<le> y_cap y" "y_bytes y \<le> 2 ^ 32" and sh: "map item_shape (rs ! 0) = v_shape s"
    using assms(1) by (simp_all add: fits_def n_def y_def)
  show len: "length (rs ! 0) = L" unfolding L_def sh [symmetric] by simp
  show si: "i < L \<Longrightarrow> v_shape s ! i = item_shape (rs ! 0 ! i)" for i unfolding sh [symmetric] using len by simp
  have w: "i < L \<Longrightarrow> map snd (v_shape s) ! i = length (words (rs ! 0 ! i))" for i
    using si [of i] by (simp add: item_shape_def L_def)
  show "y_items y + 8 * L \<le> y_words y" "y_words y + 4 * n \<le> y_buckets y" "y_buckets y + 32 * nb \<le> y_values y"
    "y_values y + 4 * n * nb \<le> y_out y" "96 \<le> y_items y"
    using f(4-8) [OF cap(1)] by (simp_all add: L_def)
  show "y_out y \<le> 2 ^ 32" using f(9) [OF cap(1)] cap(2) by linarith
  show "i < L \<Longrightarrow> 96 \<le> y_copy y ! i \<and> y_copy y ! i + 4 * length (words (rs ! 0 ! i)) \<le> y_items y"
    using f(2) [OF cap(1), of i] w [of i] by (simp add: L_def)
  show "i < j \<Longrightarrow> j < L \<Longrightarrow> y_copy y ! i + 4 * length (words (rs ! 0 ! i)) \<le> y_copy y ! j"
    using f(3) [OF cap(1), of i j] w [of i] by (simp add: L_def)
qed

lemma seg_at_simps:
  "seg_at s idx rs ios 0 i = (0, header_words s (length idx))"
  "seg_at s idx rs ios 1 i = (y_copy (v_lay s) ! i, words (rs ! 0 ! i))"
  "seg_at s idx rs ios (Suc 0) i = (y_copy (v_lay s) ! i, words (rs ! 0 ! i))"
  "seg_at s idx rs ios 2 i = (y_items (v_lay s) + 8 * i, [v_table_phys s + of_nat (y_copy (v_lay s) ! i), fst (v_shape s ! i)])"
  "seg_at s idx rs ios 3 i = (y_words (v_lay s), map (word_addr s) idx)"
  "seg_at s idx rs ios 4 i = (y_buckets (v_lay s) + 32 * i, io_words (ios ! i))"
  "seg_at s idx rs ios 5 i = (y_values (v_lay s) + 4 * length idx * i, map (word_of (rs ! i)) idx)"
  by (simp_all add: seg_at_def item_segs_def bucket_segs_def Let_def)

lemma seg_cases:
  assumes "seg_valid s k i"
  shows "k = 0 \<or> k = 1 \<or> k = 2 \<or> k = 3 \<or> k = 4 \<or> k = 5"
  using assms by (auto simp: seg_valid_def)

lemma value_rows: "i < (nb :: nat) \<Longrightarrow> 4 * n * i + 4 * n \<le> 4 * n * nb"
  using mult_le_mono2 [of "Suc i" nb "4 * n"] by simp

lemma seg_zone:
  assumes "fits s idx rs" and "seg_valid s k i"
  shows "zone_lo s k \<le> fst (seg_at s idx rs ios k i)"
    and "fst (seg_at s idx rs ios k i) + 4 * length (snd (seg_at s idx rs ios k i)) \<le> zone_lo s (Suc k)"
proof -
  note z = zone_facts [OF assms(1)]
  have b: "k = 1 \<or> k = 2 \<Longrightarrow> i < length (v_shape s)" "k = 4 \<or> k = 5 \<Longrightarrow> i < unat (v_nb s)" using assms(2) by (auto simp: seg_valid_def)
  let ?x = "seg_at s idx rs ios k i"
  have "zone_lo s k \<le> fst ?x \<and> fst ?x + 4 * length (snd ?x) \<le> zone_lo s (Suc k)"
    using seg_cases [OF assms(2)]
  proof (elim disjE)
    assume k: "k = 0"
    show ?thesis unfolding k by (simp add: seg_at_simps zone_lo_def header_words_def Let_def)
  next
    assume k: "k = 1"
    show ?thesis using b(1) z(8) [of i] unfolding k by (simp add: seg_at_simps zone_lo_def)
  next
    assume k: "k = 2"
    show ?thesis using b(1) z(2) unfolding k by (simp add: seg_at_simps zone_lo_def)
  next
    assume k: "k = 3"
    show ?thesis using z(3) unfolding k by (simp add: seg_at_simps zone_lo_def)
  next
    assume k: "k = 4"
    show ?thesis using b(2) z(4) unfolding k by (simp add: seg_at_simps zone_lo_def io_words_def)
  next
    assume k: "k = 5"
    show ?thesis using b(2) z(5) value_rows [of i "unat (v_nb s)" "length idx"] unfolding k
      by (simp add: seg_at_simps zone_lo_def)
  qed
  then show "zone_lo s k \<le> fst ?x" "fst ?x + 4 * length (snd ?x) \<le> zone_lo s (Suc k)" by simp_all
qed

lemma zones_mono: "fits s idx rs \<Longrightarrow> k \<le> k' \<Longrightarrow> k' \<le> 6 \<Longrightarrow> zone_lo s k \<le> zone_lo s k'"
proof -
  assume f: "fits s idx rs" and k: "k \<le> k'" "k' \<le> 6"
  note z = zone_facts [OF f]
  have st: "zone_lo s j \<le> zone_lo s (Suc j)" if "j < 6" for j
  proof -
    from that have "j = 0 \<or> j = 1 \<or> j = 2 \<or> j = 3 \<or> j = 4 \<or> j = 5" by auto
    then show ?thesis using z(2-5,7) by (elim disjE) (simp_all add: zone_lo_def)
  qed
  from k show "zone_lo s k \<le> zone_lo s k'"
  proof (induction rule: dec_induct)
    case (step n)
    then show ?case using st [of n] by simp
  qed simp
qed

lemma segs_apart:
  assumes f: "fits s idx rs" and v: "seg_valid s k i" "seg_valid s k' i'" and "k < k' \<or> k = k' \<and> i < i'"
  shows "apart (seg_at s idx rs ios k i) (seg_at s idx rs ios k' i')"
proof (cases "k < k'")
  case True
  have "k' \<le> 6" using seg_cases [OF v(2)] by auto
  then have "zone_lo s (Suc k) \<le> zone_lo s k'" using zones_mono [OF f, of "Suc k" k'] True by simp
  then show ?thesis using seg_zone(2) [OF f v(1), of ios] seg_zone(1) [OF f v(2), of ios] by (simp add: apart_def)
next
  case False
  then have e: "k' = k" "i < i'" using assms(4) by auto
  have b: "k = 1 \<or> k = 2 \<Longrightarrow> i' < length (v_shape s)" "k = 4 \<or> k = 5 \<Longrightarrow> i' < unat (v_nb s)" "k \<noteq> 0 \<and> k \<noteq> 3"
    using v(2) e by (auto simp: seg_valid_def)
  then show ?thesis
    using seg_cases [OF v(1)] zone_facts(9) [OF f e(2)] value_rows [OF e(2), of "length idx"] e(2) unfolding e(1)
    by (elim disjE; simp add: seg_at_simps apart_def io_words_def)
qed

lemma written_table:
  assumes f: "fits s idx rs" and v: "seg_valid s k i"
  shows "holds P (write_table P (table_segs s idx rs ios) m) (seg_at s idx rs ios k i)"
proof (rule write_table_holds)
  show "pairwise apart (set (table_segs s idx rs ios))"
  proof (rule pairwiseI)
    fix x y assume "x \<in> set (table_segs s idx rs ios)" "y \<in> set (table_segs s idx rs ios)" "x \<noteq> y"
    then obtain k i k' i' where x: "seg_valid s k i" "x = seg_at s idx rs ios k i" and y: "seg_valid s k' i'" "y = seg_at s idx rs ios k' i'"
      and "(k, i) \<noteq> (k', i')" unfolding table_segs_set by blast
    then consider "k < k' \<or> k = k' \<and> i < i'" | "k' < k \<or> k' = k \<and> i' < i" by fastforce
    then show "apart x y"
    proof cases
      case 1
      then show ?thesis using segs_apart [OF f x(1) y(1)] x(2) y(2) by simp
    next
      case 2
      then show ?thesis using segs_apart [OF f y(1) x(1), of ios] x(2) y(2) by (auto simp: apart_def)
    qed
  qed
  show "\<forall>x \<in> set (table_segs s idx rs ios). fst x + 4 * length (snd x) \<le> 2 ^ 32"
  proof
    fix x assume "x \<in> set (table_segs s idx rs ios)"
    then obtain k i where x: "seg_valid s k i" "x = seg_at s idx rs ios k i" unfolding table_segs_set by blast
    have "Suc k \<le> 6" using seg_cases [OF x(1)] by auto
    from seg_zone(2) [OF f x(1), of ios] zones_mono [OF f this order.refl] zone_facts(6) [OF f]
    show "fst x + 4 * length (snd x) \<le> 2 ^ 32" unfolding x(2) by (simp add: zone_lo_def)
  qed
  show "seg_at s idx rs ios k i \<in> set (table_segs s idx rs ios)" unfolding table_segs_set using v by blast
qed

section \<open>Replaying a recording\<close>

definition word_offset :: "rvsched \<Rightarrow> nat \<times> nat \<Rightarrow> nat" where
  "word_offset s p = y_copy (v_lay s) ! fst p + 4 * snd p"

lemma word_addr_offset: "word_addr s p = v_table_phys s + of_nat (word_offset s p)"
  by (simp add: word_addr_def word_offset_def)

lemma word_offset_bounds:
  assumes f: "fits s idx rs" and p: "is_word (rs ! 0) p"
  shows "96 \<le> word_offset s p" "word_offset s p + 4 \<le> y_items (v_lay s)"
proof -
  have "fst p < length (v_shape s)" using p zone_facts(1) [OF f] by (simp add: is_word_def)
  from zone_facts(8) [OF f this] p show "96 \<le> word_offset s p" "word_offset s p + 4 \<le> y_items (v_lay s)"
    by (auto simp: word_offset_def is_word_def)
qed

lemma word_offset_inj:
  assumes f: "fits s idx rs" and p: "is_word (rs ! 0) p" and q: "is_word (rs ! 0) q" and e: "word_offset s p = word_offset s q"
  shows "p = q"
proof -
  have b: "fst p < length (v_shape s)" "fst q < length (v_shape s)" using p q zone_facts(1) [OF f] by (simp_all add: is_word_def)
  have ne: "\<not> (fst x < fst y)" if "is_word (rs ! 0) x" "fst y < length (v_shape s)" "word_offset s x = word_offset s y" for x y
    using zone_facts(9) [OF f, of "fst x" "fst y"] that by (auto simp: word_offset_def is_word_def)
  have "fst p = fst q" using ne [OF p b(2) e] ne [OF q b(1) e [symmetric]] by simp
  with e show ?thesis by (cases p; cases q) (simp add: word_offset_def)
qed

text \<open>What the core relies on in memory, and what its patches keep.\<close>
definition table_ready :: "rvsched \<Rightarrow> (nat \<times> nat) list \<Rightarrow> record_item list list \<Rightarrow> rvs_io list \<Rightarrow> (u32 \<Rightarrow> u32) \<Rightarrow> bool" where
  "table_ready s idx rs ios m \<longleftrightarrow>
     holds (v_table_phys s) m (seg_at s idx rs ios 3 0)
     \<and> (\<forall>b < unat (v_nb s). holds (v_table_phys s) m (seg_at s idx rs ios 5 b))
     \<and> (\<forall>i < length (v_shape s). holds (v_table_phys s) m (seg_at s idx rs ios 2 i))
     \<and> (\<forall>p. is_word (rs ! 0) p \<longrightarrow> p \<notin> set idx \<longrightarrow> m (word_addr s p) = word_of (rs ! 0) p)"

definition tab_of :: "rvsched \<Rightarrow> (nat \<times> nat) list \<Rightarrow> sched_tab \<Rightarrow> bool" where
  "tab_of s idx t \<longleftrightarrow> q_nwords t = of_nat (length idx) \<and> q_words t = v_table_phys s + of_nat (y_words (v_lay s))
     \<and> q_values t = v_table_phys s + of_nat (y_values (v_lay s)) \<and> q_bucket0 t = v_b0 s
     \<and> q_items t = v_table_phys s + of_nat (y_items (v_lay s))"

text \<open>The segments that patches leave alone are above the items' copies.\<close>
lemma above_copies:
  assumes f: "fits s idx rs" and v: "seg_valid s k i" "2 \<le> k" and p: "is_word (rs ! 0) p" and j: "j < length (snd (seg_at s idx rs ios k i))"
  shows "word_addr s p \<noteq> v_table_phys s + of_nat (fst (seg_at s idx rs ios k i) + 4 * j)"
proof -
  let ?x = "seg_at s idx rs ios k i"
  have k: "2 \<le> k" "Suc k \<le> 6" using seg_cases [OF v(1)] v(2) by auto
  have lo: "y_items (v_lay s) \<le> fst ?x" using zones_mono [OF f k(1)] seg_zone(1) [OF f v(1), of ios] k by (simp add: zone_lo_def)
  have hi: "fst ?x + 4 * length (snd ?x) \<le> 2 ^ 32"
    using seg_zone(2) [OF f v(1), of ios] zones_mono [OF f k(2) order.refl] zone_facts(6) [OF f] by (simp add: zone_lo_def)
  note w = word_offset_bounds [OF f p]
  have "word_offset s p \<noteq> fst ?x + 4 * j" using w lo by simp
  moreover have "word_offset s p < 2 ^ 32" "fst ?x + 4 * j < 2 ^ 32" using w lo hi j by linarith+
  ultimately show ?thesis using offset_inj [of "v_table_phys s" "word_offset s p" "fst ?x + 4 * j"] unfolding word_addr_offset by blast
qed

lemma table_addrs:
  assumes f: "fits s idx rs" and t: "tab_of s idx t" and r: "table_ready s idx rs ios m" and b: "b < unat (v_nb s)"
    and i: "i < length idx"
  shows "patch_addr t m i = word_addr s (idx ! i)"
    and "q_words t + 4 * of_nat i = v_table_phys s + of_nat (fst (seg_at s idx rs ios 3 0) + 4 * i)"
    and "value_addr t (v_b0 s + of_nat b) i = v_table_phys s + of_nat (fst (seg_at s idx rs ios 5 b) + 4 * i)"
    and "m (value_addr t (v_b0 s + of_nat b) i) = word_of (rs ! b) (idx ! i)"
proof -
  show w: "q_words t + 4 * of_nat i = v_table_phys s + of_nat (fst (seg_at s idx rs ios 3 0) + 4 * i)"
    using t by (simp add: tab_of_def seg_at_simps)
  show v: "value_addr t (v_b0 s + of_nat b) i = v_table_phys s + of_nat (fst (seg_at s idx rs ios 5 b) + 4 * i)"
    using t by (simp add: tab_of_def seg_at_simps value_addr_def mult.assoc)
  show "patch_addr t m i = word_addr s (idx ! i)"
    using r i unfolding table_ready_def holds_def patch_addr_def w by (simp add: seg_at_simps)
  show "m (value_addr t (v_b0 s + of_nat b) i) = word_of (rs ! b) (idx ! i)"
    using r i b unfolding table_ready_def holds_def v by (simp add: seg_at_simps)
qed

lemma nwords_nat: "fits s idx rs \<Longrightarrow> tab_of s idx t \<Longrightarrow> unat (q_nwords t) = length idx"
  using zone_facts(3-7) [of s idx rs] by (auto simp: tab_of_def unsigned_of_nat intro!: take_bit_nat_eq_self)

lemma ready_patch_safe:
  assumes f: "fits s idx rs" and t: "tab_of s idx t" and r: "table_ready s idx rs ios m" and b: "b < unat (v_nb s)"
    and idx: "distinct idx" "\<forall>p \<in> set idx. is_word (rs ! 0) p"
  shows "patch_safe t (v_b0 s + of_nat b) m"
proof -
  note a = table_addrs [OF f t r b]
  have iw: "is_word (rs ! 0) (idx ! i)" if "i < length idx" for i using idx(2) that by simp
  have low: "word_offset s (idx ! i) < 2 ^ 32" if "i < length idx" for i
    using word_offset_bounds [OF f iw [OF that]] zone_facts(2-6) [OF f] by linarith
  have v: "seg_valid s 3 0" "seg_valid s 5 b" using b by (simp_all add: seg_valid_def)
  have "distinct (map (patch_addr t m) [0..<length idx])"
    unfolding distinct_conv_nth
  proof (intro allI impI)
    fix i j assume ij: "i < length (map (patch_addr t m) [0..<length idx])" "j < length (map (patch_addr t m) [0..<length idx])" "i \<noteq> j"
    then have "word_addr s (idx ! i) \<noteq> word_addr s (idx ! j)"
      using word_offset_inj [OF f iw iw, of i j] offset_inj [of "v_table_phys s" "word_offset s (idx ! i)" "word_offset s (idx ! j)"]
        low [of i] low [of j] idx(1) unfolding word_addr_offset by (auto simp: nth_eq_iff_index_eq)
    with ij a(1) [of i] a(1) [of j] show "map (patch_addr t m) [0..<length idx] ! i \<noteq> map (patch_addr t m) [0..<length idx] ! j" by simp
  qed
  moreover have "patch_addr t m i \<noteq> q_words t + 4 * of_nat j \<and> patch_addr t m i \<noteq> value_addr t (v_b0 s + of_nat b) j"
    if ij: "i < length idx" "j < length idx" for i j
    unfolding a(1) [OF ij(1)] a(2) [OF ij(2)] a(3) [OF ij(2)]
    using above_copies [OF f v(1) _ iw [OF ij(1)], of j ios] above_copies [OF f v(2) _ iw [OF ij(1)], of j ios] ij(2)
    by (simp add: seg_at_simps)
  ultimately show ?thesis unfolding patch_safe_def Let_def nwords_nat [OF f t] by blast
qed

lemma patched_other:
  assumes f: "fits s idx rs" and t: "tab_of s idx t" and r: "table_ready s idx rs ios (mem c)" and b: "b < unat (v_nb s)"
    and idx: "distinct idx" "\<forall>p \<in> set idx. is_word (rs ! 0) p" and a: "\<forall>p \<in> set idx. a \<noteq> word_addr s p"
  shows "mem (patch_words t (v_b0 s + of_nat b) c) a = mem c a"
proof -
  note eff = patch_words_effect(2) [OF ready_patch_safe [OF f t r b idx], unfolded nwords_nat [OF f t]]
  have "a \<notin> patch_addr t (mem c) ` {..<length idx}"
    using table_addrs(1) [OF f t r b] a by auto
  then show ?thesis by (rule eff)
qed

lemma patch_keeps_segment:
  assumes f: "fits s idx rs" and t: "tab_of s idx t" and r: "table_ready s idx rs ios (mem c)" and b: "b < unat (v_nb s)"
    and idx: "distinct idx" "\<forall>p \<in> set idx. is_word (rs ! 0) p" and v: "seg_valid s k i" "2 \<le> k"
    and h: "holds (v_table_phys s) (mem c) (seg_at s idx rs ios k i)"
  shows "holds (v_table_phys s) (mem (patch_words t (v_b0 s + of_nat b) c)) (seg_at s idx rs ios k i)"
  unfolding holds_def
proof (intro allI impI)
  fix j assume j: "j < length (snd (seg_at s idx rs ios k i))"
  let ?a = "v_table_phys s + of_nat (fst (seg_at s idx rs ios k i) + 4 * j)"
  have "\<forall>p \<in> set idx. ?a \<noteq> word_addr s p" using above_copies [OF f v _ j] idx(2) by metis
  from patched_other [OF f t r b idx this] h j
  show "mem (patch_words t (v_b0 s + of_nat b) c) ?a = snd (seg_at s idx rs ios k i) ! j" by (simp only: holds_def)
qed

lemma patch_ready:
  assumes f: "fits s idx rs" and t: "tab_of s idx t" and r: "table_ready s idx rs ios (mem c)" and b: "b < unat (v_nb s)"
    and idx: "distinct idx" "\<forall>p \<in> set idx. is_word (rs ! 0) p"
  shows "table_ready s idx rs ios (mem (patch_words t (v_b0 s + of_nat b) c))"
proof -
  note keep = patch_keeps_segment [OF f t r b idx]
  have low: "word_offset s p < 2 ^ 32" if "is_word (rs ! 0) p" for p
    using word_offset_bounds [OF f that] zone_facts(2-6) [OF f] by linarith
  have "mem (patch_words t (v_b0 s + of_nat b) c) (word_addr s p) = word_of (rs ! 0) p"
    if p: "is_word (rs ! 0) p" "p \<notin> set idx" for p
  proof -
    have "word_addr s p \<noteq> word_addr s q" if q: "q \<in> set idx" for q
      using word_offset_inj [OF f p(1), of q] offset_inj [of "v_table_phys s" "word_offset s p" "word_offset s q"]
        low p q idx(2) unfolding word_addr_offset by blast
    then show ?thesis using patched_other [OF f t r b idx, of "word_addr s p"] r p unfolding table_ready_def by simp
  qed
  then show ?thesis
    using r keep [of 3 0] keep [of 5] keep [of 2] unfolding table_ready_def by (simp add: seg_valid_def)
qed

text \<open>After a patch every word of every item is the bucket's.\<close>
lemma patch_restores:
  assumes f: "fits s idx rs" and t: "tab_of s idx t" and r: "table_ready s idx rs ios (mem c)" and b: "b < unat (v_nb s)" "b < length rs"
    and idx: "idx = differing rs" and p: "is_word (rs ! 0) p"
  shows "mem (patch_words t (v_b0 s + of_nat b) c) (word_addr s p) = word_of (rs ! b) p"
proof (cases "p \<in> set idx")
  case True
  have i: "distinct idx" "\<forall>p \<in> set idx. is_word (rs ! 0) p" using idx by (auto simp: distinct_differing differing_iff)
  from True obtain k where k: "k < length idx" "idx ! k = p" by (auto simp: in_set_conv_nth)
  note safe = ready_patch_safe [OF f t r b(1) i]
  have "mem (patch_words t (v_b0 s + of_nat b) c) (patch_addr t (mem c) k) = mem c (value_addr t (v_b0 s + of_nat b) k)"
    using patch_words_effect(1) [OF safe, of k] k(1) nwords_nat [OF f t] by simp
  then show ?thesis using table_addrs(1,4) [OF f t r b(1) k(1)] k(2) by simp
next
  case False
  have i: "distinct idx" "\<forall>p \<in> set idx. is_word (rs ! 0) p" using idx by (auto simp: distinct_differing differing_iff)
  have "mem (patch_words t (v_b0 s + of_nat b) c) (word_addr s p) = word_of (rs ! 0) p"
    using patch_ready [OF f t r b(1) i] False p unfolding table_ready_def by blast
  also have "\<dots> = word_of (rs ! b) p" using not_differing [of rs p b] p False b(2) idx by simp
  finally show ?thesis .
qed

definition enter_all :: "rvsched \<Rightarrow> sched_tab \<Rightarrow> nat list \<Rightarrow> 'd core \<Rightarrow> 'd core" where
  "enter_all s t bs c = fold (\<lambda>b. patch_words t (v_b0 s + of_nat b)) bs c"

lemma enter_all_ready:
  assumes f: "fits s idx rs" and t: "tab_of s idx t" and r: "table_ready s idx rs ios (mem c)" and idx: "idx = differing rs"
    and bs: "\<forall>b \<in> set bs. b < unat (v_nb s)"
  shows "table_ready s idx rs ios (mem (enter_all s t bs c))"
  using bs
proof (induction bs rule: rev_induct)
  case (snoc b bs)
  then show ?case using patch_ready [OF f t _, of ios "enter_all s t bs c" b] idx
    by (auto simp: enter_all_def distinct_differing differing_iff)
qed (simp add: enter_all_def r)


lemma seg_at_pass [simp]: "seg_at (s\<lparr>v_pass := q\<rparr>) idx rs ios k i = seg_at s idx rs ios k i"
  by (simp add: seg_at_def header_words_def item_segs_def bucket_segs_def word_addr_def)

lemma r5_words_keep:
  assumes "r5_words s m = Inr m'" and "holds (v_table_phys s) m x" and "apart (76, [0, 0]) x" and "fst x + 4 * length (snd x) \<le> 2 ^ 32"
  shows "holds (v_table_phys s) m' x"
proof (cases "m' = m")
  case False
  with assms(1) obtain a b where m': "m' = put_words (v_table_phys s) (76, [a, b]) m"
    by (auto simp: r5_words_def split: option.splits if_splits)
  have "apart (76, [a, b]) x" using assms(3) by (simp add: apart_def)
  then show ?thesis unfolding m' using assms(2,4) by (intro put_words_apart) simp_all
qed (simp add: assms(2))

lemma holds_prefix: "holds P m (a, xs @ ys) \<Longrightarrow> holds P m (a, xs)"
  unfolding holds_def by (auto simp: nth_append dest: spec)

lemma all_less_two: "(\<forall>i < Suc (Suc 0). P i) \<longleftrightarrow> P 0 \<and> P (Suc 0)"
  by (auto simp: less_Suc_eq)

lemma end_two:
  assumes inv: "rvs_inv s" "v_pass s = 2" and e: "end_pass_two ok s m = (s', m', Inr ())" and small: "y_bytes (v_lay s) \<le> 2 ^ 32"
  shows "\<exists>rs ios. length rs = unat (v_nb s) \<and> (\<forall>b < unat (v_nb s). rs ! b = bucket_rec (v_buckets s ! b) \<and> map item_shape (rs ! b) = map item_shape (rs ! 0))
    \<and> v_nb s' = v_nb s \<and> v_b0 s' = v_b0 s \<and> v_table_phys s' = v_table_phys s
    \<and> fits s' (differing rs) rs \<and> table_ready s' (differing rs) rs ios m'
    \<and> (\<forall>c :: 'd core. mem c = m' \<longrightarrow> tab_of s' (differing rs) (read_tab c (v_table_phys s')))"
proof -
  have "unat (v_nb s) \<noteq> 0" "length (v_buckets s) = unat (v_nb s)" using inv by (simp_all add: rvs_inv_def unat_eq_zero)
  then have nb: "v_buckets s \<noteq> []" "length (v_buckets s) = unat (v_nb s)" by auto
  from e obtain rs idx where sh: "map item_shape (bucket_rec (v_buckets s ! 0)) = v_shape s" and d: "sa_rvs_diff s = Inr (rs, idx)"
    and cap: "length idx \<le> y_cap (v_lay s)"
    by (auto simp: end_pass_two_def Let_def split: if_splits sum.splits)
  define ios where "ios = map bucket_io (v_buckets s)"
  define s1 where "s1 = s\<lparr>v_nblocks := io_nblocks (ios ! 0), v_block := io_vocab (ios ! 0) div io_nblocks (ios ! 0), v_nwords := length idx\<rparr>"
  define m1 where "m1 = write_table (v_table_phys s) (table_segs s1 idx rs ios) m"
  from e sh d cap have r5: "r5_words s1 m1 = Inr m'" and s': "s' = s1\<lparr>v_pass := 3\<rparr>"
    unfolding end_pass_two_def Let_def ios_def [symmetric] s1_def [symmetric]
    by (auto simp: m1_def s1_def split: if_splits sum.splits)
  note dr = diff_ret [OF d nb(1)]
  have fits: "fits s1 idx rs"
    using inv sh cap small dr(3) by (auto simp: fits_def rvs_inv_def sized_def s1_def)
  have P: "v_table_phys s1 = v_table_phys s" by (simp add: s1_def)
  have w: "holds (v_table_phys s1) m1 (seg_at s1 idx rs ios k i)" if "seg_valid s1 k i" for k i
    unfolding m1_def P by (rule written_table [OF fits that])
  have top: "fst (seg_at s1 idx rs ios k i) + 4 * length (snd (seg_at s1 idx rs ios k i)) \<le> 2 ^ 32" if "seg_valid s1 k i" for k i
  proof -
    have "Suc k \<le> 6" using seg_cases [OF that] by auto
    from seg_zone(2) [OF fits that, of ios] zones_mono [OF fits this order.refl] zone_facts(6) [OF fits]
    show ?thesis by (simp add: zone_lo_def)
  qed
  have h: "holds (v_table_phys s1) m' (seg_at s1 idx rs ios k i)" if v: "seg_valid s1 k i" and k: "1 \<le> k" for k i
  proof (rule r5_words_keep [OF r5 w [OF v] _ top [OF v]])
    have "k \<le> 6" using seg_cases [OF v] by auto
    then have "96 \<le> zone_lo s1 k" using zones_mono [OF fits k] by (simp add: zone_lo_def)
    then show "apart (76, [0, 0]) (seg_at s1 idx rs ios k i)" using seg_zone(1) [OF fits v, of ios] by (simp add: apart_def)
  qed
  have hd: "holds (v_table_phys s1) m' (0, take 19 (header_words s1 (length idx)))"
  proof (rule r5_words_keep [OF r5])
    have "seg_valid s1 0 0" by (simp add: seg_valid_def)
    then have "holds (v_table_phys s1) m1 (0, header_words s1 (length idx))" using w [of 0 0] by (simp add: seg_at_simps)
    then have "holds (v_table_phys s1) m1 (0, take 19 (header_words s1 (length idx)) @ drop 19 (header_words s1 (length idx)))" by simp
    then show "holds (v_table_phys s1) m1 (0, take 19 (header_words s1 (length idx)))" by (rule holds_prefix)
  qed (simp_all add: apart_def)
  have word: "m' (v_table_phys s1 + of_nat (4 * j)) = header_words s1 (length idx) ! j" if "j < 19" for j
  proof -
    have "length (header_words s1 (length idx)) = 24" by (simp add: header_words_def Let_def)
    with hd that show ?thesis by (simp add: holds_def)
  qed
  have tab: "tab_of s1 idx (read_tab c (v_table_phys s1))" if "mem c = m'" for c :: "'d core"
    using word [of 2] word [of 3] word [of 4] word [of 6] word [of 9] that
    by (simp add: tab_of_def read_tab_def tw_def rd_def header_words_def Let_def)
  have copies: "m' (word_addr s1 p) = word_of (rs ! 0) p" if p: "is_word (rs ! 0) p" for p
  proof -
    have "seg_valid s1 1 (fst p)" using p zone_facts(1) [OF fits] by (simp add: seg_valid_def is_word_def)
    from h [OF this] p show ?thesis
      by (simp add: holds_def seg_at_simps word_addr_offset word_offset_def word_of_def is_word_def)
  qed
  have ready: "table_ready s1 idx rs ios m'"
    using h copies unfolding table_ready_def by (simp add: seg_valid_def)
  have all: "\<forall>b < unat (v_nb s). rs ! b = bucket_rec (v_buckets s ! b) \<and> map item_shape (rs ! b) = map item_shape (rs ! 0)"
  proof (intro allI impI)
    fix b assume b: "b < unat (v_nb s)"
    have "b < length rs" using b nb(2) dr(2) by simp
    from dr(4) [OF this] show "rs ! b = bucket_rec (v_buckets s ! b) \<and> map item_shape (rs ! b) = map item_shape (rs ! 0)"
      unfolding bucket_rec_def by (metis case_prod_conv option.simps(5))
  qed
  have fin: "fits s' idx rs" "table_ready s' idx rs ios m'"
    "\<And>c :: 'd core. mem c = m' \<Longrightarrow> tab_of s' idx (read_tab c (v_table_phys s'))"
    using fits ready tab
    by (simp_all add: s' fits_def sized_def table_ready_def tab_of_def word_addr_def)
  have "length rs = unat (v_nb s)" "v_nb s' = v_nb s" "v_b0 s' = v_b0 s" "v_table_phys s' = v_table_phys s"
    using dr(2) nb(2) by (simp_all add: s' s1_def)
  then show ?thesis using all fin unfolding dr(1) by blast
qed


text \<open>
  C4. What the core runs in a bucket is that bucket's recording, word for word: after the second
  pass has written the table, entering any buckets in any order (each time patching the words that
  differ) leaves, for the bucket entered last, every item's code address and words as recorded.
\<close>
theorem core_replays_recordings:
  assumes "rvs_state s" and "v_pass s = 2" and "sa_rvsched_end_pass ok place r5 s m = (s', m', Inr ())" and "y_bytes (v_lay s) \<le> 2 ^ 32"
    and "mem c = m'" and "t = read_tab c (v_table_phys s')" and "\<forall>x \<in> set (b # bs). x < unat (v_nb s)"
    and "i < length (bucket_rec (v_buckets s ! b))"
  defines "c' \<equiv> enter_all s' t (bs @ [b]) c" and "x \<equiv> bucket_rec (v_buckets s ! b) ! i"
  shows "rd c' (q_items t + 8 * of_nat i + 4) = code_phys x
    \<and> (\<forall>w < length (words x). rd c' (rd c' (q_items t + 8 * of_nat i) + 4 * of_nat w) = words x ! w)"
proof -
  have e: "end_pass_two ok s m = (s', m', Inr ())" using assms(2,3) by (simp add: sa_rvsched_end_pass_def)
  from end_two [OF rvs_reachable_inv [OF assms(1)] assms(2) e assms(4)] obtain rs ios where
    len: "length rs = unat (v_nb s)" and rec: "\<forall>b < unat (v_nb s). rs ! b = bucket_rec (v_buckets s ! b) \<and> map item_shape (rs ! b) = map item_shape (rs ! 0)"
    and n: "v_nb s' = v_nb s" and f: "fits s' (differing rs) rs" and r: "table_ready s' (differing rs) rs ios m'"
    and t: "tab_of s' (differing rs) t"
    using assms(5,6) by blast
  have b: "b < unat (v_nb s')" "b < length rs" and bs: "\<forall>x \<in> set bs. x < unat (v_nb s')" using assms(7) len n by auto
  define d where "d = enter_all s' t bs c"
  have c': "c' = patch_words t (v_b0 s' + of_nat b) d" by (simp add: c'_def d_def enter_all_def)
  have rd: "table_ready s' (differing rs) rs ios (mem d)"
    using enter_all_ready [OF f t _ refl bs, of ios c] r assms(5) unfolding d_def by simp
  have ok: "distinct (differing rs)" "\<forall>p \<in> set (differing rs). is_word (rs ! 0) p" by (auto simp: distinct_differing differing_iff)
  have x: "x = rs ! b ! i" "i < length (rs ! b)" and sh: "map item_shape (rs ! b) = map item_shape (rs ! 0)"
    using rec [rule_format, of b] assms(7,8) unfolding x_def by auto
  have l0: "length (rs ! 0) = length (rs ! b)" using sh map_eq_imp_length_eq by metis
  have i: "i < length (v_shape s')" using zone_facts(1) [OF f] x(2) l0 by simp
  have shape: "item_shape x = item_shape (rs ! 0 ! i)" using sh x l0 by (metis nth_map)
  have it: "holds (v_table_phys s') (mem c') (seg_at s' (differing rs) rs ios 2 i)"
    using patch_ready [OF f t rd b(1) ok] i unfolding table_ready_def c' by blast
  have q: "q_items t = v_table_phys s' + of_nat (y_items (v_lay s'))" using t by (simp add: tab_of_def)
  have a: "rd c' (q_items t + 8 * of_nat i) = v_table_phys s' + of_nat (y_copy (v_lay s') ! i)"
    and k: "rd c' (q_items t + 8 * of_nat i + 4) = fst (v_shape s' ! i)"
    using it by (simp_all add: holds_def seg_at_simps q rd_def all_less_two add.assoc)
  have "rd c' (rd c' (q_items t + 8 * of_nat i) + 4 * of_nat w) = words x ! w" if w: "w < length (words x)" for w
  proof -
    have "is_word (rs ! 0) (i, w)" using w shape x(2) l0 by (simp add: is_word_def item_shape_def)
    from patch_restores [OF f t rd b refl this]
    have "mem c' (word_addr s' (i, w)) = words x ! w" by (simp add: c' word_of_def x(1))
    then show ?thesis unfolding a by (simp add: rd_def word_addr_def)
  qed
  moreover have "fst (v_shape s' ! i) = code_phys x" using zone_facts(10) [OF f i] shape by (simp add: item_shape_def)
  ultimately show ?thesis unfolding k by blast
qed


text \<open>Two buckets of one list each, which differ in the second word.\<close>
definition sample_rec :: "u32 \<Rightarrow> record_item list" where
  "sample_rec w = [\<lparr>code_phys = 0, words = [7, w]\<rparr>]"

definition sample_io :: rvs_io where
  "sample_io = \<lparr>io_token = 0x100, io_pos = 0x108, io_valid = 0x200, io_logits = 0x300, io_bmax = 0x400, io_vocab = 4, io_nblocks = 2\<rparr>"

definition sample_layout :: table_layout where
  "sample_layout = \<lparr>y_cap = 65, y_copy = [128], y_items = 192, y_words = 256, y_buckets = 576, y_values = 640, y_out = 1216, y_bytes = 1280\<rparr>"

definition sample_sched :: "nat \<Rightarrow> (record_item list \<times> rvs_io) option list \<Rightarrow> rvsched" where
  "sample_sched q bs = \<lparr>v_pad = 4, v_b0 = 0, v_nb = 2, v_max_steps = 2, v_nblocks = 0, v_block = 0, v_pass = q,
     v_buckets = bs, v_rec = zero_recorder, v_shape = (if q = 1 then [] else [(0, 2)]),
     v_lay = (if q = 1 then zero_layout else sample_layout), v_table_phys = (if q = 1 then 0 else 0x10000), v_nwords = 0,
     v_last_pos = 0, v_r5 = None\<rparr>"

definition both_recorded :: "(record_item list \<times> rvs_io) option list" where
  "both_recorded = [Some (sample_rec 1, sample_io), Some (sample_rec 2, sample_io)]"

lemma sample_lists: "replicate 2 x = [x, x]" "[0..<2] = [0, 1 :: nat]" "[0..<1] = [0 :: nat]" "[0..<Suc 0] = [0 :: nat]"
  by (simp_all add: numeral_2_eq_2)

lemma sample_ended:
  assumes "rvs_state (sample_sched q bs)" and "q < 3" and "k < 2"
  shows "rvs_state (sample_sched q (bs[k := Some (sample_rec w, sample_io)]))"
proof -
  let ?r = "\<lparr>dry = True, rec_cap = 64, rec_items = sample_rec w, rec_dropped = 0\<rparr>"
  let ?c = "undefined\<lparr>recording := Some ?r\<rparr> :: unit sa_context"
  have "unat (of_nat k :: u32) = k" using assms(3) by (simp add: unsigned_of_nat take_bit_nat_eq_self)
  moreover have "(of_nat k :: u32) < 2" using assms(3) calculation by (simp add: word_less_nat_alt)
  moreover have "\<not> (2 :: u32) \<le> of_nat k" using calculation by (simp add: not_le)
  ultimately have "fst (sa_rvsched_record_end (sample_sched q bs) ?c (of_nat k) sample_io)
      = sample_sched q (bs[k := Some (sample_rec w, sample_io)])"
    using assms(2) by (simp add: sa_rvsched_record_end_def sample_sched_def Let_def sample_rec_def flip: not_less)
  with ended [OF assms(1), of ?c "of_nat k" sample_io] show ?thesis by simp
qed

lemma sample_both: "rvs_state (sample_sched q [None, None]) \<Longrightarrow> q < 3 \<Longrightarrow> rvs_state (sample_sched q both_recorded)"
  using sample_ended [OF sample_ended [of q "[None, None]" 0 1], of 1 2] by (simp add: both_recorded_def)

lemma sample_diff:
  "v_buckets s = both_recorded \<Longrightarrow> sa_rvs_diff s = Inr ([sample_rec 1, sample_rec 2], [(0, 1)])"
  by (simp add: sa_rvs_diff_def both_recorded_def bucket_rec_def sample_rec_def item_shape_def differing_def word_of_def sample_lists)

lemma sample_state: "rvs_state (sample_sched 2 both_recorded)"
proof -
  have "sa_rvsched_create True True True 4 0 2 2 = Inr (sample_sched 1 [None, None])"
    by (simp add: sa_rvsched_create_def sample_sched_def sample_lists)
  from sample_both [OF created [OF this]] have s: "rvs_state (sample_sched 1 both_recorded)" by simp
  have bk: "v_buckets (sample_sched 1 both_recorded) = both_recorded" by (simp add: sample_sched_def)
  have "make_layout (map (length \<circ> words) (sample_rec 1)) 1 2 2 = sample_layout"
    by (simp add: make_layout_def sample_rec_def align64_def sample_layout_def)
  then have "end_pass_one True (\<lambda>_. Inr 0x10000) None (sample_sched 1 both_recorded) = (sample_sched 2 [None, None], Inr ())"
    unfolding end_pass_one_def sample_diff [OF bk]
    by (simp add: sample_sched_def sa_rvs_clear_def sample_lists) (simp add: sample_rec_def item_shape_def)
  with passed [OF s, of True "\<lambda>_. Inr 0x10000" None undefined] have "rvs_state (sample_sched 2 [None, None])"
    by (simp add: sa_rvsched_end_pass_def sample_sched_def)
  from sample_both [OF this] show ?thesis by simp
qed

definition sample_written :: "u32 \<Rightarrow> u32" where
  "sample_written = fst (snd (sa_rvsched_end_pass True (\<lambda>_. Inr 0) None (sample_sched 2 both_recorded) (\<lambda>_. 0)))"

theorem core_replays_recordings_witness:
  "\<exists>s' t. let c' = enter_all s' t ([1, 0] @ [1]) \<lparr>mem = sample_written, dev = ()\<rparr> in
     rd c' (q_items t + 4) = 0 \<and> rd c' (rd c' (q_items t) + 4) = 2"
proof -
  let ?s = "sample_sched 2 both_recorded" and ?c = "\<lparr>mem = sample_written, dev = ()\<rparr>"
  have bk: "v_buckets ?s = both_recorded" and p: "v_pass ?s = 2" by (simp_all add: sample_sched_def)
  have "\<exists>s'. end_pass_two True ?s (\<lambda>_. 0) = (s', fst (snd (end_pass_two True ?s (\<lambda>_. 0))), Inr ())"
    unfolding end_pass_two_def sample_diff [OF bk] bk Let_def
    by (simp add: both_recorded_def bucket_rec_def sample_sched_def sample_rec_def item_shape_def sample_layout_def bucket_io_def
        check_ios_def sample_io_def r5_words_def)
  then obtain s' where e: "sa_rvsched_end_pass True (\<lambda>_. Inr 0) None ?s (\<lambda>_. 0) = (s', sample_written, Inr ())"
    by (auto simp: sample_written_def sa_rvsched_end_pass_def p)
  have small: "y_bytes (v_lay ?s) \<le> 2 ^ 32" "\<forall>x \<in> set [1, 1, 0]. x < unat (v_nb ?s)" "0 < length (bucket_rec (v_buckets ?s ! 1))"
    by (simp_all add: sample_sched_def sample_layout_def both_recorded_def bucket_rec_def sample_rec_def)
  have m: "mem ?c = sample_written" by simp
  have x: "bucket_rec (v_buckets ?s ! 1) ! 0 = \<lparr>code_phys = 0, words = [7, 2]\<rparr>"
    by (simp add: sample_sched_def both_recorded_def bucket_rec_def sample_rec_def)
  from core_replays_recordings [OF sample_state p e small(1) m refl small(2,3), unfolded x]
  show ?thesis
    by (intro exI [of _ s'] exI [of _ "read_tab ?c (v_table_phys s')"]) (simp add: Let_def, metis Suc_1 lessI nth_Cons_0 nth_Cons_Suc of_nat_1 mult.right_neutral One_nat_def)
qed

end
