(* ===== verification/Mailbox.thy ===== *)
theory Mailbox
  imports Prelude
begin

text \<open>
  The mailbox between the host and the firmware (\<^verbatim>\<open>firmware/include/mailbox.h\<close>): the offsets of its
  words, shared by the resident firmware and the stand-alone ones.
\<close>

definition MBOX_STATUS :: u32 where "MBOX_STATUS = 0x00"
definition MBOX_PERF_COUNT :: u32 where "MBOX_PERF_COUNT = 0x8C"
definition MBOX_RING_BASE :: u32 where "MBOX_RING_BASE = 0xB0"
definition MBOX_RING_SIZE :: u32 where "MBOX_RING_SIZE = 0xB4"
definition MBOX_RING_TAIL :: u32 where "MBOX_RING_TAIL = 0xB8"
definition MBOX_RING_HEAD :: u32 where "MBOX_RING_HEAD = 0xBC"
definition MBOX_CPL_BASE :: u32 where "MBOX_CPL_BASE = 0xC0"
definition MBOX_FW_STATE :: u32 where "MBOX_FW_STATE = 0xC4"
definition MBOX_FW_VERSION :: u32 where "MBOX_FW_VERSION = 0xC8"
definition MBOX_HEARTBEAT :: u32 where "MBOX_HEARTBEAT = 0xCC"
definition MBOX_FW_CAPS :: u32 where "MBOX_FW_CAPS = 0xD0"

text \<open>The words of the GEMM and the vector firmware.\<close>
definition MBOX_A_BASE :: u32 where "MBOX_A_BASE = 0x08"
definition MBOX_B_BASE :: u32 where "MBOX_B_BASE = 0x0C"
definition MBOX_C_BASE :: u32 where "MBOX_C_BASE = 0x10"
definition MBOX_JOBS_DONE :: u32 where "MBOX_JOBS_DONE = 0x14"
definition MBOX_ERRORS :: u32 where "MBOX_ERRORS = 0x18"
definition MBOX_FIRST_ERR :: u32 where "MBOX_FIRST_ERR = 0x1C"
definition MBOX_TOTAL_CYCLES :: u32 where "MBOX_TOTAL_CYCLES = 0x20"
definition MBOX_GEMM_M :: u32 where "MBOX_GEMM_M = 0x30"
definition MBOX_GEMM_N :: u32 where "MBOX_GEMM_N = 0x34"
definition MBOX_GEMM_K :: u32 where "MBOX_GEMM_K = 0x38"
definition MBOX_BIAS_BASE :: u32 where "MBOX_BIAS_BASE = 0x3C"
definition MBOX_EXT_STATUS :: u32 where "MBOX_EXT_STATUS = 0x40"
definition MBOX_V_LEN :: u32 where "MBOX_V_LEN = 0x60"
definition MBOX_V_OP :: u32 where "MBOX_V_OP = 0x64"
definition MBOX_V_TYPES :: u32 where "MBOX_V_TYPES = 0x68"
definition MBOX_V_PERIOD :: u32 where "MBOX_V_PERIOD = 0x6C"
definition MBOX_V_SCALE :: u32 where "MBOX_V_SCALE = 0x70"
definition MBOX_V_SHIFT :: u32 where "MBOX_V_SHIFT = 0x74"
definition MBOX_V_ZP :: u32 where "MBOX_V_ZP = 0x78"
definition MBOX_V_LO :: u32 where "MBOX_V_LO = 0x7C"
definition MBOX_V_HI :: u32 where "MBOX_V_HI = 0x80"
definition MBOX_GEMM_Q :: u32 where "MBOX_GEMM_Q = 0x84"
definition MBOX_GEMM_FLAGS :: u32 where "MBOX_GEMM_FLAGS = 0x88"

definition STATUS_RUNNING :: u32 where "STATUS_RUNNING = 1"
definition STATUS_DONE :: u32 where "STATUS_DONE = 0x600D600D"
definition PERF_AREA_WORDS :: u32 where "PERF_AREA_WORDS = 64"
definition GEMM_NO_PREFETCH :: u32 where "GEMM_NO_PREFETCH = 1"
definition GEMM_NO_BSPLIT :: u32 where "GEMM_NO_BSPLIT = 2"
definition GEMM_FORCE_BSPLIT :: u32 where "GEMM_FORCE_BSPLIT = 4"

lemmas mbox_defs = MBOX_STATUS_def MBOX_PERF_COUNT_def MBOX_RING_BASE_def MBOX_RING_SIZE_def MBOX_RING_TAIL_def
  MBOX_RING_HEAD_def MBOX_CPL_BASE_def MBOX_FW_STATE_def MBOX_FW_VERSION_def MBOX_HEARTBEAT_def MBOX_FW_CAPS_def

lemmas gemm_mbox_defs = MBOX_A_BASE_def MBOX_B_BASE_def MBOX_C_BASE_def MBOX_JOBS_DONE_def MBOX_ERRORS_def
  MBOX_FIRST_ERR_def MBOX_TOTAL_CYCLES_def MBOX_GEMM_M_def MBOX_GEMM_N_def MBOX_GEMM_K_def
  MBOX_BIAS_BASE_def MBOX_EXT_STATUS_def MBOX_V_LEN_def MBOX_V_OP_def MBOX_V_TYPES_def
  MBOX_V_PERIOD_def MBOX_V_SCALE_def MBOX_V_SHIFT_def MBOX_V_ZP_def MBOX_V_LO_def MBOX_V_HI_def
  MBOX_GEMM_Q_def MBOX_GEMM_FLAGS_def

end
