(* ===== verification/RtRing.thy ===== *)
theory RtRing
  imports RvCore Mailbox
begin

text \<open>
  The submission ring between the host and the resident firmware: the host side
  (\<^verbatim>\<open>compiler/runtime/sa/sa_transport_board.c\<close>) writes an entry, rings the doorbell, polls and reads
  the completion record; the firmware (\<^verbatim>\<open>firmware/rt/rt_fw.c\<close>, \<^verbatim>\<open>firmware/include/mailbox.h\<close>) serves the
  entries. DDR is the word memory of \<^verbatim>\<open>RvCore\<close>; the mailbox is a map from its offsets. The custom
  instructions, the status registers and the code that is called are parameters.
\<close>

section \<open>Requests\<close>

definition RT_READY :: u32 where "RT_READY = 0x52554E00"
definition RT_VERSION :: u32 where "RT_VERSION = 7"
definition ERR_NO_L1 :: u32 where "ERR_NO_L1 = 0xDEAD0004"
definition ERR_BAD_RING :: u32 where "ERR_BAD_RING = 0xDEAD0005"
definition RT_RUN_LIST :: u32 where "RT_RUN_LIST = 1"
definition RT_NOP :: u32 where "RT_NOP = 2"
definition RT_RESET :: u32 where "RT_RESET = 3"
definition RT_EXIT :: u32 where "RT_EXIT = 4"
definition RT_RUN_SCHED :: u32 where "RT_RUN_SCHED = 5"
definition RT_CALL :: u32 where "RT_CALL = 6"
definition RT_F_IRQ :: u32 where "RT_F_IRQ = 0x100"
definition RT_F_PERF :: u32 where "RT_F_PERF = 0x200"

section \<open>The firmware\<close>

text \<open>The custom instructions, the counters, the status registers and called code, on DDR and the unit.\<close>
record 'd rt_env =
  mat_submit :: "u32 \<Rightarrow> u32 \<Rightarrow> 'd core \<Rightarrow> 'd core"
  mat_fence :: "u32 \<Rightarrow> 'd core \<Rightarrow> u32 \<times> 'd core"
  mat_reset :: "'d core \<Rightarrow> 'd core"
  mat_cfg :: "u32 \<Rightarrow> u32 \<Rightarrow> 'd core \<Rightarrow> 'd core"
  mat_notify :: "'d core \<Rightarrow> 'd core"
  enter_code :: "u32 \<Rightarrow> u32 \<Rightarrow> u32 \<Rightarrow> 'd core \<Rightarrow> 'd core"
  rdcycle :: "'d core \<Rightarrow> u32 \<times> 'd core"
  rdinstret :: "'d core \<Rightarrow> u32 \<times> 'd core"
  sa_csr :: "u32 \<Rightarrow> 'd core \<Rightarrow> u32 \<times> 'd core"
  sa_caps :: "'d core \<Rightarrow> u32 \<times> 'd core"
  sa_perf_begin :: "'d core \<Rightarrow> 'd core"
  sa_perf_end :: "'d core \<Rightarrow> u32 \<times> 'd core"

text \<open>All engines idle: 0, or the extended status of an error, after a reset.\<close>
definition rt_finish :: "'d rt_env \<Rightarrow> 'd core \<Rightarrow> u32 \<times> 'd core" where
  "rt_finish env c = (let (st, c) = mat_fence env 0 c in if bit st 1 then (st, mat_reset env c) else (0, c))"

definition rt_submit :: "'d rt_env \<Rightarrow> u32 \<Rightarrow> 'd core \<Rightarrow> u32 \<times> 'd core" where
  "rt_submit env l c = rt_finish env (mat_submit env l 0 c)"

definition rt_call :: "'d rt_env \<Rightarrow> u32 \<Rightarrow> u32 \<Rightarrow> 'd core \<Rightarrow> u32 \<times> 'd core" where
  "rt_call env fn args c = rt_finish env (enter_code env fn args (args + 64) c)"

text \<open>The decode schedule's macros as the firmware defines them.\<close>
definition rt_rvs :: "'d rt_env \<Rightarrow> 'd rvs_env" where
  "rt_rvs env = \<lparr>submit = rt_submit env, call_code = rt_call env, cycles = rdcycle env\<rparr>"

text \<open>What an entry leaves for its completion record; \<open>perf_n\<close>: the counters copied, when they were.\<close>
record outcome_words =
  o_status :: u32
  o_cycles :: u32
  o_exec :: u32
  o_dstat :: u32
  o_instret :: u32
  o_perf :: "u32 option"

definition no_outcome :: outcome_words where
  "no_outcome = \<lparr>o_status = 0, o_cycles = 0, o_exec = 0, o_dstat = 0, o_instret = 0, o_perf = None\<rparr>"

definition perf_start :: "'d rt_env \<Rightarrow> bool \<Rightarrow> 'd core \<Rightarrow> 'd core" where
  "perf_start env on c = (if on then sa_perf_begin env c else c)"

definition perf_stop :: "'d rt_env \<Rightarrow> bool \<Rightarrow> 'd core \<Rightarrow> u32 option \<times> 'd core" where
  "perf_stop env on c = (if on then (let (n, c) = sa_perf_end env c in (Some n, c)) else (None, c))"

text \<open>BASE0 to BASE3 from the entry, and PARAM0 to PARAM7 from its parameter block.\<close>
definition load_bases :: "'d rt_env \<Rightarrow> (nat \<Rightarrow> u32) \<Rightarrow> 'd core \<Rightarrow> 'd core" where
  "load_bases env e c = fold (\<lambda>i c. mat_cfg env (11 + of_nat i) (e (6 + 2 * i)) c) [0..<4] c"

definition load_params :: "'d rt_env \<Rightarrow> u32 \<Rightarrow> 'd core \<Rightarrow> 'd core" where
  "load_params env pb c = (if pb = 0 then c else fold (\<lambda>k c. mat_cfg env (27 + of_nat k) (rd c (pb + 4 * of_nat k)) c) [0..<8] c)"

definition serve_list :: "'d rt_env \<Rightarrow> (nat \<Rightarrow> u32) \<Rightarrow> bool \<Rightarrow> 'd core \<Rightarrow> outcome_words \<times> 'd core" where
  "serve_list env e perf c =
     (let c = perf_start env perf (load_params env (e 14) (load_bases env e c));
          (i0, c) = rdinstret env c; (t0, c) = rdcycle env c;
          (st, c) = mat_fence env 0 (mat_submit env (e 2) (e 4) c);
          (t1, c) = rdcycle env c; (i1, c) = rdinstret env c;
          (n, c) = perf_stop env perf c;
          (ex, c) = sa_csr env 0xD0 c; (ds, c) = sa_csr env 0xC8 c;
          err = bit st 1
      in (\<lparr>o_status = (if err then st else 0), o_cycles = t1 - t0, o_exec = ex, o_dstat = ds, o_instret = i1 - i0, o_perf = n\<rparr>,
          if err then mat_reset env c else c))"

definition serve_code :: "'d rt_env \<Rightarrow> u32 \<Rightarrow> (nat \<Rightarrow> u32) \<Rightarrow> bool \<Rightarrow> 'd core \<Rightarrow> outcome_words \<times> 'd core" where
  "serve_code env type e perf c =
     (let c = perf_start env perf c; (i0, c) = rdinstret env c; (t0, c) = rdcycle env c;
          (st, c) = (if type = RT_CALL then rt_call env (e 2) (e 4) c else rvs_run (rt_rvs env) (e 2) c);
          (t1, c) = rdcycle env c; (i1, c) = rdinstret env c; (n, c) = perf_stop env perf c
      in (no_outcome\<lparr>o_status := st, o_cycles := t1 - t0, o_instret := i1 - i0, o_perf := n\<rparr>, c))"

text \<open>One entry, by its type.\<close>
definition serve :: "'d rt_env \<Rightarrow> (nat \<Rightarrow> u32) \<Rightarrow> 'd core \<Rightarrow> outcome_words \<times> 'd core" where
  "serve env e c =
     (let type = e 0 AND 0xFF; perf = (e 0 AND RT_F_PERF \<noteq> 0) in
      if type = RT_RUN_LIST then serve_list env e perf c
      else if type = RT_RUN_SCHED \<or> type = RT_CALL then serve_code env type e perf c
      else if type = RT_RESET then (no_outcome, mat_reset env c)
      else if type \<noteq> RT_NOP \<and> type \<noteq> RT_EXIT then (no_outcome\<lparr>o_status := 0xFFFFFFFF\<rparr>, c)
      else (no_outcome, c))"

record firmware =
  fw_head :: u32
  fw_beat :: u32
  fw_size :: u32
  fw_ring :: u32
  fw_cpl :: u32

text \<open>DDR and the unit, the mailbox, and the firmware (none: it has returned).\<close>
record 'd board =
  bcore :: "'d core"
  mbox :: "u32 \<Rightarrow> u32"
  fw :: "firmware option"

definition fw_boot :: "'d rt_env \<Rightarrow> 'd board \<Rightarrow> 'd board" where
  "fw_boot env b =
     (let (caps, c) = sa_caps env (bcore b);
          m = (mbox b)(MBOX_STATUS := STATUS_RUNNING, MBOX_FW_VERSION := RT_VERSION, MBOX_RING_HEAD := 0, MBOX_FW_CAPS := caps);
          size = m MBOX_RING_SIZE; bad = (size = 0 \<or> size AND (size - 1) \<noteq> 0)
      in if \<not> bit caps 21 \<or> \<not> bit caps 22 \<or> \<not> bit caps 24 \<or> bad then
           \<lparr>bcore = c, mbox = m(MBOX_FW_STATE := (if bad \<and> bit caps 24 then ERR_BAD_RING else ERR_NO_L1), MBOX_STATUS := STATUS_DONE), fw = None\<rparr>
         else
           \<lparr>bcore = mat_reset env c, mbox = m(MBOX_FW_STATE := RT_READY),
            fw = Some \<lparr>fw_head = 0, fw_beat = 0, fw_size = size, fw_ring = m MBOX_RING_BASE, fw_cpl = m MBOX_CPL_BASE\<rparr>\<rparr>)"

text \<open>The completion record: the words after the sequence number, then that.\<close>
definition write_completion :: "u32 \<Rightarrow> u32 \<Rightarrow> outcome_words \<Rightarrow> 'd core \<Rightarrow> 'd core" where
  "write_completion a seq r c =
     wr a seq (wr (a + 28) 0 (wr (a + 24) 0 (wr (a + 20) (o_instret r) (wr (a + 16) (o_dstat r) (wr (a + 12) (o_exec r)
       (wr (a + 8) (o_cycles r) (wr (a + 4) (o_status r) c)))))))"

text \<open>One pass of the firmware's loop.\<close>
definition fw_step :: "'d rt_env \<Rightarrow> 'd board \<Rightarrow> 'd board" where
  "fw_step env b =
     (case fw b of
        None \<Rightarrow> b
      | Some f \<Rightarrow>
          if mbox b MBOX_RING_TAIL = fw_head f then
            b\<lparr>mbox := (mbox b)(MBOX_HEARTBEAT := fw_beat f + 1), fw := Some (f\<lparr>fw_beat := fw_beat f + 1\<rparr>)\<rparr>
          else
            let slot = fw_head f AND (fw_size f - 1);
                e = (\<lambda>i. rd (bcore b) (fw_ring f + 64 * slot + 4 * of_nat i));
                (r, c) = serve env e (bcore b);
                m = (case o_perf r of None \<Rightarrow> mbox b | Some n \<Rightarrow> (mbox b)(MBOX_PERF_COUNT := n));
                c = write_completion (fw_cpl f + 32 * slot) (e 1) r c;
                m = m(MBOX_RING_HEAD := fw_head f + 1);
                c = (if e 0 AND RT_F_IRQ \<noteq> 0 then mat_notify env c else c)
            in if e 0 AND 0xFF = RT_EXIT then \<lparr>bcore = c, mbox = m(MBOX_STATUS := STATUS_DONE), fw = None\<rparr>
               else \<lparr>bcore = c, mbox = m, fw = Some (f\<lparr>fw_head := fw_head f + 1\<rparr>)\<rparr>)"

section \<open>The host\<close>

record host_board =
  ring_entries :: u32
  tail :: u32
  perf_on :: bool
  h_mem_phys :: u32
  h_fw_version :: u32

text \<open>\<open>perf_words\<close>: \<^verbatim>\<open>perf_n\<close>, the counters in the completion.\<close>
record completion_words =
  w_status :: u32
  w_cycles :: u32
  w_descriptors :: u32
  w_end :: u32
  w_instret :: u32
  w_perf_n :: u32

definition SA_BOARD_CPL_OFFSET :: u32 where "SA_BOARD_CPL_OFFSET = 0x2000"

definition wr64 :: "u32 \<Rightarrow> u64 \<Rightarrow> 'd core \<Rightarrow> 'd core" where
  "wr64 a v c = wr (a + 4) (ucast (drop_bit 32 v)) (wr a (ucast v) c)"

text \<open>The entry (type and flags, list or code, argument) at the tail, then the doorbell.\<close>
definition board_submit :: "host_board \<Rightarrow> u32 \<Rightarrow> u32 \<Rightarrow> u32 \<Rightarrow> 'd board \<Rightarrow> host_board \<times> 'd board" where
  "board_submit h tf w1 w2 b =
     (let seq = tail h; a = h_mem_phys h + 64 * (seq mod ring_entries h);
          c = wr64 (a + 8) (zext64 w1) (wr64 a (zext64 tf OR push_bit 32 (zext64 seq)) (bcore b));
          c = wr64 (a + 16) (zext64 w2) c;
          c = fold (\<lambda>i. wr64 (a + 8 * of_nat i) 0) [3..<8] c
      in (h\<lparr>tail := seq + 1\<rparr>, b\<lparr>bcore := c, mbox := (mbox b)(MBOX_RING_TAIL := seq + 1)\<rparr>))"

text \<open>Polling: the firmware makes a pass between two reads of the head; \<open>n\<close> reads before the time is up.\<close>
fun board_poll :: "'d rt_env \<Rightarrow> nat \<Rightarrow> host_board \<Rightarrow> 'd board \<Rightarrow> bool \<times> 'd board" where
  "board_poll env 0 h b = (False, b)"
| "board_poll env (Suc n) h b =
     (if sint (mbox b MBOX_RING_HEAD - tail h) < 0 then board_poll env n h (fw_step env b) else (True, b))"

definition board_perf_n :: "host_board \<Rightarrow> 'd board \<Rightarrow> u32" where
  "board_perf_n h b = (if perf_on h then min 32 (mbox b MBOX_PERF_COUNT) else 0)"

definition completion_word :: "host_board \<Rightarrow> u32 \<Rightarrow> 'd board \<Rightarrow> u32 \<Rightarrow> u32" where
  "completion_word h seq b i = rd (bcore b) (h_mem_phys h + SA_BOARD_CPL_OFFSET + 32 * (seq mod ring_entries h) + 4 * i)"

text \<open>An entry submitted and waited for: the completion record, checked for its sequence number.\<close>
definition board_entry :: "'d rt_env \<Rightarrow> nat \<Rightarrow> u32 \<Rightarrow> u32 \<Rightarrow> u32 \<Rightarrow> host_board \<Rightarrow> 'd board \<Rightarrow> host_board \<times> 'd board \<times> (status + (u32 \<Rightarrow> u32))" where
  "board_entry env n tf w1 w2 h b =
     (let seq = tail h; (h, b) = board_submit h tf w1 w2 b; (ok, b) = board_poll env n h b in
      if \<not> ok then (h, b, Inl DEADLINE_EXCEEDED)
      else if completion_word h seq b 0 \<noteq> seq then (h, b, Inl DATA_LOSS)
      else (h, b, Inr (completion_word h seq b)))"

definition sa_board_run :: "'d rt_env \<Rightarrow> nat \<Rightarrow> u32 \<Rightarrow> host_board \<Rightarrow> 'd board \<Rightarrow> host_board \<times> 'd board \<times> (status + completion_words)" where
  "sa_board_run env n list_phys h b =
     (case board_entry env n (RT_RUN_LIST OR (if perf_on h then RT_F_PERF else 0)) list_phys 0 h b of
        (h, b, Inl e) \<Rightarrow> (h, b, Inl e)
      | (h, b, Inr w) \<Rightarrow> (h, b, Inr \<lparr>w_status = w 1, w_cycles = w 2, w_descriptors = w 3, w_end = w 4,
          w_instret = (if h_fw_version h \<ge> 7 then w 5 else 0), w_perf_n = board_perf_n h b\<rparr>))"

definition sa_board_run_sched ::
  "'d rt_env \<Rightarrow> nat \<Rightarrow> u32 \<Rightarrow> host_board \<Rightarrow> 'd board \<Rightarrow> host_board \<times> 'd board \<times> (status + u32 \<times> completion_words)" where
  "sa_board_run_sched env n table_phys h b =
     (let perf = (perf_on h \<and> h_fw_version h \<ge> 7) in
      case board_entry env n (RT_RUN_SCHED OR (if perf then RT_F_PERF else 0)) table_phys 0 h b of
        (h, b, Inl e) \<Rightarrow> (h, b, Inl e)
      | (h, b, Inr w) \<Rightarrow> (h, b, Inr (w 1, \<lparr>w_status = w 1, w_cycles = w 2, w_descriptors = 0, w_end = 0,
          w_instret = (if h_fw_version h \<ge> 7 then w 5 else 0), w_perf_n = (if perf then board_perf_n h b else 0)\<rparr>)))"

definition sa_board_run_call ::
  "'d rt_env \<Rightarrow> nat \<Rightarrow> u32 \<Rightarrow> u32 \<Rightarrow> host_board \<Rightarrow> 'd board \<Rightarrow> host_board \<times> 'd board \<times> (status + completion_words)" where
  "sa_board_run_call env n code_phys args_phys h b =
     (case board_entry env n (RT_CALL OR (if perf_on h \<and> h_fw_version h \<ge> 7 then RT_F_PERF else 0)) code_phys args_phys h b of
        (h, b, Inl e) \<Rightarrow> (h, b, Inl e)
      | (h, b, Inr w) \<Rightarrow> (h, b, Inr \<lparr>w_status = w 1, w_cycles = w 2, w_descriptors = 0, w_end = 0x5A,
          w_instret = (if h_fw_version h \<ge> 7 then w 5 else 0), w_perf_n = board_perf_n h b\<rparr>))"

text \<open>The device window is a range of 32-bit addresses below 2 GB.\<close>
definition sa_board_check_window :: "u64 \<Rightarrow> u64 \<Rightarrow> status + unit" where
  "sa_board_check_window phys len =
     (if len = 0 \<or> phys > 0x80000000 \<or> len > 0x80000000 - phys then Inl OUT_OF_RANGE else Inr ())"

text \<open>What is attached to the process (\<^verbatim>\<open>sa_board_attached\<close>).\<close>
record attached =
  at_mem :: bool
  at_mbox :: bool
  at_phys :: u32
  at_size :: u32
  at_ring :: u32
  at_d :: u32

text \<open>Opening: the checks on the attached board and its mailbox, and the host's view of the ring.\<close>
definition sa_transport_board_open :: "bool \<Rightarrow> bool \<Rightarrow> attached \<Rightarrow> (u32 \<Rightarrow> u32) \<Rightarrow> status + host_board" where
  "sa_transport_board_open alloc_ok perf a m =
     (if \<not> at_mem a \<or> \<not> at_mbox a then Inl UNAVAILABLE
      else bind_st (sa_board_check_window (zext64 (at_phys a)) (zext64 (at_size a))) (\<lambda>_.
        if \<not> alloc_ok then Inl RESOURCE_EXHAUSTED
        else if m MBOX_FW_STATE \<noteq> RT_READY then Inl FAILED_PRECONDITION
        else if m MBOX_RING_BASE \<noteq> at_phys a \<or> m MBOX_CPL_BASE \<noteq> at_phys a + SA_BOARD_CPL_OFFSET \<or> m MBOX_RING_SIZE \<noteq> at_ring a
        then Inl FAILED_PRECONDITION
        else Inr \<lparr>ring_entries = at_ring a, tail = m MBOX_RING_HEAD, perf_on = perf, h_mem_phys = at_phys a, h_fw_version = m MBOX_FW_VERSION\<rparr>))"

section \<open>The ring's invariant\<close>

lemma rd_wr [simp]: "rd (wr a v c) b = (if b = a then v else rd c b)"
  by (simp add: rd_def wr_def)

text \<open>A power-of-two ring: the host's remainder is the firmware's mask.\<close>
lemma mod_is_and: "n = 2 ^ k \<Longrightarrow> x mod n = x AND (n - 1)" for x :: u32
  by (simp add: take_bit_eq_mod [symmetric] take_bit_eq_mask mask_eq_exp_minus_1)

text \<open>Nothing outstanding, and both sides agree on where the ring is.\<close>
definition ring_idle :: "host_board \<Rightarrow> 'd board \<Rightarrow> bool" where
  "ring_idle h b =
     (case fw b of
        None \<Rightarrow> False
      | Some f \<Rightarrow> fw_head f = tail h \<and> mbox b MBOX_RING_TAIL = tail h \<and> mbox b MBOX_RING_HEAD = tail h \<and>
          fw_size f = ring_entries h \<and> fw_ring f = h_mem_phys h \<and> fw_cpl f = h_mem_phys h + SA_BOARD_CPL_OFFSET \<and>
          list_ex (\<lambda>k. ring_entries h = 2 ^ k) [0..<8])"

lemma ring_idle_cases:
  assumes "ring_idle h b"
  obtains f k where "fw b = Some f" and "fw_head f = tail h" and "mbox b MBOX_RING_TAIL = tail h" and "mbox b MBOX_RING_HEAD = tail h"
    and "fw_size f = ring_entries h" and "fw_ring f = h_mem_phys h" and "fw_cpl f = h_mem_phys h + SA_BOARD_CPL_OFFSET"
    and "ring_entries h = 2 ^ k" and "k < 8"
  using assms by (auto simp: ring_idle_def list_ex_iff split: option.splits)

text \<open>Where entry \<open>seq\<close> lies, and its words as both sides address them.\<close>
definition entry_at :: "host_board \<Rightarrow> u32 \<Rightarrow> u32" where
  "entry_at h seq = h_mem_phys h + 64 * (seq mod ring_entries h)"

definition entry_of :: "host_board \<Rightarrow> u32 \<Rightarrow> 'd core \<Rightarrow> nat \<Rightarrow> u32" where
  "entry_of h seq c i = rd c (entry_at h seq + 4 * of_nat i)"

lemma upt_3_8: "[3..<8] = [3, 4, 5, 6, 7 :: nat]"
  by (simp add: upt_rec)

lemma ucast_or_push: "(ucast (zext64 a OR push_bit 32 (zext64 b)) :: u32) = a"
  by (rule bit_eqI) (auto simp: bit_simps)

lemma ucast_drop_push: "(ucast (drop_bit 32 (zext64 a) OR drop_bit 32 (push_bit 32 (zext64 b))) :: u32) = b"
  by (rule bit_eqI) (auto simp: bit_simps dest: bit_imp_le_length)

lemma ucast_drop_zext: "(ucast (drop_bit 32 (zext64 a)) :: u32) = 0"
  by (rule bit_eqI) (auto simp: bit_simps dest: bit_imp_le_length)

text \<open>The 64-bit stores of the host give the 32-bit words the firmware loads.\<close>
lemma submitted_entry:
  assumes "board_submit h tf w1 w2 b = (h', b')"
  shows "map (entry_of h (tail h) (bcore b')) [0..<16] = [tf, tail h, w1, 0, w2, 0, 0, 0, 0, 0, 0, 0, 0, 0, 0, 0]"
proof -
  have u: "[0..<16] = [0, 1, 2, 3, 4, 5, 6, 7, 8, 9, 10, 11, 12, 13, 14, 15 :: nat]" by (simp add: upt_rec)
  have b: "b' = snd (board_submit h tf w1 w2 b)" using assms by simp
  show ?thesis unfolding u b
    by (simp add: board_submit_def entry_of_def entry_at_def Let_def wr64_def upt_3_8 ucast_or_push ucast_drop_push ucast_drop_zext)
qed

lemma submitted_words:
  assumes "board_submit h tf w1 w2 b = (h', b')"
  shows "entry_of h (tail h) (bcore b') 0 = tf" "entry_of h (tail h) (bcore b') 1 = tail h"
    "entry_of h (tail h) (bcore b') 2 = w1" "entry_of h (tail h) (bcore b') 4 = w2" "entry_of h (tail h) (bcore b') 14 = 0"
proof -
  have "entry_of h (tail h) (bcore b') i = [tf, tail h, w1, 0, w2, 0, 0, 0, 0, 0, 0, 0, 0, 0, 0, 0] ! i" if "i < 16" for i
    using submitted_entry [OF assms] that by (metis (no_types) add_0 length_upt minus_nat.diff_0 nth_map nth_upt)
  then show "entry_of h (tail h) (bcore b') 0 = tf" "entry_of h (tail h) (bcore b') 1 = tail h"
    "entry_of h (tail h) (bcore b') 2 = w1" "entry_of h (tail h) (bcore b') 4 = w2" "entry_of h (tail h) (bcore b') 14 = 0"
    by (simp_all del: nth_Cons_numeral add: nth_Cons')
qed

text \<open>What the firmware makes of the entry: its outcome and the machine after it.\<close>
definition served :: "'d rt_env \<Rightarrow> u32 \<Rightarrow> u32 \<Rightarrow> u32 \<Rightarrow> host_board \<Rightarrow> 'd board \<Rightarrow> outcome_words \<times> 'd core" where
  "served env tf w1 w2 h b =
     (let c = bcore (snd (board_submit h tf w1 w2 b)) in serve env (entry_of h (tail h) c) c)"

definition completed :: "host_board \<Rightarrow> u32 \<Rightarrow> outcome_words \<Rightarrow> 'd core \<Rightarrow> 'd core" where
  "completed h seq r c = write_completion (h_mem_phys h + SA_BOARD_CPL_OFFSET + 32 * (seq mod ring_entries h)) seq r c"

text \<open>The state of the board after the entry: the completion stored, the head advanced.\<close>
definition after_entry :: "'d rt_env \<Rightarrow> u32 \<Rightarrow> u32 \<Rightarrow> u32 \<Rightarrow> host_board \<Rightarrow> 'd board \<Rightarrow> 'd board" where
  "after_entry env tf w1 w2 h b =
     (let (r, c) = served env tf w1 w2 h b; b1 = snd (board_submit h tf w1 w2 b);
          m = (case o_perf r of None \<Rightarrow> mbox b1 | Some n \<Rightarrow> (mbox b1)(MBOX_PERF_COUNT := n))
      in \<lparr>bcore = completed h (tail h) r c, mbox = m(MBOX_RING_HEAD := tail h + 1),
          fw = map_option (\<lambda>f. f\<lparr>fw_head := tail h + 1\<rparr>) (fw b)\<rparr>)"

lemma entry_served:
  assumes idle: "ring_idle h b" and irq: "tf AND RT_F_IRQ = 0" and ex: "tf AND 0xFF \<noteq> RT_EXIT"
  shows "fw_step env (snd (board_submit h tf w1 w2 b)) = after_entry env tf w1 w2 h b"
proof -
  obtain f k where f: "fw b = Some f" "fw_head f = tail h" "fw_size f = ring_entries h" "fw_ring f = h_mem_phys h"
    "fw_cpl f = h_mem_phys h + SA_BOARD_CPL_OFFSET" "ring_entries h = 2 ^ k"
    using idle by (rule ring_idle_cases)
  let ?b1 = "snd (board_submit h tf w1 w2 b)"
  have b1: "fw ?b1 = Some f" "mbox ?b1 MBOX_RING_TAIL = tail h + 1"
    using f(1) by (simp_all add: board_submit_def Let_def)
  have slot: "tail h AND (ring_entries h - 1) = tail h mod ring_entries h" by (rule mod_is_and [OF f(6), symmetric])
  have e: "(\<lambda>i. rd (bcore ?b1) (h_mem_phys h + 64 * (tail h mod ring_entries h) + 4 * of_nat i)) = entry_of h (tail h) (bcore ?b1)"
    by (simp add: fun_eq_iff entry_of_def entry_at_def)
  have w: "entry_of h (tail h) (bcore ?b1) 0 = tf" "entry_of h (tail h) (bcore ?b1) 1 = tail h"
    by (rule submitted_words [OF prod.collapse [symmetric]])+
  obtain r c where rc: "serve env (entry_of h (tail h) (bcore ?b1)) (bcore ?b1) = (r, c)" by fastforce
  show ?thesis
    unfolding fw_step_def b1 option.case f(2-5) slot Let_def e rc prod.case w after_entry_def served_def completed_def f(1) option.map
    using irq ex w [unfolded entry_of_def entry_at_def] by simp
qed

lemma submit_tail: "fst (board_submit h tf w1 w2 b) = h\<lparr>tail := tail h + 1\<rparr>"
  by (simp add: board_submit_def Let_def)

lemma after_idle:
  assumes "ring_idle h b"
  shows "ring_idle (h\<lparr>tail := tail h + 1\<rparr>) (after_entry env tf w1 w2 h b)"
  using assms by (auto simp: ring_idle_def after_entry_def board_submit_def Let_def mbox_defs split: option.splits prod.splits)

lemma polled:
  assumes idle: "ring_idle h b" and irq: "tf AND RT_F_IRQ = 0" and ex: "tf AND 0xFF \<noteq> RT_EXIT"
  shows "board_poll env (n + 2) (h\<lparr>tail := tail h + 1\<rparr>) (snd (board_submit h tf w1 w2 b)) = (True, after_entry env tf w1 w2 h b)"
proof -
  let ?b1 = "snd (board_submit h tf w1 w2 b)" and ?b2 = "after_entry env tf w1 w2 h b"
  have "mbox ?b1 MBOX_RING_HEAD = tail h"
    using idle by (auto simp: ring_idle_def board_submit_def Let_def mbox_defs split: option.splits)
  then have 1: "sint (mbox ?b1 MBOX_RING_HEAD - (tail h + 1)) < 0" by simp
  have "mbox ?b2 MBOX_RING_HEAD = tail h + 1" by (simp add: after_entry_def Let_def split_def)
  then have 2: "\<not> sint (mbox ?b2 MBOX_RING_HEAD - (tail h + 1)) < 0" by simp
  show ?thesis using 1 2 entry_served [OF assms, of env w1 w2] by (simp add: numeral_2_eq_2)
qed

text \<open>The words of the completion record.\<close>
definition completion_list :: "u32 \<Rightarrow> outcome_words \<Rightarrow> u32 list" where
  "completion_list seq r = [seq, o_status r, o_cycles r, o_exec r, o_dstat r, o_instret r, 0, 0]"

lemma record_words:
  "rd (write_completion a seq r c) a = seq" "rd (write_completion a seq r c) (a + 4) = o_status r"
  "rd (write_completion a seq r c) (a + 8) = o_cycles r" "rd (write_completion a seq r c) (a + 12) = o_exec r"
  "rd (write_completion a seq r c) (a + 16) = o_dstat r" "rd (write_completion a seq r c) (a + 20) = o_instret r"
  by (simp_all add: write_completion_def)

lemma completed_words:
  assumes "ring_entries h' = ring_entries h" "h_mem_phys h' = h_mem_phys h" "bcore b = completed h seq r c"
  shows "completion_word h' seq b 0 = seq" "completion_word h' seq b 1 = o_status r" "completion_word h' seq b 2 = o_cycles r"
    "completion_word h' seq b 3 = o_exec r" "completion_word h' seq b 4 = o_dstat r" "completion_word h' seq b 5 = o_instret r"
proof -
  define p where "p = h_mem_phys h + SA_BOARD_CPL_OFFSET + 32 * (seq mod ring_entries h)"
  have w: "completion_word h' seq b i = rd (write_completion p seq r c) (p + 4 * i)" for i
    using assms by (simp only: completion_word_def completed_def p_def)
  show "completion_word h' seq b 0 = seq" "completion_word h' seq b 1 = o_status r" "completion_word h' seq b 2 = o_cycles r"
    "completion_word h' seq b 3 = o_exec r" "completion_word h' seq b 4 = o_dstat r" "completion_word h' seq b 5 = o_instret r"
    using record_words [of p seq r c] by (simp_all add: w)
qed

text \<open>An entry on an idle ring is served once, by the second read of the head, and leaves the ring idle.\<close>
lemma board_entry_serves:
  assumes idle: "ring_idle h b" and n: "2 \<le> n" and irq: "tf AND RT_F_IRQ = 0" and ex: "tf AND 0xFF \<noteq> RT_EXIT"
  shows "board_entry env n tf w1 w2 h b =
    (h\<lparr>tail := tail h + 1\<rparr>, after_entry env tf w1 w2 h b,
     Inr (completion_word (h\<lparr>tail := tail h + 1\<rparr>) (tail h) (after_entry env tf w1 w2 h b)))"
proof -
  from n obtain m where m: "n = m + 2" by (metis add.commute le_Suc_ex)
  have c: "bcore (after_entry env tf w1 w2 h b) = completed h (tail h) (fst (served env tf w1 w2 h b)) (snd (served env tf w1 w2 h b))"
    by (simp add: after_entry_def Let_def split_def)
  obtain b1 where b1: "board_submit h tf w1 w2 b = (h\<lparr>tail := tail h + 1\<rparr>, b1)"
    using submit_tail [of h tf w1 w2 b] by (cases "board_submit h tf w1 w2 b") simp
  have p: "board_poll env n (h\<lparr>tail := tail h + 1\<rparr>) b1 = (True, after_entry env tf w1 w2 h b)"
    using polled [OF idle irq ex, of env m w1 w2] b1 m by simp
  show ?thesis
    unfolding board_entry_def b1 Let_def prod.case p using completed_words(1) [OF _ _ c, of "h\<lparr>tail := tail h + 1\<rparr>"] by simp
qed

section \<open>Requests\<close>

datatype request =
    RunList u32
  | RunSched u32
  | RunCall u32 u32

text \<open>The transport's three operations on the host's and the board's state.\<close>
fun board_request :: "'d rt_env \<Rightarrow> nat \<Rightarrow> request \<Rightarrow> host_board \<times> 'd board \<Rightarrow> (host_board \<times> 'd board) \<times> (status + completion_words)" where
  "board_request env n (RunList l) (h, b) = (let (h, b, r) = sa_board_run env n l h b in ((h, b), r))"
| "board_request env n (RunSched t) (h, b) = (let (h, b, r) = sa_board_run_sched env n t h b in ((h, b), bind_st r (\<lambda>(st, w). Inr w)))"
| "board_request env n (RunCall c a) (h, b) = (let (h, b, r) = sa_board_run_call env n c a h b in ((h, b), r))"

text \<open>The words of the entry the transport writes for a request: type and flags, list or code, argument.\<close>
fun entry_words :: "host_board \<Rightarrow> request \<Rightarrow> u32 \<times> u32 \<times> u32" where
  "entry_words h (RunList l) = (RT_RUN_LIST OR (if perf_on h then RT_F_PERF else 0), l, 0)"
| "entry_words h (RunSched t) = (RT_RUN_SCHED OR (if perf_on h \<and> h_fw_version h \<ge> 7 then RT_F_PERF else 0), t, 0)"
| "entry_words h (RunCall c a) = (RT_CALL OR (if perf_on h \<and> h_fw_version h \<ge> 7 then RT_F_PERF else 0), c, a)"

lemma entry_flags:
  assumes "entry_words h q = (tf, w1, w2)"
  shows "tf AND RT_F_IRQ = 0" and "tf AND 0xFF \<noteq> RT_EXIT"
proof -
  have "tf \<in> {1, 0x201, 5, 0x205, 6, 0x206}"
  proof (cases q)
    case (RunList l)
    then show ?thesis using assms by (cases "perf_on h") (simp_all add: RT_RUN_LIST_def RT_F_PERF_def)
  next
    case (RunSched t)
    then show ?thesis using assms by (cases "perf_on h \<and> h_fw_version h \<ge> 7") (simp_all add: RT_RUN_SCHED_def RT_F_PERF_def)
  next
    case (RunCall c a)
    then show ?thesis using assms by (cases "perf_on h \<and> h_fw_version h \<ge> 7") (simp_all add: RT_CALL_def RT_F_PERF_def)
  qed
  then show "tf AND RT_F_IRQ = 0" and "tf AND 0xFF \<noteq> RT_EXIT" by (auto simp: RT_F_IRQ_def RT_EXIT_def)
qed

text \<open>What a request returns for the firmware's outcome.\<close>
definition reported :: "host_board \<Rightarrow> request \<Rightarrow> outcome_words \<Rightarrow> 'd board \<Rightarrow> completion_words" where
  "reported h q r b =
     \<lparr>w_status = o_status r, w_cycles = o_cycles r,
      w_descriptors = (case q of RunList l \<Rightarrow> o_exec r | _ \<Rightarrow> 0),
      w_end = (case q of RunList l \<Rightarrow> o_dstat r | RunSched t \<Rightarrow> 0 | RunCall c a \<Rightarrow> 0x5A),
      w_instret = (if h_fw_version h \<ge> 7 then o_instret r else 0),
      w_perf_n = (case q of RunSched t \<Rightarrow> (if h_fw_version h \<ge> 7 then board_perf_n h b else 0) | _ \<Rightarrow> board_perf_n h b)\<rparr>"

lemma request_on_idle:
  assumes idle: "ring_idle h b" and n: "2 \<le> n" and e: "entry_words h q = (tf, w1, w2)"
  shows "board_request env n q (h, b) =
    ((h\<lparr>tail := tail h + 1\<rparr>, after_entry env tf w1 w2 h b),
     Inr (reported h q (fst (served env tf w1 w2 h b)) (after_entry env tf w1 w2 h b)))"
proof -
  let ?b = "after_entry env tf w1 w2 h b" and ?h = "h\<lparr>tail := tail h + 1\<rparr>"
  have c: "bcore ?b = completed h (tail h) (fst (served env tf w1 w2 h b)) (snd (served env tf w1 w2 h b))"
    by (simp add: after_entry_def Let_def split_def)
  note s = board_entry_serves [OF idle n entry_flags [OF e], of env w1 w2]
  note w = completed_words [OF _ _ c, of ?h, simplified]
  have p: "board_perf_n ?h ?b = board_perf_n h ?b" by (simp add: board_perf_n_def)
  show ?thesis
  proof (cases q)
    case (RunList l)
    with e have t: "RT_RUN_LIST OR (if perf_on h then RT_F_PERF else 0) = tf" and l: "l = w1" and w2: "w2 = 0" by auto
    show ?thesis
      unfolding RunList l board_request.simps sa_board_run_def t s [unfolded w2] Let_def prod.case sum.case w2
      by (simp add: w [unfolded w2] p [unfolded w2] reported_def)
  next
    case (RunSched l)
    with e have t: "RT_RUN_SCHED OR (if perf_on h \<and> h_fw_version h \<ge> 7 then RT_F_PERF else 0) = tf" and l: "l = w1" and w2: "w2 = 0"
      by auto
    show ?thesis
      unfolding RunSched l board_request.simps sa_board_run_sched_def Let_def t s [unfolded w2] prod.case sum.case w2
      by (simp add: w [unfolded w2] p [unfolded w2] reported_def board_perf_n_def)
  next
    case (RunCall c a)
    with e have t: "RT_CALL OR (if perf_on h \<and> h_fw_version h \<ge> 7 then RT_F_PERF else 0) = tf" and l: "c = w1" "a = w2" by auto
    show ?thesis
      unfolding RunCall l board_request.simps sa_board_run_call_def t s Let_def prod.case sum.case by (simp add: w p reported_def)
  qed
qed

text \<open>Requests made one after another, up to the first that fails.\<close>
fun ask_all :: "('q \<Rightarrow> 's \<Rightarrow> 's \<times> ('e + 'a)) \<Rightarrow> 'q list \<Rightarrow> 's \<Rightarrow> 's \<times> ('e + 'a list)" where
  "ask_all ask [] s = (s, Inr [])"
| "ask_all ask (q # qs) s =
     (case ask q s of
        (s, Inl e) \<Rightarrow> (s, Inl e)
      | (s, Inr a) \<Rightarrow> (let (s, r) = ask_all ask qs s in (s, bind_st r (\<lambda>as. Inr (a # as)))))"

text \<open>A port that answers every request it is ready for and is ready again.\<close>
locale request_port =
  fixes ready :: "'s \<Rightarrow> bool" and ask :: "'q \<Rightarrow> 's \<Rightarrow> 's \<times> ('e + 'a)"
  assumes answers: "ready s \<Longrightarrow> \<exists>s' a. ask q s = (s', Inr a) \<and> ready s'"
begin

lemma all_answered:
  "ready s \<Longrightarrow> \<exists>s' as. ask_all ask qs s = (s', Inr as) \<and> length as = length qs \<and> ready s'"
proof (induction qs arbitrary: s)
  case Nil
  then show ?case by simp
next
  case (Cons q qs)
  from answers [OF Cons.prems, of q] obtain s1 a where 1: "ask q s = (s1, Inr a)" "ready s1" by blast
  from Cons.IH [OF 1(2)] 1(1) show ?case by auto
qed

end

interpretation board: request_port "\<lambda>(h, b). ring_idle h b" "board_request env (n + 2)" for env :: "'d rt_env" and n
proof unfold_locales
  fix s :: "host_board \<times> 'd board" and q
  assume s: "case s of (h, b) \<Rightarrow> ring_idle h b"
  obtain h b where hb: "s = (h, b)" by (cases s)
  obtain tf w1 w2 where e: "entry_words h q = (tf, w1, w2)" by (cases "entry_words h q") auto
  show "\<exists>s' a. board_request env (n + 2) q s = (s', Inr a) \<and> (case s' of (h, b) \<Rightarrow> ring_idle h b)"
    using request_on_idle [OF _ _ e, of b "n + 2" env] after_idle [of h b env tf w1 w2] s by (simp add: hb)
qed

text \<open>Starting the firmware and opening the transport.\<close>
lemma booted_ring:
  "mbox (fw_boot env b) MBOX_FW_STATE = RT_READY \<Longrightarrow> mbox b MBOX_RING_TAIL = 0 \<Longrightarrow>
    \<exists>f. fw (fw_boot env b) = Some f \<and> fw_head f = 0 \<and> mbox (fw_boot env b) MBOX_RING_TAIL = 0 \<and> mbox (fw_boot env b) MBOX_RING_HEAD = 0 \<and>
      fw_size f = mbox (fw_boot env b) MBOX_RING_SIZE \<and> fw_ring f = mbox (fw_boot env b) MBOX_RING_BASE \<and>
      fw_cpl f = mbox (fw_boot env b) MBOX_CPL_BASE \<and> fw_size f \<noteq> 0 \<and> fw_size f AND (fw_size f - 1) = 0"
  by (simp add: fw_boot_def Let_def split_def mbox_defs RT_READY_def ERR_BAD_RING_def ERR_NO_L1_def split: if_splits)

lemma open_facts:
  assumes "sa_transport_board_open alloc_ok perf a m = Inr h"
  shows "m MBOX_FW_STATE = RT_READY" "m MBOX_RING_BASE = h_mem_phys h" "m MBOX_CPL_BASE = h_mem_phys h + SA_BOARD_CPL_OFFSET"
    "m MBOX_RING_SIZE = ring_entries h" "tail h = m MBOX_RING_HEAD" "ring_entries h = at_ring a"
  using assms by (auto simp: sa_transport_board_open_def bind_st_Inr_iff split: if_splits)

lemma small_powers:
  "list_all (\<lambda>i. let n = word_of_int i :: u32 in n \<noteq> 0 \<longrightarrow> n AND (n - 1) = 0 \<longrightarrow> n \<in> set [1, 2, 4, 8, 16, 32, 64, 128]) [0..128]"
  by code_simp

lemma small_power:
  fixes n :: u32
  assumes "n \<le> 128" "n \<noteq> 0" "n AND (n - 1) = 0"
  shows "list_ex (\<lambda>k. n = 2 ^ k) [0..<8]"
proof -
  have "uint n \<in> {0..128}" using assms(1) by (simp add: word_le_def)
  with small_powers have "let n = word_of_int (uint n) :: u32 in n \<noteq> 0 \<longrightarrow> n AND (n - 1) = 0 \<longrightarrow> n \<in> set [1, 2, 4, 8, 16, 32, 64, 128]"
    unfolding list_all_iff set_upto by (rule bspec)
  then have n: "n \<in> set [1, 2, 4, 8, 16, 32, 64, 128]" using assms(2,3) by (simp add: Let_def)
  have u: "[0..<8] = [0, 1, 2, 3, 4, 5, 6, 7 :: nat]" by (simp add: upt_rec)
  show ?thesis using n unfolding u by auto
qed

lemma poll_stopped:
  "fw b = None \<Longrightarrow> sint (mbox b MBOX_RING_HEAD - tail h) < 0 \<Longrightarrow> board_poll env n h b = (False, b)"
  by (induction n) (auto simp: fw_step_def)

text \<open>A small board for the witnesses: a ring of 8 entries at 0x10000, the last sequence number next, nothing executed.\<close>
definition quiet_env :: "unit rt_env" where
  "quiet_env =
     \<lparr>mat_submit = (\<lambda>l n c. c), mat_fence = (\<lambda>m c. (0, c)), mat_reset = (\<lambda>c. c), mat_cfg = (\<lambda>i v c. c), mat_notify = (\<lambda>c. c),
      enter_code = (\<lambda>f a p c. c), rdcycle = (\<lambda>c. (0, c)), rdinstret = (\<lambda>c. (0, c)), sa_csr = (\<lambda>i c. (0, c)),
      sa_caps = (\<lambda>c. (0x1600000, c)), sa_perf_begin = (\<lambda>c. c), sa_perf_end = (\<lambda>c. (0, c))\<rparr>"

definition quiet_host :: host_board where
  "quiet_host = \<lparr>ring_entries = 8, tail = 0xFFFFFFFF, perf_on = False, h_mem_phys = 0x10000, h_fw_version = 7\<rparr>"

definition quiet_board :: "unit board" where
  "quiet_board =
     \<lparr>bcore = \<lparr>mem = (\<lambda>a. 0), dev = ()\<rparr>,
      mbox = (\<lambda>a. 0)(MBOX_RING_BASE := 0x10000, MBOX_CPL_BASE := 0x12000, MBOX_RING_SIZE := 8, MBOX_RING_TAIL := 0xFFFFFFFF, MBOX_RING_HEAD := 0xFFFFFFFF),
      fw = Some \<lparr>fw_head = 0xFFFFFFFF, fw_beat = 0, fw_size = 8, fw_ring = 0x10000, fw_cpl = 0x12000\<rparr>\<rparr>"

lemmas quiet_defs = quiet_env_def quiet_host_def quiet_board_def

lemma quiet_idle: "ring_idle quiet_host quiet_board"
  using bexI [of "\<lambda>k. (8 :: u32) = 2 ^ k" 3 "{0..<8}"]
  by (simp add: ring_idle_def quiet_defs mbox_defs SA_BOARD_CPL_OFFSET_def list_ex_iff)

section \<open>Properties\<close>

text \<open>
  C7. A request on an idle ring (list, decode schedule or generated code) returns, when the head is
  read at least twice, what the firmware's service of exactly the entry's words gave: status, cycles,
  counters; the memory it left, with the completion record stored, is the memory after, and the ring
  is idle again, whatever the called code did to the memory.
\<close>
theorem request_refines_service:
  assumes "ring_idle h b" and "2 \<le> n" and "entry_words h q = (tf, w1, w2)"
  shows "\<exists>b'. board_request env n q (h, b) = ((h\<lparr>tail := tail h + 1\<rparr>, b'), Inr (reported h q (fst (served env tf w1 w2 h b)) b'))
    \<and> bcore b' = completed h (tail h) (fst (served env tf w1 w2 h b)) (snd (served env tf w1 w2 h b))
    \<and> map (entry_of h (tail h) (bcore (snd (board_submit h tf w1 w2 b)))) [0..<16] = [tf, tail h, w1, 0, w2, 0, 0, 0, 0, 0, 0, 0, 0, 0, 0, 0]
    \<and> ring_idle (h\<lparr>tail := tail h + 1\<rparr>) b'"
  using request_on_idle [OF assms, of env] after_idle [OF assms(1), of env tf w1 w2]
    submitted_entry [OF prod.collapse [symmetric], of h tf w1 w2 b]
  by (simp add: after_entry_def Let_def split_def)

theorem request_refines_service_witness:
  "\<exists>b'. board_request quiet_env 2 (RunCall 0x11000 0x12000) (quiet_host, quiet_board) =
      ((quiet_host\<lparr>tail := tail quiet_host + 1\<rparr>, b'),
       Inr (reported quiet_host (RunCall 0x11000 0x12000) (fst (served quiet_env 6 0x11000 0x12000 quiet_host quiet_board)) b'))
    \<and> ring_idle (quiet_host\<lparr>tail := tail quiet_host + 1\<rparr>) b'"
proof -
  have "entry_words quiet_host (RunCall 0x11000 0x12000) = (6, 0x11000, 0x12000)" by (simp add: quiet_host_def RT_CALL_def)
  from request_refines_service [OF quiet_idle order_refl this, of quiet_env] show ?thesis by blast
qed

text \<open>
  C8. Once the ring is idle, every sequence of requests is answered, one completion for each, and the
  ring is idle after it: no request waits for ever, through any number of wraps of the 32-bit sequence
  numbers and of the ring.
\<close>
theorem every_request_answered:
  assumes "ring_idle h b"
  shows "\<exists>h' b' outs. ask_all (board_request env (n + 2)) qs (h, b) = ((h', b'), Inr outs) \<and> length outs = length qs \<and> ring_idle h' b'"
  using board.all_answered [of "(h, b)" env n qs] assms by auto

theorem every_request_answered_witness:
  "\<exists>h' b' outs. ask_all (board_request quiet_env (0 + 2)) [RunList 0x10000, RunSched 0x10040] (quiet_host, quiet_board) = ((h', b'), Inr outs)
    \<and> length outs = 2"
  using every_request_answered [OF quiet_idle, of quiet_env 0 "[RunList 0x10000, RunSched 0x10040]"] by auto

text \<open>
  C33. The firmware started with the doorbell at 0 and the board opened on its mailbox (a ring of at most
  128 entries): the opening succeeds only when the firmware runs, and then the ring is idle.
\<close>
theorem opened_board_idle:
  assumes "mbox b MBOX_RING_TAIL = 0" and "at_ring a \<le> 128"
    and "sa_transport_board_open alloc_ok perf a (mbox (fw_boot env b)) = Inr h"
  shows "ring_idle h (fw_boot env b)"
  using assms(1) open_facts [OF assms(3)] booted_ring [of env b] small_power [OF assms(2)] by (auto simp: ring_idle_def)

theorem opened_board_idle_witness:
  "ring_idle (quiet_host\<lparr>tail := 0\<rparr>) (fw_boot quiet_env (quiet_board\<lparr>mbox := (mbox quiet_board)(MBOX_RING_TAIL := 0)\<rparr>))"
  by (rule opened_board_idle [of _ "\<lparr>at_mem = True, at_mbox = True, at_phys = 0x10000, at_size = 0x20000, at_ring = 8, at_d = 16\<rparr>" True False])
    (simp_all add: sa_transport_board_open_def sa_board_check_window_def fw_boot_def quiet_defs Let_def mbox_defs SA_BOARD_CPL_OFFSET_def
      RT_READY_def RT_VERSION_def bit_iff_odd_drop_bit)

text \<open>
  C34. When the firmware has stopped (an \<^verbatim>\<open>RT_EXIT\<close> entry, or it never started) a request ends with
  \<^verbatim>\<open>DEADLINE_EXCEEDED\<close> after any number of reads.
\<close>
theorem stopped_firmware_times_out:
  assumes "fw b = None" and "mbox b MBOX_RING_HEAD = tail h"
  shows "snd (board_request env n q (h, b)) = Inl DEADLINE_EXCEEDED"
proof -
  have "board_entry env n tf w1 w2 h b = (h\<lparr>tail := tail h + 1\<rparr>, snd (board_submit h tf w1 w2 b), Inl DEADLINE_EXCEEDED)" for tf w1 w2
  proof -
    obtain b1 where b1: "board_submit h tf w1 w2 b = (h\<lparr>tail := tail h + 1\<rparr>, b1)"
      using submit_tail [of h tf w1 w2 b] by (cases "board_submit h tf w1 w2 b") simp
    then have "fw b1 = None" "mbox b1 MBOX_RING_HEAD = tail h"
      using assms by (auto simp: board_submit_def Let_def mbox_defs)
    then have "board_poll env n (h\<lparr>tail := tail h + 1\<rparr>) b1 = (False, b1)" by (simp add: poll_stopped)
    then show ?thesis unfolding board_entry_def b1 Let_def prod.case by simp
  qed
  then show ?thesis
    by (cases q) (simp_all add: sa_board_run_def sa_board_run_sched_def sa_board_run_call_def Let_def)
qed

theorem stopped_firmware_times_out_witness:
  "snd (board_request quiet_env 100 (RunList 0x10000) (quiet_host, quiet_board\<lparr>fw := None\<rparr>)) = Inl DEADLINE_EXCEEDED"
  by (rule stopped_firmware_times_out) (simp_all add: quiet_defs mbox_defs)

end
