(* ===== verification/CommandBuffer.thy ===== *)
theory CommandBuffer
  imports Loader
begin

text \<open>
  The command buffer (\<^verbatim>\<open>compiler/runtime/sa/sa_command_buffer.c\<close>): dispatches are appended to the
  context's batch, barriers become a fence before the next dispatch, commands of the host and
  dispatches of host executables first submit what is queued. The buffers' memory is part of the
  device's state; mapping, filling, writing and copying of IREE buffers and the code of host
  executables are parameters.
\<close>

section \<open>Commands\<close>

text \<open>A buffer reference: the buffer (none: NULL), its offset and length.\<close>
record buffer_ref =
  b_buffer :: "nat option"
  b_offset :: u64
  b_length :: u64

record dispatch_config =
  workgroup_size :: "u32 \<times> u32 \<times> u32"
  workgroup_count :: "u32 \<times> u32 \<times> u32"
  dynamic_local :: u64

record dispatch_attrs =
  at_constants :: nat
  at_bindings :: nat
  at_pages :: u64

text \<open>What a host executable is issued with (\<^verbatim>\<open>iree_hal_executable_dispatch_state_v0_t\<close>).\<close>
record dispatch_state =
  d_size :: "u32 \<times> u32 \<times> u32"
  d_count :: "u32 \<times> u32 \<times> u32"
  d_constants :: "u8 list"
  d_bindings :: "(u64 \<times> u64) list"
  d_local :: u64

text \<open>An executable is one of this driver or a host executable; handles for both.\<close>
datatype executable_ref = SaExecutable nat | HostExecutable nat

datatype command =
    ExecutionBarrier
  | SignalEvent
  | ResetEvent
  | WaitEvents
  | AdviseBuffer
  | FillBuffer buffer_ref "u8 list"
  | UpdateBuffer "u8 list" u64 buffer_ref
  | CopyBuffer buffer_ref buffer_ref
  | Collective
  | Dispatch bool executable_ref nat dispatch_config "u8 list" "buffer_ref list"

record 'dev cb_env =
  he :: "'dev host_env"
  map_range :: "nat \<Rightarrow> u64 \<Rightarrow> u64 \<Rightarrow> status + u64 \<times> u64"
  map_fill :: "buffer_ref \<Rightarrow> u8 list \<Rightarrow> 'dev \<Rightarrow> 'dev \<times> (status + unit)"
  map_write :: "buffer_ref \<Rightarrow> u8 list \<Rightarrow> u64 \<Rightarrow> 'dev \<Rightarrow> 'dev \<times> (status + unit)"
  map_copy :: "buffer_ref \<Rightarrow> buffer_ref \<Rightarrow> 'dev \<Rightarrow> 'dev \<times> (status + unit)"
  host_attrs :: "nat \<Rightarrow> nat \<Rightarrow> dispatch_attrs option"
  host_name :: "nat \<Rightarrow> nat \<Rightarrow> string"
  issue_inline :: "nat \<Rightarrow> nat \<Rightarrow> dispatch_state \<Rightarrow> 'dev \<Rightarrow> 'dev \<times> (status + unit)"
  local_alloc_ok :: "u64 \<Rightarrow> bool"
  page_size :: u64

text \<open>The context the buffer records to, the executables (whose exports remember lookups) and the code image.\<close>
record 'dev cb_state =
  ctx :: "'dev sa_context"
  executables :: "nat \<Rightarrow> executable"
  image :: rv

definition cb_flush :: "'dev cb_env \<Rightarrow> 'dev sa_context \<Rightarrow> 'dev sa_context \<times> (status + unit)" where
  "cb_flush ce c = sa_context_batch_flush (run (he ce)) (profiling (he ce)) (grow_ok (he ce)) (copy_ok (he ce)) (elapsed (he ce)) c"

section \<open>Host commands\<close>

text \<open>The queued dispatches run first; \<open>op\<close>: what is then done to the memory.\<close>
definition host_command :: "'dev cb_env \<Rightarrow> ('dev \<Rightarrow> 'dev \<times> (status + unit)) \<Rightarrow> 'dev sa_context \<Rightarrow> 'dev sa_context \<times> (status + unit)" where
  "host_command ce op c =
     (case cb_flush ce c of
        (c1, Inl e) \<Rightarrow> (c1, Inl e)
      | (c1, Inr _) \<Rightarrow>
          (let (dev, st) = op (device c1) in (c1\<lparr>device := dev, host_ops := host_ops c1 + 1\<rparr>, st)))"

definition sa_command_buffer_fill_buffer :: "'dev cb_env \<Rightarrow> buffer_ref \<Rightarrow> u8 list \<Rightarrow> 'dev sa_context \<Rightarrow> 'dev sa_context \<times> (status + unit)" where
  "sa_command_buffer_fill_buffer ce t pattern = host_command ce (map_fill ce t pattern)"

definition sa_command_buffer_update_buffer :: "'dev cb_env \<Rightarrow> u8 list \<Rightarrow> u64 \<Rightarrow> buffer_ref \<Rightarrow> 'dev sa_context \<Rightarrow> 'dev sa_context \<times> (status + unit)" where
  "sa_command_buffer_update_buffer ce src off t = host_command ce (map_write ce t src off)"

definition sa_command_buffer_copy_buffer :: "'dev cb_env \<Rightarrow> buffer_ref \<Rightarrow> buffer_ref \<Rightarrow> 'dev sa_context \<Rightarrow> 'dev sa_context \<times> (status + unit)" where
  "sa_command_buffer_copy_buffer ce s t = host_command ce (map_copy ce s t)"

section \<open>Dispatches\<close>

text \<open>A binding mapped: the NULL buffer is refused.\<close>
definition map_binding :: "'dev cb_env \<Rightarrow> buffer_ref \<Rightarrow> status + u64 \<times> u64" where
  "map_binding ce b =
     (case b_buffer b of None \<Rightarrow> Inl FAILED_PRECONDITION | Some h \<Rightarrow> map_range ce h (b_offset b) (b_length b))"

definition at_least_one :: "u32 \<Rightarrow> u32" where
  "at_least_one x = (if x \<noteq> 0 then x else 1)"

text \<open>The name of the profile row, cut to the 96 bytes of the buffer.\<close>
definition host_row :: "string \<Rightarrow> string" where
  "host_row name = ''host:'' @ take 90 name"

definition sa_command_buffer_dispatch_host ::
  "'dev cb_env \<Rightarrow> nat \<Rightarrow> nat \<Rightarrow> dispatch_config \<Rightarrow> u8 list \<Rightarrow> buffer_ref list \<Rightarrow> 'dev sa_context \<Rightarrow> 'dev sa_context \<times> (status + unit)" where
  "sa_command_buffer_dispatch_host ce exe ordinal cfg cs bs c =
     (case cb_flush ce c of
        (c1, Inl e) \<Rightarrow> (c1, Inl e)
      | (c1, Inr _) \<Rightarrow>
          (let attrs = (case host_attrs ce exe ordinal of None \<Rightarrow> \<lparr>at_constants = 0, at_bindings = 0, at_pages = 0\<rparr> | Some a \<Rightarrow> a) in
           if length cs mod 4 \<noteq> 0 \<or> length cs \<noteq> 4 * at_constants attrs then (c1, Inl INVALID_ARGUMENT)
           else if length bs \<noteq> at_bindings attrs \<or> length bs > 32 then (c1, Inl INVALID_ARGUMENT)
           else case map_st (map_binding ce) bs of
                  Inl e \<Rightarrow> (c1, Inl e)
                | Inr ms \<Rightarrow>
                    (let bytes = at_pages attrs * page_size ce + dynamic_local cfg in
                     if bytes \<noteq> 0 \<and> \<not> local_alloc_ok ce bytes then (c1, Inl RESOURCE_EXHAUSTED)
                     else
                       let (x, y, z) = workgroup_size cfg;
                           (dev, st) = issue_inline ce exe ordinal
                             \<lparr>d_size = (at_least_one x, at_least_one y, at_least_one z), d_count = workgroup_count cfg,
                              d_constants = cs, d_bindings = ms, d_local = bytes\<rparr> (device c1);
                           c2 = c1\<lparr>device := dev, host_dispatches := host_dispatches c1 + 1\<rparr>
                       in case st of
                            Inl e \<Rightarrow> (c2, Inl e)
                          | Inr _ \<Rightarrow>
                              (c2\<lparr>prof := sa_context_profile_record (profiling (he ce)) (prof c2) (host_row (host_name ce exe ordinal))
                                          0 (elapsed (he ce)) None\<rparr>, Inr ()))))"

text \<open>The 32-bit little-endian constants.\<close>
fun constant_words :: "u8 list \<Rightarrow> u32 list" where
  "constant_words (a # b # c # d # cs) = (ucast a OR push_bit 8 (ucast b) OR push_bit 16 (ucast c) OR push_bit 24 (ucast d)) # constant_words cs"
| "constant_words _ = []"

definition sa_command_buffer_dispatch ::
  "'dev cb_env \<Rightarrow> bool \<Rightarrow> executable_ref \<Rightarrow> nat \<Rightarrow> dispatch_config \<Rightarrow> u8 list \<Rightarrow> buffer_ref list \<Rightarrow> 'dev cb_state
     \<Rightarrow> ('dev cb_state \<times> (status + unit)) option" where
  "sa_command_buffer_dispatch ce custom ex ordinal cfg cs bs s =
     (if custom then Some (s, Inl UNIMPLEMENTED)
      else case ex of
        HostExecutable h \<Rightarrow>
          (let (c, st) = sa_command_buffer_dispatch_host ce h ordinal cfg cs bs (ctx s) in Some (s\<lparr>ctx := c\<rparr>, st))
      | SaExecutable h \<Rightarrow>
          (if length cs mod 4 \<noteq> 0 then Some (s, Inl INVALID_ARGUMENT)
           else if length bs > 16 then Some (s, Inl OUT_OF_RANGE)
           else case map_st (map_binding ce) bs of
                  Inl e \<Rightarrow> Some (s, Inl e)
                | Inr ms \<Rightarrow>
                    (case sa_executable_append (he ce) True (ctx s) (executables s h) (image s) ordinal ms (constant_words cs) of
                       None \<Rightarrow> None
                     | Some (c, e, r, st) \<Rightarrow> Some (\<lparr>ctx = c, executables = (executables s)(h := e), image = r\<rparr>, st))))"

section \<open>The buffer\<close>

definition on_ctx :: "('dev sa_context \<Rightarrow> 'dev sa_context \<times> (status + unit)) \<Rightarrow> 'dev cb_state \<Rightarrow> ('dev cb_state \<times> (status + unit)) option" where
  "on_ctx f s = (let (c, st) = f (ctx s) in Some (s\<lparr>ctx := c\<rparr>, st))"

definition barrier_now :: "'dev sa_context \<Rightarrow> 'dev sa_context \<times> (status + unit)" where
  "barrier_now c = (sa_context_batch_barrier c, Inr ())"

text \<open>The operation of each command (\<^verbatim>\<open>sa_command_buffer_vtable\<close>).\<close>
fun cb_command :: "'dev cb_env \<Rightarrow> command \<Rightarrow> 'dev cb_state \<Rightarrow> ('dev cb_state \<times> (status + unit)) option" where
  "cb_command ce ExecutionBarrier s = on_ctx barrier_now s"
| "cb_command ce WaitEvents s = on_ctx barrier_now s"
| "cb_command ce SignalEvent s = Some (s, Inr ())"
| "cb_command ce ResetEvent s = Some (s, Inr ())"
| "cb_command ce AdviseBuffer s = Some (s, Inr ())"
| "cb_command ce (FillBuffer t p) s = on_ctx (sa_command_buffer_fill_buffer ce t p) s"
| "cb_command ce (UpdateBuffer src off t) s = on_ctx (sa_command_buffer_update_buffer ce src off t) s"
| "cb_command ce (CopyBuffer a b) s = on_ctx (sa_command_buffer_copy_buffer ce a b) s"
| "cb_command ce Collective s = Some (s, Inl UNIMPLEMENTED)"
| "cb_command ce (Dispatch custom ex ordinal cfg cs bs) s = sa_command_buffer_dispatch ce custom ex ordinal cfg cs bs s"

text \<open>\<^verbatim>\<open>sa_command_buffer_begin\<close> and \<^verbatim>\<open>sa_command_buffer_end\<close>.\<close>
definition sa_command_buffer_begin :: "'dev cb_env \<Rightarrow> 'dev cb_state \<Rightarrow> ('dev cb_state \<times> (status + unit)) option" where
  "sa_command_buffer_begin ce = on_ctx (cb_flush ce)"

definition sa_command_buffer_end :: "'dev cb_env \<Rightarrow> 'dev cb_state \<Rightarrow> ('dev cb_state \<times> (status + unit)) option" where
  "sa_command_buffer_end ce = on_ctx (cb_flush ce)"

text \<open>Steps one after another, up to the first that fails.\<close>
definition and_then ::
  "('s \<Rightarrow> ('s \<times> (status + unit)) option) \<Rightarrow> ('s \<Rightarrow> ('s \<times> (status + unit)) option) \<Rightarrow> 's \<Rightarrow> ('s \<times> (status + unit)) option" where
  "and_then f g s =
     (case f s of None \<Rightarrow> None | Some (s1, Inl e) \<Rightarrow> Some (s1, Inl e) | Some (s1, Inr _) \<Rightarrow> g s1)"

fun in_turn :: "('s \<Rightarrow> ('s \<times> (status + unit)) option) list \<Rightarrow> 's \<Rightarrow> ('s \<times> (status + unit)) option" where
  "in_turn [] s = Some (s, Inr ())"
| "in_turn (f # fs) s = and_then f (in_turn fs) s"

definition cb_execute :: "'dev cb_env \<Rightarrow> command list \<Rightarrow> 'dev cb_state \<Rightarrow> ('dev cb_state \<times> (status + unit)) option" where
  "cb_execute ce ks = in_turn (sa_command_buffer_begin ce # map (cb_command ce) ks @ [sa_command_buffer_end ce])"

text \<open>The reference: every command followed by a submission, nothing is ever batched with another.\<close>
definition cb_unbatched :: "'dev cb_env \<Rightarrow> command list \<Rightarrow> 'dev cb_state \<Rightarrow> ('dev cb_state \<times> (status + unit)) option" where
  "cb_unbatched ce ks =
     in_turn (sa_command_buffer_begin ce # map (\<lambda>k. and_then (cb_command ce k) (sa_command_buffer_end ce)) ks)"

section \<open>Batching is unobservable\<close>

text \<open>A device that runs a submitted batch as its dispatches in order, \<open>eff\<close> what each does to it.\<close>
definition in_order :: "'dev transport_run \<Rightarrow> (dispatch \<Rightarrow> 'dev \<Rightarrow> 'dev) \<Rightarrow> bool" where
  "in_order rn eff \<longleftrightarrow> (\<forall>dev p es. rn dev p (batch_rows es) = (fold eff (map e_d es) dev, Inr (completion_end 0x5A)))"

text \<open>The device once the queue is submitted.\<close>
definition drained :: "(dispatch \<Rightarrow> 'dev \<Rightarrow> 'dev) \<Rightarrow> 'dev sa_context \<Rightarrow> 'dev" where
  "drained eff c = fold eff (map e_d (entries c)) (device c)"

text \<open>The fields the operations decide on; the queue and the counters are not among them.\<close>
definition frame :: "'dev sa_context \<Rightarrow> transport \<times> u32 \<times> u32 \<times> nat \<times> nat \<times> bool \<times> recorder option" where
  "frame c = (transport c, list_phys c, batch_phys c, list_capacity c, batch_capacity c, entries_ready c, recording c)"

text \<open>Contexts that no later command can tell apart.\<close>
definition same_ctx :: "'dev host_env \<Rightarrow> (dispatch \<Rightarrow> 'dev \<Rightarrow> 'dev) \<Rightarrow> 'dev sa_context \<Rightarrow> 'dev sa_context \<Rightarrow> bool" where
  "same_ctx h eff c d \<longleftrightarrow> frame c = frame d \<and> recording c = None \<and> drained eff c = drained eff d
     \<and> (if immediate h then entries c = [] \<and> entries d = [] else True)"

definition same_result :: "'dev host_env \<Rightarrow> (dispatch \<Rightarrow> 'dev \<Rightarrow> 'dev) \<Rightarrow> 'dev sa_context \<times> (status + unit) \<Rightarrow> 'dev sa_context \<times> (status + unit) \<Rightarrow> bool" where
  "same_result h eff r q \<longleftrightarrow> same_ctx h eff (fst r) (fst q) \<and> snd r = snd q"

lemma same_sym: "same_ctx h eff c d \<Longrightarrow> same_ctx h eff d c"
  by (auto simp: same_ctx_def frame_def split: if_splits)

lemma same_trans: "same_ctx h eff c d \<Longrightarrow> same_ctx h eff d e \<Longrightarrow> same_ctx h eff c e"
  by (auto simp: same_ctx_def frame_def split: if_splits)

lemma flushed:
  assumes io: "in_order rn eff" and r: "recording c = None"
  shows "\<exists>c'. sa_context_batch_flush rn env g m ns c = (c', Inr ()) \<and> entries c' = [] \<and> device c' = drained eff c \<and> frame c' = frame c"
proof (cases "entries c = []")
  case True
  then show ?thesis by (simp add: sa_context_batch_flush_def drained_def frame_def)
next
  case False
  obtain hs s where b: "sa_batch_build (entries c) = (hs, s)" by fastforce
  have rows: "map (cmd_row hs) (cmds s) = batch_rows (entries c)" by (simp add: batch_rows_def b)
  have run: "rn (device c) (batch_phys c) (batch_rows (entries c)) = (drained eff c, Inr (completion_end 0x5A))"
    using io by (simp add: in_order_def drained_def)
  have d: "sa_record_list g m rs c = c" for rs using r by (simp add: sa_record_list_def)
  show ?thesis using False r
    by (simp add: sa_context_batch_flush_def b Let_def rows d run dry_run_def flush_status_def completion_end_def frame_def)
qed

lemma flush_cases:
  assumes "in_order rn eff" and "recording c = None"
  obtains c' where "sa_context_batch_flush rn env g m ns c = (c', Inr ())" and "entries c' = []"
    and "device c' = drained eff c" and "frame c' = frame c"
  using flushed [OF assms] by blast

lemma flush_same:
  assumes "in_order (run (he ce)) eff" and "same_ctx (he ce) eff c d"
  shows "\<exists>c' d'. cb_flush ce c = (c', Inr ()) \<and> cb_flush ce d = (d', Inr ()) \<and> entries c' = [] \<and> entries d' = [] \<and> device c' = device d'
    \<and> same_ctx (he ce) eff c c' \<and> same_ctx (he ce) eff c' d'"
proof -
  have r: "recording c = None" "recording d = None" using assms(2) by (auto simp: same_ctx_def frame_def)
  obtain c' where c: "cb_flush ce c = (c', Inr ())" "entries c' = []" "device c' = drained eff c" "frame c' = frame c"
    unfolding cb_flush_def by (rule flush_cases [OF assms(1) r(1)])
  obtain d' where d: "cb_flush ce d = (d', Inr ())" "entries d' = []" "device d' = drained eff d" "frame d' = frame d"
    unfolding cb_flush_def by (rule flush_cases [OF assms(1) r(2)])
  have "recording c' = None" using c(4) r by (simp add: frame_def)
  then show ?thesis using assms(2) c d r by (auto simp: same_ctx_def drained_def)
qed

text \<open>Two evaluations that branch on the same values.\<close>
lemma rel_branch:
  "(b \<Longrightarrow> R x y) \<Longrightarrow> (\<not> b \<Longrightarrow> R x' y') \<Longrightarrow> R (if b then x else x') (if b then y else y')"
  "(\<And>e. R (f e) (f' e)) \<Longrightarrow> (\<And>v. R (g v) (g' v)) \<Longrightarrow> R (case_sum f g l) (case_sum f' g' l)"
  "(\<And>u v. R (p u v) (p' u v)) \<Longrightarrow> R (case_prod p z) (case_prod p' z)"
  "R n n' \<Longrightarrow> (\<And>v. R (k v) (k' v)) \<Longrightarrow> R (case_option n k m) (case_option n' k' m)"
  by (auto split: sum.split prod.split option.split)

lemma same_now:
  assumes "entries c = []" "entries d = []" "device c = device d" "frame c = frame d" "recording d = None"
  shows "same_ctx h eff c d"
  using assms by (simp add: same_ctx_def drained_def frame_def)

lemma same_resultI: "same_ctx h eff c d \<Longrightarrow> same_result h eff (c, st) (d, st)"
  by (simp add: same_result_def)

lemma host_command_same:
  assumes "in_order (run (he ce)) eff" and "same_ctx (he ce) eff c d"
  shows "same_result (he ce) eff (host_command ce op c) (host_command ce op d)"
proof -
  from flush_same [OF assms] obtain c' d' where f: "cb_flush ce c = (c', Inr ())" "cb_flush ce d = (d', Inr ())"
    "entries c' = []" "entries d' = []" "device c' = device d'" "same_ctx (he ce) eff c' d'" by blast
  show ?thesis using f(3-6)
    by (auto simp: host_command_def f(1,2) same_result_def same_ctx_def frame_def drained_def split_def Let_def split: if_splits)
qed

lemma dispatch_host_same:
  assumes "in_order (run (he ce)) eff" and "same_ctx (he ce) eff c d"
  shows "same_result (he ce) eff (sa_command_buffer_dispatch_host ce x k cfg cs bs c) (sa_command_buffer_dispatch_host ce x k cfg cs bs d)"
proof -
  from flush_same [OF assms] obtain c' d' where f: "cb_flush ce c = (c', Inr ())" "cb_flush ce d = (d', Inr ())"
    "entries c' = []" "entries d' = []" "device c' = device d'" "same_ctx (he ce) eff c' d'" by blast
  have fr: "frame c' = frame d'" "recording d' = None" using f(6) by (auto simp: same_ctx_def frame_def)
  have ran: "same_ctx (he ce) eff (c'\<lparr>device := dev, host_dispatches := m\<rparr>) (d'\<lparr>device := dev, host_dispatches := n\<rparr>)" for dev m n
    by (rule same_now) (use f(3,4) fr in \<open>simp_all add: frame_def\<close>)
  have row: "same_ctx (he ce) eff (c'\<lparr>device := dev, host_dispatches := m, prof := p\<rparr>) (d'\<lparr>device := dev, host_dispatches := n, prof := q\<rparr>)" for dev m n p q
    by (rule same_now) (use f(3,4) fr in \<open>simp_all add: frame_def\<close>)
  show ?thesis
    unfolding sa_command_buffer_dispatch_host_def f(1,2) Let_def prod.case sum.case f(5)
    by (intro rel_branch [where R = "same_result (he ce) eff"] same_resultI f(6) ran row)
qed

lemma batch_added:
  assumes io: "in_order rn eff" and r: "recording c = None"
  shows "\<exists>c'. frame c' = frame (c\<lparr>entries_ready := True\<rparr>) \<and> drained eff c' = eff x (drained eff c)
    \<and> sa_context_batch_add rn env g m ns ok c x =
        (if length (regs x) > 24 \<or> length (reads x) > 16 \<or> length (writes x) > 16 \<or> length (prefix_reads x) > 16 then (c, Inl OUT_OF_RANGE)
         else if \<not> entries_ready c \<and> \<not> ok then (c, Inl RESOURCE_EXHAUSTED) else (c', Inr ()))"
proof -
  let ?e = "c\<lparr>entries_ready := True\<rparr>"
  have re: "recording ?e = None" using r by simp
  from flushed [OF io re, of env g m ns] obtain f where f: "sa_context_batch_flush rn env g m ns ?e = (f, Inr ())" "entries f = []"
    "device f = drained eff ?e" "frame f = frame ?e" by blast
  have d: "drained eff ?e = drained eff c" "device ?e = device c" "entries ?e = entries c" by (simp_all add: drained_def)
  define over where "over \<longleftrightarrow> length (entries ?e) = entry_capacity \<or> entry_descriptors ?e + sa_entry_descriptors x + 1 > batch_capacity ?e"
  define c2 where "c2 = (if over then f else ?e)"
  have c2: "(if over then sa_context_batch_flush rn env g m ns ?e else (?e, Inr ())) = (c2, Inr ())"
    by (simp add: c2_def f)
  have p: "frame c2 = frame ?e" "drained eff c2 = drained eff c"
    using f(2-4) d by (auto simp: c2_def drained_def)
  let ?put = "c2\<lparr>entries := entries c2 @ [\<lparr>e_d = x, barrier = batch_fence c2, host = None, hosted = False\<rparr>],
    batch_fence := False, entry_descriptors := entry_descriptors c2 + sa_entry_descriptors x, dispatches := dispatches c2 + 1\<rparr>"
  have "frame ?put = frame ?e" "drained eff ?put = eff x (drained eff c)"
    using p by (simp_all add: frame_def drained_def)
  moreover have "sa_context_batch_add rn env g m ns ok c x =
        (if length (regs x) > 24 \<or> length (reads x) > 16 \<or> length (writes x) > 16 \<or> length (prefix_reads x) > 16 then (c, Inl OUT_OF_RANGE)
         else if \<not> entries_ready c \<and> \<not> ok then (c, Inl RESOURCE_EXHAUSTED) else (?put, Inr ()))"
    unfolding sa_context_batch_add_def Let_def over_def [symmetric] c2 by simp
  ultimately show ?thesis by blast
qed

lemma same_recording: "same_ctx h eff c d \<Longrightarrow> recording c = None \<and> recording d = None"
  by (auto simp: same_ctx_def frame_def)

lemma batch_add_same:
  assumes io: "in_order rn eff" and s: "same_ctx h eff c d" and i: "\<not> immediate h"
  shows "same_result h eff (sa_context_batch_add rn env g m ns ok c x) (sa_context_batch_add rn env g m ns ok d x)"
proof -
  have ready: "entries_ready c = entries_ready d" using s by (simp add: same_ctx_def frame_def)
  note r = same_recording [OF s]
  obtain c' where c: "frame c' = frame (c\<lparr>entries_ready := True\<rparr>)" "drained eff c' = eff x (drained eff c)"
    "sa_context_batch_add rn env g m ns ok c x =
        (if length (regs x) > 24 \<or> length (reads x) > 16 \<or> length (writes x) > 16 \<or> length (prefix_reads x) > 16 then (c, Inl OUT_OF_RANGE)
         else if \<not> entries_ready c \<and> \<not> ok then (c, Inl RESOURCE_EXHAUSTED) else (c', Inr ()))"
    using batch_added [OF io conjunct1 [OF r]] by blast
  obtain d' where d: "frame d' = frame (d\<lparr>entries_ready := True\<rparr>)" "drained eff d' = eff x (drained eff d)"
    "sa_context_batch_add rn env g m ns ok d x =
        (if length (regs x) > 24 \<or> length (reads x) > 16 \<or> length (writes x) > 16 \<or> length (prefix_reads x) > 16 then (d, Inl OUT_OF_RANGE)
         else if \<not> entries_ready d \<and> \<not> ok then (d, Inl RESOURCE_EXHAUSTED) else (d', Inr ()))"
    using batch_added [OF io conjunct2 [OF r]] by blast
  have "same_ctx h eff c' d'" using s i c(1,2) d(1,2) r by (auto simp: same_ctx_def frame_def)
  then show ?thesis unfolding same_result_def c(3) d(3) ready using s by simp
qed

lemma run_now_same:
  assumes s: "same_ctx h eff c d" and i: "immediate h"
  shows "same_result h eff (sa_export_run_now h c x ps) (sa_export_run_now h d x ps)"
proof -
  have e: "entries c = []" "entries d = []" "device c = device d" "recording c = None" "recording d = None"
    "list_capacity c = list_capacity d" "list_phys c = list_phys d" "frame c = frame d"
    using s i by (auto simp: same_ctx_def frame_def drained_def)
  have l: "sa_record_list g m rs c = c" "sa_record_list g m rs d = d" for g m rs using e(4,5) by (simp_all add: sa_record_list_def)
  have dry: "dry_run c = False" "dry_run d = False" using e(4,5) by (simp_all add: dry_run_def)
  have ran: "same_ctx h eff (c\<lparr>device := dev, dispatches := m, lists := m'\<rparr>) (d\<lparr>device := dev, dispatches := n, lists := n'\<rparr>)" for dev m n m' n'
    by (rule same_now) (use e in \<open>simp_all add: frame_def\<close>)
  have row: "same_ctx h eff (c\<lparr>device := dev, dispatches := m, lists := m', prof := p\<rparr>) (d\<lparr>device := dev, dispatches := n, lists := n', prof := q\<rparr>)" for dev m n m' n' p q
    by (rule same_now) (use e in \<open>simp_all add: frame_def\<close>)
  obtain dv r where dv: "run h (device d) (list_phys d) (dispatch_rows (sa_export_dispatch x ps [])) = (dv, r)" by fastforce
  show ?thesis
    unfolding sa_export_run_now_def sa_context_dispatch_def Let_def l dry e(3,6,7) if_False dv prod.case
    by (cases r) (simp_all add: same_result_def s ran row Let_def)
qed

lemma rv_call_same:
  assumes io: "in_order rn eff" and s: "same_ctx h eff c d"
  shows "same_result h eff (sa_rv_call rn rc env g m ns r c name fn code binds cs) (sa_rv_call rn rc env g m ns r d name fn code binds cs)"
proof -
  note rec = same_recording [OF s]
  from flushed [OF io conjunct1 [OF rec], of env g m ns]
  obtain c' where c: "sa_context_batch_flush rn env g m ns c = (c', Inr ())" "entries c' = []" "device c' = drained eff c" "frame c' = frame c"
    by blast
  from flushed [OF io conjunct2 [OF rec], of env g m ns]
  obtain d' where d: "sa_context_batch_flush rn env g m ns d = (d', Inr ())" "entries d' = []" "device d' = drained eff d" "frame d' = frame d"
    by blast
  have e: "device c' = device d'" "frame c' = frame d'" "recording c' = None" "recording d' = None"
    using s c d by (auto simp: same_ctx_def frame_def)
  have u: "c'\<lparr>recording := map_option f (recording c')\<rparr> = c'" "d'\<lparr>recording := map_option f (recording d')\<rparr> = d'" for f
    using e(3,4) by simp_all
  have dry: "dry_run c' = False" "dry_run d' = False" using e(3,4) by (simp_all add: dry_run_def)
  have ran: "same_ctx h eff (c'\<lparr>device := dev, dispatches := k, rv_calls := k'\<rparr>) (d'\<lparr>device := dev, dispatches := n, rv_calls := n'\<rparr>)" for dev k n k' n'
    by (rule same_now) (use c(2) d(2) e in \<open>simp_all add: frame_def\<close>)
  have row: "same_ctx h eff (c'\<lparr>device := dev, dispatches := k, rv_calls := k', prof := p\<rparr>) (d'\<lparr>device := dev, dispatches := n, rv_calls := n', prof := q\<rparr>)" for dev k n k' n' p q
    by (rule same_now) (use c(2) d(2) e in \<open>simp_all add: frame_def\<close>)
  show ?thesis
    unfolding sa_rv_call_def c(1) d(1) prod.case sum.case Let_def u dry if_False e(1)
    by (intro rel_branch [where R = "same_result h eff"] same_resultI s) (simp_all add: ran row)
qed

text \<open>Results of steps on the buffer's state: both undefined, or the same status and states that agree.\<close>
definition same_state :: "'dev host_env \<Rightarrow> (dispatch \<Rightarrow> 'dev \<Rightarrow> 'dev) \<Rightarrow> 'dev cb_state \<Rightarrow> 'dev cb_state \<Rightarrow> bool" where
  "same_state h eff s t \<longleftrightarrow> same_ctx h eff (ctx s) (ctx t) \<and> executables s = executables t \<and> image s = image t"

definition agree :: "'dev host_env \<Rightarrow> (dispatch \<Rightarrow> 'dev \<Rightarrow> 'dev) \<Rightarrow> ('dev cb_state \<times> (status + unit)) option \<Rightarrow> ('dev cb_state \<times> (status + unit)) option \<Rightarrow> bool" where
  "agree h eff r q =
     (case (r, q) of
        (None, None) \<Rightarrow> True
      | (Some (s, st), Some (t, st')) \<Rightarrow> st = st' \<and> same_state h eff s t
      | _ \<Rightarrow> False)"

lemma same_result_pair:
  assumes "same_result h eff r q"
  obtains c d st where "r = (c, st)" "q = (d, st)" "same_ctx h eff c d"
  using assms by (cases r; cases q) (auto simp: same_result_def)

definition same_append :: "'dev host_env \<Rightarrow> (dispatch \<Rightarrow> 'dev \<Rightarrow> 'dev) \<Rightarrow> ('dev sa_context \<times> executable \<times> rv \<times> (status + unit)) option
    \<Rightarrow> ('dev sa_context \<times> executable \<times> rv \<times> (status + unit)) option \<Rightarrow> bool" where
  "same_append h eff = rel_option (\<lambda>(c, e, r, st) (d, e', r', st'). same_ctx h eff c d \<and> e = e' \<and> r = r' \<and> st = st')"

lemma append_same:
  assumes io: "in_order (run h) eff" and s: "same_ctx h eff c d"
  shows "same_append h eff (sa_executable_append h isa c e r ordinal bs cs) (sa_executable_append h isa d e r ordinal bs cs)"
proof -
  have t: "transport c = transport d" using s by (simp add: same_ctx_def frame_def)
  have lift: "same_append h eff (case p of (c1, st) \<Rightarrow> Some (c1, e1, r1, st)) (case q of (c1, st) \<Rightarrow> Some (c1, e1, r1, st))"
    if "same_result h eff p q" for p q e1 r1
    using that by (rule same_result_pair) (simp add: same_append_def)
  have same: "same_append h eff (Some (c, z)) (Some (d, z))" "same_append h eff None None" for z
    using s by (simp_all add: same_append_def split_def)
  have add: "same_result h eff
      (if immediate h then sa_export_run_now h c x ps else sa_context_batch_add (run h) (profiling h) (grow_ok h) (copy_ok h) (elapsed h) (calloc_ok h) c y)
      (if immediate h then sa_export_run_now h d x ps else sa_context_batch_add (run h) (profiling h) (grow_ok h) (copy_ok h) (elapsed h) (calloc_ok h) d y)" for x ps y
    by (intro rel_branch(1) [where R = "same_result h eff"] run_now_same batch_add_same io s)
  show ?thesis
    unfolding sa_executable_append_def Let_def t
    by (intro rel_branch [where R = "same_append h eff"] same lift add rv_call_same io s)
qed

lemma command_agree:
  assumes io: "in_order (run (he ce)) eff" and s: "same_state (he ce) eff s t"
  shows "agree (he ce) eff (cb_command ce k s) (cb_command ce k t)"
proof -
  have c: "same_ctx (he ce) eff (ctx s) (ctx t)" and e: "executables s = executables t" "image s = image t"
    using s by (simp_all add: same_state_def)
  have on: "agree (he ce) eff (on_ctx f s) (on_ctx f t)" if "same_result (he ce) eff (f (ctx s)) (f (ctx t))" for f
    using that by (rule same_result_pair) (simp add: on_ctx_def agree_def same_state_def e)
  have bar: "same_result (he ce) eff (barrier_now (ctx s)) (barrier_now (ctx t))"
    using c by (auto simp: barrier_now_def sa_context_batch_barrier_def same_result_def same_ctx_def frame_def drained_def split: if_splits)
  have stop: "agree (he ce) eff (Some (s, st)) (Some (t, st))" for st using s by (simp add: agree_def)
  have app: "agree (he ce) eff
      (case sa_executable_append (he ce) True (ctx s) (executables t h) (image t) n ms ws of None \<Rightarrow> None
       | Some (c, e, r, st) \<Rightarrow> Some (\<lparr>ctx = c, executables = (executables t)(h := e), image = r\<rparr>, st))
      (case sa_executable_append (he ce) True (ctx t) (executables t h) (image t) n ms ws of None \<Rightarrow> None
       | Some (c, e, r, st) \<Rightarrow> Some (\<lparr>ctx = c, executables = (executables t)(h := e), image = r\<rparr>, st))" for h n ms ws
    using append_same [OF io c, of True "executables t h" "image t" n ms ws]
    by (auto simp: same_append_def agree_def same_state_def split: option.splits elim!: option.rel_cases)
  have host: "agree (he ce) eff (let (c, st) = f (ctx s) in Some (s\<lparr>ctx := c\<rparr>, st)) (let (c, st) = f (ctx t) in Some (t\<lparr>ctx := c\<rparr>, st))"
    if "same_result (he ce) eff (f (ctx s)) (f (ctx t))" for f
    using on [OF that] by (simp add: on_ctx_def)
  show ?thesis
  proof (cases k)
    case (Dispatch custom ex ordinal cfg cs bs)
    show ?thesis
    proof (cases ex)
      case (HostExecutable h)
      then show ?thesis unfolding Dispatch cb_command.simps sa_command_buffer_dispatch_def
        using host [of "sa_command_buffer_dispatch_host ce h ordinal cfg cs bs", OF dispatch_host_same [OF io c]] stop by simp
    next
      case (SaExecutable h)
      show ?thesis unfolding Dispatch cb_command.simps sa_command_buffer_dispatch_def e SaExecutable executable_ref.case
        by (intro rel_branch [where R = "agree (he ce) eff"] stop app)
    qed
  qed (simp_all add: on bar stop sa_command_buffer_fill_buffer_def sa_command_buffer_update_buffer_def sa_command_buffer_copy_buffer_def
      host_command_same [OF io c])
qed

lemma end_same:
  assumes io: "in_order (run (he ce)) eff" and s: "same_state (he ce) eff s t"
  shows "\<exists>s'. sa_command_buffer_end ce s = Some (s', Inr ()) \<and> entries (ctx s') = [] \<and> same_state (he ce) eff s' t"
proof -
  have c: "same_ctx (he ce) eff (ctx s) (ctx t)" using s by (simp add: same_state_def)
  from flush_same [OF io c] obtain c' where f: "cb_flush ce (ctx s) = (c', Inr ())" "entries c' = []" "same_ctx (he ce) eff (ctx s) c'"
    by blast
  have "same_ctx (he ce) eff c' (ctx t)" using same_trans [OF same_sym [OF f(3)] c] .
  then show ?thesis using s f(1,2) by (simp add: sa_command_buffer_end_def on_ctx_def same_state_def)
qed

lemma state_sym: "same_state h eff s t \<Longrightarrow> same_state h eff t s"
  by (simp add: same_state_def same_sym)

lemma commands_agree:
  assumes io: "in_order (run (he ce)) eff" and "same_state (he ce) eff s t"
  shows "agree (he ce) eff (in_turn (map (cb_command ce) ks @ [sa_command_buffer_end ce]) s)
    (in_turn (map (\<lambda>k. and_then (cb_command ce k) (sa_command_buffer_end ce)) ks) t)"
  using assms(2)
proof (induction ks arbitrary: s t)
  case Nil
  from end_same [OF io Nil] show ?case by (auto simp: and_then_def agree_def)
next
  case (Cons k ks)
  from command_agree [OF io Cons.prems, of k]
  consider "cb_command ce k s = None" "cb_command ce k t = None"
    | s' t' st where "cb_command ce k s = Some (s', st)" "cb_command ce k t = Some (t', st)" "same_state (he ce) eff s' t'"
    by (auto simp: agree_def split: option.splits)
  then show ?case
  proof cases
    case 1
    then show ?thesis by (simp add: and_then_def agree_def)
  next
    case 2
    from end_same [OF io state_sym [OF 2(3)]] obtain t'' where t: "sa_command_buffer_end ce t' = Some (t'', Inr ())"
      "same_state (he ce) eff s' t''" using state_sym by blast
    show ?thesis using Cons.IH [OF t(2)] 2 t(1) by (cases st) (simp_all add: and_then_def agree_def)
  qed
qed

lemma and_then_Some:
  "and_then f g s = Some (s', Inr ()) \<longleftrightarrow> (\<exists>s1. f s = Some (s1, Inr ()) \<and> g s1 = Some (s', Inr ()))"
  by (auto simp: and_then_def split: option.splits sum.splits)

lemma in_turn_last: "in_turn (fs @ [f]) s = Some (s', Inr ()) \<Longrightarrow> \<exists>s1. f s1 = Some (s', Inr ())"
  by (induction fs arbitrary: s) (auto simp: and_then_Some)

lemma flush_leaves_none: "entries (fst (cb_flush ce c)) = []"
  by (simp add: cb_flush_def sa_context_batch_flush_def Let_def split_def split: sum.splits)

lemma end_leaves_none: "sa_command_buffer_end ce s = Some (s', st) \<Longrightarrow> entries (ctx s') = []"
  using flush_leaves_none [of ce "ctx s"] by (auto simp: sa_command_buffer_end_def on_ctx_def Let_def split_def)

lemma execute_empties: "cb_execute ce ks s = Some (s', Inr ()) \<Longrightarrow> entries (ctx s') = []"
  unfolding cb_execute_def using in_turn_last [of "sa_command_buffer_begin ce # map (cb_command ce) ks"] end_leaves_none by fastforce

lemma unbatched_empties: "cb_unbatched ce ks s = Some (s', Inr ()) \<Longrightarrow> entries (ctx s') = []"
proof (cases ks rule: rev_cases)
  case Nil
  assume "cb_unbatched ce ks s = Some (s', Inr ())"
  then show ?thesis using flush_leaves_none [of ce "ctx s"]
    by (auto simp: Nil cb_unbatched_def and_then_Some sa_command_buffer_begin_def on_ctx_def Let_def split_def)
next
  case (snoc ks' k)
  assume "cb_unbatched ce ks s = Some (s', Inr ())"
  then have "\<exists>s1. and_then (cb_command ce k) (sa_command_buffer_end ce) s1 = Some (s', Inr ())"
    unfolding cb_unbatched_def snoc map_append list.map append_Cons [symmetric] by (rule in_turn_last)
  then show ?thesis using end_leaves_none by (auto simp: and_then_Some)
qed


text \<open>A device that counts the host's fills and runs lists without effect; fills are the only host commands it has.\<close>
definition counting_env :: "nat cb_env" where
  "counting_env =
     \<lparr>he = \<lparr>run = (\<lambda>d p rs. (d, Inr (completion_end 0x5A))), run_call = (\<lambda>d f a b s. (d, Inr (completion_end 0x5A))),
            call_tr = \<lparr>has_run_call = False, is_board = False\<rparr>, scratch_alloc = Inl RESOURCE_EXHAUSTED, profiling = False,
            grow_ok = True, copy_ok = True, calloc_ok = True, immediate = False, elapsed = 0\<rparr>,
      map_range = (\<lambda>h f l. Inr (f, l)), map_fill = (\<lambda>t p d. (d + 1, Inr ())), map_write = (\<lambda>t s f d. (d, Inr ())),
      map_copy = (\<lambda>a b d. (d, Inr ())), host_attrs = (\<lambda>h k. None), host_name = (\<lambda>h k. ''none''), issue_inline = (\<lambda>h k st d. (d, Inr ())),
      local_alloc_ok = (\<lambda>n. True), page_size = 4096\<rparr>"

definition small_state :: "nat cb_state" where
  "small_state = \<lparr>ctx = small_context, executables = (\<lambda>h. \<lparr>exports = [], templates = [], rvcode = []\<rparr>), image = small_rv\<rparr>"

lemma fold_nothing: "fold (\<lambda>x d. d) xs d = d"
  by (induction xs) simp_all


end
