(* ===== verification/RvEmit.thy ===== *)
theory RvEmit
  imports CmdFetch "HOL-Library.Char_ord"
begin

text \<open>
  The code generator of the RISC-V path (\<^verbatim>\<open>compiler/plugins/sa/transforms/SahwToRiscv.cpp\<close>) and the
  runtime its functions call on the simulator (\<^verbatim>\<open>firmware/rv/sa_rv_rt.c\<close>). A value of the generated
  code is a constant, folded while it is built, or a function of the registers' stack slots where it
  is used. The generated code is its sequence of PCPI operations, assignments and loops; the LLVM
  library that prints and compiles it is not modelled.
\<close>

section \<open>Values\<close>

type_synonym slots = "nat \<Rightarrow> u32"

datatype 'w val = Const 'w | Dyn "slots \<Rightarrow> 'w"

fun val_at :: "slots \<Rightarrow> 'w val \<Rightarrow> 'w" where
  "val_at s (Const c) = c"
| "val_at s (Dyn g) = g s"

text \<open>The builder's operations fold constants.\<close>
fun lift1 :: "('a \<Rightarrow> 'b) \<Rightarrow> 'a val \<Rightarrow> 'b val" where
  "lift1 f (Const c) = Const (f c)"
| "lift1 f (Dyn g) = Dyn (\<lambda>s. f (g s))"

fun lift2 :: "('a \<Rightarrow> 'b \<Rightarrow> 'c) \<Rightarrow> 'a val \<Rightarrow> 'b val \<Rightarrow> 'c val" where
  "lift2 f (Const a) (Const b) = Const (f a b)"
| "lift2 f a b = Dyn (\<lambda>s. f (val_at s a) (val_at s b))"

lemma val_at_lift [simp]:
  "val_at s (lift1 f v) = f (val_at s v)"
  "val_at s (lift2 g u v) = g (val_at s u) (val_at s v)"
  by (cases v; simp) (cases u; cases v; simp)

datatype rv_error =
    Unknown_register | Missing_param | Undefined_field | More_operations | Too_many_dynamic | Missing_base
  | Gemv_outside_acc | Dynamic_mode | Unexpected_command | Loop_end_expected | Setreg_lengths | Unexpected_operation
  | Ret_expected | Unsupported_export | Missing_body | Rows_left_over

section \<open>The operations of a command\<close>

datatype prim = Mat_cfg | Mat_load | Mat_store | Mat_exec | Mat_fence | Vec_cfg | Vec_run | Gemv_cfg | Gemv_run

type_synonym instr = "prim \<times> u32 val list"

text \<open>The keys' values written so far, when constant, of the tables 0 (\<open>mat\<close>), 1 (\<open>vec\<close>), 2 (\<open>gemv\<close>).\<close>
type_synonym known = "nat \<Rightarrow> u32 \<Rightarrow> u32 option"

definition nothing_known :: known where
  "nothing_known = (\<lambda>t k. None)"

definition table_prim :: "nat \<Rightarrow> prim" where
  "table_prim t = (if t = 0 then Mat_cfg else if t = 1 then Vec_cfg else Gemv_cfg)"

text \<open>\<open>nd\<close>: how many registers the template defines; each has a slot.\<close>
definition reg_load :: "nat \<Rightarrow> nat \<Rightarrow> rv_error + u32 val" where
  "reg_load nd v = (if v < nd then Inr (Dyn (\<lambda>s. s v)) else Inl Unknown_register)"

definition cfg :: "nat \<Rightarrow> u32 \<Rightarrow> u32 val \<Rightarrow> known \<Rightarrow> known \<times> instr list" where
  "cfg t k v kn =
     (case v of
        Const c \<Rightarrow> if kn t k = Some c then (kn, []) else (kn(t := (kn t)(k \<mapsto> c)), [(table_prim t, [Const k, v])])
      | Dyn g \<Rightarrow> (kn(t := (kn t)(k := None)), [(table_prim t, [Const k, v])]))"

fun cfgs :: "nat \<Rightarrow> (u32 \<times> u32 val) list \<Rightarrow> known \<Rightarrow> known \<times> instr list" where
  "cfgs t [] kn = (kn, [])"
| "cfgs t ((k, v) # kvs) kn = (let (kn1, i1) = cfg t k v kn; (kn2, i2) = cfgs t kvs kn1 in (kn2, i1 @ i2))"

definition vbits :: "u64 val \<Rightarrow> nat \<Rightarrow> nat \<Rightarrow> u32 val" where
  "vbits w lo n = lift1 (\<lambda>x. ucast (bits lo n x)) w"

text \<open>Word, lowest bit and width of a dynamic field.\<close>
definition DMA_fields :: "(nat \<times> nat \<times> nat) list" where
  "DMA_fields = [(0, 0, 0), (1, 0, 32), (2, 0, 16), (2, 32, 16), (2, 48, 16), (3, 0, 32)]"

definition EX_fields :: "(nat \<times> nat \<times> nat) list" where
  "EX_fields = [(0, 0, 0), (1, 0, 16), (1, 16, 16), (1, 32, 16), (1, 48, 12), (2, 0, 12), (2, 16, 16), (2, 32, 16)]"

definition VE_fields :: "(nat \<times> nat \<times> nat) list" where
  "VE_fields = [(0, 0, 0), (1, 0, 16), (1, 32, 16), (2, 0, 16), (2, 32, 32), (7, 16, 16), (7, 0, 16), (7, 32, 16), (3, 16, 16),
         (6, 0, 32), (6, 32, 32), (5, 32, 32)]"

definition dyn_field :: "u64 \<Rightarrow> nat \<Rightarrow> (nat \<times> nat \<times> nat) option" where
  "dyn_field opc f =
     (let t = (if opc = 1 \<or> opc = 2 then DMA_fields else if opc = 3 then EX_fields else if opc = 4 then VE_fields else [])
      in if f = 0 \<or> f \<ge> length t then None else Some (t ! f))"

definition slot_byte :: "row \<Rightarrow> nat \<Rightarrow> u64" where
  "slot_byte r i = bits (16 + 8 * i) 8 (r ! 0)"

text \<open>Dynamic field \<open>i\<close> applied to the command's words.\<close>
definition apply_slot :: "nat \<Rightarrow> row \<Rightarrow> nat list \<Rightarrow> nat \<Rightarrow> u64 val list \<Rightarrow> rv_error + u64 val list" where
  "apply_slot nd r ds i w =
     (let slot = slot_byte r i; f = unat (take_bit 4 slot) in
      if f = 0 then Inr w
      else case dyn_field (opcode r) f of
        None \<Rightarrow> Inl Undefined_field
      | Some (wd, lsb, width) \<Rightarrow>
          if i \<ge> length ds then Inl Missing_param
          else bind_st (reg_load nd (ds ! i)) (\<lambda>p.
            let m = mask width; p = lift1 zext64 p; old = lift1 (\<lambda>x. drop_bit lsb x AND m) (w ! wd);
                nv = lift1 (\<lambda>x. x AND m) (if bit slot 7 then lift2 (+) old p else p)
            in Inr (w[wd := lift2 (OR) (lift1 (\<lambda>x. x AND NOT (push_bit lsb m)) (w ! wd)) (lift1 (push_bit lsb) nv)])))"

definition ddr_value :: "nat \<Rightarrow> row \<Rightarrow> nat option \<Rightarrow> u64 val list \<Rightarrow> rv_error + u32 val" where
  "ddr_value nd r base w =
     (if bit (r ! 0) 8 then
        (case base of None \<Rightarrow> Inl Missing_base
         | Some v \<Rightarrow> bind_st (reg_load nd v) (\<lambda>x. Inr (lift2 (+) (vbits (w ! 1) 0 32) x)))
      else Inr (vbits (w ! 1) 0 32))"

definition ve_keys :: "(nat \<times> nat \<times> nat) list" where
  "ve_keys = [(3, 0, 8), (2, 32, 32), (2, 0, 32), (3, 8, 6), (3, 16, 16), (3, 32, 16), (3, 48, 5), (4, 0, 32), (4, 32, 32),
     (5, 0, 32), (3, 53, 11), (5, 32, 32), (6, 0, 32), (6, 32, 32), (7, 0, 32), (7, 32, 32)]"

text \<open>The configuration and the operation of a command whose words are \<open>w\<close>; the address is needed by DMA only.\<close>
definition emit_op :: "row \<Rightarrow> u64 val list \<Rightarrow> u32 val \<Rightarrow> known \<Rightarrow> rv_error + known \<times> instr list" where
  "emit_op r w ddr kn =
     (let b = (\<lambda>i. vbits (w ! i)); opc = opcode r; mode = b 3 32 2;
          issue = (\<lambda>(kn1, is) i. Inr (kn1, is @ [i])) in
      if opc = 0x01 \<and> mode = Const 2 then
        (if bits 28 4 (r ! 2) \<noteq> 3 then Inl Gemv_outside_acc
         else issue (cfgs 2 [(0, b 2 48 16), (1, b 3 0 32), (2, b 3 34 16), (3, b 3 50 8)] kn)
                (Gemv_run, [ddr, lift1 (\<lambda>x. x AND 0xFFFF) (b 2 0 32), b 2 32 16, b 3 58 1]))
      else if opc = 0x01 then
        (case mode of
           Dyn g \<Rightarrow> Inl Dynamic_mode
         | Const c \<Rightarrow> issue (cfgs 0 [(0, b 2 32 16), (1, b 2 48 16), (2, b 3 0 32), (3, mode)] kn) (Mat_load, [ddr, b 2 0 32]))
      else if opc = 0x02 then
        issue (cfgs 0 [(4, b 2 32 16), (5, b 2 48 16), (6, b 3 0 32)] kn) (Mat_store, [ddr, b 2 0 32])
      else if opc = 0x03 then
        issue (cfgs 0 [(7, b 2 0 12), (8, b 2 16 16), (9, b 2 32 16), (10, b 2 48 16)] kn)
          (Mat_exec, [b 1 0 16, b 1 16 16, b 1 32 16, b 1 48 12, b 1 60 1])
      else if opc = 0x04 then
        issue (cfgs 1 (map (\<lambda>(k, wd, lo, n). (of_nat k, b wd lo n)) (enumerate 0 ve_keys)) kn) (Vec_run, [b 1 0 32, b 1 32 32])
      else if opc = 0x10 then Inr (kn, [(Mat_fence, [b 1 0 4])])
      else Inl Unexpected_command)"

text \<open>A command with its row: dynamic fields, the fence before it, the relocated address, its operations.\<close>
definition emit_command :: "nat \<Rightarrow> row \<Rightarrow> nat option \<Rightarrow> nat list \<Rightarrow> known \<Rightarrow> rv_error + known \<times> instr list" where
  "emit_command nd r base ds kn =
     (if length ds > 2 then Inl Too_many_dynamic
      else
        bind_st (apply_slot nd r ds 0 (map Const r)) (\<lambda>w1.
        bind_st (apply_slot nd r ds 1 w1) (\<lambda>w.
        bind_st (ddr_value nd r base w) (\<lambda>ddr.
        bind_st (emit_op r w ddr kn) (\<lambda>(kn1, is).
        Inr (kn1, (if opcode r \<noteq> 0x10 \<and> bit (r ! 0) 11 then [(Mat_fence, [Const 0])] else []) @ is))))))"

section \<open>Blocks\<close>

text \<open>
  Statements of the generated code: operations, assignments (adding or not) of values computed
  before the first of them, a word loaded once the engines are idle, a loop with its count and strides.
\<close>
datatype rv_stm =
    Issue "instr list"
  | Assign "(nat \<times> bool \<times> u32 val) list"
  | Load_param nat "u32 val" u32 u32
  | Rv_loop "rv_stm list" "u32 val" nat u32 nat u32

text \<open>The field of a control descriptor with its dynamic slots.\<close>
definition control_slot :: "nat \<Rightarrow> row \<Rightarrow> nat \<Rightarrow> u32 \<Rightarrow> nat list \<Rightarrow> nat \<Rightarrow> u32 val \<Rightarrow> rv_error + u32 val" where
  "control_slot nd r field m ds i v =
     (let slot = slot_byte r i in
      if unat (take_bit 4 slot) \<noteq> field then Inr v
      else if i \<ge> length ds then Inl Missing_param
      else bind_st (reg_load nd (ds ! i)) (\<lambda>p. Inr (lift1 (\<lambda>x. x AND m) (if bit slot 7 then lift2 (+) v p else p))))"

definition control_field :: "nat \<Rightarrow> row \<Rightarrow> nat \<Rightarrow> u64 \<Rightarrow> u32 \<Rightarrow> nat list \<Rightarrow> rv_error + u32 val" where
  "control_field nd r field value m ds =
     bind_st (control_slot nd r field m ds 0 (Const (ucast value AND m))) (control_slot nd r field m ds 1)"

fun map_err :: "('a \<Rightarrow> rv_error + 'b) \<Rightarrow> 'a list \<Rightarrow> rv_error + 'b list" where
  "map_err f [] = Inr []"
| "map_err f (x # xs) = bind_st (f x) (\<lambda>y. bind_st (map_err f xs) (\<lambda>ys. Inr (y # ys)))"

definition check_reg :: "nat \<Rightarrow> nat \<Rightarrow> rv_error + unit" where
  "check_reg nd v = (if v < nd then Inr () else Inl Unknown_register)"

text \<open>The base and the dynamic registers of a command.\<close>
fun cmd_operands :: "op \<Rightarrow> (nat option \<times> nat list) option" where
  "cmd_operands (Ld base a h) = Some (base, h_dyn h)"
| "cmd_operands (St base a h) = Some (base, h_dyn h)"
| "cmd_operands (Ex a h) = Some (None, h_dyn h)"
| "cmd_operands (Ve a h) = Some (None, h_dyn h)"
| "cmd_operands (Transpose a h) = Some (None, h_dyn h)"
| "cmd_operands (Fence m) = Some (None, [])"
| "cmd_operands _ = None"

text \<open>An operation other than a loop, with its row.\<close>
definition emit_stm :: "nat \<Rightarrow> op \<Rightarrow> row \<Rightarrow> known \<Rightarrow> rv_error + known \<times> rv_stm" where
  "emit_stm nd o' r kn =
     (case o' of
        SetReg ts vals am h \<Rightarrow>
          if length vals \<noteq> length ts then Inl Setreg_lengths
          else
            bind_st (map_err (\<lambda>(k, v). control_field nd r (k + 1) v 0xFFFFFFFF (h_dyn h)) (enumerate 0 vals)) (\<lambda>vs.
            bind_st (map_err (check_reg nd) ts) (\<lambda>_.
            Inr (kn, Assign (map (\<lambda>(k, t, v). (t, bit am k, v)) (enumerate 0 (zip ts vs))))))
      | LdParam base t a h \<Rightarrow>
          bind_st (control_field nd r 1 (ldp_addr a) 0xFFFFFFFF (h_dyn h)) (\<lambda>ad.
          bind_st (case base of None \<Rightarrow> Inr ad | Some v \<Rightarrow> bind_st (reg_load nd v) (\<lambda>x. Inr (lift2 (+) ad x))) (\<lambda>ad.
          bind_st (check_reg nd t) (\<lambda>_.
          Inr (kn, Load_param t ad (ucast (ldp_mul a) AND 0xFFFF) (ucast (ldp_add a))))))
      | _ \<Rightarrow>
          (case cmd_operands o' of
             None \<Rightarrow> Inl Unexpected_operation
           | Some (base, ds) \<Rightarrow> bind_st (emit_command nd r base ds kn) (\<lambda>(kn1, is). Inr (kn1, Issue is))))"

text \<open>
  \<^verbatim>\<open>emitBlock\<close>: the statements, what is known after them and the rows left. A loop's body is entered
  from two places, so nothing is known at its head; it runs at least once, so what is known at its
  end holds after it.
\<close>
fun emit_block :: "nat \<Rightarrow> op list \<Rightarrow> row list \<Rightarrow> known \<Rightarrow> rv_error + rv_stm list \<times> known \<times> row list" where
  "emit_block nd [] rs kn = Inr ([], kn, rs)"
| "emit_block nd (Loop count k1 s1 k2 s2 h body # ops) rs kn =
     bind_st (emit_block nd body rs nothing_known) (\<lambda>(b, kn1, rs1).
       case rs1 of
         [] \<Rightarrow> Inl More_operations
       | r # rs2 \<Rightarrow>
           if opcode r \<noteq> 0x13 then Inl Loop_end_expected
           else
             bind_st (control_field nd r 1 count 0xFFFF (h_dyn h)) (\<lambda>c.
             bind_st (map_err (check_reg nd) [k1, k2]) (\<lambda>_.
             bind_st (emit_block nd ops rs2 kn1) (\<lambda>(q, kn2, rs3).
             Inr (Rv_loop b c k1 (ucast s1) k2 (ucast s2) # q, kn2, rs3)))))"
| "emit_block nd (o' # ops) rs kn =
     (if o' = Other then Inl Unexpected_operation
      else case rs of
        [] \<Rightarrow> Inl More_operations
      | r # rs1 \<Rightarrow>
          bind_st (emit_stm nd o' r kn) (\<lambda>(kn1, t).
          bind_st (emit_block nd ops rs1 kn1) (\<lambda>(q, kn2, rs2). Inr (t # q, kn2, rs2))))"

section \<open>Functions\<close>

text \<open>\<^verbatim>\<open>riscvSymbol\<close>\<close>
definition is_alnum :: "char \<Rightarrow> bool" where
  "is_alnum c \<longleftrightarrow> (CHR ''0'' \<le> c \<and> c \<le> CHR ''9'') \<or> (CHR ''A'' \<le> c \<and> c \<le> CHR ''Z'') \<or> (CHR ''a'' \<le> c \<and> c \<le> CHR ''z'')"

definition riscv_symbol :: "string \<Rightarrow> string" where
  "riscv_symbol n = map (\<lambda>c. if is_alnum c then c else CHR ''_'') n"

text \<open>\<open>add + ((constant * mul) >> shift)\<close> of the push constants, \<open>add\<close> for a negative constant.\<close>
definition lin :: "lin_args \<Rightarrow> (u32 \<Rightarrow> u32) \<Rightarrow> u32" where
  "lin l pc =
     ucast (l_add l + (if sint (l_constant l) \<ge> 0
                       then signed_drop_bit (unat (l_shift l)) (zext64 (pc (ucast (l_constant l))) * l_mul l) else 0))"

text \<open>The first value of a register's slot.\<close>
fun slot_init :: "(u32 \<Rightarrow> u32) \<Rightarrow> (u32 \<Rightarrow> u32) \<Rightarrow> reg_def \<Rightarrow> u32" where
  "slot_init bind pc (BaseDef b l r) = bind (ucast b) + lin l pc"
| "slot_init bind pc (ParamDef l r) = lin l pc"
| "slot_init bind pc (PrivateDef r) = 0"

definition initial_slots :: "reg_def list \<Rightarrow> (u32 \<Rightarrow> u32) \<Rightarrow> (u32 \<Rightarrow> u32) \<Rightarrow> slots" where
  "initial_slots defs bind pc = (\<lambda>v. if v < length defs then slot_init bind pc (defs ! v) else 0)"

definition skip_ret :: "row list \<Rightarrow> rv_error + row list" where
  "skip_ret rs = (case rs of [] \<Rightarrow> Inl Ret_expected | r # rs1 \<Rightarrow> if opcode r = 0x16 then Inr rs1 else Inl Ret_expected)"

text \<open>The sections that are there, each closed by its RET.\<close>
fun emit_rv_sections :: "nat \<Rightarrow> op list list \<Rightarrow> row list \<Rightarrow> known \<Rightarrow> rv_error + rv_stm list \<times> row list" where
  "emit_rv_sections nd [] rs kn = Inr ([], rs)"
| "emit_rv_sections nd (ops # secs) rs kn =
     bind_st (emit_block nd ops rs kn) (\<lambda>(q, kn1, rs1).
     bind_st (skip_ret rs1) (\<lambda>rs2.
     bind_st (emit_rv_sections nd secs rs2 kn1) (\<lambda>(q2, rs3). Inr (q @ q2, rs3))))"

definition list_of :: "'a option \<Rightarrow> 'a list" where
  "list_of x = (case x of None \<Rightarrow> [] | Some a \<Rightarrow> [a])"

text \<open>The statements of an export's function; its slots start as \<open>initial_slots\<close> says.\<close>
definition build_function :: "sahw_template \<Rightarrow> row list \<Rightarrow> rv_error + rv_stm list" where
  "build_function t rs =
     (if t_unsupported t then Inl Unsupported_export
      else case t_body t of
        None \<Rightarrow> Inl Missing_body
      | Some body \<Rightarrow>
          bind_st (emit_rv_sections (length (t_defs t)) (list_of (t_prefix t) @ list_of (t_head t) @ [body]) rs nothing_known)
            (\<lambda>(q, rest). if rest \<noteq> [] then Inl Rows_left_over else Inr q))"

section \<open>The runtime on the simulator\<close>

text \<open>The configuration kept by the runtime, and what the simulator was handed.\<close>
record pcpi =
  mat :: "u32 \<Rightarrow> u32"
  vec :: "u32 \<Rightarrow> u32"
  gemv :: "u32 \<Rightarrow> u32"
  ran :: "fetch_ev list"

text \<open>A descriptor run on its own: a command's packet, or the wait of a fence.\<close>
definition row_event :: "row \<Rightarrow> fetch_ev" where
  "row_event r = (if is_cmd (opcode r) then Packet (cmd_pkt (\<lambda>_. 0) r) else Wait (bits 0 4 (r ! 1)))"

definition sim_run :: "u64 list \<Rightarrow> pcpi \<Rightarrow> pcpi" where
  "sim_run w p = p\<lparr>ran := ran p @ [row_event (take 8 (w @ replicate 8 0))]\<rparr>"

definition sa_rv_mat_cfg :: "u32 \<Rightarrow> u32 \<Rightarrow> pcpi \<Rightarrow> pcpi" where
  "sa_rv_mat_cfg k v p = (if k < 11 then p\<lparr>mat := (mat p)(k := v)\<rparr> else p)"

definition sa_rv_vec_cfg :: "u32 \<Rightarrow> u32 \<Rightarrow> pcpi \<Rightarrow> pcpi" where
  "sa_rv_vec_cfg k v p = (if k < 16 then p\<lparr>vec := (vec p)(k := v)\<rparr> else p)"

definition sa_rv_gemv_cfg :: "u32 \<Rightarrow> u32 \<Rightarrow> pcpi \<Rightarrow> pcpi" where
  "sa_rv_gemv_cfg k v p = (if k < 4 then p\<lparr>gemv := (gemv p)(k := v)\<rparr> else p)"

definition sa_rv_mat_load :: "u32 \<Rightarrow> u32 \<Rightarrow> pcpi \<Rightarrow> pcpi" where
  "sa_rv_mat_load ddr laddr p =
     (let m = (\<lambda>k. zext64 (mat p k)) in
      sim_run [0x01, zext64 ddr, zext64 laddr OR push_bit 32 (m 0) OR push_bit 48 (m 1), m 2 OR push_bit 32 (m 3 AND 3)] p)"

definition sa_rv_mat_store :: "u32 \<Rightarrow> u32 \<Rightarrow> pcpi \<Rightarrow> pcpi" where
  "sa_rv_mat_store ddr laddr p =
     (let m = (\<lambda>k. zext64 (mat p k)) in
      sim_run [0x02, zext64 ddr, zext64 laddr OR push_bit 32 (m 4) OR push_bit 48 (m 5), m 6] p)"

definition sa_rv_mat_exec :: "u32 \<Rightarrow> u32 \<Rightarrow> u32 \<Rightarrow> u32 \<Rightarrow> u32 \<Rightarrow> pcpi \<Rightarrow> pcpi" where
  "sa_rv_mat_exec a b c kt acc p =
     (let m = (\<lambda>k. zext64 (mat p k)) in
      sim_run [0x03, zext64 a OR push_bit 16 (zext64 b) OR push_bit 32 (zext64 c) OR push_bit 48 (zext64 kt) OR push_bit 60 (zext64 acc),
        m 7 OR push_bit 16 (m 8) OR push_bit 32 (m 9) OR push_bit 48 (m 10)] p)"

definition sa_rv_vec_run :: "u32 \<Rightarrow> u32 \<Rightarrow> pcpi \<Rightarrow> pcpi" where
  "sa_rv_vec_run s1 s2 p =
     (let v = (\<lambda>k. zext64 (vec p k)) in
      sim_run [0x04, zext64 s1 OR push_bit 32 (zext64 s2), v 2 OR push_bit 32 (v 1),
        v 0 OR push_bit 8 (v 3) OR push_bit 16 (v 4) OR push_bit 32 (v 5) OR push_bit 48 (v 6) OR push_bit 53 (v 10),
        v 7 OR push_bit 32 (v 8), v 9 OR push_bit 32 (v 11), v 12 OR push_bit 32 (v 13), v 14 OR push_bit 32 (v 15)] p)"

definition sa_rv_gemv_run :: "u32 \<Rightarrow> u32 \<Rightarrow> u32 \<Rightarrow> u32 \<Rightarrow> pcpi \<Rightarrow> pcpi" where
  "sa_rv_gemv_run w c strips acc p =
     (let g = (\<lambda>k. zext64 (gemv p k)) in
      sim_run [0x01, zext64 w, zext64 (0x30000000 OR c) OR push_bit 32 (zext64 strips) OR push_bit 48 (g 0),
        g 1 OR push_bit 32 2 OR push_bit 34 (g 2) OR push_bit 50 (g 3) OR push_bit 58 (zext64 acc)] p)"

definition sa_rv_mat_fence :: "u32 \<Rightarrow> pcpi \<Rightarrow> pcpi" where
  "sa_rv_mat_fence m p = sim_run [0x10, zext64 m] p"

fun do_prim :: "prim \<Rightarrow> u32 list \<Rightarrow> pcpi \<Rightarrow> pcpi" where
  "do_prim Mat_cfg [k, v] = sa_rv_mat_cfg k v"
| "do_prim Vec_cfg [k, v] = sa_rv_vec_cfg k v"
| "do_prim Gemv_cfg [k, v] = sa_rv_gemv_cfg k v"
| "do_prim Mat_load [a, l] = sa_rv_mat_load a l"
| "do_prim Mat_store [a, l] = sa_rv_mat_store a l"
| "do_prim Mat_exec [a, b, c, k, x] = sa_rv_mat_exec a b c k x"
| "do_prim Vec_run [a, b] = sa_rv_vec_run a b"
| "do_prim Gemv_run [w, c, n, x] = sa_rv_gemv_run w c n x"
| "do_prim Mat_fence [m] = sa_rv_mat_fence m"
| "do_prim _ _ = (\<lambda>p. p)"

definition do_instrs :: "slots \<Rightarrow> instr list \<Rightarrow> pcpi \<Rightarrow> pcpi" where
  "do_instrs s is = fold (\<lambda>(pr, vs). do_prim pr (map (val_at s) vs)) is"

section \<open>Running the generated code\<close>

definition assign :: "slots \<Rightarrow> nat \<times> bool \<times> u32 val \<Rightarrow> slots \<Rightarrow> slots" where
  "assign s0 a s = (case a of (t, add, v) \<Rightarrow> s(t := (if add then s t + val_at s0 v else val_at s0 v)))"

text \<open>
  Slots and runtime after the statements; \<open>ldw\<close> is the word an LDPARAM loads, a function of what ran
  before. The loop's count is taken at the end of its first pass; a pass follows while the number of
  passes is below it.
\<close>
fun run_block :: "(fetch_ev list \<Rightarrow> u32 \<Rightarrow> u32) \<Rightarrow> rv_stm list \<Rightarrow> slots \<times> pcpi \<Rightarrow> slots \<times> pcpi" where
  "run_block ldw [] st = st"
| "run_block ldw (Issue is # q) st = run_block ldw q (fst st, do_instrs (fst st) is (snd st))"
| "run_block ldw (Assign as # q) st = run_block ldw q (fold (assign (fst st)) as (fst st), snd st)"
| "run_block ldw (Load_param t a m d # q) st =
     (let p = sa_rv_mat_fence 0 (snd st) in run_block ldw q ((fst st)(t := ldw (ran p) (val_at (fst st) a) * m + d), p))"
| "run_block ldw (Rv_loop b c k1 s1 k2 s2 # q) st =
     (let stride = (\<lambda>(s, p). let s1' = s(k1 := s k1 + s1) in (s1'(k2 := s1' k2 + s2), p));
          st1 = run_block ldw b st; n = unat (val_at (fst st1) c)
      in run_block ldw q (((\<lambda>x. stride (run_block ldw b x)) ^^ (n - 1)) (stride st1)))"

section \<open>Instructions\<close>

text \<open>
  The custom instructions of the operations: funct3, funct7 and the values of rs1 and rs2 (opcode
  0x0B); a fence writes its status to a register.
\<close>
fun insn_of :: "prim \<Rightarrow> u32 list \<Rightarrow> (u32 \<times> u32 \<times> u32 \<times> u32) option" where
  "insn_of Mat_cfg [k, v] = Some (0, 1, k, v)"
| "insn_of Mat_load [a, l] = Some (1, 1, a, l)"
| "insn_of Mat_store [a, l] = Some (2, 1, a, l)"
| "insn_of Mat_exec [a, b, c, kt, acc] =
     Some (3, 1, push_bit 16 b OR (a AND 0xFFFF), push_bit 28 acc OR push_bit 16 (kt AND 0xFFF) OR (c AND 0xFFFF))"
| "insn_of Mat_fence [m] = Some (4, 1, m, 0)"
| "insn_of Vec_cfg [k, v] = Some (0, 2, k, v)"
| "insn_of Vec_run [a, b] = Some (1, 2, a, b)"
| "insn_of Gemv_cfg [k, v] = Some (0, 3, k, v)"
| "insn_of Gemv_run [w, c, n, acc] =
     Some (1, 3, w, push_bit 28 acc OR push_bit 16 ((n - 1) AND 7) OR (c AND 0xFFFF))"
| "insn_of _ _ = None"

end
