(* ===== verification/RvEmitRun.thy ===== *)
theory RvEmitRun
  imports RvEmit
begin

text \<open>
  The generated code of a command (\<^verbatim>\<open>RvEmit\<close>) does what the fetch unit (\<^verbatim>\<open>CmdFetch\<close>) does with its
  descriptor: the words with their dynamic fields applied are the same, the configuration the code
  leaves out is already in the unit, and the operation rebuilds the packet.
\<close>

section \<open>Dynamic fields\<close>

lemma dyn_field_some:
  assumes "dyn_field opc k = Some (wd, lsb, n)"
  shows "field_of opc k = Some (wd, lsb, n) \<and> 1 \<le> wd \<and> wd < 8"
proof -
  have k: "k \<noteq> 0" "k < length (if opc = 1 \<or> opc = 2 then DMA_fields else if opc = 3 then EX_fields else if opc = 4 then VE_fields else [])"
    using assms by (auto simp: dyn_field_def Let_def split: if_splits)
  consider "opc = 1 \<or> opc = 2" | "opc = 3" | "opc = 4"
    using k(2) by (auto split: if_splits)
  then show ?thesis
  proof cases
    case 1
    with k have "k = 1 \<or> k = 2 \<or> k = 3 \<or> k = 4 \<or> k = 5" by (auto simp: DMA_fields_def)
    then show ?thesis using 1 assms by (auto simp: dyn_field_def field_of_def DMA_fields_def)
  next
    case 2
    with k have "k = 1 \<or> k = 2 \<or> k = 3 \<or> k = 4 \<or> k = 5 \<or> k = 6 \<or> k = 7" by (auto simp: EX_fields_def)
    then show ?thesis using 2 assms by (auto simp: dyn_field_def field_of_def EX_fields_def)
  next
    case 3
    with k have "k \<noteq> 0" "k < 12" by (simp_all add: VE_fields_def)
    then have "k = 1 \<or> k = 2 \<or> k = 3 \<or> k = 4 \<or> k = 5 \<or> k = 6 \<or> k = 7 \<or> k = 8 \<or> k = 9 \<or> k = 10 \<or> k = 11"
      by arith
    then show ?thesis using 3 assms by (auto simp: dyn_field_def field_of_def VE_fields_def)
  qed
qed

text \<open>The slots of the operands hold what the registers their descriptors name hold.\<close>
definition slots_agree :: "slots \<Rightarrow> regfile \<Rightarrow> row \<Rightarrow> nat option \<Rightarrow> nat list \<Rightarrow> bool" where
  "slots_agree s f r base ds \<longleftrightarrow>
     list_all (\<lambda>i. s (ds ! i) = f (16 + unat (bits 4 3 (slot_byte r i)))) [0..<length ds]
     \<and> (case base of None \<Rightarrow> True | Some v \<Rightarrow> s v = f (unat (bits 9 2 (r ! 0) OR push_bit 2 (bits 13 2 (r ! 0)))))"

lemma slot_applied:
  assumes a: "apply_slot nd r ds i w = Inr w'" and q: "map (val_at s) w = q" and l: "length q = 8" and h: "q ! 0 = r ! 0"
    and d: "slots_agree s f r base ds"
  shows "patch_slot f i q = Some (map (val_at s) w') \<and> map (val_at s) w' ! 0 = r ! 0 \<and> length w' = 8"
proof -
  have lw: "length w = 8" using q l by auto
  have opq: "opcode q = opcode r" using h by (simp add: opcode_def)
  let ?slot = "slot_byte r i"
  show ?thesis
  proof (cases "unat (take_bit 4 ?slot) = 0")
    case True
    then have "w' = w" using a by (simp add: apply_slot_def Let_def)
    then show ?thesis using True q l h lw by (simp add: patch_slot_def Let_def slot_byte_def)
  next
    case False
    then obtain wd lsb n where fd: "dyn_field (opcode r) (unat (take_bit 4 ?slot)) = Some (wd, lsb, n)"
      using a by (auto simp: apply_slot_def Let_def split: option.splits)
    with False a have i: "i < length ds" by (auto simp: apply_slot_def Let_def split: if_splits)
    note fo = dyn_field_some [OF fd]
    have p: "s (ds ! i) = f (16 + unat (bits 4 3 ?slot))"
      using d i by (auto simp: slots_agree_def list_all_iff)
    have wq: "val_at s (w ! wd) = q ! wd" using q lw fo by (metis nth_map)
    obtain nv where w': "w' = w[wd := nv]" and nv: "val_at s nv =
      (q ! wd AND NOT (push_bit lsb (mask n))) OR
      push_bit lsb ((if bit ?slot 7 then (drop_bit lsb (q ! wd) AND mask n) + zext64 (s (ds ! i)) else zext64 (s (ds ! i))) AND mask n)"
      using a False fd i wq by (auto simp: apply_slot_def Let_def reg_load_def split: if_splits)
    have sf: "val_at s nv = set_field lsb n (if bit ?slot 7 then bits lsb n (q ! wd) + zext64 (s (ds ! i)) else zext64 (s (ds ! i))) (q ! wd)"
      unfolding nv set_field_def by (simp add: bits_def take_bit_eq_mask)
    have "map (val_at s) w' = q[wd := val_at s nv]" unfolding w' map_update q ..
    moreover have "patch_slot f i q = Some (q[wd := val_at s nv])"
      using False fo p by (simp add: patch_slot_def Let_def opq h slot_byte_def [symmetric] sf del: unsigned_take_bit_eq)
    ultimately show ?thesis using fo h lw w' by simp
  qed
qed

lemma row_patched:
  assumes "apply_slot nd r ds 0 (map Const r) = Inr w1" and "apply_slot nd r ds 1 w1 = Inr w" and "length r = 8"
    and "slots_agree s f r base ds"
  shows "patch_row f r = Some (map (val_at s) w) \<and> map (val_at s) w ! 0 = r ! 0 \<and> length w = 8"
proof -
  have m: "map (val_at s) (map Const r) = r" by (simp add: o_def)
  note 1 = slot_applied [OF assms(1) m assms(3) refl assms(4)]
  have "length (map (val_at s) w1) = 8" using 1 by simp
  from slot_applied [OF assms(2) refl this _ assms(4)] 1 show ?thesis by (simp add: patch_row_def)
qed

section \<open>Configuration\<close>

definition table_of :: "nat \<Rightarrow> pcpi \<Rightarrow> u32 \<Rightarrow> u32" where
  "table_of t p = (if t = 0 then mat p else if t = 1 then vec p else gemv p)"

definition key_limit :: "nat \<Rightarrow> u32" where
  "key_limit t = (if t = 0 then 11 else if t = 1 then 16 else 4)"

text \<open>What the generator knows is in the tables.\<close>
definition knows :: "known \<Rightarrow> pcpi \<Rightarrow> bool" where
  "knows kn p \<longleftrightarrow> (\<forall>t < 3. \<forall>k c. kn t k = Some c \<longrightarrow> table_of t p k = c)"

lemma do_instrs_simps [simp]:
  "do_instrs s [] p = p"
  "do_instrs s ((pr, vs) # is) p = do_instrs s is (do_prim pr (map (val_at s) vs) p)"
  "do_instrs s (is @ js) p = do_instrs s js (do_instrs s is p)"
  by (simp_all add: do_instrs_def)

lemma cfg_prim:
  assumes "t < 3" and "k < key_limit t"
  shows "do_prim (table_prim t) [k, v] p =
    (if t = 0 then p\<lparr>mat := (mat p)(k := v)\<rparr> else if t = 1 then p\<lparr>vec := (vec p)(k := v)\<rparr> else p\<lparr>gemv := (gemv p)(k := v)\<rparr>)"
  using assms by (auto simp: table_prim_def sa_rv_mat_cfg_def sa_rv_vec_cfg_def sa_rv_gemv_cfg_def key_limit_def)

lemma cfg_run:
  assumes t: "t < 3" "k < key_limit t" and kn: "knows kn p" and c: "cfg t k v kn = (kn', is)"
  shows "table_of t (do_instrs s is p) = (table_of t p)(k := val_at s v)" (is ?A)
    and "u < 3 \<Longrightarrow> u \<noteq> t \<Longrightarrow> table_of u (do_instrs s is p) = table_of u p"
    and "ran (do_instrs s is p) = ran p" and "knows kn' (do_instrs s is p)"
proof -
  have upd: "table_of t (do_prim (table_prim t) [k, x] p) = (table_of t p)(k := x)"
    "u' < 3 \<Longrightarrow> u' \<noteq> t \<Longrightarrow> table_of u' (do_prim (table_prim t) [k, x] p) = table_of u' p"
    "ran (do_prim (table_prim t) [k, x] p) = ran p" for x u'
    using t(1) unfolding cfg_prim [OF t] by (auto simp: table_of_def)
  consider (same) x where "v = Const x" "kn t k = Some x" "is = []" "kn' = kn"
    | (new) z where "is = [(table_prim t, [Const k, v])]" "kn' = kn(t := (kn t)(k := z))" "\<forall>x. z = Some x \<longrightarrow> v = Const x"
    using c by (auto simp: cfg_def split: val.splits if_splits)
  then have "?A \<and> (\<forall>u < 3. u \<noteq> t \<longrightarrow> table_of u (do_instrs s is p) = table_of u p) \<and> ran (do_instrs s is p) = ran p \<and> knows kn' (do_instrs s is p)"
  proof cases
    case same
    then have "table_of t p k = x" using kn t(1) by (simp add: knows_def)
    then show ?thesis using same kn by auto
  next
    case new
    have "knows kn' (do_instrs s is p)" unfolding knows_def
    proof (intro allI impI)
      fix u l c assume u: "u < 3" "kn' u l = Some c"
      show "table_of u (do_instrs s is p) l = c"
      proof (cases "u = t \<and> l = k")
        case True
        with u new(2,3) have "v = Const c" by simp
        with True show ?thesis using upd(1) by (simp add: new(1))
      next
        case False
        with u new(2) have "kn u l = Some c" by (auto split: if_splits)
        with kn u have "table_of u p l = c" by (simp add: knows_def)
        with False show ?thesis using upd u by (cases "u = t") (simp_all add: new(1))
      qed
    qed
    then show ?thesis using upd by (simp add: new(1))
  qed
  then show ?A "u < 3 \<Longrightarrow> u \<noteq> t \<Longrightarrow> table_of u (do_instrs s is p) = table_of u p" "ran (do_instrs s is p) = ran p" "knows kn' (do_instrs s is p)"
    by blast+
qed

lemma cfgs_run:
  assumes "t < 3" and "list_all (\<lambda>kv. fst kv < key_limit t) kvs" and "knows kn p" and "cfgs t kvs kn = (kn', is)"
  shows "table_of t (do_instrs s is p) = fold (\<lambda>(k, v) g. g(k := val_at s v)) kvs (table_of t p)
    \<and> ran (do_instrs s is p) = ran p \<and> knows kn' (do_instrs s is p)"
  using assms(2-4)
proof (induction kvs arbitrary: kn p "is")
  case Nil
  then show ?case by simp
next
  case (Cons kv kvs)
  obtain k v where kv: "kv = (k, v)" by fastforce
  obtain kn1 i1 where 1: "cfg t k v kn = (kn1, i1)" by fastforce
  obtain i2 where 2: "cfgs t kvs kn1 = (kn', i2)" "is = i1 @ i2"
    using Cons.prems(3) by (auto simp: kv 1 Let_def split_def prod_eq_iff)
  have k: "k < key_limit t" using Cons.prems(1) by (simp add: kv)
  note c = cfg_run [OF assms(1) k Cons.prems(2) 1, where s = s]
  from Cons.prems(1) have "list_all (\<lambda>kv. fst kv < key_limit t) kvs" by simp
  from Cons.IH [OF this c(4) 2(1)] show ?case by (simp add: kv 2(2) c(1,3))
qed

section \<open>Packets\<close>

lemma zext_ucast_bits: "n \<le> 32 \<Longrightarrow> zext64 (ucast (bits lo n w)) = bits lo n w"
  by (rule bit_eqI) (auto simp: bit_simps bit_bits)

lemma val_bits [simp]: "val_at s (vbits v lo n) = ucast (bits lo n (val_at s v))"
  by (simp add: vbits_def)

text \<open>A field put at \<open>s\<close>, read at its place, and elsewhere.\<close>
lemma field_here: "n \<le> m \<Longrightarrow> s + n \<le> 64 \<Longrightarrow> bits s m (push_bit s (bits lo n w)) = bits lo n w"
  by (rule bit_eqI) (auto simp: bit_simps bit_bits)

lemma field_first: "n \<le> m \<Longrightarrow> bits 0 m (bits lo n w) = bits lo n w"
  by (rule bit_eqI) (auto simp: bit_simps bit_bits)

lemma field_above: "a + m \<le> s \<Longrightarrow> bits a m (push_bit s x) = 0"
  by (rule bits_push_above)

lemma field_below: "s + n \<le> a \<Longrightarrow> bits a m (push_bit s (bits lo n w)) = 0"
  by (rule bit_eqI) (auto simp: bit_simps bit_bits)

lemma field_past: "n \<le> a \<Longrightarrow> bits a m (bits lo n w) = 0"
  by (rule bit_eqI) (auto simp: bit_simps bit_bits)

lemmas fields = bits_or field_here field_first field_above field_below field_past zext_ucast_bits bits_zero

lemma sim_ran [simp]: "ran (sim_run w p) = ran p @ [row_event (take 8 (w @ replicate 8 0))]"
  "table_of t (sim_run w p) = table_of t p"
  by (simp_all add: sim_run_def table_of_def)

lemma opcode_small: "opcode (0x01 # ws) = 0x01" "opcode (0x02 # ws) = 0x02" "opcode (0x03 # ws) = 0x03" "opcode (0x04 # ws) = 0x04"
  "opcode (0x10 # ws) = 0x10"
  by (simp_all add: opcode_def bits_def)

lemma ucast_bits_zext: "(ucast (bits 0 32 (zext64 d)) :: u32) = d"
  by (rule bit_eqI) (auto simp: bit_simps bit_bits)

lemma ddr_plain:
  "ddr_of g (0x01 # zext64 d # ws) = d" "ddr_of g (0x02 # zext64 d # ws) = d"
  by (simp_all add: ddr_of_def ucast_bits_zext)

lemmas packet_simps = row_event_def opcode_small is_cmd_def cmd_pkt_def ddr_plain fields Let_def

lemma store_packet:
  assumes "mat p 4 = ucast (bits 32 16 (r ! 2))" "mat p 5 = ucast (bits 48 16 (r ! 2))" "mat p 6 = ucast (bits 0 32 (r ! 3))"
    and "opcode r = 0x02"
  shows "ran (sa_rv_mat_store (ddr_of f r) (ucast (bits 0 32 (r ! 2))) p) = ran p @ [Packet (cmd_pkt f r)]"
  using assms by (simp add: sa_rv_mat_store_def packet_simps)

lemma load_packet:
  assumes "mat p 0 = ucast (bits 32 16 (r ! 2))" "mat p 1 = ucast (bits 48 16 (r ! 2))" "mat p 2 = ucast (bits 0 32 (r ! 3))"
    and "mat p 3 = ucast (bits 32 2 (r ! 3))" and "opcode r = 0x01" and z: "bits 34 25 (r ! 3) = 0"
  shows "ran (sa_rv_mat_load (ddr_of f r) (ucast (bits 0 32 (r ! 2))) p) = ran p @ [Packet (cmd_pkt f r)]"
proof -
  have and3: "bits 32 2 w AND 3 = bits 32 2 w" for w :: u64
    using take_bit_eq_mask [of 2 "bits 32 2 w"] by (simp add: mask_eq_exp_minus_1 bits_def)
  have sub: "bits 34 16 w = bits 0 16 (bits 34 25 w)" "bits 50 8 w = bits 16 8 (bits 34 25 w)" "bits 58 1 w = bits 24 1 (bits 34 25 w)" for w :: u64
    by (rule bit_eqI; auto simp: bit_bits)+
  show ?thesis
    using assms(1-5) z by (simp add: sa_rv_mat_load_def packet_simps and3 sub [unfolded One_nat_def] del: push_bit_and)
qed

lemma exec_packet:
  assumes "mat p 7 = ucast (bits 0 12 (r ! 2))" "mat p 8 = ucast (bits 16 16 (r ! 2))" "mat p 9 = ucast (bits 32 16 (r ! 2))"
    and "mat p 10 = ucast (bits 48 16 (r ! 2))" and "opcode r = 0x03"
  shows "ran (sa_rv_mat_exec (ucast (bits 0 16 (r ! 1))) (ucast (bits 16 16 (r ! 1))) (ucast (bits 32 16 (r ! 1)))
      (ucast (bits 48 12 (r ! 1))) (ucast (bits 60 1 (r ! 1))) p) = ran p @ [Packet (cmd_pkt f r)]"
  using assms by (simp add: sa_rv_mat_exec_def packet_simps)

lemma gemv_packet:
  assumes "gemv p 0 = ucast (bits 48 16 (r ! 2))" "gemv p 1 = ucast (bits 0 32 (r ! 3))" "gemv p 2 = ucast (bits 34 16 (r ! 3))"
    and "gemv p 3 = ucast (bits 50 8 (r ! 3))" and "opcode r = 0x01" and m: "bits 32 2 (r ! 3) = 2" and c: "bits 16 16 (r ! 2) = 0x3000"
  shows "ran (sa_rv_gemv_run (ddr_of f r) (ucast (bits 0 32 (r ! 2)) AND 0xFFFF) (ucast (bits 32 16 (r ! 2))) (ucast (bits 58 1 (r ! 3))) p)
    = ran p @ [Packet (cmd_pkt f r)]"
proof -
  have low: "zext64 (ucast (bits 0 32 w) AND 0xFFFF) = bits 0 16 w" for w :: u64
  proof -
    have "ucast (bits 0 32 w) AND 0xFFFF = (take_bit 16 (ucast (bits 0 32 w)) :: u32)" by (simp add: take_bit_eq_mask mask_eq_exp_minus_1)
    then show ?thesis by (simp only:) (rule bit_eqI, auto simp: bit_simps bit_bits)
  qed
  have halves: "bits 0 32 w = push_bit 16 (bits 16 16 w) OR bits 0 16 w" for w :: u64
    by (rule bit_eqI) (auto simp: bit_simps bit_bits)
  have la: "zext64 (0x30000000 OR ucast (bits 0 32 (r ! 2)) AND 0xFFFF) = bits 0 32 (r ! 2)"
  proof -
    have "zext64 (0x30000000 OR ucast (bits 0 32 (r ! 2)) AND 0xFFFF) = 0x30000000 OR bits 0 16 (r ! 2)"
      by (simp add: ucast_or64 low)
    also have "\<dots> = bits 0 32 (r ! 2)" using halves [of "r ! 2"] c by simp
    finally show ?thesis .
  qed
  have two: "bits 0 32 0x200000000 = 0" "bits 32 2 0x200000000 = 2" "bits 34 16 0x200000000 = 0" "bits 50 8 0x200000000 = 0"
    "bits 58 (Suc 0) 0x200000000 = 0"
    by (simp_all add: bits_def)
  show ?thesis
    using assms(1-5) m by (simp add: sa_rv_gemv_run_def packet_simps la two)
qed

lemma vec_packet:
  assumes "\<And>k wd lo n. k < 16 \<Longrightarrow> ve_keys ! k = (wd, lo, n) \<Longrightarrow> vec p (of_nat k) = ucast (bits lo n (r ! wd))" and "opcode r = 0x04"
  shows "ran (sa_rv_vec_run (ucast (bits 0 32 (r ! 1))) (ucast (bits 32 32 (r ! 1))) p) = ran p @ [Packet (cmd_pkt f r)]"
proof -
  have v: "vec p 0 = ucast (bits 0 8 (r ! 3))" "vec p 1 = ucast (bits 32 32 (r ! 2))" "vec p 2 = ucast (bits 0 32 (r ! 2))"
    "vec p 3 = ucast (bits 8 6 (r ! 3))" "vec p 4 = ucast (bits 16 16 (r ! 3))" "vec p 5 = ucast (bits 32 16 (r ! 3))"
    "vec p 6 = ucast (bits 48 5 (r ! 3))" "vec p 7 = ucast (bits 0 32 (r ! 4))" "vec p 8 = ucast (bits 32 32 (r ! 4))"
    "vec p 9 = ucast (bits 0 32 (r ! 5))" "vec p 10 = ucast (bits 53 11 (r ! 3))" "vec p 11 = ucast (bits 32 32 (r ! 5))"
    "vec p 12 = ucast (bits 0 32 (r ! 6))" "vec p 13 = ucast (bits 32 32 (r ! 6))" "vec p 14 = ucast (bits 0 32 (r ! 7))"
    "vec p 15 = ucast (bits 32 32 (r ! 7))"
    using assms(1) [of 0] assms(1) [of 1] assms(1) [of 2] assms(1) [of 3] assms(1) [of 4] assms(1) [of 5] assms(1) [of 6] assms(1) [of 7]
      assms(1) [of 8] assms(1) [of 9] assms(1) [of 10] assms(1) [of 11] assms(1) [of 12] assms(1) [of 13] assms(1) [of 14] assms(1) [of 15]
    by (simp_all add: ve_keys_def)
  have halves: "bits 0 16 (bits 0 32 w) = bits 0 16 w" "bits 16 16 (bits 0 32 w) = bits 16 16 w"
    "bits 32 16 (push_bit 32 (bits 32 32 w)) = bits 32 16 w" "bits 48 16 (push_bit 32 (bits 32 32 w)) = bits 48 16 w"
    "bits 0 16 (push_bit 32 x) = 0" "bits 16 16 (push_bit 32 x) = 0" "bits 32 16 (bits 0 32 w) = 0" "bits 48 16 (bits 0 32 w) = 0" for w x :: u64
    by (rule bit_eqI; auto simp: bit_simps bit_bits)+
  show ?thesis
    using assms(2) by (simp add: sa_rv_vec_run_def packet_simps v halves)
qed

section \<open>A command\<close>

text \<open>
  What the packets of plain and GEMV loads rest on in the descriptor: no GEMV fields in a plain
  load, the result's address in ACC with no bits between its word and the memory's number in a GEMV.
\<close>
definition ld_shape :: "row \<Rightarrow> bool" where
  "ld_shape r \<longleftrightarrow> opcode r \<noteq> 0x01 \<or> (if bits 32 2 (r ! 3) = 2 then bits 16 12 (r ! 2) = 0 else bits 34 25 (r ! 3) = 0)"

lemma set_field_outside:
  "a + m \<le> lsb \<or> lsb + n \<le> a \<Longrightarrow> bits a m (set_field lsb n v w) = bits a m w"
  by (rule bit_eqI) (use bit_imp_le_length [of w] in \<open>force simp: set_field_def bit_simps bit_bits\<close>)

lemma patch_slot_ld:
  assumes "patch_slot f i r = Some q" and "opcode r = 0x01" and "length r = 8"
  shows "bits 32 32 (q ! 3) = bits 32 32 (r ! 3) \<and> bits 16 16 (q ! 2) = bits 16 16 (r ! 2) \<and> opcode q = 0x01 \<and> length q = 8"
proof (cases "q = r")
  case False
  then obtain k wd lsb n v where fo: "field_of 0x01 k = Some (wd, lsb, n)" and q: "q = r[wd := set_field lsb n v (r ! wd)]"
    using assms(1) by (auto simp: patch_slot_def Let_def assms(2) split: if_splits option.splits)
  from fo have "(wd, lsb, n) \<in> {(1, 0, 32), (2, 0, 16), (2, 32, 16), (2, 48, 16), (3, 0, 32)}"
    by (auto simp: field_of_def split: if_splits)
  then show ?thesis using assms(2,3) q by (auto simp: set_field_outside opcode_def)
qed (use assms in auto)

lemma patch_row_ld:
  assumes "patch_row f r = Some q" and "opcode r = 0x01" and "length r = 8"
  shows "bits 32 32 (q ! 3) = bits 32 32 (r ! 3) \<and> bits 16 16 (q ! 2) = bits 16 16 (r ! 2)"
proof -
  obtain r1 where "patch_slot f 0 r = Some r1" "patch_slot f 1 r1 = Some q"
    using assms(1) by (auto simp: patch_row_def split: option.splits)
  with patch_slot_ld [OF _ assms(2,3)] patch_slot_ld [of f 1 r1 q] show ?thesis by metis
qed

lemma knows_run [simp]:
  "knows kn (sa_rv_mat_load a l p) = knows kn p" "knows kn (sa_rv_mat_store a l p) = knows kn p"
  "knows kn (sa_rv_mat_exec a b c k x p) = knows kn p" "knows kn (sa_rv_vec_run a b p) = knows kn p"
  "knows kn (sa_rv_gemv_run a b c x p) = knows kn p" "knows kn (sa_rv_mat_fence m p) = knows kn p"
  by (simp_all add: knows_def sa_rv_mat_load_def sa_rv_mat_store_def sa_rv_mat_exec_def sa_rv_vec_run_def sa_rv_gemv_run_def
      sa_rv_mat_fence_def Let_def)

lemma fence_event: "ran (sa_rv_mat_fence m p) = ran p @ [Wait (bits 0 4 (zext64 m))]"
  by (simp add: sa_rv_mat_fence_def row_event_def opcode_small is_cmd_def)

lemma bits_sub_32: "bits 32 2 w = bits 0 2 (bits 32 32 w)"
  by (rule bit_eqI) (auto simp: bit_bits)

lemma bits_sub_34: "bits 34 25 w = bits 2 25 (bits 32 32 w)"
  by (rule bit_eqI) (auto simp: bit_bits)

lemma nibble: "bits 16 16 w = bits 16 12 w OR push_bit 12 (bits 28 4 w)"
  by (rule bit_eqI) (auto simp: bit_bits bit_simps)

text \<open>The operation of a command, from the values of its words.\<close>
lemma emit_op_runs:
  assumes e: "emit_op r w ddr kn = Inr (kn', is)" and kn: "knows kn p" and q: "map (val_at s) w = q" "length q = 8" "q ! 0 = r ! 0"
    and d: "opcode r = 0x01 \<or> opcode r = 0x02 \<Longrightarrow> val_at s ddr = ddr_of f q" and ls: "ld_shape r"
    and keep: "opcode r = 0x01 \<Longrightarrow> bits 32 32 (q ! 3) = bits 32 32 (r ! 3) \<and> bits 16 16 (q ! 2) = bits 16 16 (r ! 2)"
  shows "ran (do_instrs s is p) = ran p @ [if is_cmd (opcode r) then Packet (cmd_pkt f q) else Wait (bits 0 4 (q ! 1))]
    \<and> knows kn' (do_instrs s is p) \<and> (is_cmd (opcode r) \<or> opcode r = 0x10)"
proof -
  have lw: "length w = 8" using q by auto
  have v: "val_at s (w ! i) = q ! i" if "i < 8" for i using q(1) lw that by (metis nth_map)
  have oq: "opcode q = opcode r" using q(3) by (simp add: opcode_def)
  let ?b = "\<lambda>i. vbits (w ! i)"
  have app: "do_instrs s (js @ [i]) p = do_prim (fst i) (map (val_at s) (snd i)) (do_instrs s js p)" for js i
    by (cases i) simp
  have opc: "opcode r = 0x01 \<or> opcode r = 0x02 \<or> opcode r = 0x03 \<or> opcode r = 0x04 \<or> opcode r = 0x10"
    using e by (auto simp: emit_op_def Let_def split: if_splits)
  then consider (gemv) "opcode r = 0x01" "?b 3 32 2 = Const 2" | (load) "opcode r = 0x01" "?b 3 32 2 \<noteq> Const 2"
    | (store) "opcode r = 0x02" | (ex) "opcode r = 0x03" | (ve) "opcode r = 0x04" | (fence) "opcode r = 0x10" by blast
  then show ?thesis
  proof cases
    case gemv
    have m: "bits 32 2 (q ! 3) = 2"
    proof -
      have "val_at s (?b 3 32 2) = 2" using gemv(2) by simp
      then have "ucast (bits 32 2 (q ! 3)) = (2 :: u32)" by (simp add: v)
      then show ?thesis using zext_ucast_bits [of 2 32 "q ! 3"] by simp
    qed
    have c: "bits 16 16 (q ! 2) = 0x3000"
    proof -
      have "bits 28 4 (r ! 2) = 3" using e gemv by (auto simp: emit_op_def Let_def split: if_splits)
      moreover have "bits 32 2 (r ! 3) = 2" using m keep [OF gemv(1)] by (metis bits_sub_32)
      then have "bits 16 12 (r ! 2) = 0" using ls gemv(1) by (simp add: ld_shape_def)
      ultimately show ?thesis using keep [OF gemv(1)] nibble [of "r ! 2"] by simp
    qed
    obtain js where js: "cfgs 2 [(0, ?b 2 48 16), (1, ?b 3 0 32), (2, ?b 3 34 16), (3, ?b 3 50 8)] kn = (kn', js)"
      "is = js @ [(Gemv_run, [ddr, lift1 (\<lambda>x. x AND 0xFFFF) (?b 2 0 32), ?b 2 32 16, ?b 3 58 1])]"
      using e gemv by (auto simp: emit_op_def Let_def split: prod.splits if_splits)
    from cfgs_run [OF _ _ kn js(1), of s] have t: "gemv (do_instrs s js p) = (gemv p)(0 := ucast (bits 48 16 (q ! 2)), 1 := ucast (bits 0 32 (q ! 3)),
        2 := ucast (bits 34 16 (q ! 3)), 3 := ucast (bits 50 8 (q ! 3)))"
      "ran (do_instrs s js p) = ran p" "knows kn' (do_instrs s js p)"
      by (simp_all add: key_limit_def table_of_def v)
    have "val_at s ddr = ddr_of f q" using d gemv by simp
    moreover have "ran (sa_rv_gemv_run (ddr_of f q) (ucast (bits 0 32 (q ! 2)) AND 0xFFFF) (ucast (bits 32 16 (q ! 2))) (ucast (bits 58 1 (q ! 3)))
        (do_instrs s js p)) = ran p @ [Packet (cmd_pkt f q)]"
      using gemv_packet [of "do_instrs s js p" q f] t oq gemv m c by simp
    ultimately show ?thesis using t(3) gemv by (simp add: js(2) v is_cmd_def)
  next
    case load
    obtain x where x: "?b 3 32 2 = Const x" using e load by (auto simp: emit_op_def Let_def split: val.splits)
    have z: "bits 34 25 (q ! 3) = 0"
    proof -
      have "ucast (bits 32 2 (q ! 3)) = x" using x v [of 3] val_bits [of s "w ! 3" 32 2] by simp
      moreover have "x \<noteq> 2" using x load(2) by simp
      ultimately have "bits 32 2 (q ! 3) \<noteq> 2" by auto
      then have "bits 32 2 (r ! 3) \<noteq> 2" using keep [OF load(1)] by (metis bits_sub_32)
      then have "bits 34 25 (r ! 3) = 0" using ls load(1) by (simp add: ld_shape_def)
      then show ?thesis using keep [OF load(1)] bits_sub_34 by metis
    qed
    obtain js where js: "cfgs 0 [(0, ?b 2 32 16), (1, ?b 2 48 16), (2, ?b 3 0 32), (3, ?b 3 32 2)] kn = (kn', js)"
      "is = js @ [(Mat_load, [ddr, ?b 2 0 32])]"
      using e load x by (auto simp: emit_op_def Let_def split: prod.splits)
    from cfgs_run [OF _ _ kn js(1), of s] have t: "mat (do_instrs s js p) = (mat p)(0 := ucast (bits 32 16 (q ! 2)), 1 := ucast (bits 48 16 (q ! 2)),
        2 := ucast (bits 0 32 (q ! 3)), 3 := ucast (bits 32 2 (q ! 3)))"
      "ran (do_instrs s js p) = ran p" "knows kn' (do_instrs s js p)"
      by (simp_all add: key_limit_def table_of_def v)
    have "val_at s ddr = ddr_of f q" using d load by simp
    moreover have "ran (sa_rv_mat_load (ddr_of f q) (ucast (bits 0 32 (q ! 2))) (do_instrs s js p)) = ran p @ [Packet (cmd_pkt f q)]"
      using load_packet [of "do_instrs s js p" q f] t oq load z by simp
    ultimately show ?thesis using t(3) load by (simp add: js(2) v is_cmd_def)
  next
    case store
    obtain js where js: "cfgs 0 [(4, ?b 2 32 16), (5, ?b 2 48 16), (6, ?b 3 0 32)] kn = (kn', js)"
      "is = js @ [(Mat_store, [ddr, ?b 2 0 32])]"
      using e store by (auto simp: emit_op_def Let_def split: prod.splits)
    from cfgs_run [OF _ _ kn js(1), of s] have t: "mat (do_instrs s js p) = (mat p)(4 := ucast (bits 32 16 (q ! 2)), 5 := ucast (bits 48 16 (q ! 2)), 6 := ucast (bits 0 32 (q ! 3)))"
      "ran (do_instrs s js p) = ran p" "knows kn' (do_instrs s js p)"
      by (simp_all add: key_limit_def table_of_def v)
    have "val_at s ddr = ddr_of f q" using d store by simp
    moreover have "ran (sa_rv_mat_store (ddr_of f q) (ucast (bits 0 32 (q ! 2))) (do_instrs s js p)) = ran p @ [Packet (cmd_pkt f q)]"
      using store_packet [of "do_instrs s js p" q f] t oq store by simp
    ultimately show ?thesis using t(3) store by (simp add: js(2) v is_cmd_def)
  next
    case ex
    obtain js where js: "cfgs 0 [(7, ?b 2 0 12), (8, ?b 2 16 16), (9, ?b 2 32 16), (10, ?b 2 48 16)] kn = (kn', js)"
      "is = js @ [(Mat_exec, [?b 1 0 16, ?b 1 16 16, ?b 1 32 16, ?b 1 48 12, ?b 1 60 1])]"
      using e ex by (auto simp: emit_op_def Let_def split: prod.splits)
    from cfgs_run [OF _ _ kn js(1), of s] have t: "mat (do_instrs s js p) = (mat p)(7 := ucast (bits 0 12 (q ! 2)), 8 := ucast (bits 16 16 (q ! 2)),
        9 := ucast (bits 32 16 (q ! 2)), 10 := ucast (bits 48 16 (q ! 2)))"
      "ran (do_instrs s js p) = ran p" "knows kn' (do_instrs s js p)"
      by (simp_all add: key_limit_def table_of_def v)
    show ?thesis using t ex exec_packet [of "do_instrs s js p" q f] oq by (simp add: js(2) v is_cmd_def)
  next
    case ve
    obtain js where js: "cfgs 1 (map (\<lambda>(k, wd, lo, n). (of_nat k, ?b wd lo n)) (enumerate 0 ve_keys)) kn = (kn', js)"
      "is = js @ [(Vec_run, [?b 1 0 32, ?b 1 32 32])]"
      using e ve by (auto simp: emit_op_def Let_def split: prod.splits)
    have lim: "list_all (\<lambda>kv. fst kv < key_limit 1) (map (\<lambda>(k, wd, lo, n). (of_nat k, ?b wd lo n)) (enumerate 0 ve_keys))"
      by (simp add: ve_keys_def key_limit_def)
    from cfgs_run [OF _ lim kn js(1), of s] have t: "vec (do_instrs s js p) = fold (\<lambda>(k, v) g. g(k := val_at s v))
        (map (\<lambda>(k, wd, lo, n). (of_nat k, ?b wd lo n)) (enumerate 0 ve_keys)) (vec p)"
      "ran (do_instrs s js p) = ran p" "knows kn' (do_instrs s js p)"
      by (simp_all add: table_of_def)
    have vv: "vec (do_instrs s js p) (of_nat k) = ucast (bits lo n (q ! wd))" if "k < 16" "ve_keys ! k = (wd, lo, n)" for k wd lo n
    proof -
      have "k = 0 \<or> k = 1 \<or> k = 2 \<or> k = 3 \<or> k = 4 \<or> k = 5 \<or> k = 6 \<or> k = 7 \<or> k = 8 \<or> k = 9 \<or> k = 10 \<or> k = 11 \<or> k = 12 \<or> k = 13 \<or> k = 14 \<or> k = 15"
        using that(1) by arith
      then show ?thesis using that(2) unfolding t(1) by (elim disjE) (simp_all add: ve_keys_def v)
    qed
    show ?thesis using t(2,3) ve vec_packet [of "do_instrs s js p" q f, OF vv] oq by (simp add: js(2) v is_cmd_def)
  next
    case fence
    have js: "is = [(Mat_fence, [?b 1 0 4])]" "kn' = kn" using e fence by (auto simp: emit_op_def Let_def)
    show ?thesis using kn fence by (simp add: js v is_cmd_def fence_event fields)
  qed
qed

lemma ddr_val:
  assumes "ddr_value nd r base w = Inr ddr" and "map (val_at s) w = q" and "length q = 8" and "q ! 0 = r ! 0"
    and "slots_agree s f r base ds"
  shows "val_at s ddr = ddr_of f q"
proof -
  have "length w = 8" using assms(2,3) by auto
  then have "val_at s (w ! 1) = q ! 1" using assms(2) by (metis nth_map one_less_numeral_iff semiring_norm(76) numeral_One)
  then show ?thesis using assms(1,4,5)
    by (auto simp: ddr_value_def ddr_of_def reg_load_def slots_agree_def split: if_splits option.splits)
qed

text \<open>
  C6. The generated code of a command, run on the simulator's runtime, hands over exactly what the
  fetch unit makes of the command's descriptor: the wait a fence before it asks for, then its packet
  (or a fence's wait), its dynamic fields and its relocated address the same, when the registers'
  slots hold the registers' values. Keys it skips because their constant is known are already right,
  and what it knows afterwards is true again.
\<close>
theorem command_as_fetched:
  assumes e: "emit_command nd r base ds kn = Inr (kn', is)" and r: "length r = 8" "\<not> bit (r ! 0) 15" "ld_shape r"
    and sl: "slots_agree s f r base ds" and kn: "knows kn p"
  shows "\<exists>evs. exec_row ldw r (f, tr) = Some (f, tr @ evs) \<and> ran (do_instrs s is p) = ran p @ evs \<and> knows kn' (do_instrs s is p)"
proof -
  obtain w1 w ddr js where w: "apply_slot nd r ds 0 (map Const r) = Inr w1" "apply_slot nd r ds 1 w1 = Inr w"
    and d: "ddr_value nd r base w = Inr ddr" and op: "emit_op r w ddr kn = Inr (kn', js)"
    and "is": "is = (if opcode r \<noteq> 0x10 \<and> bit (r ! 0) 11 then [(Mat_fence, [Const 0])] else []) @ js"
    using e by (auto simp: emit_command_def bind_st_Inr_iff split: if_splits)
  define q where "q = map (val_at s) w"
  from row_patched [OF w r(1) sl] have q: "patch_row f r = Some q" "q ! 0 = r ! 0" "length q = 8" by (simp_all add: q_def)
  have oq: "opcode q = opcode r" using q(2) by (simp add: opcode_def)
  define p1 where "p1 = (if opcode r \<noteq> 0x10 \<and> bit (r ! 0) 11 then sa_rv_mat_fence 0 p else p)"
  have p1: "knows kn p1" "ran p1 = ran p @ (if opcode r \<noteq> 0x10 then waits_before q else [])" "do_instrs s is p = do_instrs s js p1"
    using kn q(2) by (auto simp: p1_def "is" fence_event waits_before_def bits_zero)
  have keep: "opcode r = 0x01 \<Longrightarrow> bits 32 32 (q ! 3) = bits 32 32 (r ! 3) \<and> bits 16 16 (q ! 2) = bits 16 16 (r ! 2)"
    using patch_row_ld [OF q(1) _ r(1)] by blast
  note run = emit_op_runs [OF op p1(1) q_def [symmetric] q(3,2) ddr_val [OF d q_def [symmetric] q(3,2) sl] r(3) keep]
  from run have opc: "is_cmd (opcode r) \<or> opcode r = 0x10" by simp
  show ?thesis
  proof (cases "is_cmd (opcode r)")
    case True
    then have "opcode r \<noteq> 0x10" by (auto simp: is_cmd_def)
    then show ?thesis using True run p1 r(2) q(1) oq by (intro exI [of _ "waits_before q @ [Packet (cmd_pkt f q)]"]) (simp add: exec_row_def plain_effect_def)
  next
    case False
    with opc have "opcode r = 0x10" by simp
    then show ?thesis using False run p1 r(2) q(1) oq by (intro exI [of _ "[Wait (bits 0 4 (q ! 1))]"]) (simp add: exec_row_def plain_effect_def)
  qed
qed

text \<open>A store relocated by BASE2, its address plus PARAM3.\<close>
definition sample_store :: row where
  "sample_store = [0xB10502, 64, 0x10000410000000, 256, 0, 0, 0, 0]"

definition sample_slots :: slots where
  "sample_slots = (\<lambda>v. if v = 0 then 0x1000 else 0x40)"

definition sample_regfile :: regfile where
  "sample_regfile = (\<lambda>n. if n = 2 then 0x1000 else if n = 19 then 0x40 else 0)"

theorem command_as_fetched_witness:
  "\<exists>kn' is evs. emit_command 2 sample_store (Some 0) [1] nothing_known = Inr (kn', is)
    \<and> exec_row (\<lambda>t a. 0) sample_store (sample_regfile, []) = Some (sample_regfile, [] @ evs)
    \<and> ran (do_instrs sample_slots is \<lparr>mat = (\<lambda>k. 0), vec = (\<lambda>k. 0), gemv = (\<lambda>k. 0), ran = []\<rparr>) = [] @ evs"
proof -
  let ?p = "\<lparr>mat = (\<lambda>k. 0), vec = (\<lambda>k. 0), gemv = (\<lambda>k. 0), ran = []\<rparr>"
  have o': "opcode sample_store = 2" by (simp add: opcode_def sample_store_def bits_def)
  have b: "slot_byte sample_store 0 = 0xB1" "slot_byte sample_store (Suc 0) = 0" "bit (sample_store ! 0) 8" "\<not> bit (sample_store ! 0) 11"
    "\<not> bit (sample_store ! 0) 15" "bits 9 2 (sample_store ! 0) = 2" "bits 13 2 (sample_store ! 0) = 0" "length sample_store = 8"
    by (simp_all add: slot_byte_def sample_store_def bits_def bit_iff_odd_drop_bit)
  have n: "unat (take_bit 4 (0xB1 :: u64)) = 1" by simp
  obtain w1 where w1: "apply_slot 2 sample_store [1] 0 (map Const sample_store) = Inr w1"
    by (simp add: apply_slot_def Let_def b n o' dyn_field_def DMA_fields_def reg_load_def)
  have w2: "apply_slot 2 sample_store [1] 1 w1 = Inr w1" by (simp add: apply_slot_def b Let_def)
  obtain ddr where d: "ddr_value 2 sample_store (Some 0) w1 = Inr ddr" by (simp add: ddr_value_def b reg_load_def)
  obtain kn' js where js: "emit_op sample_store w1 ddr nothing_known = Inr (kn', js)"
    by (simp add: emit_op_def o' Let_def split_def)
  have e: "emit_command 2 sample_store (Some 0) [1] nothing_known = Inr (kn', js)"
    by (simp add: emit_command_def w1 [unfolded One_nat_def] w2 [unfolded One_nat_def] d js b)
  have sl: "slots_agree sample_slots sample_regfile sample_store (Some 0) [1]"
    using b(6,7) by (simp add: slots_agree_def b sample_slots_def sample_regfile_def) (simp add: bits_def)
  have ls: "ld_shape sample_store" by (simp add: ld_shape_def o')
  have kn: "knows nothing_known ?p" by (simp add: knows_def nothing_known_def)
  from command_as_fetched [OF e b(8) b(5) ls sl kn, of "\<lambda>t a. 0" "[]"] e show ?thesis by fastforce
qed

end
