(* ===== verification/RvTopk.thy ===== *)
theory RvTopk
  imports RvEmit RvCore "HOL-Library.Multiset"
begin

text \<open>
  The generated Top-k of an MoE router (\<^verbatim>\<open>buildRawTopk\<close> of
  \<^verbatim>\<open>compiler/plugins/sa/transforms/SahwToRiscv.cpp\<close>): the checks on its metadata and the code it
  builds, run on a memory of 32-bit words.
\<close>

section \<open>The code\<close>

datatype topk_error = Invalid_metadata | Topk_not_supported | Invalid_binding

text \<open>A buffer's address: its binding, the function of the push constants and the offset.\<close>
record topk_address =
  ta_binding :: u64
  ta_lin :: lin_args
  ta_offset :: u64

record topk_code =
  tc_experts :: nat
  tc_k :: nat
  tc_addresses :: "topk_address list"

definition topk_address_of :: "int \<Rightarrow> u64 list \<Rightarrow> topk_error + topk_address" where
  "topk_address_of bindings a =
     (if sint (a ! 0) < 0 \<or> sint (a ! 0) \<ge> bindings \<or> sint (a ! 3) < 0 \<or> sint (a ! 3) > 63 \<or> sint (a ! 5) < 0 then Inl Invalid_binding
      else Inr \<lparr>ta_binding = a ! 0, ta_lin = \<lparr>l_constant = a ! 1, l_mul = a ! 2, l_shift = a ! 3, l_add = a ! 4\<rparr>, ta_offset = a ! 5\<rparr>)"

text \<open>The attributes, where the template has them: the experts, \<open>k\<close> and the three addresses' 18 numbers.\<close>
definition build_raw_topk :: "int \<Rightarrow> u64 option \<Rightarrow> u64 option \<Rightarrow> u64 list option \<Rightarrow> topk_error + topk_code" where
  "build_raw_topk bindings experts_attr k_attr addresses =
     (case (experts_attr, k_attr, addresses) of
        (Some experts, Some k, Some ns) \<Rightarrow>
          if length ns \<noteq> 18 then Inl Invalid_metadata
          else if sint experts < 2 \<or> sint experts > 256 \<or> sint k < 1 \<or> sint k \<ge> sint experts \<or> sint k > 16 then Inl Topk_not_supported
          else
            bind_st (topk_address_of bindings (take 6 ns)) (\<lambda>a.
            bind_st (topk_address_of bindings (take 6 (drop 6 ns))) (\<lambda>b.
            bind_st (topk_address_of bindings (drop 12 ns)) (\<lambda>c.
            Inr \<lparr>tc_experts = unat experts, tc_k = unat k, tc_addresses = [a, b, c]\<rparr>)))
      | _ \<Rightarrow> Inl Invalid_metadata)"

section \<open>Running it\<close>

definition topk_phys :: "(u32 \<Rightarrow> u32) \<Rightarrow> (u32 \<Rightarrow> u32) \<Rightarrow> topk_address \<Rightarrow> u32" where
  "topk_phys bind pc a = bind (ucast (ta_binding a)) + (lin (ta_lin a) pc + ucast (ta_offset a))"

text \<open>An unsigned key in the order of the floats, the two zeros alike; 0 for a NaN.\<close>
definition topk_key :: "u32 \<Rightarrow> u32" where
  "topk_key x =
     (let xc = (if x AND 0x7FFFFFFF = 0 then 0 else x);
          key = xc XOR (signed_drop_bit 31 xc OR 0x80000000)
      in if x AND 0x7FFFFFFF > 0x7F800000 then 0 else key)"

record topk_entry =
  tk_key :: u32
  tk_val :: u32
  tk_id :: u32

definition topk_none :: topk_entry where
  "topk_none = \<lparr>tk_key = 0, tk_val = 0xFF800000, tk_id = 0x7FFFFFFF\<rparr>"

text \<open>From place \<open>j\<close> up: the entries below the new one move down one place.\<close>
fun topk_place :: "nat \<Rightarrow> topk_entry \<Rightarrow> topk_entry list \<Rightarrow> topk_entry list" where
  "topk_place 0 e es = es[0 := e]"
| "topk_place (Suc j) e es =
     (if tk_key e > tk_key (es ! j) then topk_place j e (es[Suc j := es ! j]) else es[Suc j := e])"

definition topk_score :: "(u32 \<Rightarrow> u32) \<Rightarrow> u32 \<Rightarrow> nat \<Rightarrow> topk_entry" where
  "topk_score m a i = (let x = m (a + push_bit 2 (of_nat i)) in \<lparr>tk_key = topk_key x, tk_val = x, tk_id = of_nat i\<rparr>)"

definition topk_step :: "nat \<Rightarrow> topk_entry \<Rightarrow> topk_entry list \<Rightarrow> topk_entry list" where
  "topk_step k e es = (if tk_key e > tk_key (es ! (k - 1)) then topk_place (k - 1) e es else es)"

definition topk_scan :: "nat \<Rightarrow> nat \<Rightarrow> (u32 \<Rightarrow> u32) \<Rightarrow> u32 \<Rightarrow> topk_entry list" where
  "topk_scan n k m a = fold (\<lambda>i. topk_step k (topk_score m a i)) [0..<n] (replicate k topk_none)"

definition topk_store :: "u32 \<Rightarrow> u32 \<Rightarrow> nat \<Rightarrow> topk_entry list \<Rightarrow> (u32 \<Rightarrow> u32) \<Rightarrow> u32 \<Rightarrow> u32" where
  "topk_store b c k es m =
     fold (\<lambda>j m. m(b + 4 * of_nat j := tk_val (es ! j), c + 4 * of_nat j := tk_id (es ! j))) [0..<k] m"

text \<open>The function of an export with this metadata.\<close>
definition run_topk :: "topk_code \<Rightarrow> (u32 \<Rightarrow> u32) \<Rightarrow> (u32 \<Rightarrow> u32) \<Rightarrow> (u32 \<Rightarrow> u32) \<Rightarrow> u32 \<Rightarrow> u32" where
  "run_topk code bind pc m =
     (let a = map (topk_phys bind pc) (tc_addresses code);
          es = topk_scan (tc_experts code) (tc_k code) m (a ! 0)
      in topk_store (a ! 1) (a ! 2) (tc_k code) es m)"

section \<open>Keys\<close>

definition f32_nan :: "u32 \<Rightarrow> bool" where
  "f32_nan x \<longleftrightarrow> magnitude x > 0x7F800000"

lemma and_31: "x AND 0x7FFFFFFF = take_bit 31 x" for x :: u32
  by (simp add: take_bit_eq_mask mask_eq_exp_minus_1)

lemma topk_key_rvs:
  "topk_key x = (if f32_nan x then 0 else if magnitude x = 0 then rvs_key 0 else rvs_key x)"
proof -
  have nan: "x AND 0x7FFFFFFF > 0x7F800000 \<longleftrightarrow> f32_nan x"
    unfolding and_31 f32_nan_def magnitude_def word_less_nat_alt by simp
  have zero: "x AND 0x7FFFFFFF = 0 \<longleftrightarrow> magnitude x = 0"
    unfolding and_31 magnitude_def by (simp add: unat_eq_zero)
  have key: "y XOR (signed_drop_bit 31 y OR 0x80000000) = rvs_key y" for y :: u32
  proof -
    have sd: "signed_drop_bit 31 y = (if bit y 31 then - 1 else 0)"
    proof (rule bit_eqI)
      fix n assume "possible_bit TYPE(u32) n"
      then have "n = 0 \<or> 1 \<le> n" "n < 32" by auto
      then show "bit (signed_drop_bit 31 y) n = bit (if bit y 31 then - 1 else 0 :: u32) n"
        by (cases "bit y 31") (auto simp: bit_signed_drop_bit_iff)
    qed
    have "y XOR 0x80000000 = y OR 0x80000000" if "\<not> bit y 31"
      using that by (intro bit_eqI) (simp only: bit_or_iff bit_xor_iff top_bit, blast)
    then show ?thesis by (simp add: sd rvs_key_def sign_bit)
  qed
  show ?thesis unfolding topk_key_def Let_def nan zero key by simp
qed

lemma topk_key_value:
  assumes "\<not> f32_nan x"
  shows "int (unat (topk_key x)) = (if f32_ord x < 0 then 2 ^ 31 - 1 + f32_ord x else 2 ^ 31 + f32_ord x)"
proof (cases "magnitude x = 0")
  case True
  then have "topk_key x = rvs_key 0" "f32_ord x = 0" using assms by (simp_all add: topk_key_rvs f32_ord_def)
  then show ?thesis using key_value [of 0] by (simp add: f32_ord_def magnitude_def)
next
  case False
  then show ?thesis using assms key_value [of x] by (simp add: topk_key_rvs f32_ord_def)
qed

section \<open>Selection\<close>

abbreviation at_least :: "topk_entry \<Rightarrow> topk_entry \<Rightarrow> bool" where
  "at_least e x \<equiv> tk_key e \<le> tk_key x"

text \<open>A list in descending order with the new entry after the last that is not below it.\<close>
definition topk_ins :: "topk_entry \<Rightarrow> topk_entry list \<Rightarrow> topk_entry list" where
  "topk_ins e xs = takeWhile (at_least e) xs @ e # dropWhile (at_least e) xs"

definition descending :: "topk_entry list \<Rightarrow> bool" where
  "descending xs \<longleftrightarrow> sorted_wrt (\<lambda>a b. tk_key b \<le> tk_key a) xs"

lemma length_ins: "length (topk_ins e xs) = Suc (length xs)"
proof -
  have "length (takeWhile (at_least e) xs) + length (dropWhile (at_least e) xs) = length xs" by (metis length_append takeWhile_dropWhile_id)
  then show ?thesis by (simp add: topk_ins_def)
qed

lemma ins_snoc_below: "\<not> at_least e x \<Longrightarrow> topk_ins e (xs @ [x]) = topk_ins e xs @ [x]"
  by (induction xs) (auto simp: topk_ins_def)

lemma ins_all: "\<forall>x \<in> set xs. at_least e x \<Longrightarrow> topk_ins e (xs @ ys) = xs @ topk_ins e ys"
  by (induction xs) (auto simp: topk_ins_def)

lemma descending_nth: "descending xs \<Longrightarrow> i \<le> j \<Longrightarrow> j < length xs \<Longrightarrow> tk_key (xs ! j) \<le> tk_key (xs ! i)"
  unfolding descending_def by (cases "i = j") (auto simp: sorted_wrt_iff_nth_less)

lemma place_ins:
  assumes "j < length es" and "descending (take j es)"
  shows "topk_place j e es = topk_ins e (take j es) @ drop (Suc j) es"
  using assms
proof (induction j arbitrary: es)
  case 0
  then show ?case by (cases es) (simp_all add: topk_ins_def)
next
  case (Suc j)
  have t: "take (Suc j) es = take j es @ [es ! j]" using Suc.prems(1) by (simp add: take_Suc_conv_app_nth)
  show ?case
  proof (cases "tk_key e > tk_key (es ! j)")
    case True
    have d: "descending (take j (es[Suc j := es ! j]))"
      using Suc.prems(2) by (simp add: t descending_def sorted_wrt_append)
    have "drop (Suc j) (es[Suc j := es ! j]) = es ! j # drop (Suc (Suc j)) es"
      using Suc.prems(1) by (simp add: drop_update_swap Cons_nth_drop_Suc [symmetric])
    then show ?thesis using Suc.IH [OF _ d] Suc.prems(1) True by (simp add: t ins_snoc_below not_le)
  next
    case False
    have "\<forall>x \<in> set (take (Suc j) es). at_least e x"
    proof
      fix x assume "x \<in> set (take (Suc j) es)"
      then obtain i where i: "i \<le> j" "x = take (Suc j) es ! i" using Suc.prems(1) by (auto simp: in_set_conv_nth less_Suc_eq_le)
      have "tk_key (take (Suc j) es ! j) \<le> tk_key x" using descending_nth [OF Suc.prems(2) i(1)] Suc.prems(1) i(2) by simp
      then show "at_least e x" using False by (simp add: not_less)
    qed
    then have "topk_ins e (take (Suc j) es) = take (Suc j) es @ [e]" using ins_all [of "take (Suc j) es" e "[]"] by (simp add: topk_ins_def)
    then show ?thesis using False Suc.prems(1) by (simp add: upd_conv_take_nth_drop)
  qed
qed

text \<open>One step on the first \<open>k\<close> of a longer descending list is insertion into that list.\<close>
lemma step_ins:
  assumes d: "descending xs" and k: "0 < k" "k \<le> length xs"
  shows "topk_step k e (take k xs) = take k (topk_ins e xs)"
proof -
  have split: "take k xs = take (k - 1) xs @ [xs ! (k - 1)]"
    using k take_Suc_conv_app_nth [of "k - 1" xs] by simp
  have dt: "descending (take n xs)" for n
    using d unfolding descending_def by (metis append_take_drop_id sorted_wrt_append)
  show ?thesis
  proof (cases "tk_key e > tk_key (xs ! (k - 1))")
    case True
    have "topk_step k e (take k xs) = topk_ins e (take (k - 1) xs)"
      using True k place_ins [of "k - 1" "take k xs" e] dt [of "k - 1"] by (simp add: topk_step_def min_def)
    also have "\<dots> = take k (topk_ins e (take (k - 1) xs @ xs ! (k - 1) # drop k xs))"
    proof -
      let ?a = "take (k - 1) xs"
      have "topk_ins e (?a @ xs ! (k - 1) # drop k xs) = topk_ins e ?a @ xs ! (k - 1) # drop k xs"
        using True unfolding topk_ins_def not_le [symmetric] by (simp add: takeWhile_tail dropWhile_append)
      moreover have "length (topk_ins e ?a) = k" using k by (simp add: length_ins)
      ultimately show ?thesis by simp
    qed
    also have "take (k - 1) xs @ xs ! (k - 1) # drop k xs = xs"
      using k id_take_nth_drop [of "k - 1" xs] by simp
    finally show ?thesis .
  next
    case False
    have "\<forall>x \<in> set (take k xs). at_least e x"
    proof
      fix x assume "x \<in> set (take k xs)"
      then obtain i where i: "i < k" "x = xs ! i" using k by (auto simp: in_set_conv_nth)
      then have "i \<le> k - 1" "k - 1 < length xs" using k by auto
      from descending_nth [OF d this] show "at_least e x" using i(2) False by (simp add: not_less)
    qed
    then have "topk_ins e (take k xs @ drop k xs) = take k xs @ topk_ins e (drop k xs)" by (rule ins_all)
    then show ?thesis using False k by (simp add: topk_step_def)
  qed
qed

definition by_key :: "topk_entry \<Rightarrow> int" where
  "by_key e = - int (unat (tk_key e))"

lemma by_key_le: "by_key a \<le> by_key b \<longleftrightarrow> tk_key b \<le> tk_key a"
  by (simp add: by_key_def word_le_def)

lemma descending_sorted: "descending xs \<longleftrightarrow> sorted (map by_key xs)"
  by (simp add: descending_def sorted_map by_key_le)

lemma descending_ins:
  assumes "descending xs" shows "descending (topk_ins e xs)"
proof -
  have "topk_ins e xs = takeWhile (at_least e) xs @ e # dropWhile (at_least e) xs" by (simp add: topk_ins_def)
  moreover have "\<forall>x \<in> set (dropWhile (at_least e) xs). tk_key x \<le> tk_key e"
    using assms by (induction xs) (auto simp: descending_def not_le)
  moreover have "\<forall>x \<in> set (takeWhile (at_least e) xs). \<forall>y \<in> set (dropWhile (at_least e) xs). tk_key y \<le> tk_key x"
    "descending (takeWhile (at_least e) xs)" "descending (dropWhile (at_least e) xs)"
    using assms unfolding descending_def by (metis sorted_wrt_append takeWhile_dropWhile_id)+
  ultimately show ?thesis unfolding descending_def by (auto simp: sorted_wrt_append dest: set_takeWhileD)
qed

lemma dropped_below: "descending xs \<Longrightarrow> y \<in> set (dropWhile (at_least e) xs) \<Longrightarrow> tk_key y < tk_key e"
proof (induction xs)
  case (Cons x xs)
  show ?case
  proof (cases "at_least e x")
    case True
    with Cons show ?thesis by (simp add: descending_def)
  next
    case False
    with Cons.prems have "tk_key y \<le> tk_key x" by (auto simp: descending_def)
    with False show ?thesis by simp
  qed
qed simp

lemma sort_snoc: "sort_key by_key (xs @ [e]) = topk_ins e (sort_key by_key xs)"
proof (rule properties_for_sort_key)
  let ?s = "sort_key by_key xs"
  have "mset ?s = mset (takeWhile (at_least e) ?s) + mset (dropWhile (at_least e) ?s)" by (metis mset_append takeWhile_dropWhile_id)
  then show "mset (topk_ins e ?s) = mset (xs @ [e])" by (simp add: topk_ins_def)
  have d: "descending ?s" by (simp add: descending_sorted)
  then show "sorted (map by_key (topk_ins e ?s))" using descending_ins by (simp add: descending_sorted [symmetric])
  fix x assume "x \<in> set (topk_ins e ?s)"
  have f: "filter (\<lambda>y. by_key x = by_key y) ?s = filter (\<lambda>y. by_key x = by_key y) xs"
    using sort_key_stable [of by_key "by_key x" xs] by (simp only: eq_commute [of "by_key x"])
  have s: "?s = takeWhile (at_least e) ?s @ dropWhile (at_least e) ?s" by simp
  have none: "filter (\<lambda>y. by_key x = by_key y) (dropWhile (at_least e) ?s) = []" if "by_key x = by_key e"
  proof -
    have "by_key y \<noteq> by_key e" if "y \<in> set (dropWhile (at_least e) ?s)" for y
      using dropped_below [OF d that] by (simp add: by_key_def word_less_def)
    then show ?thesis using that by (simp add: filter_empty_conv) metis
  qed
  have "filter (\<lambda>y. by_key x = by_key y) (takeWhile (at_least e) ?s) @ filter (\<lambda>y. by_key x = by_key y) (dropWhile (at_least e) ?s)
      = filter (\<lambda>y. by_key x = by_key y) xs"
    using f s by (metis filter_append)
  then show "filter (\<lambda>y. by_key x = by_key y) (topk_ins e ?s) = filter (\<lambda>y. by_key x = by_key y) (xs @ [e])"
    unfolding topk_ins_def using none by (cases "by_key x = by_key e") simp_all
qed

section \<open>The selected experts\<close>

lemma ins_none:
  assumes "tk_key e \<noteq> 0"
  shows "topk_ins e (xs @ replicate k topk_none) = topk_ins e xs @ replicate k topk_none"
proof (cases "\<forall>x \<in> set xs. at_least e x")
  case True
  have "topk_ins e (replicate k topk_none) = e # replicate k topk_none"
    using assms by (cases k) (auto simp: topk_ins_def topk_none_def)
  then show ?thesis using ins_all [OF True, of "replicate k topk_none"] ins_all [OF True, of "[]"] by (simp add: topk_ins_def)
next
  case False
  then obtain x where x: "x \<in> set xs" "\<not> at_least e x" by blast
  show ?thesis
    by (simp add: topk_ins_def takeWhile_append1 [where P = "at_least e", OF x] dropWhile_append1 [where P = "at_least e", OF x])
qed

definition ranked :: "topk_entry list \<Rightarrow> topk_entry list" where
  "ranked es = sort_key by_key (filter (\<lambda>e. tk_key e \<noteq> 0) es)"

lemma scan_ranked:
  assumes "0 < k"
  shows "fold (topk_step k) es (replicate k topk_none) = take k (ranked es @ replicate k topk_none)"
proof (induction es rule: rev_induct)
  case Nil
  then show ?case by (simp add: ranked_def)
next
  case (snoc e es)
  let ?m = "ranked es @ replicate k topk_none"
  have "by_key x \<le> by_key topk_none" for x by (simp add: by_key_def topk_none_def)
  then have d: "descending ?m"
    by (simp add: ranked_def descending_def sorted_wrt_append descending_sorted [unfolded descending_def] by_key_le)
  show ?case
  proof (cases "tk_key e = 0")
    case True
    have "topk_step k e (take k ?m) = take k ?m" by (simp add: topk_step_def True)
    then show ?thesis using snoc True by (simp add: ranked_def)
  next
    case False
    have "ranked (es @ [e]) = topk_ins e (ranked es)" using False by (simp add: ranked_def sort_snoc)
    then show ?thesis using snoc step_ins [OF d assms, of e] ins_none [OF False, of "ranked es" k] by simp
  qed
qed

text \<open>
  C35. The generated Top-k leaves the \<open>k\<close> best scores in descending order, each with its expert's
  number, equal scores in the order of the numbers, NaN scores never, and the initial entries (minus
  infinity) only when fewer than \<open>k\<close> scores are numbers.
\<close>
theorem topk_selects:
  assumes "0 < k"
  shows "topk_scan n k m a = take k (sort_key by_key (filter (\<lambda>e. tk_key e \<noteq> 0) (map (topk_score m a) [0..<n])) @ replicate k topk_none)"
proof -
  have "topk_scan n k m a = fold (topk_step k) (map (topk_score m a) [0..<n]) (replicate k topk_none)"
    by (simp add: topk_scan_def fold_map o_def)
  then show ?thesis using scan_ranked [OF assms] by (simp add: ranked_def)
qed

theorem topk_selects_witness:
  "topk_scan 3 2 (\<lambda>x. x) 0x3F800000 = take 2 (sort_key by_key (filter (\<lambda>e. tk_key e \<noteq> 0) (map (topk_score (\<lambda>x. x) 0x3F800000) [0..<3])) @ replicate 2 topk_none)"
  by (rule topk_selects) simp

text \<open>
  C36. The integer keys order the scores as floats: of two scores that are numbers the larger has
  the larger key, the two zeros have one key, no number has the key 0 and every NaN has it.
\<close>
theorem topk_key_order:
  assumes "\<not> f32_nan x" and "\<not> f32_nan y"
  shows "(topk_key x < topk_key y \<longleftrightarrow> f32_ord x < f32_ord y) \<and> (topk_key x = topk_key y \<longleftrightarrow> f32_ord x = f32_ord y)
    \<and> topk_key x \<noteq> 0 \<and> (f32_nan z \<longrightarrow> topk_key z = 0)"
proof -
  have lt: "topk_key x < topk_key y \<longleftrightarrow> int (unat (topk_key x)) < int (unat (topk_key y))" by (simp add: word_less_def)
  have eq: "topk_key x = topk_key y \<longleftrightarrow> int (unat (topk_key x)) = int (unat (topk_key y))" by (simp add: word_uint_eq_iff)
  have "f32_ord x \<ge> - 0x7F800000" using assms(1) by (simp add: f32_ord_def f32_nan_def)
  then have "int (unat (topk_key x)) \<noteq> 0" unfolding topk_key_value [OF assms(1)] by (simp split: if_splits)
  then have "topk_key x \<noteq> 0" by auto
  then show ?thesis unfolding lt eq topk_key_value [OF assms(1)] topk_key_value [OF assms(2)] by (auto simp: topk_key_rvs)
qed

theorem topk_key_order_witness:
  "(topk_key 0x80000000 < topk_key 0x3F800000 \<longleftrightarrow> f32_ord 0x80000000 < f32_ord 0x3F800000) \<and> topk_key 0x80000000 \<noteq> 0"
  using topk_key_order [of "0x80000000" "0x3F800000"] by (simp add: f32_nan_def magnitude_def)

end
