(* ===== verification/SahwPasses.thy ===== *)
theory SahwPasses
  imports CmdFetch
begin

text \<open>
  The passes on the sahw dialect (\<^verbatim>\<open>compiler/plugins/sa/transforms/SahwPasses.cpp\<close>): the target
  configuration, the head split off a body, and the numbers of the registers. A template's block is
  its register definitions followed by its sections. A 64-bit number of the configuration is an
  integer; the one operation on it that could overflow, \<^verbatim>\<open>2 * maxDynamic\<close>, is undefined in C++ then.
\<close>

section \<open>Target configuration\<close>

record target_config =
  tc_d :: int
  tc_spad_bytes :: int
  tc_acc_bytes :: int
  tc_max_dynamic :: int
  tc_dyn_fields :: int
  tc_bases :: int
  tc_params :: int
  tc_gemv_ports :: int
  tc_gemv_ksplit :: int
  tc_attn_block :: int
  tc_chunk_block :: int
  tc_ukernels :: string
  tc_tile_shrink :: int

definition default_config :: target_config where
  "default_config = \<lparr>tc_d = 8, tc_spad_bytes = 128 * 1024, tc_acc_bytes = 256 * 1024, tc_max_dynamic = 256, tc_dyn_fields = 2,
     tc_bases = 16, tc_params = 8, tc_gemv_ports = 0, tc_gemv_ksplit = 1, tc_attn_block = 0, tc_chunk_block = 0,
     tc_ukernels = ''all'', tc_tile_shrink = 0\<rparr>"

text \<open>The integer attributes of a dictionary; the field keeps its value without one.\<close>
definition attr_or :: "(string \<rightharpoonup> int) \<Rightarrow> string \<Rightarrow> int \<Rightarrow> int" where
  "attr_or m name v = (case m name of None \<Rightarrow> v | Some a \<Rightarrow> a)"

definition from_attr :: "(string \<rightharpoonup> int) option \<Rightarrow> target_config" where
  "from_attr config =
     (case config of None \<Rightarrow> default_config
      | Some m \<Rightarrow> (let c = default_config in
         c\<lparr>tc_d := attr_or m ''d'' (tc_d c),
           tc_spad_bytes := attr_or m ''spad_bytes'' (tc_spad_bytes c),
           tc_acc_bytes := attr_or m ''acc_bytes'' (tc_acc_bytes c),
           tc_max_dynamic := attr_or m ''max_dynamic'' (tc_max_dynamic c),
           tc_dyn_fields := attr_or m ''dyn_fields'' (tc_dyn_fields c),
           tc_bases := attr_or m ''bases'' (tc_bases c),
           tc_params := attr_or m ''params'' (tc_params c),
           tc_gemv_ports := attr_or m ''gemv_ports'' (tc_gemv_ports c),
           tc_gemv_ksplit := attr_or m ''gemv_ksplit'' (tc_gemv_ksplit c),
           tc_attn_block := attr_or m ''attn_block'' (tc_attn_block c),
           tc_chunk_block := attr_or m ''chunk_block'' (tc_chunk_block c)\<rparr>))"

definition add_to :: "target_config \<Rightarrow> (string \<times> int) list \<Rightarrow> (string \<times> int) list" where
  "add_to c attrs = attrs
     @ [(''d'', tc_d c), (''spad_bytes'', tc_spad_bytes c), (''acc_bytes'', tc_acc_bytes c), (''max_dynamic'', tc_max_dynamic c),
        (''dyn_fields'', tc_dyn_fields c), (''bases'', tc_bases c), (''params'', tc_params c)]
     @ (if tc_gemv_ports c \<noteq> 0 then [(''gemv_ports'', tc_gemv_ports c)] else [])
     @ (if tc_gemv_ksplit c = 0 then [(''gemv_ksplit'', 0)] else [])
     @ (if tc_attn_block c \<noteq> 0 then [(''attn_block'', tc_attn_block c)] else [])
     @ (if tc_chunk_block c \<noteq> 0 then [(''chunk_block'', tc_chunk_block c)] else [])"

definition pow2 :: "int \<Rightarrow> bool" where
  "pow2 v \<longleftrightarrow> v > 0 \<and> v AND (v - 1) = 0"

definition invalid_config :: "target_config \<Rightarrow> string" where
  "invalid_config c =
     (if tc_d c \<noteq> 8 \<and> tc_d c \<noteq> 16 then ''d must be 8 or 16''
      else if \<not> pow2 (tc_spad_bytes c) \<or> tc_spad_bytes c div tc_d c > 65536 \<or> tc_spad_bytes c div tc_d c < 2 * tc_max_dynamic c
        then ''spad_bytes must be a power of two, at most 2^16 words of D bytes''
      else if \<not> pow2 (tc_acc_bytes c) \<or> tc_acc_bytes c div (4 * tc_d c) > 65536 \<or> tc_acc_bytes c div (4 * tc_d c) < 64
        then ''acc_bytes must be a power of two, at most 2^16 words of 4 * D bytes''
      else if tc_gemv_ports c < 0 \<or> tc_gemv_ports c > 4 \<or> (tc_gemv_ports c \<noteq> 0 \<and> tc_d c \<noteq> 16)
        then ''gemv_ports must be 0..4 (D = 16 only)''
      else '''')"

text \<open>\<^verbatim>\<open>StringRef::split\<close> with empty parts kept.\<close>
fun split_at :: "char \<Rightarrow> string \<Rightarrow> string list" where
  "split_at s [] = [[]]"
| "split_at s (c # cs) = (if c = s then [] # split_at s cs else (case split_at s cs of [] \<Rightarrow> [[c]] | w # ws \<Rightarrow> (c # w) # ws))"

definition ukernel :: "target_config \<Rightarrow> string \<Rightarrow> bool" where
  "ukernel c name =
     (if tc_ukernels c = ''all'' then True
      else if tc_ukernels c = ''none'' \<or> tc_ukernels c = '''' then False
      else name \<in> set (split_at (CHR '','') (tc_ukernels c)))"

section \<open>The head\<close>

text \<open>Any command of a block, those in its loops included, touches SPAD_B.\<close>
fun walks_spad_b :: "op list \<Rightarrow> bool" where
  "walks_spad_b [] = False"
| "walks_spad_b (Loop c k1 s1 k2 s2 h body # ops) = (walks_spad_b body \<or> walks_spad_b ops)"
| "walks_spad_b (o' # ops) = (touches_spad_b o' \<or> walks_spad_b ops)"

fun is_ld :: "op \<Rightarrow> bool" where
  "is_ld (Ld b a h) = True"
| "is_ld _ = False"

definition split_head :: "sahw_template \<Rightarrow> sahw_template" where
  "split_head t =
     (if t_unsupported t \<or> t_head t \<noteq> None then t
      else case t_body t of None \<Rightarrow> t
      | Some body \<Rightarrow>
          if walks_spad_b body then t
          else (let lds = takeWhile is_ld body in
                if lds = [] then t else t\<lparr>t_head := Some lds, t_body := Some (dropWhile is_ld body)\<rparr>))"

section \<open>The registers\<close>

datatype assign_error = More_than_15_bases | More_than_8_params

text \<open>The values an operation uses, each with whether it is an LDPARAM's target.\<close>
definition option_uses :: "nat option \<Rightarrow> nat list" where
  "option_uses b = (case b of None \<Rightarrow> [] | Some v \<Rightarrow> [v])"

fun op_uses :: "op \<Rightarrow> (nat \<times> bool) list" where
  "op_uses (Loop c k1 s1 k2 s2 h body) = map (\<lambda>v. (v, False)) (k1 # k2 # h_dyn h)"
| "op_uses (Ld b a h) = map (\<lambda>v. (v, False)) (option_uses b @ h_dyn h)"
| "op_uses (St b a h) = map (\<lambda>v. (v, False)) (option_uses b @ h_dyn h)"
| "op_uses (Ex a h) = map (\<lambda>v. (v, False)) (h_dyn h)"
| "op_uses (Ve a h) = map (\<lambda>v. (v, False)) (h_dyn h)"
| "op_uses (Transpose a h) = map (\<lambda>v. (v, False)) (h_dyn h)"
| "op_uses (LdParam b tgt a h) = map (\<lambda>v. (v, v = tgt)) (tgt # option_uses b @ h_dyn h)"
| "op_uses (SetReg ts vals am h) = map (\<lambda>v. (v, False)) (ts @ h_dyn h)"
| "op_uses _ = []"

text \<open>A use: the value, the position of the operation, and whether that is an LDPARAM of it.\<close>
type_synonym use = "nat \<times> int \<times> bool"

definition uses_at :: "int \<Rightarrow> op \<Rightarrow> use list" where
  "uses_at p o' = map (\<lambda>(v, tgt). (v, p, tgt)) (op_uses o')"

text \<open>
  The walk that numbers the operations visits an operation after those of its region
  (\<^verbatim>\<open>Operation::walk\<close> is post-order). The uses of a block from position \<open>p\<close>, and the next position.
\<close>
fun block_uses :: "int \<Rightarrow> op list \<Rightarrow> use list \<times> int" where
  "block_uses p [] = ([], p)"
| "block_uses p (Loop c k1 s1 k2 s2 h body # ops) =
     (let (us, q) = block_uses p body; (vs, r) = block_uses (q + 1) ops
      in (us @ uses_at q (Loop c k1 s1 k2 s2 h body) @ vs, r))"
| "block_uses p (o' # ops) = (let (vs, r) = block_uses (p + 1) ops in (uses_at p o' @ vs, r))"

definition sections :: "sahw_template \<Rightarrow> op list list" where
  "sections t = concat (map (\<lambda>x. case x of None \<Rightarrow> [] | Some ops \<Rightarrow> [ops]) [t_prefix t, t_head t, t_body t])"

text \<open>The uses of the sections, and the position of each section after its operations.\<close>
fun section_uses :: "int \<Rightarrow> op list list \<Rightarrow> use list \<times> int list" where
  "section_uses p [] = ([], [])"
| "section_uses p (ops # secs) =
     (let (us, q) = block_uses p ops; (vs, es) = section_uses (q + 1) secs in (us @ vs, q # es))"

definition template_uses :: "sahw_template \<Rightarrow> use list \<times> int list" where
  "template_uses t = section_uses (int (length (t_defs t))) (sections t)"

record live_range =
  lr_first :: int
  lr_last :: int
  lr_def_first :: bool

definition no_range :: live_range where
  "no_range = \<lparr>lr_first = 0x7FFFFFFF, lr_last = - 1, lr_def_first = False\<rparr>"

definition add_use :: "use \<Rightarrow> live_range \<Rightarrow> live_range" where
  "add_use u l =
     (let (v, p, tgt) = u;
          l1 = (if p < lr_first l then l\<lparr>lr_first := p, lr_def_first := tgt\<rparr> else l)
      in l1\<lparr>lr_last := max (lr_last l1) p\<rparr>)"

definition live_of :: "use list \<Rightarrow> nat \<Rightarrow> live_range" where
  "live_of us v = fold add_use (filter (\<lambda>u. fst u = v) us) no_range"

text \<open>
  The extension over the operations with regions among the template's own: \<open>pos\<close> is the position of
  the section, \<open>fin\<close> the last position in it, which is its own.
\<close>
definition extend_range :: "int \<Rightarrow> int \<Rightarrow> live_range \<Rightarrow> live_range" where
  "extend_range pos fin l =
     (if lr_first l > pos \<and> lr_first l \<le> fin then l\<lparr>lr_last := max (lr_last l) fin\<rparr>
      else if lr_last l > pos \<and> lr_last l \<le> fin then l\<lparr>lr_last := fin\<rparr> else l)"

definition ranges :: "sahw_template \<Rightarrow> nat \<Rightarrow> live_range" where
  "ranges t v = (let (us, es) = template_uses t in fold (\<lambda>e. extend_range e e) es (live_of us v))"

fun is_private :: "reg_def \<Rightarrow> bool" where
  "is_private (PrivateDef r) = True"
| "is_private _ = False"

fun is_param :: "reg_def \<Rightarrow> bool" where
  "is_param (ParamDef l r) = True"
| "is_param _ = False"

fun is_base :: "reg_def \<Rightarrow> bool" where
  "is_base (BaseDef b l r) = True"
| "is_base _ = False"

definition values_of :: "(reg_def \<Rightarrow> bool) \<Rightarrow> reg_def list \<Rightarrow> nat list" where
  "values_of k defs = filter (\<lambda>v. k (defs ! v)) [0..<length defs]"

text \<open>The allocation: next number, free numbers (a stack), numbers in use up to a position, the numbers given.\<close>
record alloc_state =
  al_next :: nat
  al_free :: "nat list"
  al_busy :: "(int \<times> nat) list"
  al_regs :: "(nat \<times> nat) list"

definition free_ended :: "int \<Rightarrow> alloc_state \<Rightarrow> alloc_state" where
  "free_ended first s =
     s\<lparr>al_free := al_free s @ map snd (filter (\<lambda>(l, r). l < first) (al_busy s)),
       al_busy := filter (\<lambda>(l, r). \<not> l < first) (al_busy s)\<rparr>"

definition take_number :: "live_range \<Rightarrow> alloc_state \<Rightarrow> nat \<times> alloc_state" where
  "take_number l s =
     (if lr_def_first l \<and> al_free s \<noteq> [] then (last (al_free s), s\<lparr>al_free := butlast (al_free s)\<rparr>)
      else (al_next s, s\<lparr>al_next := al_next s + 1\<rparr>))"

definition alloc_one :: "(nat \<Rightarrow> live_range) \<Rightarrow> int \<times> nat \<Rightarrow> alloc_state \<Rightarrow> assign_error + alloc_state" where
  "alloc_one lv x s =
     (let (first, v) = x; l = lv v; (r, s1) = take_number l (free_ended first s) in
      if r > 7 then Inl More_than_8_params
      else Inr (s1\<lparr>al_regs := al_regs s1 @ [(v, r)],
                   al_busy := (if lr_def_first l then al_busy s1 @ [(lr_last l, r)] else al_busy s1)\<rparr>))"

fun alloc_all :: "(nat \<Rightarrow> live_range) \<Rightarrow> (int \<times> nat) list \<Rightarrow> alloc_state \<Rightarrow> assign_error + alloc_state" where
  "alloc_all lv [] s = Inr s"
| "alloc_all lv (x # xs) s = bind_st (alloc_one lv x s) (alloc_all lv xs)"

fun set_reg :: "nat \<Rightarrow> reg_def \<Rightarrow> reg_def" where
  "set_reg r (BaseDef b l _) = BaseDef b l (Some r)"
| "set_reg r (ParamDef l _) = ParamDef l (Some r)"
| "set_reg r (PrivateDef _) = PrivateDef (Some r)"

text \<open>The numbers of the setup registers in order, from \<open>nb\<close> and \<open>np\<close>; those of the privates are given.\<close>
fun number_setup :: "(nat \<Rightarrow> nat option) \<Rightarrow> nat \<Rightarrow> nat \<Rightarrow> nat \<Rightarrow> reg_def list \<Rightarrow> assign_error + reg_def list" where
  "number_setup pr v nb np [] = Inr []"
| "number_setup pr v nb np (d # ds) =
     (if is_base d then
        if nb \<ge> 15 then Inl More_than_15_bases
        else bind_st (number_setup pr (Suc v) (Suc nb) np ds) (\<lambda>es. Inr (set_reg nb d # es))
      else if is_param d then bind_st (number_setup pr (Suc v) nb (Suc np) ds) (\<lambda>es. Inr (set_reg np d # es))
      else bind_st (number_setup pr (Suc v) nb np ds) (\<lambda>es. Inr ((case pr v of None \<Rightarrow> d | Some r \<Rightarrow> set_reg r d) # es)))"

text \<open>\<open>srt\<close>: the sort by the first position; the order of equal ones is the library's.\<close>
definition assign_reusing ::
  "((int \<times> nat) list \<Rightarrow> (int \<times> nat) list) \<Rightarrow> sahw_template \<Rightarrow> assign_error + reg_def list" where
  "assign_reusing srt t =
     (let defs = t_defs t; lv = ranges t;
          start = \<lparr>al_next = length (filter is_param defs), al_free = [], al_busy = [], al_regs = []\<rparr>
      in bind_st (alloc_all lv (srt (map (\<lambda>v. (lr_first (lv v), v)) (values_of is_private defs))) start)
           (\<lambda>s. number_setup (map_of (al_regs s)) 0 0 0 defs))"

text \<open>The plain numbering: BASE and PARAM from 0, private PARAMs from 7 down.\<close>
fun number_plain :: "nat \<Rightarrow> int \<Rightarrow> int \<Rightarrow> reg_def list \<Rightarrow> assign_error + reg_def list" where
  "number_plain nb np nq [] = Inr []"
| "number_plain nb np nq (d # ds) =
     (if is_base d then
        if nb \<ge> 15 then Inl More_than_15_bases
        else if np > nq + 1 then Inl More_than_8_params
        else bind_st (number_plain (Suc nb) np nq ds) (\<lambda>es. Inr (set_reg nb d # es))
      else if is_param d then
        if np + 1 > nq + 1 then Inl More_than_8_params
        else bind_st (number_plain nb (np + 1) nq ds) (\<lambda>es. Inr (set_reg (nat np) d # es))
      else if np > (nq - 1) + 1 then Inl More_than_8_params
        else bind_st (number_plain nb np (nq - 1) ds) (\<lambda>es. Inr (set_reg (nat nq) d # es)))"

definition assign_registers ::
  "((int \<times> nat) list \<Rightarrow> (int \<times> nat) list) \<Rightarrow> sahw_template \<Rightarrow> assign_error + sahw_template" where
  "assign_registers srt t =
     bind_st
       (if length (filter is_param (t_defs t)) + length (filter is_private (t_defs t)) > 8 then assign_reusing srt t
        else number_plain 0 0 7 (t_defs t))
       (\<lambda>defs. Inr (t\<lparr>t_defs := defs\<rparr>))"

end
