(* ===== verification/SplitHead.thy ===== *)
theory SplitHead
  imports SahwPasses
begin

text \<open>
  What the passes on the sahw dialect keep: the round trip of the target configuration through its
  attributes, the sizes of the local memories it admits, and the head split off a body, which leaves
  an export's descriptors and data as they were but for one RET.
\<close>

section \<open>Configuration\<close>

definition config_names :: "string list" where
  "config_names = [''d'', ''spad_bytes'', ''acc_bytes'', ''max_dynamic'', ''dyn_fields'', ''bases'', ''params'', ''gemv_ports'',
     ''gemv_ksplit'', ''attn_block'', ''chunk_block'']"

lemma map_of_none: "fst ` set xs \<inter> set ns = {} \<Longrightarrow> n \<in> set ns \<Longrightarrow> map_of xs n = None"
  by (auto simp: map_of_eq_None_iff)

text \<open>
  A configuration read back from the attributes it was written as is the same one, whatever
  other attributes are beside them, when it keeps the defaults of what is not an attribute and its
  K split is on or off.
\<close>
theorem config_round_trip:
  assumes "tc_ukernels c = ''all''" and "tc_tile_shrink c = 0" and "tc_gemv_ksplit c \<in> {0, 1}"
    and "fst ` set attrs \<inter> set config_names = {}"
  shows "from_attr (Some (map_of (add_to c attrs))) = c"
proof -
  define m where "m = map_of (add_to c attrs)"
  have n: "map_of attrs n = None" if "n \<in> set config_names" for n using assms(4) that by (rule map_of_none)
  have m: "m n = map_of (drop (length attrs) (add_to c attrs)) n" if "n \<in> set config_names" for n
    using n [OF that] by (simp add: m_def add_to_def map_add_def)
  have always: "m ''d'' = Some (tc_d c)" "m ''spad_bytes'' = Some (tc_spad_bytes c)" "m ''acc_bytes'' = Some (tc_acc_bytes c)"
    "m ''max_dynamic'' = Some (tc_max_dynamic c)" "m ''dyn_fields'' = Some (tc_dyn_fields c)" "m ''bases'' = Some (tc_bases c)"
    "m ''params'' = Some (tc_params c)"
    by (subst m; simp add: config_names_def add_to_def)+
  have some: "m ''gemv_ports'' = (if tc_gemv_ports c \<noteq> 0 then Some (tc_gemv_ports c) else None)"
    "m ''gemv_ksplit'' = (if tc_gemv_ksplit c = 0 then Some 0 else None)"
    "m ''attn_block'' = (if tc_attn_block c \<noteq> 0 then Some (tc_attn_block c) else None)"
    "m ''chunk_block'' = (if tc_chunk_block c \<noteq> 0 then Some (tc_chunk_block c) else None)"
    by (subst m; simp add: config_names_def add_to_def)+
  have "from_attr (Some m) = c"
    unfolding from_attr_def option.case Let_def attr_or_def always some
    by (rule target_config.equality) (use assms(1-3) in \<open>auto simp: default_config_def\<close>)
  then show ?thesis by (simp add: m_def)
qed

theorem config_round_trip_witness:
  "from_attr (Some (map_of (add_to (default_config\<lparr>tc_d := 16, tc_gemv_ports := 4, tc_gemv_ksplit := 0\<rparr>) [(''ukernels'', 3)])))
     = default_config\<lparr>tc_d := 16, tc_gemv_ports := 4, tc_gemv_ksplit := 0\<rparr>"
  by (rule config_round_trip) (simp_all add: default_config_def config_names_def)

lemma bit_odd: "bit (2 * x + 1 :: int) n \<longleftrightarrow> n = 0 \<or> bit x (n - 1)"
  by (cases n) (simp_all add: bit_Suc bit_0)

lemma bit_twice: "bit (2 * x :: int) n \<longleftrightarrow> n \<noteq> 0 \<and> bit x (n - 1)"
  by (cases n) (simp_all add: bit_Suc bit_0)

lemma and_minus_one_even: "(2 * w :: int) AND (2 * w - 1) = 2 * (w AND (w - 1))"
proof (rule bit_eqI)
  fix n
  have e: "2 * w - 1 = 2 * (w - 1) + 1" by simp
  show "bit ((2 * w) AND (2 * w - 1)) n = bit (2 * (w AND (w - 1))) n"
    unfolding e bit_and_iff bit_odd bit_twice by auto
qed

lemma pow2_power: "pow2 v \<Longrightarrow> \<exists>k. v = 2 ^ k"
proof (induction "nat v" arbitrary: v rule: less_induct)
  case less
  then have v: "v > 0" "v AND (v - 1) = 0" by (simp_all add: pow2_def)
  show ?case
  proof (cases "even v")
    case True
    then obtain w where w: "v = 2 * w" by auto
    then have "w AND (w - 1) = 0" using v(2) and_minus_one_even [of w] by simp
    then have "pow2 w" using v(1) w by (simp add: pow2_def)
    then obtain k where "w = 2 ^ k" using less.hyps [of w] v(1) w by auto
    then have "v = 2 ^ Suc k" using w by simp
    then show ?thesis by blast
  next
    case False
    have "v = 1"
    proof (rule ccontr)
      assume "v \<noteq> 1"
      then have p: "v - 1 \<noteq> 0" by simp
      have "(v - 1) = v AND (v - 1)"
      proof (rule bit_eqI)
        fix n
        obtain u where u: "v = 2 * u + 1" using False by (auto elim: oddE)
        have e: "2 * u + 1 - 1 = 2 * u" by simp
        show "bit (v - 1) n = bit (v AND (v - 1)) n" unfolding u e bit_and_iff bit_odd bit_twice by auto
      qed
      then show False using v(2) p by simp
    qed
    then have "v = 2 ^ 0" by simp
    then show ?thesis by blast
  qed
qed

text \<open>
  A configuration accepted for the command encoding has local memories of a power of two of
  words, at most 2^16: every word's address fits the 16-bit fields, SPAD holds two rows of the
  longest dynamic dimension, and the read ports fit their two bits and a half.
\<close>
theorem valid_config_fits:
  assumes "invalid_config c = ''''"
  shows "tc_d c \<in> {8, 16} \<and> (\<exists>j. tc_spad_bytes c = 2 ^ j) \<and> (\<exists>k. tc_acc_bytes c = 2 ^ k)
    \<and> (\<forall>w. 0 \<le> w \<and> w < tc_spad_bytes c div tc_d c \<longrightarrow> w < 2 ^ 16) \<and> (\<forall>w. 0 \<le> w \<and> w < tc_acc_bytes c div (4 * tc_d c) \<longrightarrow> w < 2 ^ 16)
    \<and> 2 * tc_max_dynamic c \<le> tc_spad_bytes c div tc_d c \<and> 64 \<le> tc_acc_bytes c div (4 * tc_d c) \<and> 0 \<le> tc_gemv_ports c \<and> tc_gemv_ports c \<le> 4"
  using assms by (auto simp: invalid_config_def dest!: pow2_power split: if_splits)


section \<open>The head\<close>

text \<open>Serializing looks at none of the rows already there.\<close>
lemma header_frame:
  "ser_header defs inp b h (s\<lparr>sr_rows := rs\<rparr>) =
     (case ser_header defs inp b h s of Inl e \<Rightarrow> Inl e | Inr (f, u) \<Rightarrow> Inr (f, u\<lparr>sr_rows := rs\<rparr>))"
  by (auto simp: ser_header_def base_flags_def bind_st_def split: option.splits sum.splits)

lemma header_rows: "ser_header defs inp b h s = Inr (f, u) \<Longrightarrow> sr_rows u = sr_rows s"
  by (auto simp: ser_header_def base_flags_def bind_st_Inr_iff split: option.splits if_splits)

definition frames :: "(ser \<Rightarrow> ser_error + ser) \<Rightarrow> bool" where
  "frames g \<longleftrightarrow> (\<forall>s t. g s = Inr t \<longrightarrow> (\<exists>new. sr_rows t = sr_rows s @ new \<and> (\<forall>rs. g (s\<lparr>sr_rows := rs\<rparr>) = Inr (t\<lparr>sr_rows := rs @ new\<rparr>))))"

lemma framesD: "frames g \<Longrightarrow> g s = Inr t \<Longrightarrow> \<exists>new. sr_rows t = sr_rows s @ new \<and> (\<forall>rs. g (s\<lparr>sr_rows := rs\<rparr>) = Inr (t\<lparr>sr_rows := rs @ new\<rparr>))"
  by (simp add: frames_def)

lemma header_frame_Inr: "ser_header defs inp b h s = Inr (f, u) \<Longrightarrow> ser_header defs inp b h (s\<lparr>sr_rows := rs\<rparr>) = Inr (f, u\<lparr>sr_rows := rs\<rparr>)"
  by (simp add: header_frame)

lemma frames_header:
  assumes "\<And>f. frames (k f)"
  shows "frames (\<lambda>s. bind_st (ser_header defs inp b h s) (\<lambda>(f, s1). k f s1))"
  unfolding frames_def
proof (intro allI impI)
  fix s t assume "bind_st (ser_header defs inp b h s) (\<lambda>(f, s1). k f s1) = Inr t"
  then obtain f u where u: "ser_header defs inp b h s = Inr (f, u)" and t: "k f u = Inr t" by (auto simp: bind_st_Inr_iff)
  show "\<exists>new. sr_rows t = sr_rows s @ new \<and> (\<forall>rs. bind_st (ser_header defs inp b h (s\<lparr>sr_rows := rs\<rparr>)) (\<lambda>(f, s1). k f s1) = Inr (t\<lparr>sr_rows := rs @ new\<rparr>))"
    using framesD [OF assms t] by (simp add: header_frame_Inr [OF u] header_rows [OF u])
qed

lemma frames_put:
  assumes "\<And>s rs. g (s\<lparr>sr_rows := rs\<rparr>) = (g s)\<lparr>sr_rows := rs\<rparr>" and "\<And>s. sr_rows (g s) = sr_rows s"
  shows "frames (\<lambda>s. Inr (ser_put f opc ws (g s)))"
  unfolding frames_def ser_put_def by (auto simp: assms)

lemma frames_fail: "frames (\<lambda>s. Inl e)"
  by (simp add: frames_def)

lemma emit_cmd_frames: "frames (emit_cmd defs inp o')"
proof (cases o')
  case (Ld base a h)
  show ?thesis unfolding Ld emit_cmd_def op.case by (intro frames_header frames_put) auto
next
  case (St base a h)
  show ?thesis unfolding St emit_cmd_def op.case by (cases inp; simp only: if_True if_False; intro frames_fail frames_header frames_put) auto
next
  case (LdParam base tgt a h)
  show ?thesis unfolding LdParam emit_cmd_def op.case
    by (cases "reg_of defs tgt"; simp only: option.case; intro frames_fail frames_header frames_put) auto
next
  case (SetReg ts vs am h)
  show ?thesis
  proof (cases "ts = [] \<or> length ts > 3 \<or> length vs \<noteq> length ts")
    case True
    show ?thesis unfolding SetReg emit_cmd_def op.case if_P [OF True] by (intro frames_fail frames_header)
  next
    case False
    show ?thesis unfolding SetReg emit_cmd_def op.case if_not_P [OF False]
      by (cases "target_sels defs 0 ts"; simp only: bind_st_simps; intro frames_fail frames_header frames_put [where g = "\<lambda>s. s"]) simp_all
  qed
next
  case (Ex a h)
  show ?thesis unfolding Ex emit_cmd_def op.case by (intro frames_fail frames_header frames_put [where g = "\<lambda>s. s"]; simp)
next
  case (Ve a h)
  show ?thesis unfolding Ve emit_cmd_def op.case by (intro frames_fail frames_header frames_put [where g = "\<lambda>s. s"]; simp)
next
  case (Transpose a h)
  show ?thesis unfolding Transpose emit_cmd_def op.case by (intro frames_fail frames_header frames_put [where g = "\<lambda>s. s"]; simp)
next
  case (Fence m)
  show ?thesis unfolding Fence emit_cmd_def op.case by (intro frames_fail frames_header frames_put [where g = "\<lambda>s. s"]; simp)
next
  case (Loop c k1 s1 k2 s2 h body)
  show ?thesis unfolding Loop emit_cmd_def op.case by (intro frames_fail frames_header frames_put [where g = "\<lambda>s. s"]; simp)
next
  case Other
  show ?thesis unfolding Other emit_cmd_def op.case by (intro frames_fail frames_header frames_put [where g = "\<lambda>s. s"]; simp)
qed

lemma frames_bind: "frames g \<Longrightarrow> frames h \<Longrightarrow> frames (\<lambda>s. bind_st (g s) h)"
  unfolding frames_def
proof (intro allI impI)
  fix s t assume g: "\<forall>s t. g s = Inr t \<longrightarrow> (\<exists>new. sr_rows t = sr_rows s @ new \<and> (\<forall>rs. g (s\<lparr>sr_rows := rs\<rparr>) = Inr (t\<lparr>sr_rows := rs @ new\<rparr>)))"
    and h: "\<forall>s t. h s = Inr t \<longrightarrow> (\<exists>new. sr_rows t = sr_rows s @ new \<and> (\<forall>rs. h (s\<lparr>sr_rows := rs\<rparr>) = Inr (t\<lparr>sr_rows := rs @ new\<rparr>)))"
    and e: "bind_st (g s) h = Inr t"
  obtain u where u: "g s = Inr u" "h u = Inr t" using e by (auto simp: bind_st_Inr_iff)
  obtain n1 where n1: "sr_rows u = sr_rows s @ n1" "\<And>rs. g (s\<lparr>sr_rows := rs\<rparr>) = Inr (u\<lparr>sr_rows := rs @ n1\<rparr>)" using g u(1) by blast
  obtain n2 where n2: "sr_rows t = sr_rows u @ n2" "\<And>rs. h (u\<lparr>sr_rows := rs\<rparr>) = Inr (t\<lparr>sr_rows := rs @ n2\<rparr>)" using h u(2) by blast
  show "\<exists>new. sr_rows t = sr_rows s @ new \<and> (\<forall>rs. bind_st (g (s\<lparr>sr_rows := rs\<rparr>)) h = Inr (t\<lparr>sr_rows := rs @ new\<rparr>))"
    by (rule exI [of _ "n1 @ n2"]) (simp add: n1 n2)
qed

lemma emit_step_frames: "frames (\<lambda>s. emit_cmd defs inp o' (if inp then s else s\<lparr>sr_spad_b := sr_spad_b s \<or> b\<rparr>))"
  unfolding frames_def
proof (intro allI impI)
  fix s t assume e: "emit_cmd defs inp o' (if inp then s else s\<lparr>sr_spad_b := sr_spad_b s \<or> b\<rparr>) = Inr t"
  let ?s = "if inp then s else s\<lparr>sr_spad_b := sr_spad_b s \<or> b\<rparr>"
  have r: "(if inp then s\<lparr>sr_rows := rs\<rparr> else s\<lparr>sr_rows := rs\<rparr>\<lparr>sr_spad_b := sr_spad_b (s\<lparr>sr_rows := rs\<rparr>) \<or> b\<rparr>) = ?s\<lparr>sr_rows := rs\<rparr>" for rs by simp
  have q: "sr_rows ?s = sr_rows s" by simp
  show "\<exists>new. sr_rows t = sr_rows s @ new \<and> (\<forall>rs. emit_cmd defs inp o' (if inp then s\<lparr>sr_rows := rs\<rparr> else s\<lparr>sr_rows := rs\<rparr>\<lparr>sr_spad_b := sr_spad_b (s\<lparr>sr_rows := rs\<rparr>) \<or> b\<rparr>) = Inr (t\<lparr>sr_rows := rs @ new\<rparr>))"
    using framesD [OF emit_cmd_frames e] unfolding r q .
qed

lemma frames_emit_loop:
  assumes b: "frames (emit defs inp body)" and q: "frames (emit defs inp ops)"
  shows "frames (emit defs inp (Loop count k1 s1 k2 s2 h body # ops))"
  unfolding frames_def
proof (intro allI impI)
  fix s t assume e: "emit defs inp (Loop count k1 s1 k2 s2 h body # ops) s = Inr t"
  obtain u where u: "emit defs inp body s = Inr u" using e by (cases "emit defs inp body s") simp_all
  obtain r1 r2 where r: "reg_of defs k1 = Some r1" "reg_of defs k2 = Some r2"
    using e u by (cases "reg_of defs k1"; cases "reg_of defs k2") simp_all
  define ws where "ws = (\<lambda>tg. [zext64 (sr_tag s - tg), count OR push_bit 16 (of_nat r1 AND 7) OR push_bit 19 (of_nat r2 AND 7), lo32 s1, lo32 s2])"
  let ?put = "\<lambda>f. ser_put f 0x13 (ws (sr_tag u))"
  have put: "emit defs inp (Loop count k1 s1 k2 s2 h body # ops) q =
      bind_st (ser_header defs inp None h u') (\<lambda>(f, u1). emit defs inp ops (ser_put f 0x13 (ws (sr_tag u')) u1))"
    if "emit defs inp body q = Inr u'" "sr_tag q = sr_tag s" for q u'
    by (simp only: emit.simps that r bind_st_simps option.case prod.case ws_def)
  have "bind_st (ser_header defs inp None h u) (\<lambda>(f, u1). emit defs inp ops (?put f u1)) = Inr t"
    using e by (simp only: put [OF u refl])
  then obtain x where x: "ser_header defs inp None h u = Inr x" "(\<lambda>(f, u1). emit defs inp ops (?put f u1)) x = Inr t"
    unfolding bind_st_Inr_iff by blast
  obtain f u1 where f: "ser_header defs inp None h u = Inr (f, u1)" and t: "emit defs inp ops (?put f u1) = Inr t" using x by (cases x) simp
  obtain n1 where n1: "sr_rows u = sr_rows s @ n1" "\<And>rs. emit defs inp body (s\<lparr>sr_rows := rs\<rparr>) = Inr (u\<lparr>sr_rows := rs @ n1\<rparr>)"
    using framesD [OF b u] by blast
  obtain n2 where n2: "sr_rows t = sr_rows (?put f u1) @ n2" "\<And>rs. emit defs inp ops ((?put f u1)\<lparr>sr_rows := rs\<rparr>) = Inr (t\<lparr>sr_rows := rs @ n2\<rparr>)"
    using framesD [OF q t] by blast
  have ru: "sr_rows u1 = sr_rows u" using f by (rule header_rows)
  define rw where "rw = row_of (push_bit 32 (zext64 (sr_tag u1)) OR f OR 0x13) (ws (sr_tag u))"
  have rw: "sr_rows (?put f u1) = sr_rows u1 @ [rw]" "\<And>rs. ?put f (u1\<lparr>sr_rows := rs\<rparr>) = (?put f u1)\<lparr>sr_rows := rs @ [rw]\<rparr>"
    unfolding rw_def ser_put_def by simp_all
  show "\<exists>new. sr_rows t = sr_rows s @ new \<and> (\<forall>rs. emit defs inp (Loop count k1 s1 k2 s2 h body # ops) (s\<lparr>sr_rows := rs\<rparr>) = Inr (t\<lparr>sr_rows := rs @ new\<rparr>))"
  proof (intro exI [of _ "n1 @ rw # n2"] conjI allI)
    show "sr_rows t = sr_rows s @ n1 @ rw # n2" by (simp only: n1(1) n2(1) ru rw(1) append_assoc append_Cons append_Nil)
    fix rs
    have "sr_tag (s\<lparr>sr_rows := rs\<rparr>) = sr_tag s" by simp
    note p = put [OF n1(2) this]
    show "emit defs inp (Loop count k1 s1 k2 s2 h body # ops) (s\<lparr>sr_rows := rs\<rparr>) = Inr (t\<lparr>sr_rows := rs @ n1 @ rw # n2\<rparr>)"
      unfolding p header_frame_Inr [OF f] bind_st_simps prod.case using rw n2(2) by simp
  qed
qed

lemma frames_emit_other:
  assumes "\<And>s. emit defs inp (o' # ops) s = bind_st (emit_cmd defs inp o' (if inp then s else s\<lparr>sr_spad_b := sr_spad_b s \<or> touches_spad_b o'\<rparr>)) (emit defs inp ops)"
    and "frames (emit defs inp ops)"
  shows "frames (emit defs inp (o' # ops))"
  unfolding ext [OF assms(1)] by (rule frames_bind [OF emit_step_frames assms(2)])

lemma emit_frames: "frames (emit defs inp ops)"
proof (induction ops rule: nrows.induct)
  case 1
  then show ?case by (simp add: frames_def)
next
  case (2 count k1 s1 k2 s2 h body ops)
  then show ?case by (rule frames_emit_loop)
qed (rule frames_emit_other; simp)+

lemma emit_append: "emit defs inp (xs @ ys) s = bind_st (emit defs inp xs s) (emit defs inp ys)"
proof (induction xs arbitrary: s rule: nrows.induct)
  case (2 count k1 s1 k2 s2 h body ops)
  then show ?case by (auto simp: bind_st_def split: sum.splits option.splits)
qed (auto simp: bind_st_def split: sum.splits)


lemma header_spad: "ser_header defs inp b h s = Inr (f, u) \<Longrightarrow> sr_spad_b u = sr_spad_b s"
  by (auto simp: ser_header_def base_flags_def bind_st_Inr_iff split: option.splits if_splits)

lemma emit_cmd_spad: "emit_cmd defs inp o' s = Inr t \<Longrightarrow> sr_spad_b t = sr_spad_b s"
  by (cases o') (auto simp: emit_cmd_def bind_st_Inr_iff ser_put_def split: if_splits option.splits dest!: header_spad)

lemma emit_loop_cases:
  assumes e: "emit defs inp (Loop count k1 s1 k2 s2 h body # ops) s = Inr t"
  obtains u f u1 ws where "emit defs inp body s = Inr u" and "ser_header defs inp None h u = Inr (f, u1)"
    and "emit defs inp ops (ser_put f 0x13 ws u1) = Inr t"
proof -
  obtain u where u: "emit defs inp body s = Inr u" using e by (cases "emit defs inp body s") simp_all
  obtain r1 r2 where r: "reg_of defs k1 = Some r1" "reg_of defs k2 = Some r2"
    using e u by (cases "reg_of defs k1"; cases "reg_of defs k2") simp_all
  obtain f u1 where f: "ser_header defs inp None h u = Inr (f, u1)" using e u r by (cases "ser_header defs inp None h u") auto
  show ?thesis by (rule that [OF u f]) (use e in \<open>simp only: emit.simps u r f bind_st_simps option.case prod.case\<close>)
qed

lemma emit_spad: "emit defs inp ops s = Inr t \<Longrightarrow> inp \<or> \<not> walks_spad_b ops \<Longrightarrow> sr_spad_b t = sr_spad_b s"
proof (induction ops arbitrary: s t rule: nrows.induct)
  case (2 count k1 s1 k2 s2 h body ops)
  from 2(3) obtain u f u1 ws where e: "emit defs inp body s = Inr u" "ser_header defs inp None h u = Inr (f, u1)"
    "emit defs inp ops (ser_put f 0x13 ws u1) = Inr t" by (rule emit_loop_cases)
  have p: "sr_spad_b (ser_put f 0x13 ws u1) = sr_spad_b u1" by (simp add: ser_put_def)
  show ?case using 2(1) [OF e(1)] 2(2) [OF e(3)] 2(4) header_spad [OF e(2)] p by auto
qed (auto simp: bind_st_Inr_iff split: if_splits dest!: emit_cmd_spad)

lemma emit_lds_rows: "emit defs inp ops s = Inr t \<Longrightarrow> list_all is_ld ops \<Longrightarrow> length (sr_rows t) = length (sr_rows s) + length ops"
proof (induction ops arbitrary: s)
  case (Cons o' ops)
  then obtain b a h where o': "o' = Ld b a h" by (cases o') auto
  let ?s = "if inp then s else s\<lparr>sr_spad_b := sr_spad_b s \<or> touches_spad_b o'\<rparr>"
  obtain u where u: "emit_cmd defs inp o' ?s = Inr u" "emit defs inp ops u = Inr t"
    using Cons.prems(1) unfolding o' by (auto simp: bind_st_Inr_iff split: if_splits)
  have "length (sr_rows u) = Suc (length (sr_rows s))"
    using u(1) unfolding o' by (auto simp: emit_cmd_def bind_st_Inr_iff ser_put_def split: if_splits dest!: header_rows)
  then show ?case using Cons.IH [OF u(2)] Cons.prems(2) by simp
qed simp

lemma split_head_cases:
  assumes "split_head t \<noteq> t"
  obtains body lds where "t_body t = Some body" and "lds = takeWhile is_ld body" and "lds \<noteq> []" and "\<not> t_unsupported t" and "t_head t = None"
    and "\<not> walks_spad_b body" and "split_head t = t\<lparr>t_head := Some lds, t_body := Some (dropWhile is_ld body)\<rparr>"
  using assms by (auto simp: split_head_def Let_def split: if_splits option.splits)

text \<open>
  C13. Splitting the head changes nothing of an export but one RET: the descriptors of the leading
  loads, then a RET, then the other descriptors of the body with the tags they had; the head counts
  the loads and their RET, and the registers, buffers read and written, flags, prefix and cycles
  are the same. An export that is split does not touch SPAD_B.
\<close>
theorem split_head_serialized:
  assumes x: "serialize_template t = Inr x" and split: "split_head t \<noteq> t"
  shows "\<exists>ps hs bs tag r. x_templ x = desc_bytes (ps @ hs @ bs @ [r]) \<and> x_prefix x = of_nat (length ps) \<and> x_head x = 0
    \<and> length hs = length (takeWhile is_ld (the (t_body t))) \<and> hs \<noteq> [] \<and> \<not> bit (x_flags x) 0
    \<and> serialize_template (split_head t) = Inr (x\<lparr>x_templ := desc_bytes (ps @ hs @ ser_ret tag # bs @ [r]), x_head := of_nat (Suc (length hs))\<rparr>)"
proof -
  from split obtain body lds where t: "t_body t = Some body" "lds = takeWhile is_ld body" "lds \<noteq> []" "\<not> t_unsupported t" "t_head t = None"
    "\<not> walks_spad_b body" and sp: "split_head t = t\<lparr>t_head := Some lds, t_body := Some (dropWhile is_ld body)\<rparr>" by (rule split_head_cases)
  let ?d = "t_defs t"
  obtain setups np s1 w where su: "setup_entries ?d = Inr setups" and p: "emit_optional ?d True (t_prefix t) init_ser = Inr (np, s1)"
    and b: "emit ?d False body (s1\<lparr>sr_tag := 0\<rparr>) = Inr w"
    and xe: "x = \<lparr>x_templ = desc_bytes (sr_rows w @ [ser_ret (sr_tag w)]), x_setups = setups, x_prefix = of_nat np, x_preads = sr_prefix_reads w,
       x_wr = sr_writes w, x_rd = sr_reads w OR sr_prefix_reads w, x_head = 0,
       x_flags = of_bool (sr_spad_b w) OR (if t_riscv_only t then 2 else 0),
       x_preg = (case sr_prefix_reg w of None \<Rightarrow> 0 | Some r \<Rightarrow> of_nat r), x_cycles = ucast (t_est_cycles t)\<rparr>"
    using x t(1,4,5) by (auto simp: serialize_template_def bind_st_Inr_iff emit_sections_def emit_optional_def [of _ _ None] emit_section_def Let_def)
  have body: "body = lds @ dropWhile is_ld body" by (simp add: t(2))
  obtain u where u: "emit ?d False lds (s1\<lparr>sr_tag := 0\<rparr>) = Inr u" "emit ?d False (dropWhile is_ld body) u = Inr w"
    using b by (subst (asm) body) (auto simp only: emit_append bind_st_Inr_iff)
  obtain hs where hs: "sr_rows u = sr_rows s1 @ hs" using framesD [OF emit_frames u(1)] by auto
  obtain bs where bs: "sr_rows w = sr_rows u @ bs" "\<And>rs. emit ?d False (dropWhile is_ld body) (u\<lparr>sr_rows := rs\<rparr>) = Inr (w\<lparr>sr_rows := rs @ bs\<rparr>)"
    using framesD [OF emit_frames u(2)] by auto
  have n: "length hs = length lds"
  proof -
    have "list_all is_ld lds" unfolding t(2) list_all_iff using set_takeWhileD by fast
    from emit_lds_rows [OF u(1) this] show ?thesis by (simp add: hs)
  qed
  have np: "np = length (sr_rows s1)" and pb: "\<not> sr_spad_b s1"
    using p by (auto simp: emit_optional_def emit_section_def bind_st_Inr_iff Let_def init_ser_def split: option.splits dest!: emit_spad)
  have wb: "\<not> sr_spad_b w" using emit_spad [OF b] t(6) pb by simp
  let ?h = "u\<lparr>sr_rows := sr_rows u @ [ser_ret (sr_tag u)]\<rparr>"
  have "emit_sections (split_head t) (dropWhile is_ld body)
      = Inr (np, Suc (length hs), w\<lparr>sr_rows := sr_rows s1 @ hs @ ser_ret (sr_tag u) # bs @ [ser_ret (sr_tag w)]\<rparr>)"
    using p u(1) by (simp add: emit_sections_def sp emit_optional_def [of _ _ "Some lds"] emit_section_def hs bs Let_def)
  then have y: "serialize_template (split_head t) = Inr (x\<lparr>x_templ := desc_bytes (sr_rows s1 @ hs @ ser_ret (sr_tag u) # bs @ [ser_ret (sr_tag w)]),
      x_head := of_nat (Suc (length hs))\<rparr>)"
    using su t(4) by (simp add: serialize_template_def sp xe)
  have f: "\<not> bit (x_flags x) 0" using wb by (simp add: xe bit_simps)
  have ne: "hs \<noteq> []" using n t(3) by auto
  have xs: "x_templ x = desc_bytes (sr_rows s1 @ hs @ bs @ [ser_ret (sr_tag w)])" "x_prefix x = of_nat (length (sr_rows s1))" "x_head x = 0"
    by (simp_all add: xe hs bs np)
  have l: "length hs = length (takeWhile is_ld (the (t_body t)))" using n t(1,2) by simp
  show ?thesis
    by (rule exI [of _ "sr_rows s1"], rule exI [of _ hs], rule exI [of _ bs], rule exI [of _ "sr_tag u"], rule exI [of _ "ser_ret (sr_tag w)"])
       (intro conjI xs l ne f y)
qed

definition one_load :: sahw_template where
  "one_load = \<lparr>t_defs = [], t_prefix = None, t_head = None,
     t_body = Some [Ld None \<lparr>ld_ddr = 64, ld_laddr = 0x10000000, ld_rows = 1, ld_row_bytes = 16, ld_pitch = 16, ld_mode = 0,
        ld_xword = 0, ld_cstep = 0, ld_gemv_acc = False\<rparr> \<lparr>h_dyn = [], h_fields = [], h_adds = [], h_fence = False\<rparr>, Fence 0],
     t_est_cycles = 0, t_unsupported = False, t_riscv_only = False\<rparr>"

lemma one_load_serialized: "\<exists>x. serialize_template one_load = Inr x"
  by (simp add: serialize_template_def one_load_def emit_sections_def emit_optional_def emit_section_def emit_cmd_def ser_header_def base_flags_def Let_def)

theorem split_head_serialized_witness:
  "\<exists>y. serialize_template (split_head one_load) = Inr y \<and> x_head y = 2"
proof -
  obtain x where x: "serialize_template one_load = Inr x" using one_load_serialized by blast
  have "split_head one_load \<noteq> one_load" by (simp add: split_head_def one_load_def in_spad_b_def lo32_def)
  from split_head_serialized [OF x this] show ?thesis by (auto simp: one_load_def)
qed

end
