(* ===== verification/RegisterNumbers.thy ===== *)
theory RegisterNumbers
  imports SahwPasses "HOL-Library.Multiset"
begin

text \<open>
  The register numbers the passes give (\<^verbatim>\<open>SahwAssignRegistersPass\<close>): an invariant of the allocation
  that reuses numbers, and from it that registers sharing a number are never live together in the
  order of the walk; where that order is not the order of execution; and when a template is refused.
\<close>


section \<open>The allocation\<close>

text \<open>The first range ends before the second begins, with an LDPARAM of the register.\<close>
definition before :: "live_range \<Rightarrow> live_range \<Rightarrow> bool" where
  "before a b \<longleftrightarrow> lr_last a < lr_first b \<and> lr_def_first b"

text \<open>Numbers free or busy are distinct and given out, as are those of the registers.\<close>
definition numbers_ok :: "nat \<Rightarrow> alloc_state \<Rightarrow> bool" where
  "numbers_ok n s \<longleftrightarrow> distinct (al_free s @ map snd (al_busy s)) \<and> n \<le> al_next s
     \<and> (\<forall>r \<in> set (al_free s @ map snd (al_busy s)). n \<le> r \<and> r < al_next s)
     \<and> (\<forall>x \<in> set (al_regs s). n \<le> snd x \<and> snd x < al_next s \<and> snd x \<le> 7)"

text \<open>The holders of a free number have ended by \<open>cur\<close>, those of a busy one end with it.\<close>
definition ended_ok :: "(nat \<Rightarrow> live_range) \<Rightarrow> int \<Rightarrow> alloc_state \<Rightarrow> bool" where
  "ended_ok lv cur s \<longleftrightarrow> (\<forall>x \<in> set (al_regs s).
     (snd x \<in> set (al_free s) \<longrightarrow> lr_last (lv (fst x)) < cur)
     \<and> (\<forall>b \<in> set (al_busy s). snd b = snd x \<longrightarrow> lr_last (lv (fst x)) \<le> fst b \<or> lr_last (lv (fst x)) < cur))"

definition apart :: "(nat \<Rightarrow> live_range) \<Rightarrow> (nat \<times> nat) list \<Rightarrow> bool" where
  "apart lv = sorted_wrt (\<lambda>x y. snd x = snd y \<longrightarrow> before (lv (fst x)) (lv (fst y)))"

lemma mset_split: "mset ((fs @ map f (filter p bs)) @ map f (filter (\<lambda>x. \<not> p x) bs)) = mset (fs @ map f bs)"
  by (induction bs) auto

lemma distinct_split: "distinct (fs @ map f bs) \<Longrightarrow> distinct ((fs @ map f (filter p bs)) @ map f (filter (\<lambda>x. \<not> p x) bs))"
  using mset_split [of fs f p bs] by (metis mset_eq_imp_distinct_iff)

lemma free_ended_fields [simp]:
  "al_free (free_ended k s) = al_free s @ map snd (filter (\<lambda>b. fst b < k) (al_busy s))"
  "al_busy (free_ended k s) = filter (\<lambda>b. \<not> fst b < k) (al_busy s)"
  "al_regs (free_ended k s) = al_regs s" "al_next (free_ended k s) = al_next s"
  by (simp_all add: free_ended_def case_prod_unfold)

lemma free_ended_numbers: "numbers_ok n s \<Longrightarrow> numbers_ok n (free_ended k s)"
  unfolding numbers_ok_def free_ended_fields
  using distinct_split [of "al_free s" snd "al_busy s" "\<lambda>b. fst b < k"] by auto

lemma free_ended_ended: "ended_ok lv cur s \<Longrightarrow> cur \<le> k \<Longrightarrow> ended_ok lv k (free_ended k s)"
  unfolding ended_ok_def free_ended_fields
proof (intro ballI conjI impI)
  fix x assume h: "\<forall>x \<in> set (al_regs s). (snd x \<in> set (al_free s) \<longrightarrow> lr_last (lv (fst x)) < cur)
     \<and> (\<forall>b \<in> set (al_busy s). snd b = snd x \<longrightarrow> lr_last (lv (fst x)) \<le> fst b \<or> lr_last (lv (fst x)) < cur)"
    and k: "cur \<le> k" and x: "x \<in> set (al_regs s)"
  have busy: "lr_last (lv (fst x)) \<le> fst b \<or> lr_last (lv (fst x)) < k" if "b \<in> set (al_busy s)" "snd b = snd x" for b
    using h x that k by fastforce
  { assume "snd x \<in> set (al_free s @ map snd (filter (\<lambda>b. fst b < k) (al_busy s)))"
    then consider "snd x \<in> set (al_free s)" | b where "b \<in> set (al_busy s)" "fst b < k" "snd b = snd x" by auto
    then show "lr_last (lv (fst x)) < k" using h x k busy by cases fastforce+ }
  fix b assume "b \<in> set (filter (\<lambda>b. \<not> fst b < k) (al_busy s))" "snd b = snd x"
  then show "lr_last (lv (fst x)) \<le> fst b \<or> lr_last (lv (fst x)) < k" using busy by simp
qed

lemma take_number_cases:
  assumes "take_number l s = (r, s1)"
  obtains (reuse) fs where "lr_def_first l" and "al_free s = fs @ [r]" and "s1 = s\<lparr>al_free := fs\<rparr>"
    | (fresh) "r = al_next s" and "s1 = s\<lparr>al_next := al_next s + 1\<rparr>"
  using assms by (auto simp: take_number_def split: if_splits) (metis append_butlast_last_id)

lemma number_given:
  assumes t: "take_number (lv v) u = (r, s1)" and r7: "r \<le> 7" and k: "k = lr_first (lv v)"
    and nf: "numbers_ok n u" and ef: "ended_ok lv k u" and ap: "apart lv (al_regs u)"
  defines "s' \<equiv> s1\<lparr>al_regs := al_regs s1 @ [(v, r)], al_busy := (if lr_def_first (lv v) then al_busy s1 @ [(lr_last (lv v), r)] else al_busy s1)\<rparr>"
  shows "numbers_ok n s' \<and> ended_ok lv k s' \<and> apart lv (al_regs s') \<and> al_regs s' = al_regs u @ [(v, r)]"
  using t
proof (cases rule: take_number_cases)
  case (reuse fs)
  have "r \<in> set (al_free u)" by (simp add: reuse(2))
  then have holders: "lr_last (lv (fst x)) < k" if "x \<in> set (al_regs u)" "snd x = r" for x
    using ef that unfolding ended_ok_def by metis
  have "numbers_ok n s'" using nf r7 reuse by (auto simp: numbers_ok_def s'_def)
  moreover have "ended_ok lv k s'" using ef nf reuse holders by (auto simp: ended_ok_def numbers_ok_def s'_def)
  moreover have "apart lv (al_regs s')" using ap holders reuse(1) k by (auto simp: apart_def s'_def reuse(3) sorted_wrt_append before_def)
  ultimately show ?thesis by (simp add: s'_def reuse(3))
next
  case fresh
  have new: "snd x \<noteq> r" if "x \<in> set (al_regs u)" for x using nf that fresh(1) by (auto simp: numbers_ok_def)
  have nw: "(a, al_next u) \<notin> set (al_regs u)" for a using new fresh(1) by fastforce
  have "r \<notin> set (al_free u @ map snd (al_busy u))" using nf fresh(1) unfolding numbers_ok_def by blast
  then have nr: "al_next u \<notin> set (al_free u)" "(l, al_next u) \<notin> set (al_busy u)" for l using fresh(1) by (auto simp: image_iff)
  then have "numbers_ok n s'" using nf r7 unfolding s'_def fresh(2) numbers_ok_def fresh(1)
    by (cases "lr_def_first (lv v)") (auto simp: less_Suc_eq image_iff)
  moreover have "ended_ok lv k s'" using ef nw nr unfolding s'_def fresh(2) ended_ok_def fresh(1)
    by (cases "lr_def_first (lv v)") auto
  moreover have "apart lv (al_regs s')" using ap new by (auto simp: apart_def s'_def fresh(2) sorted_wrt_append)
  ultimately show ?thesis by (simp add: s'_def fresh(2))
qed

text \<open>One register: everything is kept, with the position moved to its first use.\<close>
lemma alloc_one_ok:
  assumes a: "alloc_one lv (k, v) s = Inr s'" and k: "k = lr_first (lv v)" "cur \<le> k"
    and inv: "numbers_ok n s" "ended_ok lv cur s" "apart lv (al_regs s)"
  shows "numbers_ok n s' \<and> ended_ok lv k s' \<and> apart lv (al_regs s') \<and> (\<exists>r. al_regs s' = al_regs s @ [(v, r)])"
proof -
  obtain r s1 where t: "take_number (lv v) (free_ended k s) = (r, s1)" by fastforce
  have r7: "r \<le> 7" and s': "s' = s1\<lparr>al_regs := al_regs s1 @ [(v, r)], al_busy := (if lr_def_first (lv v) then al_busy s1 @ [(lr_last (lv v), r)] else al_busy s1)\<rparr>"
    using a by (auto simp: alloc_one_def t Let_def split: if_splits)
  have "apart lv (al_regs (free_ended k s))" using inv(3) by simp
  from number_given [OF t r7 k(1) free_ended_numbers [OF inv(1)] free_ended_ended [OF inv(2) k(2)] this]
  show ?thesis unfolding s' by auto
qed

lemma alloc_all_ok:
  assumes "alloc_all lv xs s = Inr s'" and "sorted (map fst xs)" and "\<forall>x \<in> set xs. fst x = lr_first (lv (snd x)) \<and> cur \<le> fst x"
    and "numbers_ok n s" "ended_ok lv cur s" "apart lv (al_regs s)"
  shows "numbers_ok n s' \<and> apart lv (al_regs s') \<and> map fst (al_regs s') = map fst (al_regs s) @ map snd xs"
  using assms
proof (induction xs arbitrary: s cur)
  case (Cons x xs)
  obtain k v where x: "x = (k, v)" by fastforce
  obtain s1 where s1: "alloc_one lv (k, v) s = Inr s1" "alloc_all lv xs s1 = Inr s'" using Cons.prems(1) by (auto simp: x bind_st_Inr_iff)
  have k: "k = lr_first (lv v)" "cur \<le> k" using Cons.prems(3) by (auto simp: x)
  note ok = alloc_one_ok [OF s1(1) k Cons.prems(4-6)]
  have "\<forall>x \<in> set xs. fst x = lr_first (lv (snd x)) \<and> k \<le> fst x" using Cons.prems(2,3) by (auto simp: x)
  from Cons.IH [OF s1(2) _ this] ok Cons.prems(2) show ?case by (auto simp: x)
qed simp


section \<open>The numbers\<close>

text \<open>The position of a definition among those of its kind.\<close>
definition rank :: "(reg_def \<Rightarrow> bool) \<Rightarrow> reg_def list \<Rightarrow> nat \<Rightarrow> nat" where
  "rank k defs v = length (filter k (take v defs))"

definition kind_reg :: "reg_def \<Rightarrow> nat option" where
  "kind_reg d = (case d of BaseDef _ _ r \<Rightarrow> r | ParamDef _ r \<Rightarrow> r | PrivateDef r \<Rightarrow> r)"

lemma kind_reg_set [simp]: "kind_reg (set_reg r d) = Some r"
  by (cases d) (simp_all add: kind_reg_def)

lemma set_reg_kind [simp]: "is_base (set_reg r d) = is_base d" "is_param (set_reg r d) = is_param d" "is_private (set_reg r d) = is_private d"
  by (cases d; simp)+

lemma kinds: "is_private d \<longleftrightarrow> \<not> is_base d \<and> \<not> is_param d" "\<not> (is_base d \<and> is_param d)"
  by (cases d; simp)+

lemma reg_of_kind: "v < length defs \<Longrightarrow> reg_of defs v = kind_reg (defs ! v)"
  by (simp add: reg_of_def kind_reg_def)

lemma number_setup_ok:
  assumes "number_setup pr k nb np defs = Inr es"
  shows "length es = length defs \<and> (\<forall>v < length defs.
    (is_base (defs ! v) \<longrightarrow> kind_reg (es ! v) = Some (nb + rank is_base defs v) \<and> nb + rank is_base defs v < 15)
    \<and> (is_param (defs ! v) \<longrightarrow> kind_reg (es ! v) = Some (np + rank is_param defs v))
    \<and> (is_private (defs ! v) \<longrightarrow> pr (k + v) \<noteq> None \<longrightarrow> kind_reg (es ! v) = pr (k + v)))"
  using assms
proof (induction pr k nb np defs arbitrary: es rule: number_setup.induct)
  case (2 pr k nb np d ds)
  have all: "(\<forall>v < Suc n. P v) \<longleftrightarrow> P 0 \<and> (\<forall>v < n. P (Suc v))" for n P by (auto simp: less_Suc_eq_0_disj)
  show ?case using 2 kinds [of d]
    by (auto simp: bind_st_Inr_iff all rank_def split: if_splits option.splits)
qed simp

lemma number_plain_ok:
  assumes "number_plain nb np nq defs = Inr es" and "0 \<le> np"
  shows "length es = length defs \<and> (\<forall>v < length defs.
    (is_base (defs ! v) \<longrightarrow> kind_reg (es ! v) = Some (nb + rank is_base defs v) \<and> nb + rank is_base defs v < 15)
    \<and> (is_param (defs ! v) \<longrightarrow> kind_reg (es ! v) = Some (nat (np + int (rank is_param defs v))))
    \<and> (is_private (defs ! v) \<longrightarrow> kind_reg (es ! v) = Some (nat (nq - int (rank is_private defs v)))))"
  using assms
proof (induction nb np nq defs arbitrary: es rule: number_plain.induct)
  case (2 nb np nq d ds)
  have all: "(\<forall>v < Suc n. P v) \<longleftrightarrow> P 0 \<and> (\<forall>v < n. P (Suc v))" for n P by (auto simp: less_Suc_eq_0_disj)
  consider "is_base d" | "is_param d" "\<not> is_base d" | "\<not> is_base d" "\<not> is_param d" by blast
  then show ?case
  proof cases
    case 1
    then have "\<not> is_param d" "\<not> is_private d" by (cases d; simp)+
    then show ?thesis using 2(1,4,5) 1 by (auto simp: bind_st_Inr_iff all rank_def split: if_splits)
  next
    case p: 2
    then have "\<not> is_private d" by (cases d; simp)
    then show ?thesis using 2(2,4,5) p by (auto simp: bind_st_Inr_iff all rank_def algebra_simps split: if_splits)
  next
    case 3
    then have "is_private d" by (cases d; simp)
    then show ?thesis using 2(3,4,5) 3 by (auto simp: bind_st_Inr_iff all rank_def algebra_simps split: if_splits)
  qed
qed simp

lemma rank_less: "v < length defs \<Longrightarrow> k (defs ! v) \<Longrightarrow> rank k defs v < length (filter k defs)"
proof -
  assume v: "v < length defs" and k: "k (defs ! v)"
  have "filter k defs = filter k (take v defs) @ filter k (drop v defs)" by (metis append_take_drop_id filter_append)
  moreover have "drop v defs = defs ! v # drop (Suc v) defs" using v by (simp add: Cons_nth_drop_Suc)
  ultimately show ?thesis using k by (simp add: rank_def)
qed

lemma rank_mono: "v < w \<Longrightarrow> w \<le> length defs \<Longrightarrow> k (defs ! v) \<Longrightarrow> rank k defs v < rank k defs w"
proof -
  assume v: "v < w" "w \<le> length defs" and k: "k (defs ! v)"
  have "rank k (take w defs) v < length (filter k (take w defs))" by (rule rank_less) (use v k in auto)
  then show ?thesis using v by (simp add: rank_def min_def)
qed

lemma filter_counts: "length (filter is_private defs) + length (filter is_param defs) \<le> length defs"
  by (induction defs) (auto simp: kinds)

text \<open>A sort by the first position, whatever it does with equal ones.\<close>
definition sorts :: "((int \<times> nat) list \<Rightarrow> (int \<times> nat) list) \<Rightarrow> bool" where
  "sorts srt \<longleftrightarrow> (\<forall>xs. mset (srt xs) = mset xs \<and> sorted (map fst (srt xs)))"

lemma apart_pair:
  assumes "apart lv xs" and "(v, r) \<in> set xs" and "(w, r) \<in> set xs" and "v \<noteq> w"
  shows "before (lv v) (lv w) \<or> before (lv w) (lv v)"
proof -
  obtain i j where i: "i < length xs" "xs ! i = (v, r)" and j: "j < length xs" "xs ! j = (w, r)"
    using assms(2,3) by (auto simp: in_set_conv_nth)
  then have "i < j \<or> j < i" using assms(4) by (metis linorder_neqE_nat prod.inject)
  then show ?thesis using assms(1) i j unfolding apart_def sorted_wrt_iff_nth_less by (metis fst_conv snd_conv)
qed

lemma reusing_privates:
  assumes "sorts srt" and "assign_reusing srt t = Inr es"
  shows "\<exists>pr. number_setup pr 0 0 0 (t_defs t) = Inr es
    \<and> (\<forall>v \<in> set (values_of is_private (t_defs t)). \<exists>r. pr v = Some r \<and> length (filter is_param (t_defs t)) \<le> r \<and> r \<le> 7)
    \<and> (\<forall>v w r. v \<noteq> w \<longrightarrow> pr v = Some r \<longrightarrow> pr w = Some r \<longrightarrow> before (ranges t v) (ranges t w) \<or> before (ranges t w) (ranges t v))"
proof -
  let ?d = "t_defs t" and ?n = "length (filter is_param (t_defs t))" and ?lv = "ranges t"
  let ?xs = "map (\<lambda>v. (lr_first (?lv v), v)) (values_of is_private ?d)"
  let ?s0 = "\<lparr>al_next = ?n, al_free = [], al_busy = [], al_regs = []\<rparr>"
  obtain s where s: "alloc_all ?lv (srt ?xs) ?s0 = Inr s" "number_setup (map_of (al_regs s)) 0 0 0 ?d = Inr es"
    using assms(2) by (auto simp: assign_reusing_def Let_def bind_st_Inr_iff)
  have ms: "mset (srt ?xs) = mset ?xs" "sorted (map fst (srt ?xs))" using assms(1) by (auto simp: sorts_def)
  have set: "set (srt ?xs) = set ?xs" using ms(1) by (metis set_mset_mset)
  have "\<exists>cur. \<forall>x \<in> set (srt ?xs). fst x = lr_first (?lv (snd x)) \<and> cur \<le> fst x"
  proof (cases "srt ?xs")
    case (Cons x xs)
    then have "\<forall>y \<in> set (srt ?xs). fst x \<le> fst y" using ms(2) by auto
    moreover have "\<forall>y \<in> set (srt ?xs). fst y = lr_first (?lv (snd y))" using set by auto
    ultimately show ?thesis by blast
  qed simp
  then obtain cur where cur: "\<forall>x \<in> set (srt ?xs). fst x = lr_first (?lv (snd x)) \<and> cur \<le> fst x" by blast
  have ok: "numbers_ok ?n s" "apart ?lv (al_regs s)" "map fst (al_regs s) = map snd (srt ?xs)"
    using alloc_all_ok [OF s(1) ms(2) cur, of ?n] by (simp_all add: numbers_ok_def ended_ok_def apart_def)
  have "mset (map snd (srt ?xs)) = mset (map snd ?xs)" unfolding mset_map [of snd] ms(1) ..
  then have "distinct (map snd (srt ?xs)) \<longleftrightarrow> distinct (map snd ?xs)" by (rule mset_eq_imp_distinct_iff)
  moreover have "map snd ?xs = values_of is_private ?d" by (simp add: o_def)
  ultimately have dist: "distinct (map fst (al_regs s))" by (simp add: ok(3) values_of_def)
  have keys: "fst ` set (al_regs s) = set (values_of is_private ?d)"
    using arg_cong [OF ok(3), of set] set by (simp add: image_image)
  have got: "map_of (al_regs s) v = Some r \<longleftrightarrow> (v, r) \<in> set (al_regs s)" for v r using dist by (simp add: map_of_eq_Some_iff)
  show ?thesis
  proof (intro exI [of _ "map_of (al_regs s)"] conjI ballI allI impI)
    fix v assume "v \<in> set (values_of is_private ?d)"
    then obtain r where r: "(v, r) \<in> set (al_regs s)" using keys by force
    then have "?n \<le> r \<and> r \<le> 7" using ok(1) unfolding numbers_ok_def by fastforce
    then show "\<exists>r. map_of (al_regs s) v = Some r \<and> ?n \<le> r \<and> r \<le> 7" using r unfolding got by blast
  next
    fix v w r assume "v \<noteq> w" "map_of (al_regs s) v = Some r" "map_of (al_regs s) w = Some r"
    then show "before (?lv v) (?lv w) \<or> before (?lv w) (?lv v)" using apart_pair [OF ok(2)] unfolding got by blast
  qed (rule s(2))
qed

lemma in_values_of: "v \<in> set (values_of k defs) \<longleftrightarrow> v < length defs \<and> k (defs ! v)"
  by (auto simp: values_of_def)


lemma sort_key_sorts: "sorts (sort_key fst)"
  by (simp add: sorts_def)

definition no_attrs :: cmd_attrs where
  "no_attrs = \<lparr>h_dyn = [], h_fields = [], h_adds = [], h_fence = False\<rparr>"

definition some_load :: ld_args where
  "some_load = \<lparr>ld_ddr = 0, ld_laddr = 0x10000000, ld_rows = 1, ld_row_bytes = 16, ld_pitch = 16, ld_mode = 0, ld_xword = 0,
     ld_cstep = 0, ld_gemv_acc = False\<rparr>"

definition some_word :: ldp_args where
  "some_word = \<lparr>ldp_addr = 0, ldp_mul = 1, ldp_add = 0\<rparr>"

text \<open>Register 0 is loaded before a loop and read at the head of each pass; register 1 is loaded and read within a pass.\<close>
definition loop_ops :: "op list" where
  "loop_ops = [LdParam None 0 some_word no_attrs,
     Loop 2 2 0 2 0 no_attrs
       [Ld None some_load (no_attrs\<lparr>h_dyn := [0], h_fields := [1], h_adds := [True]\<rparr>),
        LdParam None 1 some_word no_attrs,
        Ld None some_load (no_attrs\<lparr>h_dyn := [1], h_fields := [1], h_adds := [True]\<rparr>)]]"

definition loop_template :: sahw_template where
  "loop_template = \<lparr>t_defs = replicate 9 (PrivateDef None), t_prefix = None, t_head = None, t_body = Some loop_ops,
     t_est_cycles = 0, t_unsupported = False, t_riscv_only = False\<rparr>"

lemma loop_uses: "template_uses loop_template = ([(0, 9, True), (0, 10, False), (1, 11, True), (1, 12, False), (2, 13, False), (2, 13, False)], [14])"
  by (simp add: template_uses_def sections_def loop_template_def loop_ops_def uses_at_def no_attrs_def option_uses_def)

lemma loop_ranges:
  "ranges loop_template 0 = \<lparr>lr_first = 9, lr_last = 10, lr_def_first = True\<rparr>"
  "ranges loop_template (Suc 0) = \<lparr>lr_first = 11, lr_last = 12, lr_def_first = True\<rparr>"
  "ranges loop_template 2 = \<lparr>lr_first = 13, lr_last = 13, lr_def_first = False\<rparr>"
  "v > 2 \<Longrightarrow> ranges loop_template v = no_range"
  by (auto simp: ranges_def loop_uses live_of_def no_range_def add_use_def extend_range_def Let_def)

lemma loop_assigned:
  "assign_registers (sort_key fst) loop_template = Inr (loop_template\<lparr>t_defs := map (\<lambda>r. PrivateDef (Some r)) [0, 0, 1, 2, 3, 4, 5, 6, 7]\<rparr>)"
proof -
  have n: "replicate 9 (PrivateDef None) = [PrivateDef None, PrivateDef None, PrivateDef None, PrivateDef None, PrivateDef None, PrivateDef None,
     PrivateDef None, PrivateDef None, PrivateDef None]" by (simp add: numeral_eq_Suc)
  have v: "values_of is_private (t_defs loop_template) = [0, 1, 2, 3, 4, 5, 6, 7, 8]"
    by (simp add: values_of_def loop_template_def n upt_rec)
  have r: "ranges loop_template 3 = no_range" "ranges loop_template 4 = no_range" "ranges loop_template 5 = no_range"
    "ranges loop_template 6 = no_range" "ranges loop_template 7 = no_range" "ranges loop_template 8 = no_range"
    by (simp_all add: loop_ranges)
  have f: "filter is_param (t_defs loop_template) = []" "length (filter is_private (t_defs loop_template)) = 9" by (simp_all add: loop_template_def n)
  show ?thesis
    unfolding assign_registers_def assign_reusing_def f v Let_def
    by (simp add: loop_ranges r no_range_def alloc_one_def free_ended_def take_number_def f)
       (simp add: loop_template_def n)
qed

text \<open>
  The comment wants a use in a loop to live to the loop's end, but the walk numbers a section
  after its operations, so no range is ever extended. In this template the loop reads register 0 on
  every pass, yet register 1, loaded within a pass, gets its number: from the second pass on the
  loop reads the wrong value.
\<close>
theorem loop_register_clobbered:
  "\<exists>t'. assign_registers (sort_key fst) loop_template = Inr t' \<and> t_body t' = Some loop_ops
    \<and> reg_of (t_defs t') 0 = Some 0 \<and> reg_of (t_defs t') 1 = Some 0"
  by (simp add: loop_assigned) (simp add: loop_template_def reg_of_def)


lemma plain_succeeds:
  "np \<ge> 0 \<Longrightarrow> np + int (length (filter is_param ds)) \<le> nq - int (length (filter is_private ds)) + 1 \<Longrightarrow>
    (if nb + length (filter is_base ds) > 15 \<and> filter is_base ds \<noteq> [] then number_plain nb np nq ds = Inl More_than_15_bases
     else \<exists>es. number_plain nb np nq ds = Inr es)"
proof (induction nb np nq ds rule: number_plain.induct)
  case (2 nb np nq d ds)
  consider "is_base d" | "is_param d" "\<not> is_base d" "\<not> is_private d" | "\<not> is_base d" "\<not> is_param d" "is_private d" by (cases d) auto
  then show ?case
  proof cases
    case 1
    then have "\<not> is_param d" "\<not> is_private d" by (cases d; simp)+
    then show ?thesis using 2(1,4,5) 1 by (fastforce split: if_splits)
  next
    case p: 2
    then show ?thesis using 2(2,4,5) by (auto split: if_splits)
  next
    case 3
    then show ?thesis using 2(3,4,5) by (auto split: if_splits)
  qed
qed simp

text \<open>
  C39. A template with at most eight parameters and private registers is refused only for more than
  15 BASE registers; the limit of the PARAM registers is never hit. With more than eight and no
  private register the limit is not checked at all: nine parameters get the numbers 0 to 8.
\<close>
theorem numbering_errors:
  "(length (filter is_param (t_defs t)) + length (filter is_private (t_defs t)) \<le> 8 \<longrightarrow>
      (if length (filter is_base (t_defs t)) > 15 then assign_registers srt t = Inl More_than_15_bases
       else \<exists>t'. assign_registers srt t = Inr t'))
   \<and> (t_defs u = replicate 9 (ParamDef l None) \<longrightarrow> sorts srt \<longrightarrow>
        (\<exists>u'. assign_registers srt u = Inr u' \<and> reg_of (t_defs u') 8 = Some 8))"
proof (intro conjI impI)
  assume "length (filter is_param (t_defs t)) + length (filter is_private (t_defs t)) \<le> 8"
  then show "if length (filter is_base (t_defs t)) > 15 then assign_registers srt t = Inl More_than_15_bases else \<exists>t'. assign_registers srt t = Inr t'"
    using plain_succeeds [of 0 "t_defs t" 7 0] by (fastforce simp: assign_registers_def split: if_splits)
next
  assume u: "t_defs u = replicate 9 (ParamDef l None)" and "sorts srt"
  have n: "replicate 9 (ParamDef l None) = [ParamDef l None, ParamDef l None, ParamDef l None, ParamDef l None, ParamDef l None, ParamDef l None,
     ParamDef l None, ParamDef l None, ParamDef l None]" by (simp add: numeral_eq_Suc)
  have v: "values_of is_private (t_defs u) = []" unfolding u values_of_def n by (simp add: upt_rec)
  have "srt [] = []" using \<open>sorts srt\<close> unfolding sorts_def by (metis mset_zero_iff mset.simps(1))
  then show "\<exists>u'. assign_registers srt u = Inr u' \<and> reg_of (t_defs u') 8 = Some 8"
    unfolding assign_registers_def assign_reusing_def v Let_def by (simp add: u n reg_of_def)
qed

theorem numbering_errors_witness:
  "\<exists>u'. assign_registers (sort_key fst) (loop_template\<lparr>t_defs := replicate 9 (ParamDef \<lparr>l_constant = 0, l_mul = 1, l_shift = 0, l_add = 0\<rparr> None)\<rparr>) = Inr u'
     \<and> reg_of (t_defs u') 8 = Some 8"
  using numbering_errors [of loop_template "sort_key fst"
      "loop_template\<lparr>t_defs := replicate 9 (ParamDef \<lparr>l_constant = 0, l_mul = 1, l_shift = 0, l_add = 0\<rparr> None)\<rparr>"
      "\<lparr>l_constant = 0, l_mul = 1, l_shift = 0, l_add = 0\<rparr>"] sort_key_sorts
  by simp

end
