(* ===== verification/LocalMemory.thy ===== *)
theory LocalMemory
  imports SplitHead
begin

text \<open>
  The local memories of a template: the plan of the banks (\<^verbatim>\<open>compiler/plugins/sa/target/Layout.cpp\<close>)
  and the allocation of SPAD_A and ACC words
  (\<^verbatim>\<open>compiler/plugins/sa/transforms/SahlLocalMemory.h\<close>). All numbers are 32-bit words.
\<close>

section \<open>The plan\<close>

record layout =
  ly_d :: u32
  ly_sbank :: u32
  ly_cbank :: u32
  ly_scr :: u32
  ly_acc0 :: u32
  ly_acc1 :: u32

definition make_layout :: "u32 \<Rightarrow> u32 \<Rightarrow> u32 \<Rightarrow> layout" where
  "make_layout d spad_bytes acc_bytes =
     (let sbank = spad_bytes div d div 2; cbank = acc_bytes div (4 * d) div 2; scr = cbank div 4
      in \<lparr>ly_d = d, ly_sbank = sbank, ly_cbank = cbank, ly_scr = scr, ly_acc0 = scr, ly_acc1 = cbank + scr\<rparr>)"

lemma unat_pred: "n \<ge> 1 \<Longrightarrow> unat (n - 1) = unat n - 1" for n :: u32
  by (cases "n = 0") (auto simp: unat_minus_one word_le_nat_alt)

text \<open>The loop of \<^verbatim>\<open>chunkTiles\<close>, from \<open>n\<close> down.\<close>
function chunk_loop :: "u32 \<Rightarrow> u32 \<Rightarrow> u32" where
  "chunk_loop nt n = (if n \<ge> 1 then (if nt mod n = 0 then n else chunk_loop nt (n - 1)) else 0)"
  by pat_completeness auto

termination chunk_loop
  by (relation "measure (\<lambda>(nt, n). unat n)") (auto simp: word_le_nat_alt unat_pred)

declare chunk_loop.simps [simp del]

definition chunk_tiles :: "layout \<Rightarrow> u32 \<Rightarrow> u32 \<Rightarrow> u32 \<Rightarrow> u32" where
  "chunk_tiles l k nt rows = chunk_loop nt (min (ly_sbank l div k) (ly_scr l div (ly_d l + 1 + rows)))"

section \<open>Allocation\<close>

record local_memory =
  lm_lay :: layout
  lm_acc0 :: u32
  lm_acc1 :: u32
  lm_spad :: u32
  lm_prefer :: int

definition new_memory :: "layout \<Rightarrow> local_memory" where
  "new_memory l = \<lparr>lm_lay = l, lm_acc0 = ly_acc0 l, lm_acc1 = ly_acc1 l, lm_spad = 0, lm_prefer = - 1\<rparr>"

definition lm_acc :: "nat \<Rightarrow> local_memory \<Rightarrow> u32" where
  "lm_acc b m = (if b = 0 then lm_acc0 m else lm_acc1 m)"

definition bump_acc :: "nat \<Rightarrow> u32 \<Rightarrow> local_memory \<Rightarrow> local_memory" where
  "bump_acc b w m = (if b = 0 then m\<lparr>lm_acc0 := lm_acc0 m + w\<rparr> else m\<lparr>lm_acc1 := lm_acc1 m + w\<rparr>)"

definition acc_fits :: "nat \<Rightarrow> u32 \<Rightarrow> local_memory \<Rightarrow> bool" where
  "acc_fits b w m \<longleftrightarrow> lm_acc b m + w \<le> of_nat (b + 1) * ly_cbank (lm_lay m)"

text \<open>\<^verbatim>\<open>allocAcc\<close>: the preferred bank, then the first bank with room.\<close>
definition alloc_acc :: "u32 \<Rightarrow> local_memory \<Rightarrow> (u32 \<times> local_memory) option" where
  "alloc_acc w m =
     (let take = (\<lambda>b. Some (lm_acc b m, bump_acc b w m)) in
      if lm_prefer m \<ge> 0 \<and> acc_fits (nat (lm_prefer m)) w m then take (nat (lm_prefer m))
      else if acc_fits 0 w m then take 0
      else if acc_fits 1 w m then take 1
      else None)"

definition alloc_spad :: "u32 \<Rightarrow> local_memory \<Rightarrow> (u32 \<times> local_memory) option" where
  "alloc_spad w m =
     (if lm_spad m + w > 2 * ly_sbank (lm_lay m) then None else Some (lm_spad m, m\<lparr>lm_spad := lm_spad m + w\<rparr>))"

definition spad_used :: "local_memory \<Rightarrow> bool" where
  "spad_used m \<longleftrightarrow> lm_spad m \<noteq> 0"

definition spad_top :: "local_memory \<Rightarrow> u32" where
  "spad_top m = lm_spad m"

definition take_spad :: "u32 \<Rightarrow> local_memory \<Rightarrow> local_memory" where
  "take_spad w m = m\<lparr>lm_spad := w\<rparr>"

record lm_mark =
  mk_acc0 :: u32
  mk_acc1 :: u32
  mk_spad :: u32

definition mark_memory :: "local_memory \<Rightarrow> lm_mark" where
  "mark_memory m = \<lparr>mk_acc0 = lm_acc0 m, mk_acc1 = lm_acc1 m, mk_spad = lm_spad m\<rparr>"

definition release_acc :: "lm_mark \<Rightarrow> local_memory \<Rightarrow> local_memory" where
  "release_acc k m = m\<lparr>lm_acc0 := mk_acc0 k, lm_acc1 := mk_acc1 k\<rparr>"

definition release_memory :: "lm_mark \<Rightarrow> local_memory \<Rightarrow> local_memory" where
  "release_memory k m = (release_acc k m)\<lparr>lm_spad := mk_spad k\<rparr>"

section \<open>Chunks\<close>

lemma chunk_loop_divides:
  "(chunk_loop nt n = 0 \<longleftrightarrow> n = 0) \<and> chunk_loop nt n \<le> n \<and> (n \<noteq> 0 \<longrightarrow> nt mod chunk_loop nt n = 0)
     \<and> (\<forall>j. chunk_loop nt n < j \<and> j \<le> n \<longrightarrow> nt mod j \<noteq> 0)"
proof (induction nt n rule: chunk_loop.induct)
  case (1 nt n)
  show ?case
  proof (cases "n = 0")
    case True
    have "chunk_loop nt 0 = 0" by (subst chunk_loop.simps) (simp add: word_le_nat_alt)
    then show ?thesis using True by (auto simp: word_le_nat_alt word_less_nat_alt)
  next
    case nz: False
    then have n: "n \<ge> 1" by (simp add: word_le_nat_alt unat_gt_0 Suc_le_eq)
    show ?thesis
    proof (cases "nt mod n = 0")
      case True
      then show ?thesis using nz n by (auto simp: chunk_loop.simps [of nt n] not_le)
    next
      case False
      have n1: "n \<noteq> 1" using False by auto
      then have z: "n - 1 \<noteq> 0" by simp
      have le: "n - 1 \<le> n" using nz by (simp add: word_le_nat_alt unat_minus_one)
      have step: "chunk_loop nt n = chunk_loop nt (n - 1)" using n False by (simp add: chunk_loop.simps [of nt n])
      have split: "j \<le> n - 1 \<or> j = n" if "j \<le> n" for j using that nz by (auto simp: word_le_nat_alt unat_minus_one word_unat_eq_iff)
      note IH = 1 [OF n False]
      have big': "chunk_loop nt (n - 1) < j \<and> j \<le> n - 1 \<longrightarrow> nt mod j \<noteq> 0" for j using conjunct2 [OF conjunct2 [OF conjunct2 [OF IH]]] by (rule spec)
      have big: "nt mod j \<noteq> 0" if "chunk_loop nt (n - 1) < j" "j \<le> n" for j
        using split [OF that(2)]
      proof
        assume "j \<le> n - 1"
        with that(1) show ?thesis by (intro mp [OF big'] conjI)
      qed (use False in \<open>simp only: not_False_eq_True\<close>)
      have "chunk_loop nt (n - 1) \<le> n" using conjunct1 [OF conjunct2 [OF IH]] le by (rule order_trans)
      then show ?thesis unfolding step using conjunct1 [OF IH] conjunct1 [OF conjunct2 [OF conjunct2 [OF IH]]] nz z big by simp
    qed
  qed
qed

lemmas chunk_zero = chunk_loop_divides [THEN conjunct1]
lemmas chunk_le = chunk_loop_divides [THEN conjunct2, THEN conjunct1]
lemmas chunk_divides = chunk_loop_divides [THEN conjunct2, THEN conjunct2, THEN conjunct1, rule_format]
lemmas chunk_biggest = chunk_loop_divides [THEN conjunct2, THEN conjunct2, THEN conjunct2, rule_format, OF conjI]

lemma unat_u32: "unat x < 2 ^ 32" for x :: u32
  using unsigned_less [of x] by simp

lemma unat_add_small: "unat a + unat b < 2 ^ 32 \<Longrightarrow> unat (a + b) = unat a + unat b" for a b :: u32
  using unat_add_lem [of a b] by simp

lemma le_div_iff: "0 < k \<Longrightarrow> n \<le> s div k \<longleftrightarrow> n * k \<le> s" for n s k :: nat
  by (simp add: less_eq_div_iff_mult_less_eq)

text \<open>The weights of \<open>n\<close> tiles in a bank of SPAD, their results in the scratch of a bank of ACC.\<close>
definition chunk_fits :: "layout \<Rightarrow> u32 \<Rightarrow> u32 \<Rightarrow> nat \<Rightarrow> bool" where
  "chunk_fits l k rows n \<longleftrightarrow> n * unat k \<le> unat (ly_sbank l) \<and> n * (unat (ly_d l) + 1 + unat rows) \<le> unat (ly_scr l)"

text \<open>
  C37. The chunk of a linear layer: it is 0 exactly when not even one tile fits; otherwise it divides
  the tiles, its weights fit one SPAD bank and its results the scratch, and it is the largest such
  number. The search always ends.
\<close>
theorem chunk_tiles_largest:
  assumes "0 < unat k" and "unat (ly_d l) + 1 + unat rows < 2 ^ 32"
  shows "(chunk_tiles l k nt rows = 0 \<longleftrightarrow> \<not> chunk_fits l k rows 1)
    \<and> (chunk_tiles l k nt rows \<noteq> 0 \<longrightarrow> chunk_fits l k rows (unat (chunk_tiles l k nt rows)) \<and> unat nt mod unat (chunk_tiles l k nt rows) = 0)
    \<and> (\<forall>n. 0 < n \<and> chunk_fits l k rows n \<and> unat nt mod n = 0 \<longrightarrow> n \<le> unat (chunk_tiles l k nt rows))"
proof -
  have w: "unat (ly_d l + 1 + rows) = unat (ly_d l) + 1 + unat rows"
    using assms(2) unat_add_small [of "ly_d l" 1] unat_add_small [of "ly_d l + 1" rows] by simp
  define cp where "cp = min (ly_sbank l div k) (ly_scr l div (ly_d l + 1 + rows))"
  have cap: "n \<le> unat cp \<longleftrightarrow> chunk_fits l k rows n" for n
  proof -
    have "n \<le> unat cp \<longleftrightarrow> n \<le> unat (ly_sbank l) div unat k \<and> n \<le> unat (ly_scr l) div unat (ly_d l + 1 + rows)"
      by (auto simp: cp_def min_def word_le_nat_alt unat_div_distrib)
    also have "\<dots> \<longleftrightarrow> chunk_fits l k rows n" unfolding chunk_fits_def w using assms(1) by (simp add: le_div_iff)
    finally show ?thesis .
  qed
  define r where "r = chunk_tiles l k nt rows"
  have r: "r = chunk_loop nt cp" by (simp add: r_def chunk_tiles_def cp_def)
  have zero: "r = 0 \<longleftrightarrow> \<not> chunk_fits l k rows 1"
    using chunk_zero [of nt cp] cap [of 1] by (auto simp: r unat_eq_zero Suc_le_eq unat_gt_0)
  have fits: "chunk_fits l k rows (unat r) \<and> unat nt mod unat r = 0" if "r \<noteq> 0"
  proof
    show "chunk_fits l k rows (unat r)" using chunk_le [of nt cp] cap [of "unat r"] by (simp add: r word_le_nat_alt)
    have "cp \<noteq> 0" using that chunk_zero [of nt cp] by (simp add: r)
    then have "nt mod r = 0" unfolding r by (rule chunk_divides)
    then show "unat nt mod unat r = 0" by (metis unat_0 unat_mod_distrib)
  qed
  have most: "n \<le> unat r" if n: "0 < n" "chunk_fits l k rows n" "unat nt mod n = 0" for n
  proof (rule ccontr)
    assume "\<not> n \<le> unat r"
    then have gt: "unat r < n" by simp
    have le: "n \<le> unat cp" using n(2) cap by simp
    then have lt: "n < 2 ^ 32" using unat_u32 [of cp] by simp
    define q where "q = (of_nat n :: u32)"
    have u: "unat q = n" using lt by (simp add: q_def unat_of_nat)
    have "r < q" "q \<le> cp" using gt le by (simp_all add: word_less_nat_alt word_le_nat_alt u)
    then have "nt mod q \<noteq> 0" unfolding r by (rule chunk_biggest)
    moreover have "unat (nt mod q) = 0" using n(3) by (simp only: unat_mod_distrib u)
    ultimately show False by (simp only: unat_eq_zero)
  qed
  show ?thesis unfolding r_def [symmetric]
  proof (intro conjI impI allI zero)
    assume "r \<noteq> 0"
    from fits [OF this] show "chunk_fits l k rows (unat r)" "unat nt mod unat r = 0" by (rule conjunct1, rule conjunct2)
  next
    fix n assume "0 < n \<and> chunk_fits l k rows n \<and> unat nt mod n = 0"
    then show "n \<le> unat r" by (elim conjE) (rule most)
  qed
qed

theorem chunk_tiles_largest_witness:
  "unat (0x1800 :: u32) mod unat (chunk_tiles (make_layout 8 0x20000 0x40000) 0x100 0x1800 1) = 0"
proof -
  have l: "make_layout 8 0x20000 0x40000 = \<lparr>ly_d = 8, ly_sbank = 8192, ly_cbank = 4096, ly_scr = 1024, ly_acc0 = 1024, ly_acc1 = 5120\<rparr>"
    by (simp add: make_layout_def)
  show ?thesis using chunk_tiles_largest [of "0x100" "make_layout 8 0x20000 0x40000" 1 "0x1800"] by (simp add: l chunk_fits_def)
qed

section \<open>What an allocator promises\<close>

definition block :: "u32 \<times> u32 \<Rightarrow> nat set" where
  "block x = {unat (fst x) ..< unat (fst x) + unat (snd x)}"

text \<open>Live blocks: all within the words given out, no two sharing a word.\<close>
definition owns :: "nat set \<Rightarrow> (u32 \<times> u32) list \<Rightarrow> bool" where
  "owns u xs \<longleftrightarrow> (\<forall>x \<in> set xs. block x \<subseteq> u) \<and> sorted_wrt (\<lambda>x y. block x \<inter> block y = {}) xs"

locale local_store =
  fixes alloc :: "u32 \<Rightarrow> 's \<Rightarrow> (u32 \<times> 's) option" and given :: "'s \<Rightarrow> nat set" and good :: "'s \<Rightarrow> bool" and small :: "u32 \<Rightarrow> bool"
  assumes alloc_good: "good s \<Longrightarrow> small w \<Longrightarrow> alloc w s = Some (a, s') \<Longrightarrow> good s'"
    and alloc_fresh: "good s \<Longrightarrow> small w \<Longrightarrow> alloc w s = Some (a, s') \<Longrightarrow> block (a, w) \<inter> given s = {}"
    and alloc_given: "good s \<Longrightarrow> small w \<Longrightarrow> alloc w s = Some (a, s') \<Longrightarrow> given s' = given s \<union> block (a, w)"
begin

lemma owns_alloc:
  assumes "good s" "small w" "alloc w s = Some (a, s')" "owns (given s) xs"
  shows "owns (given s') ((a, w) # xs)"
  using alloc_fresh [OF assms(1-3)] alloc_given [OF assms(1-3)] assms(4) by (fastforce simp: owns_def)

end

section \<open>The two memories\<close>

definition layout_ok :: "layout \<Rightarrow> bool" where
  "layout_ok l \<longleftrightarrow> unat (ly_sbank l) \<le> 2 ^ 15 \<and> unat (ly_cbank l) \<le> 2 ^ 15 \<and> unat (ly_scr l) = unat (ly_cbank l) div 4
     \<and> ly_acc0 l = ly_scr l \<and> unat (ly_acc1 l) = unat (ly_cbank l) + unat (ly_scr l)"

text \<open>Sizes that do not wrap the sum with a position in the memory.\<close>
definition small_words :: "u32 \<Rightarrow> bool" where
  "small_words w \<longleftrightarrow> unat w < 2 ^ 32 - 2 ^ 16"

definition memory_ok :: "local_memory \<Rightarrow> bool" where
  "memory_ok m \<longleftrightarrow> (let l = lm_lay m in layout_ok l \<and> unat (ly_scr l) \<le> unat (lm_acc0 m) \<and> unat (lm_acc0 m) \<le> unat (ly_cbank l)
     \<and> unat (ly_acc1 l) \<le> unat (lm_acc1 m) \<and> unat (lm_acc1 m) \<le> 2 * unat (ly_cbank l) \<and> unat (lm_spad m) \<le> 2 * unat (ly_sbank l)
     \<and> lm_prefer m \<in> {- 1, 0, 1})"

definition acc_given :: "local_memory \<Rightarrow> nat set" where
  "acc_given m = {unat (ly_scr (lm_lay m)) ..< unat (lm_acc0 m)} \<union> {unat (ly_acc1 (lm_lay m)) ..< unat (lm_acc1 m)}"

definition spad_given :: "local_memory \<Rightarrow> nat set" where
  "spad_given m = {0 ..< unat (lm_spad m)}"

lemma unat_double: "unat x \<le> 2 ^ 15 \<Longrightarrow> unat (2 * x) = 2 * unat x" for x :: u32
  unfolding mult_2 by (rule unat_add_small) simp

lemma alloc_spad_cases:
  assumes "memory_ok m" and "small_words w" and "alloc_spad w m = Some (a, m')"
  shows "a = lm_spad m \<and> m' = m\<lparr>lm_spad := lm_spad m + w\<rparr> \<and> unat (lm_spad m + w) = unat (lm_spad m) + unat w
    \<and> unat (lm_spad m) + unat w \<le> 2 * unat (ly_sbank (lm_lay m))"
proof -
  have s: "unat (ly_sbank (lm_lay m)) \<le> 2 ^ 15" "unat (lm_spad m) \<le> 2 * unat (ly_sbank (lm_lay m))"
    using assms(1) by (simp_all add: memory_ok_def layout_ok_def Let_def)
  then have u: "unat (lm_spad m + w) = unat (lm_spad m) + unat w"
    using assms(2) by (intro unat_add_small) (simp add: small_words_def)
  show ?thesis using assms(3) u unat_double [OF s(1)] by (auto simp: alloc_spad_def word_less_nat_alt split: if_splits)
qed

text \<open>An ACC block lies in one bank.\<close>
lemma alloc_acc_cases:
  assumes ok: "memory_ok m" and w: "small_words w" and a: "alloc_acc w m = Some (a, m')"
  obtains (bank0) "a = lm_acc0 m" "m' = m\<lparr>lm_acc0 := lm_acc0 m + w\<rparr>" "unat (lm_acc0 m + w) = unat (lm_acc0 m) + unat w"
      "unat (lm_acc0 m) + unat w \<le> unat (ly_cbank (lm_lay m))"
    | (bank1) "a = lm_acc1 m" "m' = m\<lparr>lm_acc1 := lm_acc1 m + w\<rparr>" "unat (lm_acc1 m + w) = unat (lm_acc1 m) + unat w"
      "unat (lm_acc1 m) + unat w \<le> 2 * unat (ly_cbank (lm_lay m))"
proof -
  have c: "unat (ly_cbank (lm_lay m)) \<le> 2 ^ 15" "unat (lm_acc0 m) \<le> unat (ly_cbank (lm_lay m))"
    "unat (lm_acc1 m) \<le> 2 * unat (ly_cbank (lm_lay m))" "lm_prefer m \<in> {- 1, 0, 1}"
    using ok by (simp_all add: memory_ok_def layout_ok_def Let_def)
  have u: "unat (lm_acc0 m + w) = unat (lm_acc0 m) + unat w" "unat (lm_acc1 m + w) = unat (lm_acc1 m) + unat w"
    using c w by (auto intro!: unat_add_small simp: small_words_def)
  have fits: "acc_fits 0 w m \<longleftrightarrow> unat (lm_acc0 m) + unat w \<le> unat (ly_cbank (lm_lay m))"
    "acc_fits (Suc 0) w m \<longleftrightarrow> unat (lm_acc1 m) + unat w \<le> 2 * unat (ly_cbank (lm_lay m))"
    by (simp_all add: acc_fits_def lm_acc_def word_le_nat_alt u unat_double [OF c(1)])
  have "(acc_fits 0 w m \<and> a = lm_acc0 m \<and> m' = bump_acc 0 w m) \<or> (acc_fits (Suc 0) w m \<and> a = lm_acc1 m \<and> m' = bump_acc 1 w m)"
    using a c(4) by (auto simp: alloc_acc_def lm_acc_def Let_def split: if_splits)
  then show ?thesis using that u fits by (auto simp: bump_acc_def)
qed

interpretation spad: local_store alloc_spad spad_given memory_ok small_words
proof unfold_locales
  fix m w a m' assume h: "memory_ok m" "small_words w" "alloc_spad w m = Some (a, m')"
  note c = alloc_spad_cases [OF h]
  show "memory_ok m'" using h(1) c by (auto simp: memory_ok_def Let_def)
  show "block (a, w) \<inter> spad_given m = {}" using c by (auto simp: block_def spad_given_def)
  show "spad_given m' = spad_given m \<union> block (a, w)" using c by (auto simp: block_def spad_given_def)
qed

interpretation accs: local_store alloc_acc acc_given memory_ok small_words
proof unfold_locales
  fix m w a m' assume h: "memory_ok m" "small_words w" "alloc_acc w m = Some (a, m')"
  have r: "unat (ly_scr (lm_lay m)) \<le> unat (lm_acc0 m)" "unat (lm_acc0 m) \<le> unat (ly_cbank (lm_lay m))"
    "unat (ly_acc1 (lm_lay m)) \<le> unat (lm_acc1 m)" "unat (ly_cbank (lm_lay m)) \<le> unat (ly_acc1 (lm_lay m))"
    using h(1) by (auto simp: memory_ok_def layout_ok_def Let_def)
  show "memory_ok m'" by (rule alloc_acc_cases [OF h]) (use h(1) in \<open>auto simp: memory_ok_def Let_def\<close>)
  show "block (a, w) \<inter> acc_given m = {}"
    by (rule alloc_acc_cases [OF h]) (use r in \<open>auto simp: block_def acc_given_def\<close>)
  show "acc_given m' = acc_given m \<union> block (a, w)"
    by (rule alloc_acc_cases [OF h]) (use r in \<open>auto simp: block_def acc_given_def\<close>)
qed

section \<open>A lowering's use of them\<close>

text \<open>The memory, the live blocks of ACC and SPAD_A, and the marks taken with the blocks live then.\<close>
record lowering =
  lw_mem :: local_memory
  lw_acc :: "(u32 \<times> u32) list"
  lw_spad :: "(u32 \<times> u32) list"
  lw_marks :: "(lm_mark \<times> (u32 \<times> u32) list \<times> (u32 \<times> u32) list) list"

text \<open>Allocations, a change of the preferred bank, a kernel's own SPAD_A layout, marks and releases to the last one.\<close>
inductive lm_step :: "lowering \<Rightarrow> lowering \<Rightarrow> bool" where
  acc: "small_words w \<Longrightarrow> alloc_acc w (lw_mem s) = Some (a, m) \<Longrightarrow> lm_step s (s\<lparr>lw_mem := m, lw_acc := (a, w) # lw_acc s\<rparr>)"
| spad: "small_words w \<Longrightarrow> alloc_spad w (lw_mem s) = Some (a, m) \<Longrightarrow> lm_step s (s\<lparr>lw_mem := m, lw_spad := (a, w) # lw_spad s\<rparr>)"
| preferred: "b \<in> {- 1, 0, 1} \<Longrightarrow> lm_step s (s\<lparr>lw_mem := (lw_mem s)\<lparr>lm_prefer := b\<rparr>\<rparr>)"
| own_layout: "lw_spad s = [] \<Longrightarrow> unat w \<le> 2 * unat (ly_sbank (lm_lay (lw_mem s)))
    \<Longrightarrow> lm_step s (s\<lparr>lw_mem := take_spad w (lw_mem s), lw_spad := [(0, w)]\<rparr>)"
| mark: "lm_step s (s\<lparr>lw_marks := (mark_memory (lw_mem s), lw_acc s, lw_spad s) # lw_marks s\<rparr>)"
| release: "lw_marks s = (k, xs, ys) # ks \<Longrightarrow>
    lm_step s (s\<lparr>lw_mem := release_memory k (lw_mem s), lw_acc := xs, lw_spad := ys, lw_marks := ks\<rparr>)"
| release_accs: "lw_marks s = (k, xs, ys) # ks \<Longrightarrow> lm_step s (s\<lparr>lw_mem := release_acc k (lw_mem s), lw_acc := xs\<rparr>)"

inductive_cases lm_step_cases: "lm_step s s'"

definition new_lowering :: "layout \<Rightarrow> lowering" where
  "new_lowering l = \<lparr>lw_mem = new_memory l, lw_acc = [], lw_spad = [], lw_marks = []\<rparr>"

definition blocks_ok :: "local_memory \<Rightarrow> (u32 \<times> u32) list \<Rightarrow> (u32 \<times> u32) list \<Rightarrow> bool" where
  "blocks_ok m xs ys \<longleftrightarrow> memory_ok m \<and> owns (acc_given m) xs \<and> owns (spad_given m) ys"

definition lowering_ok :: "lowering \<Rightarrow> bool" where
  "lowering_ok s \<longleftrightarrow> blocks_ok (lw_mem s) (lw_acc s) (lw_spad s)
     \<and> (\<forall>(k, xs, ys) \<in> set (lw_marks s). blocks_ok (release_memory k (lw_mem s)) xs ys)"

lemma alloc_fields:
  "alloc_acc w m = Some (a, m') \<Longrightarrow> lm_lay m' = lm_lay m \<and> lm_spad m' = lm_spad m \<and> lm_prefer m' = lm_prefer m"
  "alloc_spad w m = Some (a, m') \<Longrightarrow> lm_lay m' = lm_lay m \<and> lm_acc0 m' = lm_acc0 m \<and> lm_acc1 m' = lm_acc1 m \<and> lm_prefer m' = lm_prefer m"
  by (auto simp: alloc_acc_def alloc_spad_def bump_acc_def Let_def split: if_splits)

lemma release_again:
  "lm_lay m' = lm_lay m \<Longrightarrow> lm_prefer m' \<in> {- 1, 0, 1} \<Longrightarrow> blocks_ok (release_memory k m) xs ys \<Longrightarrow> blocks_ok (release_memory k m') xs ys"
  by (simp add: blocks_ok_def memory_ok_def acc_given_def spad_given_def release_memory_def release_acc_def Let_def)

lemma marks_again:
  "lowering_ok s \<Longrightarrow> lm_lay m' = lm_lay (lw_mem s) \<Longrightarrow> lm_prefer m' \<in> {- 1, 0, 1} \<Longrightarrow>
    \<forall>(k, xs, ys) \<in> set (lw_marks s). blocks_ok (release_memory k m') xs ys"
  unfolding lowering_ok_def using release_again by blast

lemma release_mark: "blocks_ok m xs ys \<Longrightarrow> blocks_ok (release_memory (mark_memory m) m) xs ys"
  by (cases m) (simp add: release_memory_def release_acc_def mark_memory_def)

lemma lm_step_ok: "lm_step s s' \<Longrightarrow> lowering_ok s \<Longrightarrow> lowering_ok s'"
proof (induction rule: lm_step.induct)
  case (acc w s a m)
  have b: "memory_ok (lw_mem s)" "owns (acc_given (lw_mem s)) (lw_acc s)" "owns (spad_given (lw_mem s)) (lw_spad s)"
    using acc(3) by (simp_all add: lowering_ok_def blocks_ok_def)
  have p: "lm_prefer (lw_mem s) \<in> {- 1, 0, 1}" using b(1) by (simp add: memory_ok_def Let_def)
  have "spad_given m = spad_given (lw_mem s)" using alloc_fields(1) [OF acc(2)] by (simp add: spad_given_def)
  then show ?case
    using accs.alloc_good [OF b(1) acc(1,2)] accs.owns_alloc [OF b(1) acc(1,2) b(2)] b(3) marks_again [OF acc(3), of m] alloc_fields(1) [OF acc(2)] p
    by (simp add: lowering_ok_def blocks_ok_def)
next
  case (spad w s a m)
  have b: "memory_ok (lw_mem s)" "owns (acc_given (lw_mem s)) (lw_acc s)" "owns (spad_given (lw_mem s)) (lw_spad s)"
    using spad(3) by (simp_all add: lowering_ok_def blocks_ok_def)
  have p: "lm_prefer (lw_mem s) \<in> {- 1, 0, 1}" using b(1) by (simp add: memory_ok_def Let_def)
  have "acc_given m = acc_given (lw_mem s)" using alloc_fields(2) [OF spad(2)] by (simp add: acc_given_def)
  then show ?case
    using spad.alloc_good [OF b(1) spad(1,2)] spad.owns_alloc [OF b(1) spad(1,2) b(3)] b(2) marks_again [OF spad(3), of m] alloc_fields(2) [OF spad(2)] p
    by (simp add: lowering_ok_def blocks_ok_def)
next
  case (preferred b s)
  then show ?case using marks_again [OF preferred(2), of "(lw_mem s)\<lparr>lm_prefer := b\<rparr>"]
    by (simp add: lowering_ok_def blocks_ok_def memory_ok_def acc_given_def spad_given_def Let_def)
next
  case (own_layout s w)
  have p: "lm_prefer (lw_mem s) \<in> {- 1, 0, 1}" using own_layout(3) by (simp add: lowering_ok_def blocks_ok_def memory_ok_def Let_def)
  show ?case using own_layout marks_again [OF own_layout(3), of "take_spad w (lw_mem s)"] p
    by (simp add: lowering_ok_def blocks_ok_def memory_ok_def acc_given_def spad_given_def take_spad_def owns_def block_def Let_def)
next
  case (mark s)
  then show ?case by (simp add: lowering_ok_def release_mark)
next
  case (release s k xs ys ks)
  have p: "lm_prefer (lw_mem s) \<in> {- 1, 0, 1}" using release(2) by (simp add: lowering_ok_def blocks_ok_def memory_ok_def Let_def)
  have "blocks_ok (release_memory k (lw_mem s)) xs ys" using release by (simp add: lowering_ok_def)
  then show ?case using marks_again [OF release(2), of "release_memory k (lw_mem s)"] p release(1)
    by (simp add: lowering_ok_def release_memory_def release_acc_def)
next
  case (release_accs s k xs ys ks)
  have b: "blocks_ok (lw_mem s) (lw_acc s) (lw_spad s)" "blocks_ok (release_memory k (lw_mem s)) xs ys"
    using release_accs by (simp_all add: lowering_ok_def)
  have p: "lm_prefer (lw_mem s) \<in> {- 1, 0, 1}" using b(1) by (simp add: blocks_ok_def memory_ok_def Let_def)
  have "blocks_ok (release_acc k (lw_mem s)) xs (lw_spad s)"
    using b by (simp add: blocks_ok_def memory_ok_def acc_given_def spad_given_def release_memory_def release_acc_def Let_def)
  then show ?case using marks_again [OF release_accs(2), of "release_acc k (lw_mem s)"] p by (simp add: lowering_ok_def release_acc_def)
qed

lemma lm_steps_ok: "lm_step\<^sup>*\<^sup>* s s' \<Longrightarrow> lowering_ok s \<Longrightarrow> lowering_ok s'"
  by (induction rule: rtranclp_induct) (auto intro: lm_step_ok)

lemma lm_step_lay: "lm_step s s' \<Longrightarrow> lm_lay (lw_mem s') = lm_lay (lw_mem s)"
  by (induction rule: lm_step.induct) (auto dest!: alloc_fields simp: take_spad_def release_memory_def release_acc_def)

lemma lm_steps_lay: "lm_step\<^sup>*\<^sup>* s s' \<Longrightarrow> lm_lay (lw_mem s') = lm_lay (lw_mem s)"
  by (induction rule: rtranclp_induct) (auto dest: lm_step_lay)

text \<open>The plan of a target's configuration (\<^verbatim>\<open>uint32_t(cfg.d)\<close> and so on).\<close>
definition config_layout :: "target_config \<Rightarrow> layout" where
  "config_layout c = make_layout (word_of_int (tc_d c)) (word_of_int (tc_spad_bytes c)) (word_of_int (tc_acc_bytes c))"

lemma unat_word_of_int: "0 \<le> i \<Longrightarrow> i < 2 ^ 32 \<Longrightarrow> unat (word_of_int i :: u32) = nat i"
  by (simp add: unsigned_of_int take_bit_int_eq_self)

lemma config_layout_ok:
  assumes "invalid_config c = ''''"
  shows "layout_ok (config_layout c)"
proof -
  have d: "tc_d c = 8 \<or> tc_d c = 16" and s: "tc_spad_bytes c > 0" "tc_spad_bytes c div tc_d c \<le> 65536"
    and a: "tc_acc_bytes c > 0" "tc_acc_bytes c div (4 * tc_d c) \<le> 65536"
    using assms by (auto simp: invalid_config_def pow2_def split: if_splits)
  have bs: "tc_spad_bytes c < 2 ^ 32" using d s(2) by (elim disjE) simp_all
  have ba: "tc_acc_bytes c < 2 ^ 32" using d a(2) by (elim disjE) simp_all
  have u: "unat (word_of_int (tc_d c) :: u32) = nat (tc_d c)" "unat (word_of_int (tc_spad_bytes c) :: u32) = nat (tc_spad_bytes c)"
    "unat (word_of_int (tc_acc_bytes c) :: u32) = nat (tc_acc_bytes c)"
    using d s a bs ba by (auto intro!: unat_word_of_int)
  have four: "unat (4 * word_of_int (tc_d c) :: u32) = 4 * nat (tc_d c)" using d by auto
  have sb: "unat (ly_sbank (config_layout c)) = nat (tc_spad_bytes c) div nat (tc_d c) div 2"
    by (simp add: config_layout_def make_layout_def Let_def unat_div_distrib u)
  have cb: "unat (ly_cbank (config_layout c)) = nat (tc_acc_bytes c) div (4 * nat (tc_d c)) div 2"
    by (simp add: config_layout_def make_layout_def Let_def unat_div_distrib u four)
  have s2: "nat (tc_spad_bytes c) div nat (tc_d c) \<le> 65536" using s d by (auto simp: nat_div_distrib [symmetric])
  have a2: "nat (tc_acc_bytes c) div (4 * nat (tc_d c)) \<le> 65536" using a d by (auto simp: nat_div_distrib [symmetric])
  have sc: "unat (ly_scr (config_layout c)) = unat (ly_cbank (config_layout c)) div 4"
    by (simp add: config_layout_def make_layout_def Let_def unat_div_distrib)
  have a1: "unat (ly_acc1 (config_layout c)) = unat (ly_cbank (config_layout c)) + unat (ly_scr (config_layout c))"
  proof -
    have "unat (ly_cbank (config_layout c)) \<le> 2 ^ 15" using div_le_mono [OF a2, of 2] by (simp add: cb)
    then have "unat (ly_cbank (config_layout c) + ly_scr (config_layout c)) = unat (ly_cbank (config_layout c)) + unat (ly_scr (config_layout c))"
      by (intro unat_add_small) (simp add: sc)
    then show ?thesis by (simp add: config_layout_def make_layout_def Let_def)
  qed
  have "nat (tc_spad_bytes c) div nat (tc_d c) div 2 \<le> 2 ^ 15" "nat (tc_acc_bytes c) div (4 * nat (tc_d c)) div 2 \<le> 2 ^ 15"
    using div_le_mono [OF s2, of 2] div_le_mono [OF a2, of 2] by simp_all
  then show ?thesis unfolding layout_ok_def using sb cb sc a1 by (simp add: config_layout_def make_layout_def Let_def)
qed

lemma new_lowering_ok: "layout_ok l \<Longrightarrow> lowering_ok (new_lowering l)"
  by (auto simp: lowering_ok_def new_lowering_def blocks_ok_def new_memory_def memory_ok_def owns_def layout_ok_def Let_def)

text \<open>
  C14. On the plan of a valid configuration, at every moment of a lowering that allocates, marks and
  releases as it likes, the live blocks of each memory share no word; those of SPAD_A lie within its
  words, those of ACC within one of the banks above its scratch words, so that every address fits 16 bits.
\<close>
theorem live_blocks_apart:
  assumes "invalid_config c = ''''" and "lm_step\<^sup>*\<^sup>* (new_lowering (config_layout c)) s"
  shows "(let l = config_layout c; b = unat (ly_cbank l) in
     owns ({unat (ly_scr l) ..< b} \<union> {b + unat (ly_scr l) ..< 2 * b}) (lw_acc s) \<and> 2 * b \<le> 2 ^ 16
     \<and> owns {0 ..< 2 * unat (ly_sbank l)} (lw_spad s) \<and> 2 * unat (ly_sbank l) \<le> 2 ^ 16)"
proof -
  have l: "layout_ok (config_layout c)" using assms(1) by (rule config_layout_ok)
  have "lowering_ok s" using lm_steps_ok [OF assms(2) new_lowering_ok [OF l]] .
  then have ok: "memory_ok (lw_mem s)" "owns (acc_given (lw_mem s)) (lw_acc s)" "owns (spad_given (lw_mem s)) (lw_spad s)"
    by (simp_all add: lowering_ok_def blocks_ok_def)
  have lay: "lm_lay (lw_mem s) = config_layout c" using lm_steps_lay [OF assms(2)] by (simp add: new_lowering_def new_memory_def)
  have sub: "owns u xs \<Longrightarrow> u \<subseteq> v \<Longrightarrow> owns v xs" for u v xs by (auto simp: owns_def)
  have "acc_given (lw_mem s) \<subseteq> {unat (ly_scr (config_layout c)) ..< unat (ly_cbank (config_layout c))}
      \<union> {unat (ly_cbank (config_layout c)) + unat (ly_scr (config_layout c)) ..< 2 * unat (ly_cbank (config_layout c))}"
    using ok(1) by (auto simp: acc_given_def memory_ok_def layout_ok_def lay Let_def)
  moreover have "spad_given (lw_mem s) \<subseteq> {0 ..< 2 * unat (ly_sbank (config_layout c))}"
    using ok(1) by (auto simp: spad_given_def memory_ok_def lay Let_def)
  ultimately show ?thesis using sub ok(2,3) l by (auto simp: Let_def layout_ok_def)
qed

text \<open>
  The sum that checks a size wraps at 32 bits: a request of nearly 2^32 words is granted, and the
  next one is given the scratch words that no allocation should reach.
\<close>
theorem alloc_size_wraps:
  "alloc_acc 0xFFFFFC00 (new_memory (config_layout default_config)) = Some (1024, (new_memory (config_layout default_config))\<lparr>lm_acc0 := 0\<rparr>)
   \<and> alloc_acc 16 ((new_memory (config_layout default_config))\<lparr>lm_acc0 := 0\<rparr>)
       = Some (0, (new_memory (config_layout default_config))\<lparr>lm_acc0 := 16\<rparr>)"
  by (simp add: config_layout_def make_layout_def default_config_def new_memory_def alloc_acc_def acc_fits_def lm_acc_def bump_acc_def Let_def)

lemma default_valid: "invalid_config default_config = ''''"
  by (simp add: invalid_config_def default_config_def pow2_def)

theorem live_blocks_apart_witness:
  "owns {0 ..< 2 * unat (ly_sbank (config_layout default_config))} [(0, 0x100)]"
proof -
  let ?s = "new_lowering (config_layout default_config)"
  have "lm_step ?s (?s\<lparr>lw_mem := take_spad 0x100 (lw_mem ?s), lw_spad := [(0, 0x100)]\<rparr>)"
    by (rule lm_step.own_layout) (simp_all add: new_lowering_def new_memory_def config_layout_def make_layout_def default_config_def)
  then have "lm_step\<^sup>*\<^sup>* ?s (?s\<lparr>lw_mem := take_spad 0x100 (lw_mem ?s), lw_spad := [(0, 0x100)]\<rparr>)" by blast
  from live_blocks_apart [OF default_valid this] show ?thesis by (simp add: Let_def)
qed

end
