(* ===== verification/SaLin.thy ===== *)
theory SaLin
  imports Prelude
begin

text \<open>
  Values derived from push constants (\<^verbatim>\<open>compiler/plugins/sa/transforms/SaLin.h\<close>, \<^verbatim>\<open>SaLin.cpp\<close>): the
  linear form \<^verbatim>\<open>((C * mul) >> shift) + add\<close> of an integer value of a dispatch. 64-bit numbers of the
  analysis are integers; their overflow is undefined in C++.
\<close>

section \<open>Linear forms\<close>

text \<open>The constant's ordinal (negative: none), multiplier, shift and addend.\<close>
datatype lin_form = Lin (ln_ord: int) (ln_mul: int) (ln_shift: int) (ln_add: int)

definition is_const :: "lin_form \<Rightarrow> bool" where
  "is_const l \<longleftrightarrow> ln_ord l < 0"

text \<open>\<^verbatim>\<open>operator<\<close>: by ordinal, multiplier, shift, addend.\<close>
definition lin_less :: "lin_form \<Rightarrow> lin_form \<Rightarrow> bool" where
  "lin_less a b \<longleftrightarrow> ln_ord a < ln_ord b \<or> (ln_ord a = ln_ord b \<and> (ln_mul a < ln_mul b \<or> (ln_mul a = ln_mul b \<and>
     (ln_shift a < ln_shift b \<or> (ln_shift a = ln_shift b \<and> ln_add a < ln_add b)))))"

text \<open>It is a linear order, so that linear forms can be the keys of ordered maps.\<close>
instantiation lin_form :: linorder
begin

definition less_lin_form :: "lin_form \<Rightarrow> lin_form \<Rightarrow> bool" where
  "a < b \<longleftrightarrow> lin_less a b"

definition less_eq_lin_form :: "lin_form \<Rightarrow> lin_form \<Rightarrow> bool" where
  "(a :: lin_form) \<le> b \<longleftrightarrow> \<not> lin_less b a"

instance
  by standard (auto simp: less_eq_lin_form_def less_lin_form_def lin_less_def lin_form.expand)

end

text \<open>\<^verbatim>\<open>operator==\<close>\<close>
definition same_lin :: "lin_form \<Rightarrow> lin_form \<Rightarrow> bool" where
  "same_lin a b \<longleftrightarrow> \<not> lin_less a b \<and> \<not> lin_less b a"

lemma same_lin_eq: "same_lin a b \<longleftrightarrow> a = b"
  by (auto simp: same_lin_def lin_less_def lin_form.expand)

section \<open>The analysis\<close>

datatype cast_op = Index_cast_ui | Index_cast | Ext_ui | Ext_si | Trunc_i

text \<open>A value by the operation that defines it; \<open>Opaque\<close>: a block argument or any other operation.\<close>
datatype sa_value =
    Constant int
  | Constant_load nat
  | Cast cast_op sa_value
  | Assume_int sa_value
  | Workload_ordinal sa_value
  | Or_i sa_value sa_value
  | Shl_i sa_value sa_value
  | Mul_i sa_value sa_value
  | Shr_ui sa_value sa_value
  | Div_ui sa_value sa_value
  | Add_i sa_value sa_value
  | Opaque nat

fun constant_int :: "sa_value \<Rightarrow> int option" where
  "constant_int (Constant c) = Some c"
| "constant_int _ = None"

text \<open>\<open>x << 32\<close>\<close>
fun shifted_32 :: "sa_value \<Rightarrow> bool" where
  "shifted_32 (Shl_i x n) = (constant_int n = Some 32)"
| "shifted_32 _ = False"

text \<open>\<^verbatim>\<open>int(c)\<close>\<close>
definition to_int :: "int \<Rightarrow> int" where
  "to_int c = sint (word_of_int c :: u32)"

text \<open>\<^verbatim>\<open>Log2_64\<close>\<close>
fun log2_64 :: "nat \<Rightarrow> nat" where
  "log2_64 n = (if n < 2 then 0 else Suc (log2_64 (n div 2)))"

declare log2_64.simps [simp del]

definition scale_lin :: "lin_form option \<Rightarrow> int option \<Rightarrow> lin_form option" where
  "scale_lin l c = (case (l, c) of (Some l, Some c) \<Rightarrow> if ln_shift l = 0 then Some (Lin (ln_ord l) (ln_mul l * c) 0 (ln_add l * c)) else None | _ \<Rightarrow> None)"

definition shift_lin :: "lin_form option \<Rightarrow> int option \<Rightarrow> (int \<Rightarrow> int option) \<Rightarrow> lin_form option" where
  "shift_lin l c amount =
     (case (l, c) of (Some l, Some c) \<Rightarrow>
        if ln_add l \<noteq> 0 \<or> c \<le> 0 then None
        else map_option (\<lambda>sh. Lin (ln_ord l) (ln_mul l) (ln_shift l + sh) 0) (amount c)
      | _ \<Rightarrow> None)"

definition offset_lin :: "lin_form option \<Rightarrow> int option \<Rightarrow> lin_form option" where
  "offset_lin l c = (case (l, c) of (Some l, Some c) \<Rightarrow> Some (Lin (ln_ord l) (ln_mul l) (ln_shift l) (ln_add l + c)) | _ \<Rightarrow> None)"

text \<open>The first that is there.\<close>
definition first_of :: "'a option \<Rightarrow> 'a option \<Rightarrow> 'a option" where
  "first_of a b = (case a of None \<Rightarrow> b | Some x \<Rightarrow> Some x)"

text \<open>A division's shift, for a power of two.\<close>
definition div_shift :: "int \<Rightarrow> int option" where
  "div_shift c = (let sh = log2_64 (nat c) in if 2 ^ sh \<noteq> c then None else Some (int sh))"

fun lin_of :: "sa_value \<Rightarrow> lin_form option" where
  "lin_of (Constant c) = Some (Lin (- 1) 1 0 c)"
| "lin_of (Constant_load n) = Some (Lin (to_int (int n)) 1 0 0)"
| "lin_of (Cast k v) = lin_of v"
| "lin_of (Assume_int v) = lin_of v"
| "lin_of (Workload_ordinal v) = lin_of v"
| "lin_of (Or_i a b) = (if shifted_32 b then lin_of a else if shifted_32 a then lin_of b else None)"
| "lin_of (Mul_i a b) = first_of (scale_lin (lin_of a) (constant_int b)) (scale_lin (lin_of b) (constant_int a))"
| "lin_of (Shr_ui a b) = shift_lin (lin_of a) (constant_int b) (\<lambda>c. Some (to_int c))"
| "lin_of (Div_ui a b) = shift_lin (lin_of a) (constant_int b) div_shift"
| "lin_of (Add_i a b) = first_of (offset_lin (lin_of a) (constant_int b)) (offset_lin (lin_of b) (constant_int a))"
| "lin_of (Shl_i a b) = None"
| "lin_of (Opaque n) = None"

section \<open>What the values are\<close>

text \<open>A linear form of the push constants.\<close>
definition lin_value :: "(nat \<Rightarrow> u32) \<Rightarrow> lin_form \<Rightarrow> int" where
  "lin_value pc l = (if ln_ord l < 0 then 0 else (uint (pc (nat (ln_ord l))) * ln_mul l) div 2 ^ nat (ln_shift l)) + ln_add l"

text \<open>
  The value as an integer: a conversion \<open>cv\<close> of the operation, the bits of an OR of numbers that do
  not overlap as their sum, opaque values \<open>ov\<close>.
\<close>
fun value_of :: "(cast_op \<Rightarrow> int \<Rightarrow> int) \<Rightarrow> (nat \<Rightarrow> int) \<Rightarrow> (nat \<Rightarrow> u32) \<Rightarrow> sa_value \<Rightarrow> int" where
  "value_of cv ov pc (Constant c) = c"
| "value_of cv ov pc (Constant_load n) = uint (pc n)"
| "value_of cv ov pc (Cast k v) = cv k (value_of cv ov pc v)"
| "value_of cv ov pc (Assume_int v) = value_of cv ov pc v"
| "value_of cv ov pc (Workload_ordinal v) = value_of cv ov pc v"
| "value_of cv ov pc (Or_i a b) = value_of cv ov pc a OR value_of cv ov pc b"
| "value_of cv ov pc (Shl_i a b) = value_of cv ov pc a * 2 ^ nat (value_of cv ov pc b)"
| "value_of cv ov pc (Mul_i a b) = value_of cv ov pc a * value_of cv ov pc b"
| "value_of cv ov pc (Shr_ui a b) = value_of cv ov pc a div 2 ^ nat (value_of cv ov pc b)"
| "value_of cv ov pc (Div_ui a b) = value_of cv ov pc a div value_of cv ov pc b"
| "value_of cv ov pc (Add_i a b) = value_of cv ov pc a + value_of cv ov pc b"
| "value_of cv ov pc (Opaque n) = ov n"

text \<open>
  What the analysis takes for granted (\<^verbatim>\<open>the device is 32-bit, the high word is 0\<close>): conversions that
  keep the value, high words 0, ordinals and shifts that are small numbers.
\<close>
fun as_assumed :: "(cast_op \<Rightarrow> int \<Rightarrow> int) \<Rightarrow> (nat \<Rightarrow> int) \<Rightarrow> (nat \<Rightarrow> u32) \<Rightarrow> sa_value \<Rightarrow> bool" where
  "as_assumed cv ov pc (Constant_load n) \<longleftrightarrow> n < 2 ^ 31"
| "as_assumed cv ov pc (Cast k v) \<longleftrightarrow> cv k (value_of cv ov pc v) = value_of cv ov pc v \<and> as_assumed cv ov pc v"
| "as_assumed cv ov pc (Assume_int v) = as_assumed cv ov pc v"
| "as_assumed cv ov pc (Workload_ordinal v) = as_assumed cv ov pc v"
| "as_assumed cv ov pc (Or_i a b) \<longleftrightarrow> (if shifted_32 b then value_of cv ov pc b = 0 \<and> as_assumed cv ov pc a
     else shifted_32 a \<longrightarrow> value_of cv ov pc a = 0 \<and> as_assumed cv ov pc b)"
| "as_assumed cv ov pc (Mul_i a b) \<longleftrightarrow> as_assumed cv ov pc a \<and> as_assumed cv ov pc b"
| "as_assumed cv ov pc (Shr_ui a b) \<longleftrightarrow> as_assumed cv ov pc a \<and> value_of cv ov pc b < 2 ^ 31"
| "as_assumed cv ov pc (Div_ui a b) = as_assumed cv ov pc a"
| "as_assumed cv ov pc (Add_i a b) \<longleftrightarrow> as_assumed cv ov pc a \<and> as_assumed cv ov pc b"
| "as_assumed cv ov pc _ = True"

section \<open>Soundness\<close>

lemma to_int_small: "0 \<le> c \<Longrightarrow> c < 2 ^ 31 \<Longrightarrow> to_int c = c"
  by (simp add: to_int_def sint_uint uint_word_of_int signed_take_bit_int_eq_self signed_take_bit_take_bit)

lemma constant_value: "constant_int v = Some c \<Longrightarrow> value_of cv ov pc v = c"
  by (cases v) simp_all

lemma shifts_add:
  assumes "0 \<le> s" "0 \<le> t"
  shows "(x :: int) div 2 ^ nat s div 2 ^ nat t = x div 2 ^ nat (s + t)"
  using assms by (simp add: zdiv_zmult2_eq [symmetric] power_add nat_add_distrib)

lemma first_of_Some: "first_of a b = Some r \<longleftrightarrow> a = Some r \<or> (a = None \<and> b = Some r)"
  by (cases a) (auto simp: first_of_def)

definition sound_lin :: "(nat \<Rightarrow> u32) \<Rightarrow> int \<Rightarrow> lin_form \<Rightarrow> bool" where
  "sound_lin pc x l \<longleftrightarrow> lin_value pc l = x \<and> 0 \<le> ln_shift l"

lemma sound_scale:
  assumes "scale_lin l c = Some r" and "\<And>f. l = Some f \<Longrightarrow> sound_lin pc x f" and "\<And>k. c = Some k \<Longrightarrow> k = y"
  shows "sound_lin pc (x * y) r"
  using assms by (auto simp: scale_lin_def sound_lin_def lin_value_def algebra_simps split: option.splits if_splits)

lemma sound_offset:
  assumes "offset_lin l c = Some r" and "\<And>f. l = Some f \<Longrightarrow> sound_lin pc x f" and "\<And>k. c = Some k \<Longrightarrow> k = y"
  shows "sound_lin pc (x + y) r"
  using assms by (auto simp: offset_lin_def sound_lin_def lin_value_def split: option.splits)

lemma sound_shift:
  assumes r: "shift_lin l c amount = Some r" and l: "\<And>f. l = Some f \<Longrightarrow> sound_lin pc x f"
    and a: "\<And>k sh. c = Some k \<Longrightarrow> 0 < k \<Longrightarrow> amount k = Some sh \<Longrightarrow> 0 \<le> sh \<and> y = 2 ^ nat sh"
  shows "sound_lin pc (x div y) r"
proof -
  obtain f k sh where f: "l = Some f" "c = Some k" "ln_add f = 0" "0 < k" "amount k = Some sh" "r = Lin (ln_ord f) (ln_mul f) (ln_shift f + sh) 0"
    using r by (auto simp: shift_lin_def split: option.splits if_splits)
  have sh: "0 \<le> sh" "y = 2 ^ nat sh" using a [OF f(2,4,5)] by simp_all
  have s: "lin_value pc f = x" "0 \<le> ln_shift f" using l [OF f(1)] by (simp_all add: sound_lin_def)
  show ?thesis using s f(3) sh(1) by (auto simp: sound_lin_def lin_value_def f(6) sh(2) shifts_add)
qed


text \<open>Tiles of a length in two words: \<open>((lo | hi << 32) + 0) * 4 / 8 + 1\<close>, the high word 0.\<close>
definition two_words :: sa_value where
  "two_words = Or_i (Cast Ext_ui (Constant_load 0)) (Shl_i (Cast Ext_ui (Constant_load 1)) (Constant 32))"


end
