(* ===== verification/SaUnit.thy ===== *)
theory SaUnit
  imports Prelude
begin

text \<open>
  The accelerator as its firmware sees it: the wrappers of the custom instructions
  (\<^verbatim>\<open>firmware/include/sysarray_intrinsics.h\<close>), the configuration an instruction changes or takes up
  (\<^verbatim>\<open>rtl/sysarray/sa_pcpi.v\<close>), and what the engines do to the local memories and to DDR, one command
  after the other, as the functional simulator (\<^verbatim>\<open>llm/sa_funcsim.py\<close>) defines it. Memories are bytes.
  Floating-point and transposing vector commands, GEMV, lists and the legacy unit are a parameter.
\<close>

section \<open>Instructions\<close>

text \<open>funct7, funct3 and the values of rs1 and rs2.\<close>
datatype insn = Insn (funct7: nat) (funct3: nat) (rs1: u32) (rs2: u32)

definition sa_d :: "u32 \<Rightarrow> u32" where
  "sa_d caps = (let d = caps AND 0xFF in if d = 8 \<or> d = 16 then d else 8)"

definition sa_has_perf :: "u32 \<Rightarrow> bool" where
  "sa_has_perf caps = bit caps 20"

definition SA_SPAD_WORDS :: "u32 \<Rightarrow> u32" where "SA_SPAD_WORDS d = 131072 div d"
definition SA_ACC_WORDS :: "u32 \<Rightarrow> u32" where "SA_ACC_WORDS d = 262144 div (4 * d)"
definition SA_SPAD_BANK :: "u32 \<Rightarrow> u32" where "SA_SPAD_BANK d = SA_SPAD_WORDS d div 2"
definition SA_ACC_BANK :: "u32 \<Rightarrow> u32" where "SA_ACC_BANK d = SA_ACC_WORDS d div 2"

definition SA_LADDR :: "u32 \<Rightarrow> u32 \<Rightarrow> u32" where
  "SA_LADDR mem word = push_bit 28 mem OR word"

abbreviation (input) SA_MEM_SPAD_A :: "'a::numeral" where "SA_MEM_SPAD_A \<equiv> 1"
abbreviation (input) SA_MEM_SPAD_B :: "'a::numeral" where "SA_MEM_SPAD_B \<equiv> 2"
abbreviation (input) SA_MEM_ACC :: "'a::numeral" where "SA_MEM_ACC \<equiv> 3"
abbreviation (input) SA_LD_LINEAR :: u32 where "SA_LD_LINEAR \<equiv> 0"
abbreviation (input) SA_LD_INTERLEAVE :: u32 where "SA_LD_INTERLEAVE \<equiv> 1"

definition mat_reset :: insn where "mat_reset = Insn 0 2 0 0"
definition mat_cfg :: "u32 \<Rightarrow> u32 \<Rightarrow> insn" where "mat_cfg key v = Insn 1 0 key v"
definition mat_load :: "u32 \<Rightarrow> u32 \<Rightarrow> insn" where "mat_load ddr laddr = Insn 1 1 ddr laddr"
definition mat_store :: "u32 \<Rightarrow> u32 \<Rightarrow> insn" where "mat_store ddr laddr = Insn 1 2 ddr laddr"

definition mat_exec :: "u32 \<Rightarrow> u32 \<Rightarrow> u32 \<Rightarrow> u32 \<Rightarrow> u32 \<Rightarrow> insn" where
  "mat_exec a b c kt accumulate =
     Insn 1 3 (push_bit 16 b OR (a AND 0xFFFF))
       ((if accumulate \<noteq> 0 then push_bit 28 1 else 0) OR push_bit 16 (kt AND 0xFFF) OR (c AND 0xFFFF))"

definition mat_fence :: "u32 \<Rightarrow> insn" where "mat_fence engs = Insn 1 4 engs 0"
definition mat_perf_ctl :: "u32 \<Rightarrow> insn" where "mat_perf_ctl flags = Insn 1 5 (push_bit 31 1) flags"
definition vec_cfg :: "u32 \<Rightarrow> u32 \<Rightarrow> insn" where "vec_cfg key v = Insn 2 0 key v"
definition vec_run :: "u32 \<Rightarrow> u32 \<Rightarrow> insn" where "vec_run src1 src2 = Insn 2 1 src1 src2"

definition mat_cfg_load :: "u32 \<Rightarrow> u32 \<Rightarrow> u32 \<Rightarrow> u32 \<Rightarrow> insn list" where
  "mat_cfg_load rows row_bytes pitch mode = [mat_cfg 0 rows, mat_cfg 1 row_bytes, mat_cfg 2 pitch, mat_cfg 3 mode]"

definition mat_cfg_store :: "u32 \<Rightarrow> u32 \<Rightarrow> u32 \<Rightarrow> insn list" where
  "mat_cfg_store rows row_bytes pitch = [mat_cfg 4 rows, mat_cfg 5 row_bytes, mat_cfg 6 pitch]"

definition mat_cfg_exec :: "u32 \<Rightarrow> u32 \<Rightarrow> u32 \<Rightarrow> u32 \<Rightarrow> insn list" where
  "mat_cfg_exec repeat b_step c_step c_row = [mat_cfg 7 repeat, mat_cfg 8 b_step, mat_cfg 9 c_step, mat_cfg 10 c_row]"

definition vec_cfg_requant :: "u32 \<Rightarrow> u32 \<Rightarrow> u32 \<Rightarrow> u32 \<Rightarrow> u32 \<Rightarrow> insn list" where
  "vec_cfg_requant scale shift zp lo hi = [vec_cfg 5 scale, vec_cfg 6 shift, vec_cfg 7 zp, vec_cfg 8 lo, vec_cfg 9 hi]"

text \<open>The measurement window: clear and start.\<close>
definition sa_perf_begin :: "u32 \<Rightarrow> insn list" where
  "sa_perf_begin caps = (if sa_has_perf caps then [mat_perf_ctl (1 OR 2)] else [])"

text \<open>
  Freeze, and copy up to \<open>mx\<close> counters to the area; \<open>num\<close> and \<open>read\<close> are what the unit answers.
\<close>
definition sa_perf_end :: "u32 \<Rightarrow> u32 \<Rightarrow> (u32 \<Rightarrow> u32) \<Rightarrow> u32 \<Rightarrow> (u32 \<Rightarrow> u32) \<Rightarrow> u32 \<times> (u32 \<Rightarrow> u32)" where
  "sa_perf_end caps num read mx area =
     (if \<not> sa_has_perf caps then (0, area)
      else let n = min num mx in (n, fold (\<lambda>i ar. ar(of_nat i := read (of_nat i))) [0..<unat n] area))"

section \<open>Memories\<close>

text \<open>An integer of \<open>n\<close> bytes at \<open>a\<close>, little-endian.\<close>
primrec get_nat :: "(nat \<Rightarrow> u8) \<Rightarrow> nat \<Rightarrow> nat \<Rightarrow> nat" where
  "get_nat b a 0 = 0"
| "get_nat b a (Suc n) = unat (b a) + 256 * get_nat b (Suc a) n"

definition get_int :: "(nat \<Rightarrow> u8) \<Rightarrow> nat \<Rightarrow> nat \<Rightarrow> int" where
  "get_int b a n = signed_take_bit (8 * n - 1) (int (get_nat b a n))"

definition put_int :: "nat \<Rightarrow> nat \<Rightarrow> int \<Rightarrow> (nat \<Rightarrow> u8) \<Rightarrow> nat \<Rightarrow> u8" where
  "put_int a n v b = (\<lambda>x. if a \<le> x \<and> x < a + n then word_of_int (v div 256 ^ (x - a)) else b x)"

text \<open>\<open>n\<close> bytes of \<open>src\<close> from \<open>s\<close> on, copied to \<open>d\<close>.\<close>
definition copy_bytes :: "nat \<Rightarrow> nat \<Rightarrow> (nat \<Rightarrow> u8) \<Rightarrow> nat \<Rightarrow> (nat \<Rightarrow> u8) \<Rightarrow> nat \<Rightarrow> u8" where
  "copy_bytes n s src d dst = (\<lambda>x. if d \<le> x \<and> x < d + n then src (s + (x - d)) else dst x)"

text \<open>
  \<open>loc\<close>: the bytes of SPAD_A (1), SPAD_B (2) and ACC (3); \<open>ddr\<close>: by physical address, in the window
  from \<open>ddr_base\<close> on.
\<close>
record umem =
  arr :: nat
  spad_words :: nat
  acc_words :: nat
  loc :: "nat \<Rightarrow> nat \<Rightarrow> u8"
  ddr_base :: nat
  ddr_bytes :: nat
  ddr :: "nat \<Rightarrow> u8"

datatype engine = ENG_LD | ENG_ST | ENG_EX | ENG_VE
datatype xerr = XERR_SHAPE | XERR_RANGE | XERR_RRESP | XERR_BRESP

type_synonym sa_error = "engine \<times> xerr"

definition wbytes :: "umem \<Rightarrow> nat \<Rightarrow> nat" where
  "wbytes m k = (if k = SA_MEM_ACC then 4 * arr m else arr m)"

definition depth :: "umem \<Rightarrow> nat \<Rightarrow> nat" where
  "depth m k = (if k = SA_MEM_ACC then acc_words m else spad_words m)"

definition ddr_ok :: "umem \<Rightarrow> nat \<Rightarrow> nat \<Rightarrow> bool" where
  "ddr_ok m a n \<longleftrightarrow> ddr_base m \<le> a \<and> a + n \<le> ddr_base m + ddr_bytes m"

text \<open>Local addresses: the memory in the top four bits, the word in the low sixteen.\<close>
definition laddr_mem :: "u32 \<Rightarrow> nat" where "laddr_mem l = unat (drop_bit 28 l AND 0xF)"
definition laddr_word :: "u32 \<Rightarrow> nat" where "laddr_word l = unat (l AND 0xFFFF)"

section \<open>Engines\<close>

text \<open>A loop over rows that stops at the first error, with what the rows before have done.\<close>
fun each_row :: "(nat \<Rightarrow> umem \<Rightarrow> sa_error + umem) \<Rightarrow> nat list \<Rightarrow> umem \<Rightarrow> umem \<times> sa_error option" where
  "each_row f [] m = (m, None)"
| "each_row f (r # rs) m = (case f r m of Inl e \<Rightarrow> (m, Some e) | Inr m' \<Rightarrow> each_row f rs m')"

definition ceil_div :: "nat \<Rightarrow> nat \<Rightarrow> nat" where "ceil_div a b = (a + b - 1) div b"

definition check_dma :: "engine \<Rightarrow> umem \<Rightarrow> nat \<Rightarrow> nat \<Rightarrow> nat \<Rightarrow> nat \<Rightarrow> nat \<Rightarrow> nat \<Rightarrow> bool \<Rightarrow> sa_error option" where
  "check_dma eng m a mem word rows rb pitch ilv =
     (if a mod 8 \<noteq> 0 \<or> rb mod 8 \<noteq> 0 \<or> rb = 0 \<or> rows = 0 \<or> pitch mod 8 \<noteq> 0 \<or>
         ilv \<and> (eng \<noteq> ENG_LD \<or> mem = SA_MEM_ACC \<or> rb mod arr m \<noteq> 0) then Some (eng, XERR_SHAPE)
      else if mem \<noteq> SA_MEM_SPAD_A \<and> mem \<noteq> SA_MEM_SPAD_B \<and> mem \<noteq> SA_MEM_ACC then Some (eng, XERR_RANGE)
      else if word + (if ilv then rb div arr m * rows else ceil_div rb (wbytes m mem) * rows) - 1 \<ge> depth m mem
           then Some (eng, XERR_RANGE)
      else None)"

definition ld_row :: "nat \<Rightarrow> nat \<Rightarrow> nat \<Rightarrow> nat \<Rightarrow> nat \<Rightarrow> nat \<Rightarrow> bool \<Rightarrow> nat \<Rightarrow> umem \<Rightarrow> sa_error + umem" where
  "ld_row a mem word rows rb pitch ilv r m =
     (if \<not> ddr_ok m (a + r * pitch) rb then Inl (ENG_LD, XERR_RRESP)
      else let wb = wbytes m mem; d = arr m; src = a + r * pitch;
               buf = (if ilv then fold (\<lambda>c. copy_bytes d (src + c * d) (ddr m) ((word + c * rows + r) * wb)) [0..<rb div d] (loc m mem)
                      else copy_bytes rb src (ddr m) ((word + r * ceil_div rb wb) * wb) (loc m mem))
           in Inr (m\<lparr>loc := (loc m)(mem := buf)\<rparr>))"

definition ld :: "nat \<Rightarrow> u32 \<Rightarrow> nat \<Rightarrow> nat \<Rightarrow> nat \<Rightarrow> bool \<Rightarrow> umem \<Rightarrow> umem \<times> sa_error option" where
  "ld a laddr rows rb pitch ilv m =
     (let mem = laddr_mem laddr; word = laddr_word laddr in
      case check_dma ENG_LD m a mem word rows rb pitch ilv of
        Some e \<Rightarrow> (m, Some e)
      | None \<Rightarrow> each_row (ld_row a mem word rows rb pitch ilv) [0..<rows] m)"

definition st_row :: "nat \<Rightarrow> nat \<Rightarrow> nat \<Rightarrow> nat \<Rightarrow> nat \<Rightarrow> nat \<Rightarrow> umem \<Rightarrow> sa_error + umem" where
  "st_row a mem word rb pitch r m =
     (if \<not> ddr_ok m (a + r * pitch) rb then Inl (ENG_ST, XERR_BRESP)
      else let wb = wbytes m mem in
        Inr (m\<lparr>ddr := copy_bytes rb ((word + r * ceil_div rb wb) * wb) (loc m mem) (a + r * pitch) (ddr m)\<rparr>))"

definition st :: "nat \<Rightarrow> u32 \<Rightarrow> nat \<Rightarrow> nat \<Rightarrow> nat \<Rightarrow> umem \<Rightarrow> umem \<times> sa_error option" where
  "st a laddr rows rb pitch m =
     (let mem = laddr_mem laddr; word = laddr_word laddr in
      case check_dma ENG_ST m a mem word rows rb pitch False of
        Some e \<Rightarrow> (m, Some e)
      | None \<Rightarrow> each_row (st_row a mem word rb pitch) [0..<rows] m)"

text \<open>
  A tile: row \<open>i\<close> of A, from k-tiles of \<open>d\<close> words each, times the \<open>d\<close> columns of the B strip at \<open>b0\<close>.
\<close>
definition tile_entry :: "umem \<Rightarrow> nat \<Rightarrow> nat \<Rightarrow> nat \<Rightarrow> nat \<Rightarrow> nat \<Rightarrow> int" where
  "tile_entry m a b0 kt i l =
     (let d = arr m in
      \<Sum>k<kt * d. get_int (loc m SA_MEM_SPAD_A) ((a + k div d * d + i) * d + k mod d) 1 * get_int (loc m SA_MEM_SPAD_B) ((b0 + k) * d + l) 1)"

definition tile_row :: "nat \<Rightarrow> nat \<Rightarrow> nat \<Rightarrow> nat \<Rightarrow> bool \<Rightarrow> nat \<Rightarrow> umem \<Rightarrow> umem" where
  "tile_row a b0 w kt accumulate i m =
     (let d = arr m; old = loc m SA_MEM_ACC;
          row = (\<lambda>l. tile_entry m a b0 kt i l + (if accumulate then get_int old ((w * d + l) * 4) 4 else 0))
      in m\<lparr>loc := (loc m)(SA_MEM_ACC := fold (\<lambda>l. put_int ((w * d + l) * 4) 4 (row l)) [0..<d] old)\<rparr>)"

definition ex :: "nat \<Rightarrow> nat \<Rightarrow> nat \<Rightarrow> nat \<Rightarrow> bool \<Rightarrow> nat \<Rightarrow> nat \<Rightarrow> nat \<Rightarrow> nat \<Rightarrow> umem \<Rightarrow> umem \<times> sa_error option" where
  "ex a b c kt accumulate repeat bstep cstep crow m =
     (let d = arr m; k = kt * d; rep = max repeat 1; crow = (if crow = 0 then 1 else crow) in
      if kt = 0 then (m, Some (ENG_EX, XERR_SHAPE))
      else if a + k > spad_words m \<or> b + (rep - 1) * bstep + k - 1 \<ge> spad_words m \<or>
              c + (rep - 1) * cstep + (d - 1) * crow \<ge> acc_words m then (m, Some (ENG_EX, XERR_RANGE))
      else (fold (\<lambda>r. fold (\<lambda>i. tile_row a (b + r * bstep) (c + r * cstep + i * crow) kt accumulate i) [0..<d]) [0..<rep] m, None))"

text \<open>Types 0, 1, 2: int8, int16, int32.\<close>
definition esz :: "nat \<Rightarrow> nat" where
  "esz t = (if t = 0 then 1 else if t = 1 then 2 else 4)"

definition ve_op :: "nat \<Rightarrow> int \<Rightarrow> int \<Rightarrow> int" where
  "ve_op p x y =
     (let sat = (\<lambda>v. max (- (2 ^ 31)) (min (2 ^ 31 - 1) v)) in
      if p = 0 then sat (x + y) else if p = 1 then sat (x - y)
      else if p = 2 then signed_take_bit 15 x * signed_take_bit 15 y
      else if p = 3 then max x y else if p = 4 then min x y else x)"

text \<open>RELU, REQUANT, the clamp window, and the range of the output type.\<close>
definition ve_post :: "bool \<Rightarrow> bool \<Rightarrow> u16 \<Rightarrow> nat \<Rightarrow> u32 \<Rightarrow> u32 \<Rightarrow> u32 \<Rightarrow> nat \<Rightarrow> int \<Rightarrow> int" where
  "ve_post relu requant scale shift zp lo hi ot r =
     (let r = (if relu \<and> r < 0 then 0 else r);
          q = (if requant then drop_bit shift (r * sint scale + (if shift = 0 then 0 else 2 ^ (shift - 1))) + sint zp else r);
          v = (if q < sint lo then sint lo else if q > sint hi then sint hi else q);
          n = 8 * esz ot - 1
      in max (- (2 ^ n)) (min (2 ^ n - 1) v))"

record ve_args =
  v_op :: u8
  v_groups :: u16
  v_dst :: u32
  v_types :: "6 word"
  v_mod :: u16
  v_scale :: u16
  v_shift :: "5 word"
  v_zp :: u32
  v_lo :: u32
  v_hi :: u32

definition ve_in :: "ve_args \<Rightarrow> nat" where "ve_in v = unat (v_types v AND 3)"
definition ve_out :: "ve_args \<Rightarrow> nat" where "ve_out v = unat (drop_bit 2 (v_types v) AND 3)"
definition ve_code :: "ve_args \<Rightarrow> nat" where "ve_code v = unat (v_op v AND 7)"

text \<open>The group of src2 that goes with group \<open>g\<close>.\<close>
definition src2_group :: "ve_args \<Rightarrow> nat \<Rightarrow> nat" where
  "src2_group v g = (let p = unat (v_mod v) in if p = 0 then g else if p = 1 then 0 else g mod p)"

definition ve_check :: "ve_args \<Rightarrow> u32 \<Rightarrow> u32 \<Rightarrow> umem \<Rightarrow> sa_error option" where
  "ve_check v src1 src2 m =
     (let it = ve_in v; ot = ve_out v; p = ve_code v; unary = (p = 5); n = unat (v_groups v); period = unat (v_mod v);
          mem_for = (\<lambda>t k. if t = 2 then k = SA_MEM_ACC else k = SA_MEM_SPAD_A \<or> k = SA_MEM_SPAD_B);
          wg = (\<lambda>t. if t = 1 then 2 else 1); n2 = (if period = 0 then n else if period = 1 then 1 else min period n)
      in if n = 0 \<or> it > 2 \<or> ot > 2 \<or> p > 5 \<or> (p = 2 \<and> it = 2) then Some (ENG_VE, XERR_SHAPE)
         else if \<not> (mem_for it (laddr_mem src1) \<and> (unary \<or> mem_for it (laddr_mem src2)) \<and> mem_for ot (laddr_mem (v_dst v))) \<or>
                 laddr_word src1 + n * wg it - 1 \<ge> depth m (laddr_mem src1) \<or>
                 (\<not> unary \<and> laddr_word src2 + n2 * wg it - 1 \<ge> depth m (laddr_mem src2)) \<or>
                 laddr_word (v_dst v) + n * wg ot - 1 \<ge> depth m (laddr_mem (v_dst v)) then Some (ENG_VE, XERR_RANGE)
         else None)"

definition ve_value :: "ve_args \<Rightarrow> u32 \<Rightarrow> u32 \<Rightarrow> umem \<Rightarrow> nat \<Rightarrow> int" where
  "ve_value v src1 src2 m e =
     (let d = arr m; n = esz (ve_in v);
          x = get_int (loc m (laddr_mem src1)) (laddr_word src1 * wbytes m (laddr_mem src1) + e * n) n;
          y = (if ve_code v = 5 then 0
               else get_int (loc m (laddr_mem src2)) (laddr_word src2 * wbytes m (laddr_mem src2) + (src2_group v (e div d) * d + e mod d) * n) n)
      in ve_post (bit (v_op v) 4) (bit (v_op v) 5) (v_scale v) (unat (v_shift v)) (v_zp v) (v_lo v) (v_hi v) (ve_out v) (ve_op (ve_code v) x y))"

definition ve :: "ve_args \<Rightarrow> u32 \<Rightarrow> u32 \<Rightarrow> umem \<Rightarrow> umem \<times> sa_error option" where
  "ve v src1 src2 m =
     (case ve_check v src1 src2 m of
        Some e \<Rightarrow> (m, Some e)
      | None \<Rightarrow>
          let md = laddr_mem (v_dst v); n = esz (ve_out v); start = laddr_word (v_dst v) * wbytes m md
          in (m\<lparr>loc := (loc m)(md := fold (\<lambda>e. put_int (start + e * n) n (ve_value v src1 src2 m e)) [0..<unat (v_groups v) * arr m] (loc m md))\<rparr>, None))"

section \<open>The unit\<close>

record unit_state =
  ld_rows :: u16
  ld_rb :: u16
  ld_pitch :: u32
  ld_mode :: "2 word"
  st_rows :: u16
  st_rb :: u16
  st_pitch :: u32
  ex_rep :: "12 word"
  ex_bstep :: u16
  ex_cstep :: u16
  ex_crow :: u16
  va :: ve_args
  v_flags :: "11 word"
  um :: umem
  uerr :: "sa_error option"

definition set_cfg :: "u32 \<Rightarrow> u32 \<Rightarrow> unit_state \<Rightarrow> unit_state" where
  "set_cfg key v u =
     (let k = key AND 0xFF in
      if k = 0 then u\<lparr>ld_rows := ucast v\<rparr> else if k = 1 then u\<lparr>ld_rb := ucast v\<rparr> else if k = 2 then u\<lparr>ld_pitch := v\<rparr>
      else if k = 3 then u\<lparr>ld_mode := ucast v\<rparr> else if k = 4 then u\<lparr>st_rows := ucast v\<rparr> else if k = 5 then u\<lparr>st_rb := ucast v\<rparr>
      else if k = 6 then u\<lparr>st_pitch := v\<rparr> else if k = 7 then u\<lparr>ex_rep := ucast v\<rparr> else if k = 8 then u\<lparr>ex_bstep := ucast v\<rparr>
      else if k = 9 then u\<lparr>ex_cstep := ucast v\<rparr> else if k = 10 then u\<lparr>ex_crow := ucast v\<rparr> else u)"

text \<open>The length is given in elements and kept in groups of \<open>d\<close>.\<close>
definition set_vcfg :: "u32 \<Rightarrow> u32 \<Rightarrow> unit_state \<Rightarrow> unit_state" where
  "set_vcfg key v u =
     (let k = key AND 0xFF; s = (\<lambda>f. u\<lparr>va := f (va u)\<rparr>); logd = (if arr (um u) = 16 then 4 else 3) in
      if k = 0 then s (\<lambda>x. x\<lparr>v_op := ucast v\<rparr>) else if k = 1 then s (\<lambda>x. x\<lparr>v_groups := ucast (drop_bit logd v)\<rparr>)
      else if k = 2 then s (\<lambda>x. x\<lparr>v_dst := v\<rparr>) else if k = 3 then s (\<lambda>x. x\<lparr>v_types := ucast v\<rparr>)
      else if k = 4 then s (\<lambda>x. x\<lparr>v_mod := ucast v\<rparr>) else if k = 5 then s (\<lambda>x. x\<lparr>v_scale := ucast v\<rparr>)
      else if k = 6 then s (\<lambda>x. x\<lparr>v_shift := ucast v\<rparr>) else if k = 7 then s (\<lambda>x. x\<lparr>v_zp := v\<rparr>)
      else if k = 8 then s (\<lambda>x. x\<lparr>v_lo := v\<rparr>) else if k = 9 then s (\<lambda>x. x\<lparr>v_hi := v\<rparr>)
      else if k = 10 then u\<lparr>v_flags := ucast v\<rparr> else u)"

text \<open>A command runs to its end; after an error commands are dropped.\<close>
definition command :: "(umem \<Rightarrow> umem \<times> sa_error option) \<Rightarrow> unit_state \<Rightarrow> unit_state" where
  "command f u = (if uerr u = None then (case f (um u) of (m, e) \<Rightarrow> u\<lparr>um := m, uerr := e\<rparr>) else u)"

text \<open>\<open>other\<close>: what the instructions outside this model do.\<close>
definition do_insn :: "(insn \<Rightarrow> unit_state \<Rightarrow> unit_state) \<Rightarrow> insn \<Rightarrow> unit_state \<Rightarrow> unit_state" where
  "do_insn other i u =
     (let a = rs1 i; b = rs2 i; f = (funct7 i, funct3 i) in
      if f = (0, 2) then u\<lparr>uerr := None\<rparr>
      else if f = (1, 0) then set_cfg a b u
      else if f = (1, 1) then
        (if bit (ld_mode u) 1 then other i u
         else command (ld (unat a) b (unat (ld_rows u)) (unat (ld_rb u)) (unat (ld_pitch u)) (bit (ld_mode u) 0)) u)
      else if f = (1, 2) then command (st (unat a) b (unat (st_rows u)) (unat (st_rb u)) (unat (st_pitch u))) u
      else if f = (1, 3) then
        command (ex (unat (a AND 0xFFFF)) (unat (drop_bit 16 a)) (unat (b AND 0xFFFF)) (unat (drop_bit 16 b AND 0xFFF)) (bit b 28)
          (unat (ex_rep u)) (unat (ex_bstep u)) (unat (ex_cstep u)) (unat (ex_crow u))) u
      else if f = (1, 4) \<or> f = (1, 5) then u
      else if f = (2, 0) then set_vcfg a b u
      else if f = (2, 1) then
        (if v_op (va u) AND 7 = 6 \<or> bit (v_flags u) 0 then other i u else command (ve (va u) a b) u)
      else other i u)"

definition do_insns :: "(insn \<Rightarrow> unit_state \<Rightarrow> unit_state) \<Rightarrow> insn list \<Rightarrow> unit_state \<Rightarrow> unit_state" where
  "do_insns other is u = fold (do_insn other) is u"

definition err_code :: "xerr \<Rightarrow> u32" where
  "err_code x = (case x of XERR_SHAPE \<Rightarrow> 1 | XERR_RANGE \<Rightarrow> 2 | XERR_RRESP \<Rightarrow> 3 | XERR_BRESP \<Rightarrow> 4)"

definition err_eng :: "engine \<Rightarrow> u32" where
  "err_eng e = (case e of ENG_LD \<Rightarrow> 0 | ENG_ST \<Rightarrow> 1 | ENG_EX \<Rightarrow> 2 | ENG_VE \<Rightarrow> 3)"

text \<open>What a fence with all engines idle returns: idle, the error, its code and its engine.\<close>
definition ext_status :: "unit_state \<Rightarrow> u32" where
  "ext_status u = (case uerr u of None \<Rightarrow> 1 | Some (e, x) \<Rightarrow> 1 OR 2 OR push_bit 8 (err_code x) OR push_bit 12 (err_eng e))"

end
