(* ===== verification/FwState.thy ===== *)
theory FwState
  imports SaUnit Mailbox
begin

text \<open>
  What the stand-alone firmware programs (\<^verbatim>\<open>firmware/gemm/gemm_fw.c\<close>, \<^verbatim>\<open>firmware/vector/vector_fw.c\<close>)
  share: their surroundings and the results they leave in the mailbox.
\<close>

text \<open>What the firmware reads besides: the unit's capabilities, the cycles and the counters.\<close>
record fw_env =
  caps :: u32
  cycles :: u32
  pc_num :: u32
  pc_read :: "u32 \<Rightarrow> u32"

text \<open>The mailbox, the performance area and the unit.\<close>
record fw_state =
  fmb :: "u32 \<Rightarrow> u32"
  farea :: "u32 \<Rightarrow> u32"
  funit :: unit_state

text \<open>After the last command: the fence, the counters and the results; \<open>jobs\<close> is what is counted.\<close>
definition fw_results :: "fw_env \<Rightarrow> u32 \<Rightarrow> unit_state \<Rightarrow> fw_state \<Rightarrow> fw_state" where
  "fw_results e jobs u s =
     (let x = ext_status u; (n, ar) = sa_perf_end (caps e) (pc_num e) (pc_read e) PERF_AREA_WORDS (farea s) in
      s\<lparr>fmb := (fmb s)(MBOX_PERF_COUNT := n, MBOX_TOTAL_CYCLES := cycles e, MBOX_JOBS_DONE := jobs, MBOX_EXT_STATUS := x,
                       MBOX_ERRORS := (if bit x 1 then 1 else 0), MBOX_FIRST_ERR := x, MBOX_STATUS := STATUS_DONE),
        farea := ar, funit := u\<rparr>)"

end
