(* ===== verification/GemmFw.thy ===== *)
theory GemmFw
  imports FwState
begin

text \<open>
  The GEMM firmware (\<^verbatim>\<open>firmware/gemm/gemm_fw.c\<close>): the instructions it issues for C = A x B (+ bias),
  with the schedule's switches (prefetch of the next A strip, B split over the banks) and the int8
  epilogue, and what it leaves in the mailbox. The counters of cycles and performance are given.
\<close>

text \<open>The variables of \<^verbatim>\<open>main\<close> read from the mailbox; \<open>gd\<close>: the array size.\<close>
record gemm =
  gd :: u32
  gM :: u32
  gN :: u32
  gK :: u32
  ga :: u32
  gb :: u32
  gc :: u32
  gbias :: u32
  gquant :: bool
  gflags :: u32
  gop :: u32
  gscale :: u32
  gshift :: u32
  gzp :: u32
  glo :: u32
  ghi :: u32

definition gemm_params :: "u32 \<Rightarrow> (u32 \<Rightarrow> u32) \<Rightarrow> gemm" where
  "gemm_params cp mb =
     \<lparr>gd = sa_d cp, gM = mb MBOX_GEMM_M, gN = mb MBOX_GEMM_N, gK = mb MBOX_GEMM_K, ga = mb MBOX_A_BASE, gb = mb MBOX_B_BASE,
      gc = mb MBOX_C_BASE, gbias = mb MBOX_BIAS_BASE, gquant = odd (mb MBOX_GEMM_Q), gflags = mb MBOX_GEMM_FLAGS,
      gop = mb MBOX_V_OP, gscale = mb MBOX_V_SCALE, gshift = mb MBOX_V_SHIFT, gzp = mb MBOX_V_ZP, glo = mb MBOX_V_LO, ghi = mb MBOX_V_HI\<rparr>"

section \<open>What follows from the parameters\<close>

definition nt :: "gemm \<Rightarrow> u32" where "nt g = gN g div gd g"
definition kt :: "gemm \<Rightarrow> u32" where "kt g = gK g div gd g"
definition sbank :: "gemm \<Rightarrow> u32" where "sbank g = SA_SPAD_BANK (gd g)"
definition cbank_w :: "gemm \<Rightarrow> u32" where "cbank_w g = SA_ACC_BANK (gd g)"
definition cbytes :: "gemm \<Rightarrow> u32" where "cbytes g = (if gquant g then gN g else 4 * gN g)"
definition vbias :: "gemm \<Rightarrow> u32" where "vbias g = cbank_w g - nt g"
definition qout :: "gemm \<Rightarrow> u32" where "qout g = sbank g div 2"
definition prefetch :: "gemm \<Rightarrow> bool" where "prefetch g \<longleftrightarrow> gflags g AND GEMM_NO_PREFETCH = 0"
definition nt0 :: "gemm \<Rightarrow> u32" where "nt0 g = (nt g + 1) div 2"
definition nt1 :: "gemm \<Rightarrow> u32" where "nt1 g = nt g - nt0 g"

definition bsplit :: "gemm \<Rightarrow> bool" where
  "bsplit g \<longleftrightarrow> gflags g AND GEMM_NO_BSPLIT = 0 \<and> nt1 g \<noteq> 0 \<and> nt0 g * gK g \<le> sbank g \<and>
     (gK g * gN g \<ge> 16384 \<or> gflags g AND GEMM_FORCE_BSPLIT \<noteq> 0)"

definition bias_strip :: "gemm \<Rightarrow> u32" where
  "bias_strip g = (if gbias g \<noteq> 0 \<and> \<not> gquant g then 1 else 0)"

section \<open>Instructions\<close>

text \<open>The A strip of the rows from \<open>i\<close> on, and with \<open>bias_strip\<close> its rows of the bias.\<close>
definition load_strip :: "gemm \<Rightarrow> u32 \<Rightarrow> u32 \<Rightarrow> u32 \<Rightarrow> insn list" where
  "load_strip g i abank cbank =
     mat_cfg_load (gd g) (gK g) (gK g) SA_LD_INTERLEAVE @ [mat_load (ga g + i * gK g) (SA_LADDR SA_MEM_SPAD_A abank)] @
     (if bias_strip g \<noteq> 0
      then mat_cfg_load (gd g) (4 * gN g) (4 * gN g) SA_LD_LINEAR @ [mat_load (gbias g + i * 4 * gN g) (SA_LADDR SA_MEM_ACC cbank)]
      else [])"

definition load_b :: "gemm \<Rightarrow> insn list" where
  "load_b g =
     (if bsplit g then mat_cfg_load (gK g) (nt0 g * gd g) (gN g) SA_LD_INTERLEAVE @ [mat_load (gb g) (SA_LADDR SA_MEM_SPAD_B 0)]
      else mat_cfg_load (gK g) (gN g) (gN g) SA_LD_INTERLEAVE @ [mat_load (gb g) (SA_LADDR SA_MEM_SPAD_B 0)])"

definition load_b1 :: "gemm \<Rightarrow> insn list" where
  "load_b1 g =
     (if bsplit g
      then mat_cfg_load (gK g) (nt1 g * gd g) (gN g) SA_LD_INTERLEAVE @ [mat_load (gb g + nt0 g * gd g) (SA_LADDR SA_MEM_SPAD_B (sbank g))]
      else [])"

definition quant_setup :: "gemm \<Rightarrow> insn list" where
  "quant_setup g =
     (if gquant g
      then (if gbias g \<noteq> 0
            then mat_cfg_load 1 (4 * gN g) (4 * gN g) SA_LD_LINEAR @
                 [mat_load (gbias g) (SA_LADDR SA_MEM_ACC (vbias g)), mat_load (gbias g) (SA_LADDR SA_MEM_ACC (cbank_w g + vbias g))]
            else []) @
           [vec_cfg 0 ((gop g AND (push_bit 4 1 OR push_bit 5 1)) OR (if gbias g \<noteq> 0 then 0 else 5)),
            vec_cfg 1 (gd g * gN g), vec_cfg 3 (2 OR push_bit 2 0), vec_cfg 4 (nt g)] @
           vec_cfg_requant (gscale g) (gshift g) (gzp g) (glo g) (ghi g)
      else [])"

text \<open>Everything before the loop over the strips.\<close>
definition gemm_head :: "u32 \<Rightarrow> gemm \<Rightarrow> insn list" where
  "gemm_head cp g =
     [mat_reset] @ sa_perf_begin cp @ load_b g @ load_strip g 0 0 0 @ load_b1 g @ quant_setup g @
     (if bsplit g then [] else mat_cfg_exec (nt g) (gK g) 1 (nt g)) @ mat_cfg_store (gd g) (cbytes g) (cbytes g)"

definition exec_strip :: "gemm \<Rightarrow> u32 \<Rightarrow> u32 \<Rightarrow> insn list" where
  "exec_strip g abank cbank =
     (if bsplit g
      then mat_cfg_exec (nt0 g) (gK g) 1 (nt g) @ [mat_exec abank 0 cbank (kt g) (bias_strip g)] @
           mat_cfg_exec (nt1 g) (gK g) 1 (nt g) @ [mat_exec abank (sbank g) (cbank + nt0 g) (kt g) (bias_strip g)]
      else [mat_exec abank 0 cbank (kt g) (bias_strip g)])"

definition quant_strip :: "gemm \<Rightarrow> u32 \<Rightarrow> u32 \<Rightarrow> insn list" where
  "quant_strip g abank cbank =
     (if gquant g
      then [vec_cfg 2 (SA_LADDR SA_MEM_SPAD_A (abank + qout g)), vec_run (SA_LADDR SA_MEM_ACC cbank) (SA_LADDR SA_MEM_ACC (cbank + vbias g))]
      else [])"

definition store_strip :: "gemm \<Rightarrow> u32 \<Rightarrow> u32 \<Rightarrow> u32 \<Rightarrow> insn list" where
  "store_strip g i abank cbank =
     (if gquant g then [mat_store (gc g + i * gN g) (SA_LADDR SA_MEM_SPAD_A (abank + qout g))]
      else [mat_store (gc g + i * 4 * gN g) (SA_LADDR SA_MEM_ACC cbank)])"

text \<open>An iteration of the loop; strips alternate banks.\<close>
definition gemm_strip :: "gemm \<Rightarrow> u32 \<Rightarrow> bool \<Rightarrow> insn list" where
  "gemm_strip g i od =
     (let abank = (if od then sbank g else 0); cbank = (if od then cbank_w g else 0) in
      (if i \<noteq> 0 \<and> \<not> prefetch g then load_strip g i abank cbank else []) @
      exec_strip g abank cbank @ quant_strip g abank cbank @
      (if prefetch g \<and> i + gd g < gM g
       then load_strip g (i + gd g) (if od then 0 else sbank g) (if od then 0 else cbank_w g) else []) @
      store_strip g i abank cbank)"

text \<open>The loop, which may run forever: the instructions issued and the tiles counted.\<close>
partial_function (option) gemm_loop :: "gemm \<Rightarrow> u32 \<Rightarrow> bool \<Rightarrow> u32 \<Rightarrow> (insn list \<times> u32) option" where
  "gemm_loop g i od tiles =
     (if i < gM g
      then Option.bind (gemm_loop g (i + gd g) (\<not> od) (tiles + nt g)) (\<lambda>(is, n). Some (gemm_strip g i od @ is, n))
      else Some ([], tiles))"

section \<open>The program\<close>

definition gemm_main :: "(insn \<Rightarrow> unit_state \<Rightarrow> unit_state) \<Rightarrow> fw_env \<Rightarrow> fw_state \<Rightarrow> fw_state option" where
  "gemm_main other e s =
     (let s = s\<lparr>fmb := (fmb s)(MBOX_STATUS := STATUS_RUNNING)\<rparr>; g = gemm_params (caps e) (fmb s) in
      Option.bind (gemm_loop g 0 False 0) (\<lambda>(is, tiles).
        Some (fw_results e tiles (do_insns other (gemm_head (caps e) g @ is @ [mat_fence 0]) (funit s)) s)))"

end
