(* ===== verification/UnitRun.thy ===== *)
theory UnitRun
  imports SaUnit
begin

text \<open>
  What commands leave in the memories: integers written and read back, copies of rows, tiles.
\<close>

section \<open>Integers in bytes\<close>

lemma get_nat_move: "(\<And>k. k < n \<Longrightarrow> b (a + k) = b' (a' + k)) \<Longrightarrow> get_nat b a n = get_nat b' a' n"
proof (induction n arbitrary: a a')
  case (Suc n)
  have "b (Suc a + k) = b' (Suc a' + k)" if "k < n" for k
    using Suc.prems [of "Suc k"] that by simp
  from Suc.IH [OF this] Suc.prems [of 0] show ?case by simp
qed simp

lemma get_int_move: "(\<And>k. k < n \<Longrightarrow> b (a + k) = b' (a' + k)) \<Longrightarrow> get_int b a n = get_int b' a' n"
  unfolding get_int_def by (simp add: get_nat_move [of n b a b' a'])

lemma get_int_frame: "(\<And>x. a \<le> x \<Longrightarrow> x < a + n \<Longrightarrow> b x = b' x) \<Longrightarrow> get_int b a n = get_int b' a n"
  by (rule get_int_move) simp

lemma get_nat_put: "int (get_nat (put_int a n v b) a n) = v mod 256 ^ n"
proof (induction n arbitrary: a v b)
  case (Suc n)
  have "get_nat (put_int a (Suc n) v b) (Suc a) n = get_nat (put_int (Suc a) n (v div 256) b) (Suc a) n"
    by (rule get_nat_move) (simp add: put_int_def zdiv_zmult2_eq)
  moreover have "int (unat (put_int a (Suc n) v b a)) = v mod 256"
    by (simp add: put_int_def uint_word_of_int flip: uint_nat)
  ultimately show ?case
    using Suc.IH [of "Suc a" "v div 256" b] by (simp add: mod_mult2_eq mod_mult_eq zmod_zmult2_eq)
qed simp

lemma get_put_same: "0 < n \<Longrightarrow> get_int (put_int a n v b) a n = signed_take_bit (8 * n - 1) v"
proof -
  assume n: "0 < n"
  have "v mod 256 ^ n = take_bit (8 * n) v"
    by (simp add: take_bit_eq_mod power_mult)
  then show ?thesis
    using n by (simp only: get_int_def get_nat_put signed_take_bit_take_bit) auto
qed

lemma put_int_out: "x < a \<or> a + n \<le> x \<Longrightarrow> put_int a n v b x = b x"
  by (auto simp: put_int_def)

lemma get_put_other: "a' + n' \<le> a \<or> a + n \<le> a' \<Longrightarrow> get_int (put_int a n v b) a' n' = get_int b a' n'"
  by (rule get_int_frame) (auto simp: put_int_def)

text \<open>A memory as an array of integers of \<open>n\<close> bytes.\<close>
definition cell :: "nat \<Rightarrow> (nat \<Rightarrow> u8) \<Rightarrow> nat \<Rightarrow> int" where
  "cell n b q = get_int b (q * n) n"

lemma cells_apart: "q \<noteq> q' \<Longrightarrow> q' * n + n \<le> q * n \<or> q * n + n \<le> q' * (n::nat)"
proof -
  assume "q \<noteq> q'"
  then consider "Suc q' \<le> q" | "Suc q \<le> q'" by linarith
  then show ?thesis by cases (metis add.commute mult_Suc mult_le_mono1)+
qed

lemma cell_put: "0 < n \<Longrightarrow> cell n (put_int (q * n) n v b) q' = (if q' = q then signed_take_bit (8 * n - 1) v else cell n b q')"
  using cells_apart [of q q' n] by (auto simp: cell_def get_put_same get_put_other)

lemma cell_puts_in:
  "\<lbrakk>0 < n; distinct (map q xs); i \<in> set xs\<rbrakk> \<Longrightarrow>
   cell n (fold (\<lambda>i. put_int (q i * n) n (v i)) xs b) (q i) = signed_take_bit (8 * n - 1) (v i)"
proof (induction xs rule: rev_induct)
  case (snoc x xs)
  from snoc.prems(2) have q: "distinct (map q xs)" "q x \<notin> q ` set xs" by simp_all
  show ?case
  proof (cases "i = x")
    case True
    then show ?thesis using snoc.prems(1) by (simp add: cell_put)
  next
    case False
    with snoc.prems(3) have "i \<in> set xs" by simp
    moreover from this q(2) have "q i \<noteq> q x" by (metis imageI)
    ultimately show ?thesis using snoc.IH [OF snoc.prems(1) q(1)] snoc.prems(1) by (simp add: cell_put)
  qed
qed simp

lemma cell_puts_out: "0 < n \<Longrightarrow> q' \<notin> q ` set xs \<Longrightarrow> cell n (fold (\<lambda>i. put_int (q i * n) n (v i)) xs b) q' = cell n b q'"
  by (induction xs rule: rev_induct) (auto simp: cell_put)

section \<open>Copies\<close>

lemma copies_in:
  "\<lbrakk>distinct xs; \<And>i j. i \<in> set xs \<Longrightarrow> j \<in> set xs \<Longrightarrow> i \<noteq> j \<Longrightarrow> t i + n \<le> t j \<or> t j + n \<le> t i; i \<in> set xs; k < n\<rbrakk> \<Longrightarrow>
   fold (\<lambda>i. copy_bytes n (s i) src (t i)) xs b (t i + k) = src (s i + k)"
proof (induction xs rule: rev_induct)
  case (snoc x xs)
  show ?case
  proof (cases "i = x")
    case True
    then show ?thesis using snoc.prems(4) by (simp add: copy_bytes_def)
  next
    case False
    then have "t i + n \<le> t x \<or> t x + n \<le> t i" using snoc.prems(2,3) by simp
    then have "copy_bytes n (s x) src (t x) B (t i + k) = B (t i + k)" for B
      using snoc.prems(4) by (auto simp: copy_bytes_def)
    with False snoc show ?thesis by simp
  qed
qed simp

lemma copies_out:
  "(\<And>i. i \<in> set xs \<Longrightarrow> x < t i \<or> t i + n \<le> x) \<Longrightarrow> fold (\<lambda>i. copy_bytes n (s i) src (t i)) xs b x = b x"
proof (induction xs rule: rev_induct)
  case (snoc y ys)
  from snoc.prems [of y] have "copy_bytes n (s y) src (t y) B x = B x" for B by (auto simp: copy_bytes_def)
  with snoc show ?case by simp
qed simp

lemma fold_nested: "fold (\<lambda>r. fold (f r) cs) rs b = fold (\<lambda>(r, c). f r c) (List.product rs cs) b"
  by (induction rs arbitrary: b) (simp_all add: fold_map comp_def)

text \<open>Rows of a loop that each change one memory.\<close>
lemma each_row_loc:
  assumes "\<And>r b. r \<in> set rs \<Longrightarrow> f r (m\<lparr>loc := (loc m)(k := b)\<rparr>) = Inr (m\<lparr>loc := (loc m)(k := G r b)\<rparr>)"
  shows "each_row f rs (m\<lparr>loc := (loc m)(k := b)\<rparr>) = (m\<lparr>loc := (loc m)(k := fold G rs b)\<rparr>, None)"
  using assms by (induction rs arbitrary: b) simp_all

lemma each_row_ddr:
  assumes "\<And>r b. r \<in> set rs \<Longrightarrow> f r (m\<lparr>ddr := b\<rparr>) = Inr (m\<lparr>ddr := G r b\<rparr>)"
  shows "each_row f rs (m\<lparr>ddr := b\<rparr>) = (m\<lparr>ddr := fold G rs b\<rparr>, None)"
  using assms by (induction rs arbitrary: b) simp_all

lemma ceil_div_mult: "0 < w \<Longrightarrow> ceil_div (q * w) w = q"
proof -
  assume w: "0 < w"
  have "(q * w + w - 1) div w = q" by (rule div_nat_eqI) (use w in \<open>simp_all add: mult.commute\<close>)
  then show ?thesis by (simp only: ceil_div_def)
qed

lemma wbytes_loc [simp]: "wbytes (m\<lparr>loc := f\<rparr>) k = wbytes m k" "wbytes (m\<lparr>ddr := b\<rparr>) k = wbytes m k"
  by (simp_all add: wbytes_def)

lemma ddr_ok_upd [simp]: "ddr_ok (m\<lparr>loc := f\<rparr>) a n = ddr_ok m a n" "ddr_ok (m\<lparr>ddr := b\<rparr>) a n = ddr_ok m a n"
  by (simp_all add: ddr_ok_def)

lemma rows_contiguous:
  assumes "0 < rb" and "y < n * (rb :: nat)"
  obtains r x where "r < n" and "x < rb" and "y = r * rb + x"
proof
  show "y div rb < n" using assms by (simp add: less_mult_imp_div_less)
  show "y mod rb < rb" using assms by simp
  show "y = y div rb * rb + y mod rb" by simp
qed

lemma rows_apart: "i \<noteq> j \<Longrightarrow> o' + i * rb + rb \<le> o' + j * rb \<or> o' + j * rb + rb \<le> o' + i * (rb::nat)"
  using cells_apart [of i j rb] by linarith

section \<open>Commands\<close>

text \<open>A linear load of whole words whose rows follow each other in DDR too.\<close>
lemma ld_linear:
  assumes c: "check_dma ENG_LD m a k w rows rb rb False = None" and k: "laddr_mem l = k" and w: "laddr_word l = w"
    and d: "ddr_ok m a (rows * rb)" and q: "rb = q * wbytes m k" "0 < rb"
  obtains b where "ld a l rows rb rb False m = (m\<lparr>loc := (loc m)(k := b)\<rparr>, None)"
    and "\<And>y. y < rows * rb \<Longrightarrow> b (w * wbytes m k + y) = ddr m (a + y)"
    and "\<And>y. y < w * wbytes m k \<or> w * wbytes m k + rows * rb \<le> y \<Longrightarrow> b y = loc m k y"
proof
  let ?wb = "wbytes m k"
  let ?o = "w * ?wb"
  let ?b = "fold (\<lambda>r. copy_bytes rb (a + r * rb) (ddr m) (?o + r * rb)) [0..<rows] (loc m k)"
  have wb: "0 < ?wb" using q by (cases "?wb") auto
  have pos: "(w + r * ceil_div rb ?wb) * ?wb = ?o + r * rb" for r
    using wb by (simp add: q(1) ceil_div_mult algebra_simps)
  have ok: "ddr_ok m (a + r * rb) rb" if "r < rows" for r
  proof -
    have "Suc r * rb \<le> rows * rb" using that by (intro mult_le_mono1) simp
    then show ?thesis using d by (simp add: ddr_ok_def)
  qed
  have "each_row (ld_row a k w rows rb rb False) [0..<rows] (m\<lparr>loc := (loc m)(k := loc m k)\<rparr>)
      = (m\<lparr>loc := (loc m)(k := ?b)\<rparr>, None)"
    by (rule each_row_loc) (simp add: ld_row_def ok pos Let_def)
  then show "ld a l rows rb rb False m = (m\<lparr>loc := (loc m)(k := ?b)\<rparr>, None)"
    using c by (simp add: ld_def k w)
  show "?b (?o + y) = ddr m (a + y)" if yr: "y < rows * rb" for y
  proof -
    obtain r x where r: "r < rows" "x < rb" "y = r * rb + x" by (rule rows_contiguous [OF q(2) yr])
    have "?b (?o + r * rb + x) = ddr m (a + r * rb + x)"
      by (rule copies_in) (use r rows_apart [of _ _ ?o rb] in auto)
    then show ?thesis by (simp add: r(3) add.assoc)
  qed
  show "?b y = loc m k y" if "y < ?o \<or> ?o + rows * rb \<le> y" for y
  proof (rule copies_out)
    fix r assume "r \<in> set [0..<rows]"
    then have "Suc r * rb \<le> rows * rb" by (intro mult_le_mono1) simp
    then show "y < ?o + r * rb \<or> ?o + r * rb + rb \<le> y" using that by auto
  qed
qed

text \<open>A store of whole words whose rows follow each other.\<close>
lemma st_linear:
  assumes c: "check_dma ENG_ST m a k w rows rb rb False = None" and k: "laddr_mem l = k" and w: "laddr_word l = w"
    and d: "ddr_ok m a (rows * rb)" and q: "rb = q * wbytes m k" "0 < rb"
  obtains b where "st a l rows rb rb m = (m\<lparr>ddr := b\<rparr>, None)"
    and "\<And>y. y < rows * rb \<Longrightarrow> b (a + y) = loc m k (w * wbytes m k + y)"
    and "\<And>y. y < a \<or> a + rows * rb \<le> y \<Longrightarrow> b y = ddr m y"
proof
  let ?wb = "wbytes m k"
  let ?o = "w * ?wb"
  let ?b = "fold (\<lambda>r. copy_bytes rb (?o + r * rb) (loc m k) (a + r * rb)) [0..<rows] (ddr m)"
  have wb: "0 < ?wb" using q by (cases "?wb") auto
  have pos: "(w + r * ceil_div rb ?wb) * ?wb = ?o + r * rb" for r
    using wb by (simp add: q(1) ceil_div_mult algebra_simps)
  have ok: "ddr_ok m (a + r * rb) rb" if "r < rows" for r
  proof -
    have "Suc r * rb \<le> rows * rb" using that by (intro mult_le_mono1) simp
    then show ?thesis using d by (simp add: ddr_ok_def)
  qed
  have "each_row (st_row a k w rb rb) [0..<rows] (m\<lparr>ddr := ddr m\<rparr>) = (m\<lparr>ddr := ?b\<rparr>, None)"
    by (rule each_row_ddr) (simp add: st_row_def ok pos Let_def)
  then show "st a l rows rb rb m = (m\<lparr>ddr := ?b\<rparr>, None)"
    using c by (simp add: st_def k w)
  show "?b (a + y) = loc m k (?o + y)" if yr: "y < rows * rb" for y
  proof -
    obtain r x where r: "r < rows" "x < rb" "y = r * rb + x" by (rule rows_contiguous [OF q(2) yr])
    have "?b (a + r * rb + x) = loc m k (?o + r * rb + x)"
      by (rule copies_in) (use r rows_apart [of _ _ a rb] in auto)
    then show ?thesis by (simp add: r(3) add.assoc)
  qed
  show "?b y = ddr m y" if "y < a \<or> a + rows * rb \<le> y" for y
  proof (rule copies_out)
    fix r assume "r \<in> set [0..<rows]"
    then have "Suc r * rb \<le> rows * rb" by (intro mult_le_mono1) simp
    then show "y < a + r * rb \<or> a + r * rb + rb \<le> y" using that by auto
  qed
qed

text \<open>An interleaving load: word \<open>c * rows + r\<close> is piece \<open>c\<close> of row \<open>r\<close>.\<close>
lemma ld_interleave:
  assumes c: "check_dma ENG_LD m a k w rows rb pitch True = None" and k: "laddr_mem l = k" and w: "laddr_word l = w"
    and d: "\<And>r. r < rows \<Longrightarrow> ddr_ok m (a + r * pitch) rb" and q: "rb = q * arr m" "0 < arr m"
  obtains b where "ld a l rows rb pitch True m = (m\<lparr>loc := (loc m)(k := b)\<rparr>, None)"
    and "\<And>r c x. \<lbrakk>r < rows; c < q; x < arr m\<rbrakk> \<Longrightarrow> b ((w + c * rows + r) * arr m + x) = ddr m (a + r * pitch + c * arr m + x)"
    and "\<And>y. y < w * arr m \<or> (w + q * rows) * arr m \<le> y \<Longrightarrow> b y = loc m k y"
proof
  let ?d = "arr m"
  let ?t = "\<lambda>(r, c). (w + c * rows + r) * ?d" and ?s = "\<lambda>(r, c). a + r * pitch + c * ?d"
  let ?ps = "List.product [0..<rows] [0..<q]"
  let ?G = "\<lambda>r. fold (\<lambda>c. copy_bytes ?d (a + r * pitch + c * ?d) (ddr m) ((w + c * rows + r) * ?d)) [0..<q]"
  let ?b = "fold ?G [0..<rows] (loc m k)"
  from c have kk: "k \<noteq> 3" by (auto simp: check_dma_def split: if_splits)
  then have wb: "wbytes m k = ?d" by (simp add: wbytes_def)
  have rq: "rb div ?d = q" using q by simp
  have "each_row (ld_row a k w rows rb pitch True) [0..<rows] (m\<lparr>loc := (loc m)(k := loc m k)\<rparr>)
      = (m\<lparr>loc := (loc m)(k := ?b)\<rparr>, None)"
    by (rule each_row_loc) (simp add: ld_row_def d wb rq Let_def)
  then show "ld a l rows rb pitch True m = (m\<lparr>loc := (loc m)(k := ?b)\<rparr>, None)"
    using c by (simp add: ld_def k w)
  have b: "?b = fold (\<lambda>p. copy_bytes ?d (?s p) (ddr m) (?t p)) ?ps (loc m k)"
    by (simp add: fold_nested case_prod_unfold)
  have inj: "c * rows + r \<noteq> c' * rows + r'" if "r < rows" "r' < rows" "(r, c) \<noteq> (r', c')" for r c r' c'
  proof
    assume e: "c * rows + r = c' * rows + r'"
    then have "(c * rows + r) div rows = (c' * rows + r') div rows" by simp
    then have "c = c'" using that(1,2) by simp
    with e that(3) show False by simp
  qed
  have apart: "?t p + ?d \<le> ?t p' \<or> ?t p' + ?d \<le> ?t p" if "p \<in> set ?ps" "p' \<in> set ?ps" "p \<noteq> p'" for p p'
  proof -
    obtain r c r' c' where p: "p = (r, c)" "p' = (r', c')" by (cases p, cases p') auto
    with that inj [of r r' c c'] have "w + c * rows + r \<noteq> w + c' * rows + r'" by auto
    from cells_apart [OF this, of ?d] show ?thesis unfolding p by auto
  qed
  show "?b ((w + c * rows + r) * ?d + x) = ddr m (a + r * pitch + c * ?d + x)" if "r < rows" "c < q" "x < ?d" for r c x
  proof -
    have "?b (?t (r, c) + x) = ddr m (?s (r, c) + x)"
      unfolding b by (rule copies_in) (use that apart in \<open>auto simp: distinct_product\<close>)
    then show ?thesis by simp
  qed
  show "?b y = loc m k y" if "y < w * ?d \<or> (w + q * rows) * ?d \<le> y" for y
    unfolding b
  proof (rule copies_out)
    fix p assume "p \<in> set ?ps"
    then obtain r c where p: "p = (r, c)" "r < rows" "c < q" by auto
    then have "Suc c * rows \<le> q * rows" by (intro mult_le_mono1) simp
    with p have "w + c * rows + r + 1 \<le> w + q * rows" by simp
    then have "(w + c * rows + r + 1) * ?d \<le> (w + q * rows) * ?d" by (rule mult_le_mono1)
    moreover have "w * ?d \<le> (w + c * rows + r) * ?d" by (rule mult_le_mono1) simp
    ultimately show "y < ?t p \<or> ?t p + ?d \<le> y" using that by (auto simp: p(1) algebra_simps)
  qed
qed

text \<open>Rows of tiles written to words \<open>w p\<close>, all different.\<close>
lemma tile_rows:
  assumes "distinct (map w ps)" and "0 < arr m"
  shows "\<exists>b'. fold (\<lambda>p. tile_row a (bs p) (w p) kt accu (i p)) ps (m\<lparr>loc := (loc m)(3 := b)\<rparr>) = m\<lparr>loc := (loc m)(3 := b')\<rparr> \<and>
     (\<forall>p \<in> set ps. \<forall>l < arr m. cell 4 b' (w p * arr m + l) =
        signed_take_bit 31 (tile_entry m a (bs p) kt (i p) l + (if accu then cell 4 b (w p * arr m + l) else 0))) \<and>
     (\<forall>q. q div arr m \<notin> w ` set ps \<longrightarrow> cell 4 b' q = cell 4 b q)"
  using assms(1)
proof (induction ps arbitrary: b)
  case Nil
  then show ?case by auto
next
  case (Cons p ps)
  let ?d = "arr m"
  let ?v = "\<lambda>l. tile_entry m a (bs p) kt (i p) l + (if accu then cell 4 b (w p * ?d + l) else 0)"
  define b1 where "b1 = fold (\<lambda>l. put_int ((w p * ?d + l) * 4) 4 (?v l)) [0..<?d] b"
  have one: "tile_row a (bs p) (w p) kt accu (i p) (m\<lparr>loc := (loc m)(3 := b)\<rparr>) = m\<lparr>loc := (loc m)(3 := b1)\<rparr>"
    by (cases accu) (simp_all add: tile_row_def b1_def tile_entry_def cell_def Let_def)
  have in1: "cell 4 b1 (w p * ?d + l) = signed_take_bit 31 (?v l)" if "l < ?d" for l
    using cell_puts_in [of 4 "\<lambda>l. w p * ?d + l" "[0..<?d]" l "?v" b] that
    by (simp add: b1_def distinct_map)
  have out1: "cell 4 b1 q = cell 4 b q" if "q div ?d \<noteq> w p" for q
  proof -
    have "q \<noteq> w p * ?d + l" if "l < ?d" for l using that \<open>q div ?d \<noteq> w p\<close> by auto
    then have "q \<notin> (\<lambda>l. w p * ?d + l) ` set [0..<?d]" by (metis imageE atLeastLessThan_iff set_upt)
    then show ?thesis unfolding b1_def by (intro cell_puts_out) simp_all
  qed
  from Cons.prems have dist: "distinct (map w ps)" and new: "w p \<notin> w ` set ps" by auto
  from Cons.IH [OF dist, of b1] obtain b' where
    run: "fold (\<lambda>p. tile_row a (bs p) (w p) kt accu (i p)) ps (m\<lparr>loc := (loc m)(3 := b1)\<rparr>) = m\<lparr>loc := (loc m)(3 := b')\<rparr>" and
    ins: "\<And>p' l. \<lbrakk>p' \<in> set ps; l < ?d\<rbrakk> \<Longrightarrow> cell 4 b' (w p' * ?d + l) =
        signed_take_bit 31 (tile_entry m a (bs p') kt (i p') l + (if accu then cell 4 b1 (w p' * ?d + l) else 0))" and
    outs: "\<And>q. q div ?d \<notin> w ` set ps \<Longrightarrow> cell 4 b' q = cell 4 b1 q" by blast
  have dv: "(x * ?d + l) div ?d = x" if "l < ?d" for x l using that by simp
  show ?case
  proof (intro exI [of _ b'] conjI ballI allI impI)
    show "fold (\<lambda>p. tile_row a (bs p) (w p) kt accu (i p)) (p # ps) (m\<lparr>loc := (loc m)(3 := b)\<rparr>) = m\<lparr>loc := (loc m)(3 := b')\<rparr>"
      by (simp add: one run)
  next
    fix p' l assume p': "p' \<in> set (p # ps)" and l: "l < ?d"
    show "cell 4 b' (w p' * ?d + l) =
        signed_take_bit 31 (tile_entry m a (bs p') kt (i p') l + (if accu then cell 4 b (w p' * ?d + l) else 0))"
    proof (cases "p' \<in> set ps")
      case True
      then have "w p' \<noteq> w p" using new by (metis imageI)
      then have "cell 4 b1 (w p' * ?d + l) = cell 4 b (w p' * ?d + l)" using dv [OF l] by (intro out1) simp
      then show ?thesis using ins [OF True l] by simp
    next
      case False
      then have [simp]: "p' = p" using p' by simp
      have "cell 4 b' (w p * ?d + l) = cell 4 b1 (w p * ?d + l)" using new dv [OF l] by (intro outs) simp
      then show ?thesis using in1 [OF l] by simp
    qed
  next
    fix q assume "q div ?d \<notin> w ` set (p # ps)"
    then show "cell 4 b' q = cell 4 b q" using outs [of q] out1 [of q] by auto
  qed
qed

text \<open>The tiles of a strip side by side: tile \<open>r\<close> in column \<open>r\<close> of \<open>crow\<close> columns.\<close>
lemma ex_tiles:
  assumes "0 < kt" and "a + kt * arr m \<le> spad_words m" and "b0 + (rep - 1) * bstep + kt * arr m \<le> spad_words m"
    and "c + (rep - 1) + (arr m - 1) * crow < acc_words m" and "0 < arr m" and "0 < rep" and "rep \<le> crow"
  obtains b where "ex a b0 c kt accu rep bstep 1 crow m = (m\<lparr>loc := (loc m)(3 := b)\<rparr>, None)"
    and "\<And>r i l. \<lbrakk>r < rep; i < arr m; l < arr m\<rbrakk> \<Longrightarrow> cell 4 b ((c + r + i * crow) * arr m + l) =
        signed_take_bit 31 (tile_entry m a (b0 + r * bstep) kt i l + (if accu then cell 4 (loc m 3) ((c + r + i * crow) * arr m + l) else 0))"
    and "\<And>q. (\<And>r i. r < rep \<Longrightarrow> i < arr m \<Longrightarrow> q div arr m \<noteq> c + r + i * crow) \<Longrightarrow> cell 4 b q = cell 4 (loc m 3) q"
proof -
  let ?ps = "List.product [0..<rep] [0..<arr m]"
  let ?w = "\<lambda>(r, i). c + r + i * crow"
  have inj: "r = r' \<and> i = i'" if "r < rep" "r' < rep" "c + r + i * crow = c + r' + i' * crow" for r i r' i'
  proof -
    have e: "i * crow + r = i' * crow + r'" using that(3) by simp
    have "(i * crow + r) div crow = i" "(i' * crow + r') div crow = i'" using that(1,2) assms(7) by simp_all
    then have "i = i'" using e by simp
    with e show ?thesis by simp
  qed
  have "distinct (map ?w ?ps)"
    unfolding distinct_map
  proof (intro conjI inj_onI)
    show "distinct ?ps" by (simp add: distinct_product)
    fix p p' assume "p \<in> set ?ps" "p' \<in> set ?ps" and e: "?w p = ?w p'"
    then obtain r i r' i' where p: "p = (r, i)" "p' = (r', i')" "r < rep" "r' < rep" by auto
    from inj [OF p(3,4), of i i'] e p(1,2) show "p = p'" by auto
  qed
  from tile_rows [OF this assms(5), of a "\<lambda>(r, i). b0 + r * bstep" kt accu snd "loc m 3"]
  obtain b where
    run: "fold (\<lambda>p. tile_row a (case p of (r, i) \<Rightarrow> b0 + r * bstep) (?w p) kt accu (snd p)) ?ps (m\<lparr>loc := (loc m)(3 := loc m 3)\<rparr>) =
      m\<lparr>loc := (loc m)(3 := b)\<rparr>" and
    ins: "\<forall>p \<in> set ?ps. \<forall>l < arr m. cell 4 b (?w p * arr m + l) = signed_take_bit 31
        (tile_entry m a (case p of (r, i) \<Rightarrow> b0 + r * bstep) kt (snd p) l + (if accu then cell 4 (loc m 3) (?w p * arr m + l) else 0))" and
    outs: "\<forall>q. q div arr m \<notin> ?w ` set ?ps \<longrightarrow> cell 4 b q = cell 4 (loc m 3) q" by blast
  show thesis
  proof
    have "fold (\<lambda>r. fold (\<lambda>i. tile_row a (b0 + r * bstep) (c + r * 1 + i * crow) kt accu i) [0..<arr m]) [0..<rep] m = m\<lparr>loc := (loc m)(3 := b)\<rparr>"
      unfolding fold_nested using run by (simp add: case_prod_unfold)
    moreover have "max rep 1 = rep" "crow \<noteq> 0" "kt \<noteq> 0" using assms by auto
    moreover have "\<not> (a + kt * arr m > spad_words m \<or> b0 + (rep - 1) * bstep + kt * arr m - 1 \<ge> spad_words m \<or>
        c + (rep - 1) * 1 + (arr m - 1) * crow \<ge> acc_words m)"
    proof -
      have "0 < kt * arr m" using assms(1,5) by simp
      then show ?thesis using assms(2,3,4) by linarith
    qed
    ultimately show "ex a b0 c kt accu rep bstep 1 crow m = (m\<lparr>loc := (loc m)(3 := b)\<rparr>, None)"
      by (simp only: ex_def Let_def if_False)
  next
    fix r i l assume "r < rep" "i < arr m" "l < arr m"
    then show "cell 4 b ((c + r + i * crow) * arr m + l) =
        signed_take_bit 31 (tile_entry m a (b0 + r * bstep) kt i l + (if accu then cell 4 (loc m 3) ((c + r + i * crow) * arr m + l) else 0))"
      using ins by force
  next
    fix q assume q: "\<And>r i. r < rep \<Longrightarrow> i < arr m \<Longrightarrow> q div arr m \<noteq> c + r + i * crow"
    have "q div arr m \<notin> ?w ` set ?ps"
    proof
      assume "q div arr m \<in> ?w ` set ?ps"
      then obtain r i where "r < rep" "i < arr m" "q div arr m = c + r + i * crow" by auto
      then show False using q by blast
    qed
    then show "cell 4 b q = cell 4 (loc m 3) q" using outs by blast
  qed
qed

lemma clamped: "signed_take_bit n (max (- (2 ^ n)) (min (2 ^ n - 1) v)) = max (- (2 ^ n)) (min (2 ^ n - 1) (v :: int))"
  by (rule signed_take_bit_int_eq_self) auto

lemma ve_post_range: "signed_take_bit (8 * esz ot - 1) (ve_post relu requant sc sh zp lo hi ot r) = ve_post relu requant sc sh zp lo hi ot r"
  unfolding ve_post_def Let_def by (rule clamped)

lemma ve_value_range: "signed_take_bit (8 * esz (ve_out v) - 1) (ve_value v s1 s2 m e) = ve_value v s1 s2 m e"
  by (simp only: ve_value_def Let_def ve_post_range)

text \<open>A vector command: element \<open>e\<close> of the destination.\<close>
lemma ve_elements:
  assumes "ve_check v s1 s2 m = None" and "laddr_word (v_dst v) * wbytes m (laddr_mem (v_dst v)) = s * esz (ve_out v)"
  obtains b where "ve v s1 s2 m = (m\<lparr>loc := (loc m)(laddr_mem (v_dst v) := b)\<rparr>, None)"
    and "\<And>e. e < unat (v_groups v) * arr m \<Longrightarrow> cell (esz (ve_out v)) b (s + e) = ve_value v s1 s2 m e"
    and "\<And>y. y < s * esz (ve_out v) \<or> (s + unat (v_groups v) * arr m) * esz (ve_out v) \<le> y \<Longrightarrow> b y = loc m (laddr_mem (v_dst v)) y"
proof
  let ?n = "esz (ve_out v)" and ?k = "laddr_mem (v_dst v)" and ?es = "[0..<unat (v_groups v) * arr m]"
  let ?b = "fold (\<lambda>e. put_int ((s + e) * ?n) ?n (ve_value v s1 s2 m e)) ?es (loc m ?k)"
  have n: "0 < ?n" by (simp add: esz_def)
  show "ve v s1 s2 m = (m\<lparr>loc := (loc m)(?k := ?b)\<rparr>, None)"
    using assms by (simp add: ve_def Let_def algebra_simps)
  show "cell ?n ?b (s + e) = ve_value v s1 s2 m e" if "e < unat (v_groups v) * arr m" for e
    using cell_puts_in [OF n, of "\<lambda>e. s + e" ?es e "ve_value v s1 s2 m" "loc m ?k"] that
    by (simp only: ve_value_range) (simp add: distinct_map)
  show "?b y = loc m ?k y" if "y < s * ?n \<or> (s + unat (v_groups v) * arr m) * ?n \<le> y" for y
  proof -
    have "fold (\<lambda>e. put_int ((s + e) * ?n) ?n (ve_value v s1 s2 m e)) es B y = B y" if "set es \<subseteq> set ?es" for es B
      using that
    proof (induction es rule: rev_induct)
      case (snoc e es)
      then have "e < unat (v_groups v) * arr m" by auto
      then have "(s + e + 1) * ?n \<le> (s + unat (v_groups v) * arr m) * ?n" by (intro mult_le_mono1) simp
      moreover have "s * ?n \<le> (s + e) * ?n" by simp
      ultimately have "y < (s + e) * ?n \<or> (s + e) * ?n + ?n \<le> y"
        using \<open>y < s * ?n \<or> _\<close> by (auto simp: algebra_simps)
      then show ?case using snoc by (simp add: put_int_out)
    qed simp
    then show ?thesis by simp
  qed
qed

end
