(* ===== verification/UnitCmd.thy ===== *)
theory UnitCmd
  imports UnitRun
begin

text \<open>
  The sequences of instructions the firmware uses, as commands on the memories: local addresses and
  packed operands read back, configurations taken up.
\<close>

section \<open>Operands\<close>

lemma low_bits: "unat (w :: u32) < 2 ^ n \<Longrightarrow> bit w i \<Longrightarrow> i < n"
proof (rule ccontr)
  assume w: "unat w < 2 ^ n" and b: "bit w i" and "\<not> i < n"
  then have "(2::nat) ^ n \<le> 2 ^ i" by (intro power_increasing) simp_all
  moreover from b have "bit (unat w) i" by (simp add: bit_unsigned_iff)
  then have "2 ^ i \<le> unat w" by (metis bit_nat_def div_less even_zero linorder_not_le bit_iff_odd)
  ultimately show False using w by linarith
qed

lemma and_low: "unat (w :: u32) < 2 ^ n \<Longrightarrow> w AND mask n = w"
  by (rule bit_eqI) (auto simp: bit_simps dest: low_bits)

lemma and_FFFF: "unat (w :: u32) < 65536 \<Longrightarrow> w AND 0xFFFF = w"
  using and_low [of w 16] by (simp add: mask_eq_exp_minus_1)

lemma and_is_take: "(w :: u32) AND 0xFFFF = take_bit 16 w" "(w :: u32) AND 0xFFF = take_bit 12 w"
  by (simp_all add: take_bit_eq_mask mask_eq_exp_minus_1)

lemma bit_28: "bit (268435456 :: int) n \<longleftrightarrow> n = 28"
proof -
  have "(268435456 :: int) = 2 ^ 28" by simp
  then show ?thesis by (simp only: bit_exp_iff) auto
qed

lemma laddr_word_of: "unat w < 65536 \<Longrightarrow> laddr_word (SA_LADDR k w) = unat w"
proof -
  assume w: "unat w < 65536"
  have "SA_LADDR k w AND 0xFFFF = w"
    unfolding and_is_take by (rule bit_eqI) (use low_bits [of w 16] w in \<open>auto simp: SA_LADDR_def bit_simps\<close>)
  then show ?thesis by (simp add: laddr_word_def)
qed

lemma laddr_mem_of: "unat w < 65536 \<Longrightarrow> k = 1 \<or> k = 2 \<or> k = 3 \<Longrightarrow> laddr_mem (SA_LADDR k w) = unat k"
proof -
  assume w: "unat w < 65536" and k: "k = 1 \<or> k = 2 \<or> k = 3"
  have "drop_bit 28 w = 0"
    by (rule bit_eqI) (use low_bits [of w 16] w in \<open>force simp: bit_simps\<close>)
  then have "drop_bit 28 (SA_LADDR k w) = drop_bit 28 (push_bit 28 k)" by (simp add: SA_LADDR_def)
  also have "\<dots> AND 0xF = k" using k by auto
  finally show ?thesis by (simp add: laddr_mem_def)
qed

lemma exec_operands:
  assumes "unat a < 65536" and "unat b < 65536" and "unat c < 65536" and "unat k < 4096"
  shows "rs1 (mat_exec a b c k x) AND 0xFFFF = a" and "drop_bit 16 (rs1 (mat_exec a b c k x)) = b"
    and "rs2 (mat_exec a b c k x) AND 0xFFFF = c" and "drop_bit 16 (rs2 (mat_exec a b c k x)) AND 0xFFF = k"
    and "bit (rs2 (mat_exec a b c k x)) 28 \<longleftrightarrow> x \<noteq> 0"
proof -
  have la: "bit a i \<Longrightarrow> i < 16" and lb: "bit b i \<Longrightarrow> i < 16" and lc: "bit c i \<Longrightarrow> i < 16" and lk: "bit k i \<Longrightarrow> i < 12" for i
    using assms low_bits [of a 16 i] low_bits [of b 16 i] low_bits [of c 16 i] low_bits [of k 12 i] by simp_all
  show "rs1 (mat_exec a b c k x) AND 0xFFFF = a"
    unfolding mat_exec_def and_is_take insn.sel by (rule bit_eqI) (auto simp: bit_simps dest: la)
  show "drop_bit 16 (rs1 (mat_exec a b c k x)) = b"
    unfolding mat_exec_def and_is_take insn.sel by (rule bit_eqI) (auto simp: bit_simps dest: lb)
  show "rs2 (mat_exec a b c k x) AND 0xFFFF = c"
    unfolding mat_exec_def and_is_take insn.sel by (rule bit_eqI) (auto simp: bit_simps bit_28 dest: lc)
  show "drop_bit 16 (rs2 (mat_exec a b c k x)) AND 0xFFF = k"
    unfolding mat_exec_def and_is_take insn.sel by (rule bit_eqI) (auto simp: bit_simps bit_28 dest: lk)
  show "bit (rs2 (mat_exec a b c k x)) 28 \<longleftrightarrow> x \<noteq> 0"
    unfolding mat_exec_def and_is_take insn.sel by (auto simp: bit_simps)
qed

section \<open>Instruction sequences\<close>

lemma do_insns_simps [simp]:
  "do_insns other [] u = u"
  "do_insns other (i # is) u = do_insns other is (do_insn other i u)"
  by (simp_all add: do_insns_def)

lemma do_insns_append: "do_insns other (is @ js) u = do_insns other js (do_insns other is u)"
  by (simp add: do_insns_def)

lemma unat_ucast_fit: "unat (w :: u32) < 2 ^ LENGTH('a) \<Longrightarrow> unat (ucast w :: 'a::len word) = unat w"
  by (simp add: unsigned_ucast_eq take_bit_nat_eq_self)

lemma unat16: "unat (w :: u32) < 65536 \<Longrightarrow> unat (ucast w :: u16) = unat w"
  using unat_ucast_fit [of w, where 'a = 16] by simp

lemma unat12: "unat (w :: u32) < 4096 \<Longrightarrow> unat (ucast w :: 12 word) = unat w"
  using unat_ucast_fit [of w, where 'a = 12] by simp

lemma cfg_insn [simp]: "do_insn other (mat_cfg k v) u = set_cfg k v u"
  by (simp add: do_insn_def mat_cfg_def)

lemma vcfg_insn [simp]: "do_insn other (vec_cfg k v) u = set_vcfg k v u"
  by (simp add: do_insn_def vec_cfg_def)

lemma no_effect [simp]: "do_insn other (mat_fence e) u = u" "do_insn other (mat_perf_ctl e) u = u"
  by (simp_all add: do_insn_def mat_fence_def mat_perf_ctl_def)

lemma reset_insn [simp]: "do_insn other mat_reset u = u\<lparr>uerr := None\<rparr>"
  by (simp add: do_insn_def mat_reset_def)

lemma set_cfg_simps:
  "set_cfg 0 v u = u\<lparr>ld_rows := ucast v\<rparr>" "set_cfg 1 v u = u\<lparr>ld_rb := ucast v\<rparr>" "set_cfg 2 v u = u\<lparr>ld_pitch := v\<rparr>"
  "set_cfg 3 v u = u\<lparr>ld_mode := ucast v\<rparr>" "set_cfg 4 v u = u\<lparr>st_rows := ucast v\<rparr>" "set_cfg 5 v u = u\<lparr>st_rb := ucast v\<rparr>"
  "set_cfg 6 v u = u\<lparr>st_pitch := v\<rparr>" "set_cfg 7 v u = u\<lparr>ex_rep := ucast v\<rparr>" "set_cfg 8 v u = u\<lparr>ex_bstep := ucast v\<rparr>"
  "set_cfg 9 v u = u\<lparr>ex_cstep := ucast v\<rparr>" "set_cfg 10 v u = u\<lparr>ex_crow := ucast v\<rparr>"
  by (simp_all add: set_cfg_def)

text \<open>The configuration of a load, as four of its fields.\<close>
definition ld_cfg :: "u32 \<Rightarrow> u32 \<Rightarrow> u32 \<Rightarrow> u32 \<Rightarrow> unit_state \<Rightarrow> unit_state" where
  "ld_cfg rows rb pitch mode u = u\<lparr>ld_rows := ucast rows, ld_rb := ucast rb, ld_pitch := pitch, ld_mode := ucast mode\<rparr>"

definition st_cfg :: "u32 \<Rightarrow> u32 \<Rightarrow> u32 \<Rightarrow> unit_state \<Rightarrow> unit_state" where
  "st_cfg rows rb pitch u = u\<lparr>st_rows := ucast rows, st_rb := ucast rb, st_pitch := pitch\<rparr>"

definition ex_cfg :: "u32 \<Rightarrow> u32 \<Rightarrow> u32 \<Rightarrow> u32 \<Rightarrow> unit_state \<Rightarrow> unit_state" where
  "ex_cfg rep bstep cstep crow u = u\<lparr>ex_rep := ucast rep, ex_bstep := ucast bstep, ex_cstep := ucast cstep, ex_crow := ucast crow\<rparr>"

lemma run_cfgs:
  "do_insns other (mat_cfg_load rows rb pitch mode) u = ld_cfg rows rb pitch mode u"
  "do_insns other (mat_cfg_store rows rb pitch) u = st_cfg rows rb pitch u"
  "do_insns other (mat_cfg_exec rep bs cs cr) u = ex_cfg rep bs cs cr u"
  by (simp_all add: mat_cfg_load_def mat_cfg_store_def mat_cfg_exec_def set_cfg_simps ld_cfg_def st_cfg_def ex_cfg_def)

text \<open>What the configuration of loads leaves alone.\<close>
lemma ld_cfg_kept [simp]:
  "um (ld_cfg a b c d u) = um u" "uerr (ld_cfg a b c d u) = uerr u" "va (ld_cfg a b c d u) = va u" "v_flags (ld_cfg a b c d u) = v_flags u"
  "st_rows (ld_cfg a b c d u) = st_rows u" "st_rb (ld_cfg a b c d u) = st_rb u" "st_pitch (ld_cfg a b c d u) = st_pitch u"
  "ex_rep (ld_cfg a b c d u) = ex_rep u" "ex_bstep (ld_cfg a b c d u) = ex_bstep u" "ex_cstep (ld_cfg a b c d u) = ex_cstep u"
  "ex_crow (ld_cfg a b c d u) = ex_crow u"
  by (simp_all add: ld_cfg_def)

lemma st_cfg_kept [simp]:
  "um (st_cfg a b c u) = um u" "uerr (st_cfg a b c u) = uerr u" "va (st_cfg a b c u) = va u" "v_flags (st_cfg a b c u) = v_flags u"
  "st_rows (st_cfg a b c u) = ucast a" "st_rb (st_cfg a b c u) = ucast b" "st_pitch (st_cfg a b c u) = c"
  "ex_rep (st_cfg a b c u) = ex_rep u" "ex_bstep (st_cfg a b c u) = ex_bstep u" "ex_cstep (st_cfg a b c u) = ex_cstep u"
  "ex_crow (st_cfg a b c u) = ex_crow u"
  by (simp_all add: st_cfg_def)

lemma ex_cfg_kept [simp]:
  "um (ex_cfg a b c d u) = um u" "uerr (ex_cfg a b c d u) = uerr u" "va (ex_cfg a b c d u) = va u" "v_flags (ex_cfg a b c d u) = v_flags u"
  "st_rows (ex_cfg a b c d u) = st_rows u" "st_rb (ex_cfg a b c d u) = st_rb u" "st_pitch (ex_cfg a b c d u) = st_pitch u"
  "ex_rep (ex_cfg a b c d u) = ucast a" "ex_bstep (ex_cfg a b c d u) = ucast b" "ex_cstep (ex_cfg a b c d u) = ucast c"
  "ex_crow (ex_cfg a b c d u) = ucast d"
  by (simp_all add: ex_cfg_def)

text \<open>A load is a command with the configured shape.\<close>
lemma run_load:
  assumes "unat rows < 65536" and "unat rb < 65536" and "mode = 0 \<or> mode = 1"
  shows "do_insns other (mat_cfg_load rows rb pitch mode @ [mat_load a l]) u
    = command (ld (unat a) l (unat rows) (unat rb) (unat pitch) (mode = 1)) (ld_cfg rows rb pitch mode u)"
  unfolding do_insns_append run_cfgs
  using assms by (auto simp: do_insn_def mat_load_def ld_cfg_def unat16)

lemma run_load_again:
  assumes "unat rows < 65536" and "unat rb < 65536"
  shows "do_insn other (mat_load a l) (ld_cfg rows rb pitch 0 u) = command (ld (unat a) l (unat rows) (unat rb) (unat pitch) False) (ld_cfg rows rb pitch 0 u)"
  using assms by (auto simp: do_insn_def mat_load_def ld_cfg_def unat16)

lemma run_store: "do_insn other (mat_store a l) u = command (st (unat a) l (unat (st_rows u)) (unat (st_rb u)) (unat (st_pitch u))) u"
  by (simp add: do_insn_def mat_store_def)

lemma run_exec:
  assumes "unat a < 65536" and "unat b < 65536" and "unat c < 65536" and "unat k < 4096"
  shows "do_insn other (mat_exec a b c k x) u = command (ex (unat a) (unat b) (unat c) (unat k) (x \<noteq> 0)
    (unat (ex_rep u)) (unat (ex_bstep u)) (unat (ex_cstep u)) (unat (ex_crow u))) u"
proof -
  have "funct7 (mat_exec a b c k x) = 1" "funct3 (mat_exec a b c k x) = 3" by (simp_all add: mat_exec_def)
  then show ?thesis
    by (simp add: do_insn_def exec_operands [OF assms])
qed

lemma run_vec:
  assumes "v_op (va u) AND 7 \<noteq> 6" and "\<not> bit (v_flags u) 0"
  shows "do_insn other (vec_run a b) u = command (ve (va u) a b) u"
  using assms by (simp add: do_insn_def vec_run_def)

lemma command_ok: "uerr u = None \<Longrightarrow> f (um u) = (m, None) \<Longrightarrow> command f u = u\<lparr>um := m, uerr := None\<rparr>"
  by (simp add: command_def)

text \<open>The configuration that loads leave alone.\<close>
definition kept :: "unit_state \<Rightarrow> unit_state \<Rightarrow> bool" where
  "kept u v \<longleftrightarrow> uerr v = None \<and> va v = va u \<and> v_flags v = v_flags u \<and> st_rows v = st_rows u \<and> st_rb v = st_rb u \<and>
     st_pitch v = st_pitch u \<and> ex_rep v = ex_rep u \<and> ex_bstep v = ex_bstep u \<and> ex_cstep v = ex_cstep u \<and> ex_crow v = ex_crow u"

lemma kept_trans: "kept u v \<Longrightarrow> kept v w \<Longrightarrow> kept u w"
  by (simp add: kept_def)

lemma kept_load: "uerr u = None \<Longrightarrow> kept u ((ld_cfg a b c d u)\<lparr>um := m, uerr := None\<rparr>)"
  by (simp add: kept_def)

lemma unat_lin: "unat a + i * unat b < 2 ^ 32 \<Longrightarrow> unat (a + of_nat i * b :: u32) = unat a + i * unat b"
proof -
  assume lt: "unat a + i * unat b < 2 ^ 32"
  have "a + of_nat i * b = of_nat (unat a + i * unat b)" by simp
  then show ?thesis using lt by (simp only: unsigned_of_nat) (simp add: take_bit_nat_eq_self)
qed

lemma mult8: "d = 8 \<or> d = 16 \<Longrightarrow> (n * d * k) mod 8 = (0::nat)" "d = 8 \<or> d = 16 \<Longrightarrow> (n * d) mod 8 = (0::nat)"
proof -
  assume "d = 8 \<or> d = 16"
  then have "8 dvd d" by auto
  then show "(n * d * k) mod 8 = 0" "(n * d) mod 8 = 0" by (auto intro: dvd_mult dvd_mult2 simp flip: dvd_eq_mod_eq_0)
qed

lemma mod8_add: "a mod 8 = 0 \<Longrightarrow> b mod 8 = 0 \<Longrightarrow> (a + b) mod 8 = (0::nat)"
  by presburger

lemma kept_err: "kept u v \<Longrightarrow> uerr v = None"
  by (simp add: kept_def)

lemma unat_fit: "n < 2 ^ 32 \<Longrightarrow> unat (of_nat n :: u32) = n"
  by (simp add: unsigned_of_nat take_bit_nat_eq_self)

text \<open>A unit for examples: an array of 8, every byte of DDR 1.\<close>
definition ones_unit :: unit_state where
  "ones_unit = \<lparr>ld_rows = 1, ld_rb = 8, ld_pitch = 8, ld_mode = 0, st_rows = 1, st_rb = 8, st_pitch = 8, ex_rep = 1, ex_bstep = 0, ex_cstep = 0,
     ex_crow = 1, va = \<lparr>v_op = 0, v_groups = 1, v_dst = 0, v_types = 10, v_mod = 0, v_scale = 1, v_shift = 0, v_zp = 0, v_lo = 0x80000000, v_hi = 0x7FFFFFFF\<rparr>,
     v_flags = 0, um = \<lparr>arr = 8, spad_words = 16384, acc_words = 8192, loc = (\<lambda>_ _. 0), ddr_base = 0x1000, ddr_bytes = 0x10000, ddr = (\<lambda>_. 1)\<rparr>,
     uerr = None\<rparr>"

end
