(* ===== verification/GemmSizes.thy ===== *)
theory GemmSizes
  imports GemmFw UnitCmd
begin

text \<open>
  What the GEMM firmware (\<^verbatim>\<open>firmware/gemm/gemm_fw.c\<close>) needs of its parameters, the numbers its derived
  variables stand for, the matrix it is meant to leave, and what the local memories hold on the way.
\<close>

section \<open>Sizes\<close>

text \<open>Bytes of an element of C.\<close>
definition c_bytes :: "gemm \<Rightarrow> nat" where
  "c_bytes g = (if gquant g then 1 else 4)"

text \<open>
  What the host must see to: dimensions that are multiples of the array size, an A strip and a C strip
  that fit a bank (with the int8 output, the A strip half a bank), a B that fits SPAD_B, operands in DDR,
  aligned, and C apart from what is read while C is written.
\<close>
definition gemm_fits :: "gemm \<Rightarrow> umem \<Rightarrow> bool" where
  "gemm_fits g m \<longleftrightarrow>
     (let d = unat (gd g); M = unat (gM g); N = unat (gN g); K = unat (gK g); es = c_bytes g;
          a = unat (ga g); b = unat (gb g); c = unat (gc g); bias = unat (gbias g); q = gquant g
      in (d = 8 \<or> d = 16) \<and> arr m = d \<and> spad_words m = 131072 div d \<and> acc_words m = 65536 div d \<and>
         d dvd M \<and> d dvd N \<and> d dvd K \<and> 0 < M \<and> 0 < N \<and> 0 < K \<and>
         K * d \<le> (if q then 32768 else 65536) \<and> N * d \<le> 32768 \<and> N * K \<le> 131072 \<and>
         (q \<and> bias \<noteq> 0 \<longrightarrow> (N + N div d) * d \<le> 32768) \<and>
         a mod 8 = 0 \<and> b mod 8 = 0 \<and> c mod 8 = 0 \<and> bias mod 8 = 0 \<and> ddr_base m + ddr_bytes m \<le> 2 ^ 32 \<and>
         ddr_ok m a (M * K) \<and> ddr_ok m b (K * N) \<and> ddr_ok m c (es * (M * N)) \<and>
         (bias \<noteq> 0 \<longrightarrow> ddr_ok m bias (if q then 4 * N else 4 * (M * N))) \<and>
         (a + M * K \<le> c \<or> c + es * (M * N) \<le> a) \<and>
         (bias \<noteq> 0 \<and> \<not> q \<longrightarrow> bias + 4 * (M * N) \<le> c \<or> c + es * (M * N) \<le> bias))"

text \<open>Strips of A, tiles of a strip, k-tiles, and the words of a bank.\<close>
record geo =
  D :: nat
  S :: nat
  T :: nat
  Q :: nat
  SB :: nat
  CB :: nat

definition gemm_geo :: "gemm \<Rightarrow> geo" where
  "gemm_geo g = (let d = unat (gd g) in
     \<lparr>D = d, S = unat (gM g) div d, T = unat (gN g) div d, Q = unat (gK g) div d, SB = 65536 div d, CB = 32768 div d\<rparr>)"

lemma fits_geo:
  assumes "gemm_fits g m" and "x = gemm_geo g"
  shows "unat (gd g) = D x" "unat (gM g) = S x * D x" "unat (gN g) = T x * D x" "unat (gK g) = Q x * D x"
    "D x = 8 \<or> D x = 16" "SB x * D x = 65536" "CB x * D x = 32768" "SB x = 2 * CB x" "0 < S x" "0 < T x" "0 < Q x"
    "Q x * D x \<le> SB x" "T x * D x \<le> CB x" "T x * (Q x * D x) \<le> 2 * SB x"
    "gquant g \<Longrightarrow> Q x * D x \<le> CB x" "gquant g \<Longrightarrow> gbias g \<noteq> 0 \<Longrightarrow> T x * D x + T x \<le> CB x"
    "arr m = D x" "spad_words m = 2 * SB x" "acc_words m = 2 * CB x"
proof -
  have d: "unat (gd g) = 8 \<or> unat (gd g) = 16" using assms(1) by (simp add: gemm_fits_def Let_def)
  obtain s t q where stq: "unat (gM g) = unat (gd g) * s" "unat (gN g) = unat (gd g) * t" "unat (gK g) = unat (gd g) * q"
    using assms(1) by (auto simp: gemm_fits_def Let_def dvd_def)
  have f: "arr m = unat (gd g)" "spad_words m = 131072 div unat (gd g)" "acc_words m = 65536 div unat (gd g)"
    "0 < unat (gM g)" "0 < unat (gN g)" "0 < unat (gK g)" "unat (gK g) * unat (gd g) \<le> (if gquant g then 32768 else 65536)"
    "unat (gN g) * unat (gd g) \<le> 32768" "unat (gN g) * unat (gK g) \<le> 131072"
    "gquant g \<and> unat (gbias g) \<noteq> 0 \<longrightarrow> (unat (gN g) + unat (gN g) div unat (gd g)) * unat (gd g) \<le> 32768"
    using assms(1) unfolding gemm_fits_def Let_def by blast+
  have x: "D x = unat (gd g)" "S x = s" "T x = t" "Q x = q" "SB x = 65536 div unat (gd g)" "CB x = 32768 div unat (gd g)"
    using d stq by (auto simp: assms(2) gemm_geo_def Let_def)
  have bz: "gbias g \<noteq> 0 \<Longrightarrow> unat (gbias g) \<noteq> 0" by (simp add: unat_eq_0)
  show "unat (gd g) = D x" "unat (gM g) = S x * D x" "unat (gN g) = T x * D x" "unat (gK g) = Q x * D x"
    "D x = 8 \<or> D x = 16" "SB x * D x = 65536" "CB x * D x = 32768" "SB x = 2 * CB x"
    "arr m = D x" "spad_words m = 2 * SB x" "acc_words m = 2 * CB x"
    using d stq f(1-3) by (auto simp: x)
  show "0 < S x" "0 < T x" "0 < Q x" using f(4-6) stq by (simp_all add: x)
  show "Q x * D x \<le> SB x" using d f(7) stq(3) by (auto simp: x split: if_splits)
  show "T x * D x \<le> CB x" using d f(8) stq(2) by (auto simp: x)
  show "T x * (Q x * D x) \<le> 2 * SB x" using d f(9) stq by (auto simp: x)
  show "gquant g \<Longrightarrow> Q x * D x \<le> CB x" using d f(7) stq(3) by (auto simp: x split: if_splits)
  show "gquant g \<Longrightarrow> gbias g \<noteq> 0 \<Longrightarrow> T x * D x + T x \<le> CB x" using d f(10) bz stq(2) by (auto simp: x)
qed

lemma geo_small:
  assumes "gemm_fits g m" and "x = gemm_geo g"
  shows "SB x \<le> 8192" "CB x \<le> 4096" "T x \<le> 512" "Q x \<le> 1024" "T x * D x \<le> 4096" "Q x * D x \<le> 8192"
proof -
  note f = fits_geo [OF assms]
  show "SB x \<le> 8192" "CB x \<le> 4096" using f(5-7) by auto
  then show "T x * D x \<le> 4096" "Q x * D x \<le> 8192" using f(12,13) by linarith+
  then show "T x \<le> 512" "Q x \<le> 1024" using f(5) by auto
qed

text \<open>The derived parameters as numbers.\<close>
lemma geo_words:
  assumes "gemm_fits g m" and "x = gemm_geo g"
  shows "unat (nt g) = T x" "unat (kt g) = Q x" "unat (sbank g) = SB x" "unat (cbank_w g) = CB x"
    "unat (cbytes g) = c_bytes g * (T x * D x)" "unat (4 * gN g) = 4 * (T x * D x)" "unat (vbias g) = CB x - T x"
    "unat (qout g) = CB x" "unat (nt0 g) = (T x + 1) div 2" "unat (nt1 g) = T x div 2"
    "unat (nt0 g * gd g) = (T x + 1) div 2 * D x" "unat (nt1 g * gd g) = T x div 2 * D x" "unat (gd g * gN g) = D x * (T x * D x)"
    "bsplit g \<Longrightarrow> (T x + 1) div 2 * (Q x * D x) \<le> SB x \<and> 0 < T x div 2"
proof -
  note f = fits_geo [OF assms] and s = geo_small [OF assms]
  have D: "D x \<noteq> 0" using f(5) by auto
  show n: "unat (nt g) = T x" and "unat (kt g) = Q x"
    using D by (simp_all add: nt_def kt_def unat_div_distrib f(1,3,4))
  have gd: "gd g = 8 \<or> gd g = 16"
  proof -
    have "gd g = of_nat (D x)" by (simp flip: f(1))
    then show ?thesis using f(5) by auto
  qed
  show sb: "unat (sbank g) = SB x" and cb: "unat (cbank_w g) = CB x"
    using gd f(1,6,7) by (auto simp: sbank_def cbank_w_def SA_SPAD_BANK_def SA_ACC_BANK_def SA_SPAD_WORDS_def SA_ACC_WORDS_def)
  show n4: "unat (4 * gN g) = 4 * (T x * D x)"
  proof -
    have "4 * (T x * D x) < 4294967296" using s(5) by linarith
    then show ?thesis by (simp only: unat_word_ariths f(3)) simp
  qed
  then show "unat (cbytes g) = c_bytes g * (T x * D x)" by (simp add: cbytes_def c_bytes_def f(3))
  have tc: "T x \<le> CB x" using f(13) D by (metis le_trans mult.right_neutral mult_le_mono2 One_nat_def Suc_leI neq0_conv)
  then show "unat (vbias g) = CB x - T x"
    unfolding vbias_def by (subst unat_sub) (simp_all add: word_le_nat_alt n cb)
  show "unat (qout g) = CB x" by (simp add: qout_def unat_div_distrib sb f(8))
  have n1: "unat (nt g + 1) = T x + 1" using s(3) by (simp add: unat_word_ariths n)
  show n0: "unat (nt0 g) = (T x + 1) div 2" by (simp add: nt0_def unat_div_distrib n1)
  show n1: "unat (nt1 g) = T x div 2"
    unfolding nt1_def by (subst unat_sub) (simp_all add: word_le_nat_alt n n0)
  have le: "(T x + 1) div 2 * D x \<le> T x * D x" "T x div 2 * D x \<le> T x * D x" using f(10) by (intro mult_le_mono1; simp)+
  show "unat (nt0 g * gd g) = (T x + 1) div 2 * D x" "unat (nt1 g * gd g) = T x div 2 * D x"
  proof -
    have "(T x + 1) div 2 * D x < 4294967296" "T x div 2 * D x < 4294967296" using le s(5) by linarith+
    then show "unat (nt0 g * gd g) = (T x + 1) div 2 * D x" "unat (nt1 g * gd g) = T x div 2 * D x"
      by (simp_all only: unat_word_ariths n0 n1 f(1)) simp_all
  qed
  have "D x * (T x * D x) \<le> 16 * 4096" using s(5) f(5) by (intro mult_le_mono) auto
  then show "unat (gd g * gN g) = D x * (T x * D x)" by (simp add: unat_word_ariths f(1,3))
  have "(T x + 1) div 2 * (Q x * D x) \<le> 512 * 8192" using s(3,6) by (intro mult_le_mono) auto
  then have p: "unat (nt0 g * gK g) = (T x + 1) div 2 * (Q x * D x)" by (simp add: unat_word_ariths n0 f(4))
  show "(T x + 1) div 2 * (Q x * D x) \<le> SB x \<and> 0 < T x div 2" if "bsplit g"
  proof -
    from that have a: "nt1 g \<noteq> 0" and b: "nt0 g * gK g \<le> sbank g" by (auto simp: bsplit_def)
    from a have "unat (nt1 g) \<noteq> 0" by (simp add: unat_eq_0)
    then show ?thesis using b by (simp only: word_le_nat_alt p sb n1) simp
  qed
qed

lemma fits_upd [simp]: "gemm_fits g (m\<lparr>loc := l\<rparr>) = gemm_fits g m" "gemm_fits g (m\<lparr>ddr := h\<rparr>) = gemm_fits g m"
  by (cases m; simp only: gemm_fits_def ddr_ok_def umem.simps)+

section \<open>What the program is for\<close>

text \<open>The product at row \<open>i\<close> and column \<open>j\<close>, from the operands in \<open>f\<close>.\<close>
definition gemm_sum :: "gemm \<Rightarrow> (nat \<Rightarrow> u8) \<Rightarrow> nat \<Rightarrow> nat \<Rightarrow> int" where
  "gemm_sum g f i j =
     (\<Sum>k<unat (gK g). get_int f (unat (ga g) + (i * unat (gK g) + k)) 1 * get_int f (unat (gb g) + (k * unat (gN g) + j)) 1)"

definition gemm_acc :: "gemm \<Rightarrow> (nat \<Rightarrow> u8) \<Rightarrow> nat \<Rightarrow> nat \<Rightarrow> int" where
  "gemm_acc g f i j =
     signed_take_bit 31 (gemm_sum g f i j + (if bias_strip g \<noteq> 0 then get_int f (unat (gbias g) + 4 * (i * unat (gN g) + j)) 4 else 0))"

definition gemm_out :: "gemm \<Rightarrow> (nat \<Rightarrow> u8) \<Rightarrow> nat \<Rightarrow> nat \<Rightarrow> int" where
  "gemm_out g f i j =
     (if gquant g
      then ve_post (bit (gop g) 4) (bit (gop g) 5) (ucast (gscale g)) (unat (ucast (gshift g) :: 5 word)) (gzp g) (glo g) (ghi g) 0
             (if gbias g \<noteq> 0 then ve_op 0 (gemm_acc g f i j) (get_int f (unat (gbias g) + 4 * j) 4) else gemm_acc g f i j)
      else gemm_acc g f i j)"

section \<open>What the memories hold\<close>

definition abank :: "gemm \<Rightarrow> bool \<Rightarrow> nat" where "abank g od = (if od then SB (gemm_geo g) else 0)"
definition cbank :: "gemm \<Rightarrow> bool \<Rightarrow> nat" where "cbank g od = (if od then CB (gemm_geo g) else 0)"

definition bpos :: "gemm \<Rightarrow> nat \<Rightarrow> nat" where
  "bpos g s = (let h = (T (gemm_geo g) + 1) div 2 in
     if bsplit g \<and> h \<le> s then SB (gemm_geo g) + (s - h) * unat (gK g) else s * unat (gK g))"

definition has_a :: "gemm \<Rightarrow> (nat \<Rightarrow> u8) \<Rightarrow> bool \<Rightarrow> nat \<Rightarrow> umem \<Rightarrow> bool" where
  "has_a g f od i m \<longleftrightarrow>
     (\<forall>r < arr m. \<forall>k < unat (gK g). loc m 1 ((abank g od + k div arr m * arr m + r) * arr m + k mod arr m) = f (unat (ga g) + ((i + r) * unat (gK g) + k)))"

definition has_b :: "gemm \<Rightarrow> (nat \<Rightarrow> u8) \<Rightarrow> umem \<Rightarrow> bool" where
  "has_b g f m \<longleftrightarrow>
     (\<forall>k < unat (gK g). \<forall>s < T (gemm_geo g). \<forall>l < arr m.
        loc m 2 ((bpos g s + k) * arr m + l) = f (unat (gb g) + (k * unat (gN g) + (s * arr m + l))))"

definition has_bias :: "gemm \<Rightarrow> (nat \<Rightarrow> u8) \<Rightarrow> bool \<Rightarrow> nat \<Rightarrow> umem \<Rightarrow> bool" where
  "has_bias g f od i m \<longleftrightarrow> (bias_strip g \<noteq> 0 \<longrightarrow>
     (\<forall>r < arr m. \<forall>j < unat (gN g). cell 4 (loc m 3) (cbank g od * arr m + (r * unat (gN g) + j)) =
        get_int f (unat (gbias g) + 4 * ((i + r) * unat (gN g) + j)) 4))"

definition has_vec :: "gemm \<Rightarrow> (nat \<Rightarrow> u8) \<Rightarrow> umem \<Rightarrow> bool" where
  "has_vec g f m \<longleftrightarrow> (gquant g \<and> gbias g \<noteq> 0 \<longrightarrow>
     (\<forall>od. \<forall>j < unat (gN g). cell 4 (loc m 3) ((cbank g od + (CB (gemm_geo g) - T (gemm_geo g))) * arr m + j) =
        get_int f (unat (gbias g) + 4 * j) 4))"

text \<open>Nothing but C has changed.\<close>
definition only_c :: "gemm \<Rightarrow> (nat \<Rightarrow> u8) \<Rightarrow> (nat \<Rightarrow> u8) \<Rightarrow> bool" where
  "only_c g f h \<longleftrightarrow> (\<forall>y. y < unat (gc g) \<or> unat (gc g) + c_bytes g * (unat (gM g) * unat (gN g)) \<le> y \<longrightarrow> h y = f y)"

text \<open>Rows of a matrix in DDR.\<close>
lemma rows_in_ddr:
  assumes "ddr_ok m a (e * (M * w))" and "s * d + d \<le> M"
  shows "ddr_ok m (a + s * d * (e * w)) (d * (e * w))"
proof -
  have "(s * d + d) * (e * w) \<le> M * (e * w)" using assms(2) by (rule mult_le_mono1)
  moreover have "e * (M * w) = M * (e * w)" by (simp add: ac_simps)
  ultimately show ?thesis using assms(1) unfolding ddr_ok_def add_mult_distrib by linarith
qed

lemma strip_room: "s < n \<Longrightarrow> s * d + d \<le> n * (d::nat)"
  by (metis Suc_leI add.commute mult_Suc mult_le_mono1)

end
