(* ===== verification/GemmLoad.thy ===== *)
theory GemmLoad
  imports GemmSizes
begin

text \<open>
  The loads of the GEMM firmware: strips of A, rows of the bias, and the column strips of B.
\<close>

section \<open>Loading a strip\<close>

lemma load_a:
  fixes od :: bool
  assumes fits: "gemm_fits g (um u)" and e: "uerr u = None" and s: "s < S (gemm_geo g)" and c: "only_c g f (ddr (um u))"
  defines "is \<equiv> mat_cfg_load (gd g) (gK g) (gK g) SA_LD_INTERLEAVE @
     [mat_load (ga g + of_nat (s * D (gemm_geo g)) * gK g) (SA_LADDR SA_MEM_SPAD_A (if od then sbank g else 0))]"
  obtains b v where "do_insns other is u = v" and "kept u v" and "um v = (um u)\<lparr>loc := (loc (um u))(1 := b)\<rparr>"
    and "has_a g f od (s * D (gemm_geo g)) (um v)"
    and "\<And>y. y < abank g od * arr (um u) \<or> (abank g od + unat (gK g)) * arr (um u) \<le> y \<Longrightarrow> b y = loc (um u) 1 y"
proof -
  define x where "x = gemm_geo g"
  note G = fits_geo [OF fits x_def] and sm = geo_small [OF fits x_def] and W = geo_words [OF fits x_def]
  let ?m = "um u" and ?a = "ga g + of_nat (s * D x) * gK g" and ?w = "if od then sbank g else 0"
  have base: "ddr_base ?m + ddr_bytes ?m \<le> 2 ^ 32" "ddr_ok ?m (unat (ga g)) (1 * (S x * D x * (Q x * D x)))" "unat (ga g) mod 8 = 0"
    using fits unfolding gemm_fits_def Let_def G(2-4) by simp_all
  have room: "s * D x + D x \<le> S x * D x" using strip_room [of s "S x" "D x"] s by (simp add: x_def)
  from rows_in_ddr [OF base(2) room] have ok: "ddr_ok ?m (unat (ga g) + s * D x * (Q x * D x)) (D x * (Q x * D x))" by simp
  have dq: "0 < D x * (Q x * D x)" "D x \<noteq> 0" using G(5,11) by auto
  have addr: "unat ?a = unat (ga g) + s * D x * (Q x * D x)"
  proof -
    have "unat (ga g) + s * D x * unat (gK g) < 2 ^ 32"
      using ok base(1) dq unfolding ddr_ok_def G(4) by linarith
    from unat_lin [OF this] show ?thesis by (simp only: G(4))
  qed
  have word: "unat ?w = abank g od" using W(3) by (simp add: abank_def x_def)
  have w16: "unat ?w < 65536" using W(3) sm(1) by simp
  have la: "laddr_mem (SA_LADDR 1 ?w) = 1" "laddr_word (SA_LADDR 1 ?w) = abank g od"
    using laddr_mem_of [OF w16, of 1] laddr_word_of [OF w16, of 1] word by simp_all
  have ab: "abank g od \<le> SB x" by (simp add: abank_def x_def)
  have chk: "check_dma ENG_LD ?m (unat ?a) 1 (abank g od) (D x) (Q x * D x) (Q x * D x) True = None"
  proof -
    have "unat ?a mod 8 = 0" unfolding addr by (rule mod8_add [OF base(3) mult8(1) [OF G(5)]])
    moreover have "abank g od + Q x * D x div D x * D x - 1 < 2 * SB x"
    proof -
      have "0 < Q x * D x" using G(11) dq(2) by simp
      then have "abank g od + Q x * D x - 1 < 2 * SB x" using ab G(12) by linarith
      then show ?thesis using dq(2) by simp
    qed
    ultimately show ?thesis
      using mult8(2) [OF G(5)] dq G(11) by (simp add: check_dma_def depth_def G(17,18))
  qed
  have rows: "ddr_ok ?m (unat ?a + r * (Q x * D x)) (Q x * D x)" if "r < D x" for r
  proof -
    have "(r + 1) * (Q x * D x) \<le> D x * (Q x * D x)" using that by (intro mult_le_mono1) simp
    then show ?thesis using ok unfolding ddr_ok_def addr by simp
  qed
  obtain b where
    run: "ld (unat ?a) (SA_LADDR 1 ?w) (D x) (Q x * D x) (Q x * D x) True ?m = (?m\<lparr>loc := (loc ?m)(1 := b)\<rparr>, None)" and
    ins: "\<And>r c y. \<lbrakk>r < D x; c < Q x; y < arr ?m\<rbrakk> \<Longrightarrow>
        b ((abank g od + c * D x + r) * arr ?m + y) = ddr ?m (unat ?a + r * (Q x * D x) + c * arr ?m + y)" and
    outs: "\<And>y. y < abank g od * arr ?m \<or> (abank g od + Q x * D x) * arr ?m \<le> y \<Longrightarrow> b y = loc ?m 1 y"
    by (rule ld_interleave [OF chk la rows, of "Q x"]) (use G(17) dq in auto)
  define v where "v = (ld_cfg (gd g) (gK g) (gK g) 1 u)\<lparr>um := ?m\<lparr>loc := (loc ?m)(1 := b)\<rparr>, uerr := None\<rparr>"
  have same: "ddr ?m y = f y" if "unat (ga g) \<le> y" "y < unat (ga g) + S x * D x * (Q x * D x)" for y
  proof -
    have "unat (ga g) + unat (gM g) * unat (gK g) \<le> unat (gc g) \<or> unat (gc g) + c_bytes g * (unat (gM g) * unat (gN g)) \<le> unat (ga g)"
      using fits by (simp add: gemm_fits_def Let_def)
    then show ?thesis using that c unfolding only_c_def G(2,4) by fastforce
  qed
  have "unat (gd g) < 65536" "unat (gK g) < 65536" using G(1,4,5) sm(6) by auto
  then have "do_insns other is u = command (ld (unat ?a) (SA_LADDR 1 ?w) (unat (gd g)) (unat (gK g)) (unat (gK g)) (1 = (1 :: u32)))
      (ld_cfg (gd g) (gK g) (gK g) 1 u)"
    unfolding is_def x_def [symmetric] by (intro run_load) simp_all
  also have "\<dots> = v"
    unfolding v_def by (rule command_ok) (simp_all only: ld_cfg_kept e G(1,4) run simp_thms)
  finally have "do_insns other is u = v" .
  moreover have "kept u v" unfolding v_def by (rule kept_load [OF e])
  moreover have "um v = ?m\<lparr>loc := (loc ?m)(1 := b)\<rparr>" by (simp add: v_def)
  moreover have "has_a g f od (s * D x) (um v)"
    unfolding has_a_def
  proof (intro allI impI)
    fix r k assume r: "r < arr (um v)" and k: "k < unat (gK g)"
    have am: "arr (um v) = D x" by (simp add: v_def G(17))
    have kd: "k div D x < Q x" "k mod D x < D x" "k div D x * D x + k mod D x = k"
      using k dq(2) by (simp_all add: G(4) less_mult_imp_div_less)
    have "loc (um v) 1 ((abank g od + k div D x * D x + r) * D x + k mod D x) = ddr ?m (unat ?a + r * (Q x * D x) + (k div D x * D x + k mod D x))"
      using ins [of r "k div D x" "k mod D x"] r kd(1,2) by (simp add: v_def G(17) am ac_simps)
    also have "unat ?a + r * (Q x * D x) + (k div D x * D x + k mod D x) = unat (ga g) + ((s * D x + r) * (Q x * D x) + k)"
      unfolding addr kd(3) by (simp add: algebra_simps)
    also have "ddr ?m \<dots> = f \<dots>"
    proof (rule same)
      have "(s * D x + r + 1) * (Q x * D x) \<le> S x * D x * (Q x * D x)" using room r am by (intro mult_le_mono1) simp
      then show "unat (ga g) + ((s * D x + r) * (Q x * D x) + k) < unat (ga g) + S x * D x * (Q x * D x)"
        using k unfolding G(4) by simp
    qed simp
    finally show "loc (um v) 1 ((abank g od + k div arr (um v) * arr (um v) + r) * arr (um v) + k mod arr (um v)) =
        f (unat (ga g) + ((s * D x + r) * unat (gK g) + k))" by (simp add: am G(4))
  qed
  ultimately show thesis
    using outs by (intro that [of v b]) (simp_all add: x_def G(4) [unfolded x_def])
qed

section \<open>Loading the bias\<close>

text \<open>Rows of N integers loaded into the accumulator.\<close>
lemma acc_rows:
  fixes a w :: u32
  assumes fits: "gemm_fits g m" and x: "x = gemm_geo g" and al: "unat a mod 8 = 0" and ok: "ddr_ok m (unat a) (4 * (rows * (T x * D x)))"
    and w: "unat w + rows * T x \<le> 2 * CB x" and r: "0 < rows"
  obtains b where "ld (unat a) (SA_LADDR 3 w) rows (4 * (T x * D x)) (4 * (T x * D x)) False m = (m\<lparr>loc := (loc m)(3 := b)\<rparr>, None)"
    and "\<And>q. q < rows * (T x * D x) \<Longrightarrow> cell 4 b (unat w * D x + q) = get_int (ddr m) (unat a + 4 * q) 4"
    and "\<And>q. q < unat w * D x \<or> unat w * D x + rows * (T x * D x) \<le> q \<Longrightarrow> cell 4 b q = cell 4 (loc m 3) q"
proof -
  note G = fits_geo [OF fits x] and sm = geo_small [OF fits x]
  let ?rb = "4 * (T x * D x)"
  have D: "0 < D x" using G(5) by auto
  have wb: "wbytes m 3 = 4 * D x" by (simp add: wbytes_def G(17))
  have w16: "unat w < 65536" using w sm(2) by linarith
  have la: "laddr_mem (SA_LADDR 3 w) = 3" "laddr_word (SA_LADDR 3 w) = unat w"
    using laddr_mem_of [OF w16, of 3] laddr_word_of [OF w16, of 3] by simp_all
  have q: "?rb = T x * wbytes m 3" "0 < ?rb" using G(10) D by (simp_all add: wb)
  have chk: "check_dma ENG_LD m (unat a) 3 (unat w) rows ?rb ?rb False = None"
  proof -
    have "ceil_div ?rb (wbytes m 3) = T x" unfolding q(1) by (rule ceil_div_mult) (simp add: wb D)
    moreover have "?rb mod 8 = 0" using mult8(2) [OF G(5), of "4 * T x"] by (simp add: ac_simps)
    moreover have "unat w + T x * rows - 1 < 2 * CB x"
    proof -
      have "0 < T x * rows" using r G(10) by simp
      then show ?thesis using w by (simp only: mult.commute [of "T x"])
    qed
    ultimately show ?thesis using al q(2) r by (simp add: check_dma_def depth_def G(19))
  qed
  have ok': "ddr_ok m (unat a) (rows * ?rb)" using ok by (simp add: ac_simps)
  obtain b where
    run: "ld (unat a) (SA_LADDR 3 w) rows ?rb ?rb False m = (m\<lparr>loc := (loc m)(3 := b)\<rparr>, None)" and
    ins: "\<And>y. y < rows * ?rb \<Longrightarrow> b (unat w * wbytes m 3 + y) = ddr m (unat a + y)" and
    outs: "\<And>y. y < unat w * wbytes m 3 \<or> unat w * wbytes m 3 + rows * ?rb \<le> y \<Longrightarrow> b y = loc m 3 y"
    by (rule ld_linear [OF chk la ok' q]) blast
  show thesis
  proof (rule that [OF run])
    fix p assume p: "p < rows * (T x * D x)"
    show "cell 4 b (unat w * D x + p) = get_int (ddr m) (unat a + 4 * p) 4"
      unfolding cell_def
    proof (rule get_int_move)
      fix k :: nat assume k: "k < 4"
      have "4 * p + k < rows * ?rb" using p k by simp
      from ins [OF this] show "b ((unat w * D x + p) * 4 + k) = ddr m (unat a + 4 * p + k)"
        by (simp add: wb algebra_simps)
    qed
  next
    fix p assume p: "p < unat w * D x \<or> unat w * D x + rows * (T x * D x) \<le> p"
    show "cell 4 b p = cell 4 (loc m 3) p"
      unfolding cell_def
    proof (rule get_int_frame)
      fix y assume y: "p * 4 \<le> y" "y < p * 4 + 4"
      have "y < 4 * e \<or> 4 * e' \<le> y" if "p < e \<or> e' \<le> p" for e e' using that y by auto
      from this [OF p] have "y < 4 * (unat w * D x) \<or> 4 * (unat w * D x + rows * (T x * D x)) \<le> y" .
      then show "b y = loc m 3 y" by (intro outs) (auto simp: wb algebra_simps)
    qed
  qed
qed

lemma fits_bias:
  assumes "gemm_fits g m" and "x = gemm_geo g" and "gbias g \<noteq> 0"
  shows "unat (gbias g) mod 8 = 0" and "gquant g \<Longrightarrow> ddr_ok m (unat (gbias g)) (4 * (T x * D x))"
    and "\<not> gquant g \<Longrightarrow> ddr_ok m (unat (gbias g)) (4 * (S x * D x * (T x * D x)))"
    and "\<not> gquant g \<Longrightarrow> only_c g f h \<Longrightarrow> p + k \<le> S x * D x * (T x * D x) \<Longrightarrow> y < 4 * k \<Longrightarrow>
      h (unat (gbias g) + 4 * p + y) = f (unat (gbias g) + 4 * p + y)"
proof -
  note G = fits_geo [OF assms(1,2)]
  have b: "unat (gbias g) \<noteq> 0" using assms(3) by (simp add: unat_eq_0)
  show "unat (gbias g) mod 8 = 0" using assms(1) by (simp add: gemm_fits_def Let_def)
  show "gquant g \<Longrightarrow> ddr_ok m (unat (gbias g)) (4 * (T x * D x))" "\<not> gquant g \<Longrightarrow> ddr_ok m (unat (gbias g)) (4 * (S x * D x * (T x * D x)))"
    using assms(1) b unfolding gemm_fits_def Let_def G(2,3) by simp_all
  assume q: "\<not> gquant g" and h: "only_c g f h" and p: "p + k \<le> S x * D x * (T x * D x)" "y < 4 * k"
  have "unat (gbias g) + 4 * (S x * D x * (T x * D x)) \<le> unat (gc g) \<or> unat (gc g) + c_bytes g * (S x * D x * (T x * D x)) \<le> unat (gbias g)"
    using assms(1) b q unfolding gemm_fits_def Let_def G(2,3) by simp
  then have "unat (gbias g) + 4 * p + y < unat (gc g) \<or> unat (gc g) + c_bytes g * (S x * D x * (T x * D x)) \<le> unat (gbias g) + 4 * p + y"
    using p by linarith
  then show "h (unat (gbias g) + 4 * p + y) = f (unat (gbias g) + 4 * p + y)" using h unfolding only_c_def G(2,3) by blast
qed

lemma load_bias:
  fixes od :: bool
  assumes fits: "gemm_fits g (um u)" and e: "uerr u = None" and s: "s < S (gemm_geo g)" and c: "only_c g f (ddr (um u))"
    and bs: "bias_strip g \<noteq> 0"
  defines "is \<equiv> mat_cfg_load (gd g) (4 * gN g) (4 * gN g) SA_LD_LINEAR @
     [mat_load (gbias g + of_nat (s * D (gemm_geo g)) * 4 * gN g) (SA_LADDR SA_MEM_ACC (if od then cbank_w g else 0))]"
  obtains b v where "do_insns other is u = v" and "kept u v" and "um v = (um u)\<lparr>loc := (loc (um u))(3 := b)\<rparr>"
    and "has_bias g f od (s * D (gemm_geo g)) (um v)"
    and "\<And>q. q < cbank g od * arr (um u) \<or> (cbank g od + unat (gN g)) * arr (um u) \<le> q \<Longrightarrow> cell 4 b q = cell 4 (loc (um u) 3) q"
proof -
  define x where "x = gemm_geo g"
  note G = fits_geo [OF fits x_def] and sm = geo_small [OF fits x_def] and W = geo_words [OF fits x_def]
  let ?m = "um u" and ?a = "gbias g + of_nat (s * D x) * 4 * gN g" and ?w = "if od then cbank_w g else 0"
  have nz: "gbias g \<noteq> 0" "\<not> gquant g" using bs by (auto simp: bias_strip_def split: if_splits)
  note B = fits_bias [OF fits x_def nz(1)]
  have D: "0 < D x" using G(5) by auto
  have room: "s * D x + D x \<le> S x * D x" using strip_room [of s "S x" "D x"] s by (simp add: x_def)
  from rows_in_ddr [OF B(3) [OF nz(2)] room] have ok: "ddr_ok ?m (unat (gbias g) + s * D x * (4 * (T x * D x))) (D x * (4 * (T x * D x)))" .
  have pos: "0 < D x * (4 * (T x * D x))" using D G(10) by simp
  have addr: "unat ?a = unat (gbias g) + s * D x * (4 * (T x * D x))"
  proof -
    have "ddr_base ?m + ddr_bytes ?m \<le> 2 ^ 32" using fits unfolding gemm_fits_def Let_def by simp
    then have lt: "unat (gbias g) + s * D x * unat (4 * gN g) < 2 ^ 32"
      using ok pos unfolding ddr_ok_def W(6) by linarith
    have "?a = gbias g + of_nat (s * D x) * (4 * gN g)" by (simp add: ac_simps)
    then show ?thesis using unat_lin [OF lt] by (simp only: W(6))
  qed
  have word: "unat ?w = cbank g od" using W(4) by (simp add: cbank_def x_def)
  have cb: "cbank g od \<le> CB x" by (simp add: cbank_def x_def)
  have al: "unat ?a mod 8 = 0" unfolding addr by (rule mod8_add [OF B(1) mult8(1) [OF G(5)]])
  have ok2: "ddr_ok ?m (unat ?a) (4 * (D x * (T x * D x)))" unfolding addr using ok by (simp add: ac_simps)
  have fit: "unat ?w + D x * T x \<le> 2 * CB x" unfolding word using cb G(13) by (simp only: mult.commute [of "D x"])
  obtain b where
    run: "ld (unat ?a) (SA_LADDR 3 ?w) (D x) (4 * (T x * D x)) (4 * (T x * D x)) False ?m = (?m\<lparr>loc := (loc ?m)(3 := b)\<rparr>, None)" and
    ins: "\<And>q. q < D x * (T x * D x) \<Longrightarrow> cell 4 b (unat ?w * D x + q) = get_int (ddr ?m) (unat ?a + 4 * q) 4" and
    outs: "\<And>q. q < unat ?w * D x \<or> unat ?w * D x + D x * (T x * D x) \<le> q \<Longrightarrow> cell 4 b q = cell 4 (loc ?m 3) q"
    by (rule acc_rows [OF fits x_def al ok2 fit D]) blast
  define v where "v = (ld_cfg (gd g) (4 * gN g) (4 * gN g) 0 u)\<lparr>um := ?m\<lparr>loc := (loc ?m)(3 := b)\<rparr>, uerr := None\<rparr>"
  have "unat (gd g) < 65536" "unat (4 * gN g) < 65536" unfolding W(6) using G(1,5) sm(5) by auto
  then have "do_insns other is u = command (ld (unat ?a) (SA_LADDR 3 ?w) (unat (gd g)) (unat (4 * gN g)) (unat (4 * gN g)) (0 = (1 :: u32)))
      (ld_cfg (gd g) (4 * gN g) (4 * gN g) 0 u)"
    unfolding is_def x_def [symmetric] by (intro run_load) simp_all
  also have "\<dots> = v"
    unfolding v_def by (rule command_ok) (simp_all only: ld_cfg_kept e G(1) W(6) run simp_thms zero_neq_one)
  finally have "do_insns other is u = v" .
  moreover have "kept u v" unfolding v_def by (rule kept_load [OF e])
  moreover have umv: "um v = ?m\<lparr>loc := (loc ?m)(3 := b)\<rparr>" by (simp add: v_def)
  moreover have "has_bias g f od (s * D x) (um v)"
    unfolding has_bias_def
  proof (intro allI impI)
    fix r j assume r: "r < arr (um v)" and j: "j < unat (gN g)"
    have am: "arr (um v) = D x" by (simp add: v_def G(17))
    have rj: "r * (T x * D x) + j < D x * (T x * D x)"
    proof -
      have "(r + 1) * (T x * D x) \<le> D x * (T x * D x)" using r am by (intro mult_le_mono1) simp
      then show ?thesis using j unfolding G(3) by simp
    qed
    have "cell 4 b (cbank g od * D x + (r * (T x * D x) + j)) = get_int (ddr ?m) (unat ?a + 4 * (r * (T x * D x) + j)) 4"
      using ins [OF rj] by (simp add: word)
    also have "\<dots> = get_int (ddr ?m) (unat (gbias g) + 4 * ((s * D x + r) * (T x * D x) + j)) 4"
      unfolding addr by (simp add: algebra_simps)
    also have "\<dots> = get_int f (unat (gbias g) + 4 * ((s * D x + r) * (T x * D x) + j)) 4"
    proof (rule get_int_move)
      fix k :: nat assume k: "k < 4"
      have "(s * D x + r + 1) * (T x * D x) \<le> S x * D x * (T x * D x)" using room r am by (intro mult_le_mono1) simp
      then have "(s * D x + r) * (T x * D x) + j + 1 \<le> S x * D x * (T x * D x)" using j unfolding G(3) by simp
      from B(4) [OF nz(2) c this] k show "ddr ?m (unat (gbias g) + 4 * ((s * D x + r) * (T x * D x) + j) + k) =
        f (unat (gbias g) + 4 * ((s * D x + r) * (T x * D x) + j) + k)" by simp
    qed
    finally show "cell 4 (loc (um v) 3) (cbank g od * arr (um v) + (r * unat (gN g) + j)) =
        get_int f (unat (gbias g) + 4 * ((s * D x + r) * unat (gN g) + j)) 4"
      unfolding am G(3) by (simp add: umv)
  qed
  moreover have "cell 4 b q = cell 4 (loc ?m 3) q"
    if "q < cbank g od * arr ?m \<or> (cbank g od + unat (gN g)) * arr ?m \<le> q" for q
    using outs [of q] that by (simp add: word G(3,17) algebra_simps)
  ultimately show thesis by (intro that [of v b]) (simp_all add: x_def)
qed

text \<open>Both loads of a strip; SPAD_B stays, and the accumulator outside the strip's rows.\<close>
lemma load_strip_ok:
  fixes od :: bool
  assumes fits: "gemm_fits g (um u)" and e: "uerr u = None" and s: "s < S (gemm_geo g)" and c: "only_c g f (ddr (um u))"
  obtains l v where "do_insns other (load_strip g (of_nat (s * D (gemm_geo g))) (if od then sbank g else 0) (if od then cbank_w g else 0)) u = v"
    and "kept u v" and "um v = (um u)\<lparr>loc := l\<rparr>" and "l 2 = loc (um u) 2"
    and "has_a g f od (s * D (gemm_geo g)) (um v)" and "has_bias g f od (s * D (gemm_geo g)) (um v)"
    and "\<And>y. y < abank g od * arr (um u) \<or> (abank g od + unat (gK g)) * arr (um u) \<le> y \<Longrightarrow> l 1 y = loc (um u) 1 y"
    and "\<And>q. q < cbank g od * arr (um u) \<or> (cbank g od + unat (gN g)) * arr (um u) \<le> q \<Longrightarrow> cell 4 (l 3) q = cell 4 (loc (um u) 3) q"
proof -
  obtain b1 u1 where 1: "do_insns other (mat_cfg_load (gd g) (gK g) (gK g) SA_LD_INTERLEAVE @
     [mat_load (ga g + of_nat (s * D (gemm_geo g)) * gK g) (SA_LADDR SA_MEM_SPAD_A (if od then sbank g else 0))]) u = u1" "kept u u1"
    "um u1 = (um u)\<lparr>loc := (loc (um u))(1 := b1)\<rparr>" "has_a g f od (s * D (gemm_geo g)) (um u1)"
    "\<And>y. y < abank g od * arr (um u) \<or> (abank g od + unat (gK g)) * arr (um u) \<le> y \<Longrightarrow> b1 y = loc (um u) 1 y"
    by (rule load_a [OF fits e s c, of other od]) blast
  show thesis
  proof (cases "bias_strip g \<noteq> 0")
    case False
    then have "do_insns other (load_strip g (of_nat (s * D (gemm_geo g))) (if od then sbank g else 0) (if od then cbank_w g else 0)) u = u1"
      using 1(1) by (simp add: load_strip_def)
    from that [OF this 1(2,3)] 1(4,5) False show thesis by (simp add: has_bias_def 1(3))
  next
    case True
    have f1: "gemm_fits g (um u1)" "only_c g f (ddr (um u1))" "uerr u1 = None" using fits c kept_err [OF 1(2)] by (simp_all add: 1(3))
    obtain b3 v where 2: "do_insns other (mat_cfg_load (gd g) (4 * gN g) (4 * gN g) SA_LD_LINEAR @
       [mat_load (gbias g + of_nat (s * D (gemm_geo g)) * 4 * gN g) (SA_LADDR SA_MEM_ACC (if od then cbank_w g else 0))]) u1 = v" "kept u1 v"
      "um v = (um u1)\<lparr>loc := (loc (um u1))(3 := b3)\<rparr>" "has_bias g f od (s * D (gemm_geo g)) (um v)"
      "\<And>q. q < cbank g od * arr (um u1) \<or> (cbank g od + unat (gN g)) * arr (um u1) \<le> q \<Longrightarrow> cell 4 b3 q = cell 4 (loc (um u1) 3) q"
      by (rule load_bias [OF f1(1,3) s f1(2) True, of other od]) blast
    have "do_insns other (load_strip g (of_nat (s * D (gemm_geo g))) (if od then sbank g else 0) (if od then cbank_w g else 0)) u = v"
      using True 1(1) 2(1) unfolding load_strip_def by (simp only: if_True simp_thms do_insns_append)
    moreover have "um v = (um u)\<lparr>loc := (loc (um u))(1 := b1, 3 := b3)\<rparr>" by (simp add: 2(3) 1(3))
    moreover have "has_a g f od (s * D (gemm_geo g)) (um v)" using 1(4) by (simp add: has_a_def 2(3))
    ultimately show thesis
      using 1(5) 2(4,5) kept_trans [OF 1(2) 2(2)] by (intro that [of v "(loc (um u))(1 := b1, 3 := b3)"]) (simp_all add: 1(3))
  qed
qed

section \<open>Loading B\<close>

text \<open>\<open>n\<close> column strips of B from strip \<open>s0\<close> on, to word \<open>w\<close>.\<close>
lemma load_cols:
  fixes a w cols :: u32
  assumes fits: "gemm_fits g (um u)" and x: "x = gemm_geo g" and e: "uerr u = None"
    and a: "unat a = unat (gb g) + s0 * D x" and cols: "unat cols = n * D x" and s0: "s0 + n \<le> T x" "0 < n"
    and w: "unat w + n * (Q x * D x) \<le> 2 * SB x"
  obtains b v where "do_insns other (mat_cfg_load (gK g) cols (gN g) SA_LD_INTERLEAVE @ [mat_load a (SA_LADDR SA_MEM_SPAD_B w)]) u = v"
    and "kept u v" and "um v = (um u)\<lparr>loc := (loc (um u))(2 := b)\<rparr>"
    and "\<And>k c l. \<lbrakk>k < Q x * D x; c < n; l < D x\<rbrakk> \<Longrightarrow>
      b ((unat w + c * (Q x * D x) + k) * D x + l) = ddr (um u) (unat (gb g) + (k * (T x * D x) + ((s0 + c) * D x + l)))"
    and "\<And>y. y < unat w * D x \<Longrightarrow> b y = loc (um u) 2 y"
proof -
  note G = fits_geo [OF fits x] and sm = geo_small [OF fits x]
  let ?m = "um u" and ?K = "Q x * D x" and ?N = "T x * D x"
  have D: "0 < D x" using G(5) by auto
  have w16: "unat w < 65536" using w sm(1) by linarith
  have la: "laddr_mem (SA_LADDR 2 w) = 2" "laddr_word (SA_LADDR 2 w) = unat w"
    using laddr_mem_of [OF w16, of 2] laddr_word_of [OF w16, of 2] by simp_all
  have B: "unat (gb g) mod 8 = 0" "ddr_ok ?m (unat (gb g)) (?K * ?N)"
    using fits unfolding gemm_fits_def Let_def G(3,4) by simp_all
  have nN: "s0 * D x + n * D x \<le> ?N" using s0(1) by (metis add_mult_distrib mult_le_mono1)
  have chk: "check_dma ENG_LD ?m (unat a) 2 (unat w) ?K (n * D x) ?N True = None"
  proof -
    have "unat a mod 8 = 0" unfolding a by (rule mod8_add [OF B(1) mult8(2) [OF G(5)]])
    moreover have "unat w + n * ?K - 1 < 2 * SB x"
    proof -
      have "0 < n * ?K" using s0(2) G(11) D by simp
      then show ?thesis using w by linarith
    qed
    ultimately show ?thesis
      using mult8(2) [OF G(5)] D s0(2) G(11) by (simp add: check_dma_def depth_def G(17,18))
  qed
  have rows: "ddr_ok ?m (unat a + r * ?N) (n * D x)" if "r < ?K" for r
  proof -
    have "(r + 1) * ?N \<le> ?K * ?N" using that by (intro mult_le_mono1) simp
    then have "r * ?N + ?N \<le> ?K * ?N" by simp
    then show ?thesis using B(2) nN unfolding ddr_ok_def a by linarith
  qed
  obtain b where
    run: "ld (unat a) (SA_LADDR 2 w) ?K (n * D x) ?N True ?m = (?m\<lparr>loc := (loc ?m)(2 := b)\<rparr>, None)" and
    ins: "\<And>r c y. \<lbrakk>r < ?K; c < n; y < arr ?m\<rbrakk> \<Longrightarrow>
        b ((unat w + c * ?K + r) * arr ?m + y) = ddr ?m (unat a + r * ?N + c * arr ?m + y)" and
    outs: "\<And>y. y < unat w * arr ?m \<or> (unat w + n * ?K) * arr ?m \<le> y \<Longrightarrow> b y = loc ?m 2 y"
    by (rule ld_interleave [OF chk la rows, of n]) (use G(17) D in auto)
  define v where "v = (ld_cfg (gK g) cols (gN g) 1 u)\<lparr>um := ?m\<lparr>loc := (loc ?m)(2 := b)\<rparr>, uerr := None\<rparr>"
  have "unat (gK g) < 65536" "unat cols < 65536" unfolding G(4) cols using sm(5,6) nN by linarith+
  then have "do_insns other (mat_cfg_load (gK g) cols (gN g) 1 @ [mat_load a (SA_LADDR 2 w)]) u =
      command (ld (unat a) (SA_LADDR 2 w) (unat (gK g)) (unat cols) (unat (gN g)) (1 = (1 :: u32))) (ld_cfg (gK g) cols (gN g) 1 u)"
    by (intro run_load) simp_all
  also have "\<dots> = v"
    unfolding v_def by (rule command_ok) (simp_all only: ld_cfg_kept e G(3,4) cols run simp_thms)
  finally show thesis
  proof (rule that)
    show "kept u v" unfolding v_def by (rule kept_load [OF e])
    show "um v = ?m\<lparr>loc := (loc ?m)(2 := b)\<rparr>" by (simp add: v_def)
    show "b ((unat w + c * ?K + k) * D x + l) = ddr ?m (unat (gb g) + (k * ?N + ((s0 + c) * D x + l)))"
      if "k < ?K" "c < n" "l < D x" for k c l
      using ins [of k c l] that by (simp add: G(17) a algebra_simps)
    show "b y = loc ?m 2 y" if "y < unat w * D x" for y using outs [of y] that by (simp add: G(17))
  qed
qed

end
