(* ===== verification/GemmExec.thy ===== *)
theory GemmExec
  imports GemmLoad
begin

text \<open>
  A strip of the GEMM firmware: its tiles, whole or in two halves, the int8 epilogue, and the store.
\<close>

section \<open>The configuration of the loop\<close>

definition ve_cfg :: "gemm \<Rightarrow> ve_args \<Rightarrow> bool" where
  "ve_cfg g v \<longleftrightarrow> v_op v = ucast ((gop g AND (push_bit 4 1 OR push_bit 5 1)) OR (if gbias g \<noteq> 0 then 0 else 5)) \<and>
     unat (v_groups v) = unat (gN g) \<and> v_types v = 2 \<and> unat (v_mod v) = unat (nt g) \<and> v_scale v = ucast (gscale g) \<and>
     v_shift v = ucast (gshift g) \<and> v_zp v = gzp g \<and> v_lo v = glo g \<and> v_hi v = ghi g"

definition cfg_ok :: "gemm \<Rightarrow> unit_state \<Rightarrow> bool" where
  "cfg_ok g u \<longleftrightarrow> unat (st_rows u) = unat (gd g) \<and> unat (st_rb u) = unat (cbytes g) \<and> st_pitch u = cbytes g \<and>
     (\<not> bsplit g \<longrightarrow> unat (ex_rep u) = unat (nt g) \<and> unat (ex_bstep u) = unat (gK g) \<and> unat (ex_cstep u) = 1 \<and> unat (ex_crow u) = unat (nt g)) \<and>
     (gquant g \<longrightarrow> ve_cfg g (va u) \<and> \<not> bit (v_flags u) 0)"

lemma cfg_kept: "cfg_ok g u \<Longrightarrow> kept u v \<Longrightarrow> cfg_ok g v"
  by (simp add: cfg_ok_def kept_def)

section \<open>Executing a strip\<close>

lemma tile_sum:
  assumes fits: "gemm_fits g m" and x: "x = gemm_geo g" and a: "has_a g f od i m" and b: "has_b g f m"
    and r: "r < D x" and s: "s < T x" and l: "l < D x"
  shows "tile_entry m (abank g od) (bpos g s) (Q x) r l = gemm_sum g f (i + r) (s * D x + l)"
proof -
  note G = fits_geo [OF fits x]
  show ?thesis
    unfolding tile_entry_def gemm_sum_def Let_def G(4,17)
  proof (rule sum.cong [OF refl])
    fix k assume "k \<in> {..<Q x * D x}"
    then have k: "k < unat (gK g)" by (simp add: G(4))
    have "get_int (loc m 1) ((abank g od + k div D x * D x + r) * D x + k mod D x) 1 = get_int f (unat (ga g) + ((i + r) * (Q x * D x) + k)) 1"
      by (rule get_int_move) (use a r k in \<open>auto simp: has_a_def G(4,17)\<close>)
    moreover have "get_int (loc m 2) ((bpos g s + k) * D x + l) 1 = get_int f (unat (gb g) + (k * unat (gN g) + (s * D x + l))) 1"
      by (rule get_int_move) (use b s l k in \<open>auto simp: has_b_def G(4,17) simp flip: x\<close>)
    ultimately show "get_int (loc m 1) ((abank g od + k div D x * D x + r) * D x + k mod D x) 1 * get_int (loc m 2) ((bpos g s + k) * D x + l) 1 =
      get_int f (unat (ga g) + ((i + r) * (Q x * D x) + k)) 1 * get_int f (unat (gb g) + (k * unat (gN g) + (s * D x + l))) 1" by simp
  qed
qed

text \<open>The word of tile column \<open>s\<close>, row \<open>r\<close> of a strip.\<close>
definition cword :: "gemm \<Rightarrow> bool \<Rightarrow> nat \<Rightarrow> nat \<Rightarrow> nat" where
  "cword g od s r = cbank g od + s + r * T (gemm_geo g)"

lemma cword_inj: "cword g od s r = cword g od s' r' \<Longrightarrow> s < T (gemm_geo g) \<Longrightarrow> s' < T (gemm_geo g) \<Longrightarrow> s = s' \<and> r = r'"
proof -
  assume e: "cword g od s r = cword g od s' r'" and l: "s < T (gemm_geo g)" "s' < T (gemm_geo g)"
  from e have e': "r * T (gemm_geo g) + s = r' * T (gemm_geo g) + s'" by (simp add: cword_def)
  have "(r * T (gemm_geo g) + s) div T (gemm_geo g) = r" "(r' * T (gemm_geo g) + s') div T (gemm_geo g) = r'" using l by simp_all
  with e' show ?thesis by simp
qed

text \<open>One execution: \<open>n\<close> tiles from column \<open>s0\<close> on.\<close>
lemma exec_part:
  fixes aw bw cw :: u32
  assumes fits: "gemm_fits g (um u)" and x: "x = gemm_geo g" and e: "uerr u = None"
    and cfg: "unat (ex_rep u) = n" "unat (ex_bstep u) = Q x * D x" "unat (ex_cstep u) = 1" "unat (ex_crow u) = T x"
    and words: "unat aw = abank g od" "unat bw = bpos g s0" "unat cw = cbank g od + s0" and n: "0 < n" "s0 + n \<le> T x"
    and strips: "\<And>c. c < n \<Longrightarrow> bpos g s0 + c * (Q x * D x) = bpos g (s0 + c)" and top: "bpos g s0 + n * (Q x * D x) \<le> 2 * SB x"
    and a: "has_a g f od i (um u)" and b: "has_b g f (um u)"
  obtains acc where "do_insn other (mat_exec aw bw cw (kt g) (bias_strip g)) u = u\<lparr>um := (um u)\<lparr>loc := (loc (um u))(3 := acc)\<rparr>, uerr := None\<rparr>"
    and "\<And>s r l. \<lbrakk>s0 \<le> s; s < s0 + n; r < D x; l < D x\<rbrakk> \<Longrightarrow> cell 4 acc (cword g od s r * D x + l) =
      signed_take_bit 31 (gemm_sum g f (i + r) (s * D x + l) + (if bias_strip g \<noteq> 0 then cell 4 (loc (um u) 3) (cword g od s r * D x + l) else 0))"
    and "\<And>q. (\<And>s r. s0 \<le> s \<Longrightarrow> s < s0 + n \<Longrightarrow> r < D x \<Longrightarrow> q div D x \<noteq> cword g od s r) \<Longrightarrow> cell 4 acc q = cell 4 (loc (um u) 3) q"
proof -
  note G = fits_geo [OF fits x] and sm = geo_small [OF fits x] and W = geo_words [OF fits x]
  let ?m = "um u" and ?K = "Q x * D x"
  have D: "0 < D x" using G(5) by auto
  have bank: "abank g od \<le> SB x" "cbank g od \<le> CB x" by (simp_all add: abank_def cbank_def x)
  have lastw: "cbank g od + s0 + (n - 1) + (D x - 1) * T x < 2 * CB x"
  proof -
    have "(D x - 1) * T x + T x = T x * D x" using D by (metis Suc_diff_1 add.commute mult.commute mult_Suc)
    then show ?thesis using n bank(2) G(13) by linarith
  qed
  have bb: "bpos g s0 + (n - 1) * ?K + Q x * D x \<le> 2 * SB x"
  proof -
    have "(n - 1) * ?K + ?K = n * ?K" using n(1) by (cases n) simp_all
    then show ?thesis using top by linarith
  qed
  have "0 < ?K" using G(11) D by simp
  then have sixteen: "unat aw < 65536" "unat bw < 65536" "unat cw < 65536" "unat (kt g) < 4096"
    using bank sm bb lastw unfolding words W(2) by linarith+
  note run = run_exec [OF sixteen, of other "bias_strip g" u, unfolded words cfg W(2)]
  have pre: "0 < Q x" "abank g od + Q x * arr ?m \<le> spad_words ?m" "bpos g s0 + (n - 1) * ?K + Q x * arr ?m \<le> spad_words ?m"
    "cbank g od + s0 + (n - 1) + (arr ?m - 1) * T x < acc_words ?m" "0 < arr ?m" "0 < n" "n \<le> T x"
    using G(11,12) bank(1) bb lastw D n by (simp_all add: G(17-19))
  obtain acc where
    ex: "ex (abank g od) (bpos g s0) (cbank g od + s0) (Q x) (bias_strip g \<noteq> 0) n ?K 1 (T x) ?m = (?m\<lparr>loc := (loc ?m)(3 := acc)\<rparr>, None)" and
    ins: "\<And>c r l. \<lbrakk>c < n; r < arr ?m; l < arr ?m\<rbrakk> \<Longrightarrow> cell 4 acc ((cbank g od + s0 + c + r * T x) * arr ?m + l) =
        signed_take_bit 31 (tile_entry ?m (abank g od) (bpos g s0 + c * ?K) (Q x) r l +
          (if bias_strip g \<noteq> 0 then cell 4 (loc ?m 3) ((cbank g od + s0 + c + r * T x) * arr ?m + l) else 0))" and
    outs: "\<And>q. (\<And>c r. c < n \<Longrightarrow> r < arr ?m \<Longrightarrow> q div arr ?m \<noteq> cbank g od + s0 + c + r * T x) \<Longrightarrow> cell 4 acc q = cell 4 (loc ?m 3) q"
    by (rule ex_tiles [OF pre(1-3) _ pre(5-7), of "cbank g od + s0" "bias_strip g \<noteq> 0"]) (use pre(4) in blast)+
  show thesis
  proof (rule that)
    show "do_insn other (mat_exec aw bw cw (kt g) (bias_strip g)) u = u\<lparr>um := ?m\<lparr>loc := (loc ?m)(3 := acc)\<rparr>, uerr := None\<rparr>"
      unfolding run by (rule command_ok) (rule e, rule ex)
  next
    fix s r l assume s: "s0 \<le> s" "s < s0 + n" and r: "r < D x" and l: "l < D x"
    define c where "c = s - s0"
    have c: "c < n" "s = s0 + c" using s by (simp_all add: c_def)
    have "tile_entry ?m (abank g od) (bpos g s0 + c * ?K) (Q x) r l = gemm_sum g f (i + r) (s * D x + l)"
      unfolding strips [OF c(1)] c(2) [symmetric] by (rule tile_sum [OF fits x a b r _ l]) (use s n in simp)
    then show "cell 4 acc (cword g od s r * D x + l) =
      signed_take_bit 31 (gemm_sum g f (i + r) (s * D x + l) + (if bias_strip g \<noteq> 0 then cell 4 (loc ?m 3) (cword g od s r * D x + l) else 0))"
      using ins [OF c(1), of r l] r l by (simp add: G(17) cword_def c(2) add.assoc flip: x)
  next
    fix q assume q: "\<And>s r. s0 \<le> s \<Longrightarrow> s < s0 + n \<Longrightarrow> r < D x \<Longrightarrow> q div D x \<noteq> cword g od s r"
    show "cell 4 acc q = cell 4 (loc ?m 3) q"
    proof (rule outs)
      fix c r assume "c < n" "r < arr ?m"
      then show "q div arr ?m \<noteq> cbank g od + s0 + c + r * T x"
        using q [of "s0 + c" r] by (simp add: cword_def G(17) add.assoc flip: x)
    qed
  qed
qed

text \<open>What the accumulator holds after a strip's execution.\<close>
definition has_c :: "gemm \<Rightarrow> (nat \<Rightarrow> u8) \<Rightarrow> bool \<Rightarrow> nat \<Rightarrow> umem \<Rightarrow> bool" where
  "has_c g f od i m \<longleftrightarrow> (\<forall>s < T (gemm_geo g). \<forall>r < arr m. \<forall>l < arr m.
     cell 4 (loc m 3) (cword g od s r * arr m + l) = gemm_acc g f (i + r) (s * arr m + l))"

lemma bias_cell:
  assumes "gemm_fits g m" and "x = gemm_geo g" and "has_bias g f od i m" and "bias_strip g \<noteq> 0" and "s < T x" and "r < D x" and "l < D x"
  shows "cell 4 (loc m 3) (cword g od s r * D x + l) = get_int f (unat (gbias g) + 4 * ((i + r) * unat (gN g) + (s * D x + l))) 4"
proof -
  note G = fits_geo [OF assms(1,2)]
  have "s * D x + l < unat (gN g)"
  proof -
    have "(s + 1) * D x \<le> T x * D x" using assms(5) by (intro mult_le_mono1) simp
    then show ?thesis using assms(7) unfolding G(3) by simp
  qed
  moreover have "cword g od s r * D x + l = cbank g od * D x + (r * unat (gN g) + (s * D x + l))"
    unfolding cword_def G(3) assms(2) [symmetric] by (simp add: algebra_simps)
  ultimately show ?thesis using assms(3,4,6) unfolding has_bias_def G(17) by metis
qed

lemma acc_value:
  assumes "gemm_fits g m" and "x = gemm_geo g" and "has_bias g f od i m" and "s < T x" and "r < D x" and "l < D x"
  shows "signed_take_bit 31 (gemm_sum g f (i + r) (s * D x + l) + (if bias_strip g \<noteq> 0 then cell 4 (loc m 3) (cword g od s r * D x + l) else 0))
    = gemm_acc g f (i + r) (s * D x + l)"
  using bias_cell [OF assms(1-3) _ assms(4-6)] by (simp add: gemm_acc_def)

lemma exec_strip_ok:
  fixes od :: bool
  assumes fits: "gemm_fits g (um u)" and e: "uerr u = None" and cfg: "cfg_ok g u"
    and a: "has_a g f od i (um u)" and b: "has_b g f (um u)" and bias: "has_bias g f od i (um u)"
  obtains acc v where "do_insns other (exec_strip g (if od then sbank g else 0) (if od then cbank_w g else 0)) u = v"
    and "uerr v = None" and "cfg_ok g v" and "um v = (um u)\<lparr>loc := (loc (um u))(3 := acc)\<rparr>" and "has_c g f od i (um v)"
    and "\<And>q. (\<And>s r. s < T (gemm_geo g) \<Longrightarrow> r < arr (um u) \<Longrightarrow> q div arr (um u) \<noteq> cword g od s r) \<Longrightarrow> cell 4 acc q = cell 4 (loc (um u) 3) q"
proof -
  define x where "x = gemm_geo g"
  note G = fits_geo [OF fits x_def] and sm = geo_small [OF fits x_def] and W = geo_words [OF fits x_def]
  let ?K = "Q x * D x" and ?h = "(T x + 1) div 2"
  let ?aw = "if od then sbank g else 0" and ?cw = "if od then cbank_w g else 0"
  have words: "unat ?aw = abank g od" "unat ?cw = cbank g od" using W(3,4) by (simp_all add: abank_def cbank_def x_def)
  have bpK: "bpos g s = (if bsplit g \<and> ?h \<le> s then SB x + (s - ?h) * ?K else s * ?K)" for s
    by (simp add: bpos_def x_def G(4) [unfolded x_def] Let_def)
  show thesis
  proof (cases "bsplit g")
    case False
    have c: "unat (ex_rep u) = T x" "unat (ex_bstep u) = ?K" "unat (ex_cstep u) = 1" "unat (ex_crow u) = T x"
      using cfg False by (simp_all add: cfg_ok_def W G(4))
    obtain acc where
      run: "do_insn other (mat_exec ?aw 0 ?cw (kt g) (bias_strip g)) u = u\<lparr>um := (um u)\<lparr>loc := (loc (um u))(3 := acc)\<rparr>, uerr := None\<rparr>" and
      ins: "\<And>s r l. \<lbrakk>0 \<le> s; s < 0 + T x; r < D x; l < D x\<rbrakk> \<Longrightarrow> cell 4 acc (cword g od s r * D x + l) =
        signed_take_bit 31 (gemm_sum g f (i + r) (s * D x + l) + (if bias_strip g \<noteq> 0 then cell 4 (loc (um u) 3) (cword g od s r * D x + l) else 0))" and
      outs: "\<And>q. (\<And>s r. 0 \<le> s \<Longrightarrow> s < 0 + T x \<Longrightarrow> r < D x \<Longrightarrow> q div D x \<noteq> cword g od s r) \<Longrightarrow> cell 4 acc q = cell 4 (loc (um u) 3) q"
      by (rule exec_part [OF fits x_def e c, of ?aw od 0 0 ?cw f i other])
        (use words G(10,14) False a b in \<open>simp_all add: bpK\<close>)
    show thesis
    proof (rule that)
      show "do_insns other (exec_strip g ?aw ?cw) u = u\<lparr>um := (um u)\<lparr>loc := (loc (um u))(3 := acc)\<rparr>, uerr := None\<rparr>"
        using run False by (simp add: exec_strip_def)
      show "has_c g f od i (um (u\<lparr>um := (um u)\<lparr>loc := (loc (um u))(3 := acc)\<rparr>, uerr := None\<rparr>))"
        using ins acc_value [OF fits x_def bias] by (simp add: has_c_def G(17) flip: x_def)
      show "cell 4 acc q = cell 4 (loc (um u) 3) q"
        if "\<And>s r. s < T (gemm_geo g) \<Longrightarrow> r < arr (um u) \<Longrightarrow> q div arr (um u) \<noteq> cword g od s r" for q
        using that by (intro outs) (simp add: G(17) flip: x_def)
    qed (use cfg in \<open>simp_all add: cfg_ok_def\<close>)
  next
    case True
    then have half: "?h * ?K \<le> SB x" "0 < T x div 2" using W(14) by auto
    have hT: "?h + T x div 2 = T x" "0 < ?h" using G(10) by linarith+
    have h4: "?h < 4096" "T x div 2 < 4096" using sm(3) by linarith+
    have sz: "T x < 65536" "?K < 65536" using sm(3,6) by linarith+
    let ?u1 = "ex_cfg (nt0 g) (gK g) 1 (nt g) u"
    have c1: "unat (ex_rep ?u1) = ?h" "unat (ex_bstep ?u1) = ?K" "unat (ex_cstep ?u1) = 1" "unat (ex_crow ?u1) = T x"
      using h4 sz by (simp_all add: unat12 unat16 W(1,9) G(4))
    have p1: "gemm_fits g (um ?u1)" "uerr ?u1 = None" "unat (0 :: u32) = bpos g 0" "unat ?cw = cbank g od + 0" "0 + ?h \<le> T x"
      "has_a g f od i (um ?u1)" "has_b g f (um ?u1)"
      using fits e words(2) hT a b by (simp_all add: bpK)
    have p1s: "bpos g 0 + c * ?K = bpos g (0 + c)" if "c < ?h" for c using that hT(2) by (simp add: bpK)
    have p1t: "bpos g 0 + ?h * ?K \<le> 2 * SB x" using half(1) hT(2) by (simp add: bpK)
    obtain acc1 where
      run1: "do_insn other (mat_exec ?aw 0 ?cw (kt g) (bias_strip g)) ?u1 = ?u1\<lparr>um := (um ?u1)\<lparr>loc := (loc (um ?u1))(3 := acc1)\<rparr>, uerr := None\<rparr>" and
      ins1: "\<And>s r l. \<lbrakk>0 \<le> s; s < 0 + ?h; r < D x; l < D x\<rbrakk> \<Longrightarrow> cell 4 acc1 (cword g od s r * D x + l) =
        signed_take_bit 31 (gemm_sum g f (i + r) (s * D x + l) + (if bias_strip g \<noteq> 0 then cell 4 (loc (um ?u1) 3) (cword g od s r * D x + l) else 0))" and
      outs1: "\<And>q. (\<And>s r. 0 \<le> s \<Longrightarrow> s < 0 + ?h \<Longrightarrow> r < D x \<Longrightarrow> q div D x \<noteq> cword g od s r) \<Longrightarrow> cell 4 acc1 q = cell 4 (loc (um ?u1) 3) q"
      by (rule exec_part [OF p1(1) x_def p1(2) c1 words(1) p1(3,4) hT(2) p1(5) p1s p1t p1(6,7), of other]) blast+
    define u2 where "u2 = ?u1\<lparr>um := (um u)\<lparr>loc := (loc (um u))(3 := acc1)\<rparr>, uerr := None\<rparr>"
    have m2: "um u2 = (um u)\<lparr>loc := (loc (um u))(3 := acc1)\<rparr>" by (simp add: u2_def)
    have f2: "gemm_fits g (um u2)" "has_a g f od i (um u2)" "has_b g f (um u2)"
      using fits a b by (simp_all add: m2 has_a_def has_b_def)
    let ?u3 = "ex_cfg (nt1 g) (gK g) 1 (nt g) u2"
    have c3: "unat (ex_rep ?u3) = T x div 2" "unat (ex_bstep ?u3) = ?K" "unat (ex_cstep ?u3) = 1" "unat (ex_crow ?u3) = T x"
      using h4 sz by (simp_all add: unat12 unat16 W(1,10) G(4))
    have cw2: "unat (?cw + nt0 g) = cbank g od + ?h"
    proof -
      have "cbank g od \<le> CB x" by (simp add: cbank_def x_def)
      then have "cbank g od + ?h < 4294967296" using sm(2) h4(1) by linarith
      then show ?thesis by (simp add: unat_word_ariths words(2) W(9))
    qed
    have top: "SB x + T x div 2 * ?K \<le> 2 * SB x"
    proof -
      have "T x div 2 * ?K \<le> ?h * ?K" by (intro mult_le_mono1 div_le_mono) simp
      then show ?thesis using half(1) by linarith
    qed
    have p3: "gemm_fits g (um ?u3)" "uerr ?u3 = None" "unat (sbank g) = bpos g ?h" "?h + T x div 2 \<le> T x"
      "has_a g f od i (um ?u3)" "has_b g f (um ?u3)"
      using f2 W(3) True hT(1) by (simp_all only: ex_cfg_kept bpK) (simp_all add: u2_def)
    have p3s: "bpos g ?h + c * ?K = bpos g (?h + c)" for c using True by (simp add: bpK)
    have p3t: "bpos g ?h + T x div 2 * ?K \<le> 2 * SB x" using top True by (simp add: bpK)
    obtain acc where
      run3: "do_insn other (mat_exec ?aw (sbank g) (?cw + nt0 g) (kt g) (bias_strip g)) ?u3 = ?u3\<lparr>um := (um ?u3)\<lparr>loc := (loc (um ?u3))(3 := acc)\<rparr>, uerr := None\<rparr>" and
      ins3: "\<And>s r l. \<lbrakk>?h \<le> s; s < ?h + T x div 2; r < D x; l < D x\<rbrakk> \<Longrightarrow> cell 4 acc (cword g od s r * D x + l) =
        signed_take_bit 31 (gemm_sum g f (i + r) (s * D x + l) + (if bias_strip g \<noteq> 0 then cell 4 (loc (um ?u3) 3) (cword g od s r * D x + l) else 0))" and
      outs3: "\<And>q. (\<And>s r. ?h \<le> s \<Longrightarrow> s < ?h + T x div 2 \<Longrightarrow> r < D x \<Longrightarrow> q div D x \<noteq> cword g od s r) \<Longrightarrow> cell 4 acc q = cell 4 (loc (um ?u3) 3) q"
      by (rule exec_part [OF p3(1) x_def p3(2) c3 words(1) p3(3) cw2 half(2) p3(4) p3s p3t p3(5,6), of other]) blast+
    have dv: "(w * D x + l) div D x = w" if "l < D x" for w l using that by simp
    define v where "v = ?u3\<lparr>um := (um u)\<lparr>loc := (loc (um u))(3 := acc)\<rparr>, uerr := None\<rparr>"
    show thesis
    proof (rule that)
      show "do_insns other (exec_strip g ?aw ?cw) u = v"
        using True run1 run3 by (simp add: exec_strip_def do_insns_append run_cfgs m2 flip: u2_def) (simp add: v_def)
      show "um v = (um u)\<lparr>loc := (loc (um u))(3 := acc)\<rparr>" by (simp add: v_def)
      show "has_c g f od i (um v)"
        unfolding has_c_def x_def [symmetric]
      proof (intro allI impI)
        fix s r l assume s: "s < T x" and r: "r < arr (um v)" and l: "l < arr (um v)"
        have am: "arr (um v) = D x" by (simp add: v_def G(17))
        have rl: "r < D x" "l < D x" using r l by (simp_all add: am)
        show "cell 4 (loc (um v) 3) (cword g od s r * arr (um v) + l) = gemm_acc g f (i + r) (s * arr (um v) + l)"
        proof (cases "s < ?h")
          case h: True
          have "cell 4 acc (cword g od s r * D x + l) = cell 4 acc1 (cword g od s r * D x + l)"
          proof -
            have "cword g od s r \<noteq> cword g od s' r'" if "?h \<le> s'" "s' < ?h + T x div 2" for s' r'
              using cword_inj [of g od s r s' r'] s that h hT(1) by (auto simp flip: x_def)
            then have "cell 4 acc (cword g od s r * D x + l) = cell 4 (loc (um ?u3) 3) (cword g od s r * D x + l)"
              unfolding dv [OF rl(2)] by (intro outs3) (simp add: rl(2))
            then show ?thesis by (simp add: m2)
          qed
          also have "\<dots> = gemm_acc g f (i + r) (s * D x + l)"
            using ins1 [of s r l] h rl acc_value [OF fits x_def bias s rl] by (simp cong: if_cong)
          finally show ?thesis by (simp add: v_def am G(17))
        next
          case h: False
          have "cell 4 acc1 (cword g od s r * D x + l) = cell 4 (loc (um u) 3) (cword g od s r * D x + l)"
          proof -
            have "cword g od s r \<noteq> cword g od s' r'" if "s' < 0 + ?h" for s' r'
              using cword_inj [of g od s r s' r'] s that h hT(1) by (auto simp flip: x_def)
            then have "cell 4 acc1 (cword g od s r * D x + l) = cell 4 (loc (um ?u1) 3) (cword g od s r * D x + l)"
              by (intro outs1) (simp add: rl(2))
            then show ?thesis by simp
          qed
          then have "cell 4 acc (cword g od s r * D x + l) = gemm_acc g f (i + r) (s * D x + l)"
            using ins3 [of s r l] h rl s hT(1) acc_value [OF fits x_def bias s rl] by (simp add: m2 cong: if_cong)
          then show ?thesis by (simp add: v_def am G(17))
        qed
      qed
      show "cell 4 acc q = cell 4 (loc (um u) 3) q"
        if q: "\<And>s r. s < T (gemm_geo g) \<Longrightarrow> r < arr (um u) \<Longrightarrow> q div arr (um u) \<noteq> cword g od s r" for q
      proof -
        have q': "q div D x \<noteq> cword g od s r" if "s < T x" "r < D x" for s r using q [of s r] that by (simp add: G(17) flip: x_def)
        have "cell 4 acc q = cell 4 acc1 q" using outs3 [of q] q' hT(1) by (simp add: m2)
        also have "\<dots> = cell 4 (loc (um u) 3) q" using outs1 [of q] q' hT by simp
        finally show ?thesis .
      qed
    qed (use cfg True in \<open>simp_all add: cfg_ok_def v_def u2_def\<close>)
  qed
qed

section \<open>The epilogue and the store of a strip\<close>

text \<open>An element of a strip by its number \<open>q\<close>.\<close>
lemma strip_index:
  assumes "q < d * (t * d)" and "0 < (d::nat)" and "0 < t"
  shows "q div (t * d) < d" and "q mod (t * d) div d < t" and "q mod d < d" and "q div d mod t = q mod (t * d) div d" and "q mod (t * d) mod d = q mod d"
    and "q = q div (t * d) * (t * d) + (q mod (t * d) div d * d + q mod d)"
proof -
  have td: "0 < t * d" using assms by simp
  show "q div (t * d) < d" using assms(1) by (simp add: less_mult_imp_div_less)
  show "q mod (t * d) div d < t" using td by (simp add: less_mult_imp_div_less)
  show "q mod d < d" using assms(2) by simp
  show m: "q mod (t * d) mod d = q mod d" by (simp add: mod_mod_cancel)
  show "q div d mod t = q mod (t * d) div d"
    using assms(2) by (simp add: mult.commute [of t] mod_mult2_eq)
  show "q = q div (t * d) * (t * d) + (q mod (t * d) div d * d + q mod d)"
    using div_mult_mod_eq [of "q mod (t * d)" d] div_mult_mod_eq [of q "t * d"] by (simp only: m)
qed

lemma has_c_at:
  assumes "gemm_fits g m" and "x = gemm_geo g" and "has_c g f od i m" and q: "q < D x * (T x * D x)"
  shows "cell 4 (loc m 3) (cbank g od * D x + q) = gemm_acc g f (i + q div (T x * D x)) (q mod (T x * D x))"
proof -
  note G = fits_geo [OF assms(1,2)]
  have D: "0 < D x" using G(5) by auto
  note I = strip_index [OF q D G(10)]
  let ?r = "q div (T x * D x)" and ?s = "q mod (T x * D x) div D x" and ?l = "q mod D x"
  have "cword g od ?s ?r * D x + ?l = cbank g od * D x + (?r * (T x * D x) + (?s * D x + ?l))"
    by (simp add: cword_def algebra_simps flip: assms(2))
  also have "\<dots> = cbank g od * D x + q" by (simp only: I(6) [symmetric])
  finally have w: "cword g od ?s ?r * D x + ?l = cbank g od * D x + q" .
  have "?s * D x + ?l = q mod (T x * D x)" using div_mult_mod_eq [of "q mod (T x * D x)" "D x"] by (simp only: I(5))
  moreover have "cell 4 (loc m 3) (cword g od ?s ?r * D x + ?l) = gemm_acc g f (i + ?r) (?s * D x + ?l)"
    using assms(3) I(1-3) unfolding has_c_def G(17) assms(2) [symmetric] by blast
  ultimately show ?thesis by (simp only: w)
qed

text \<open>Where the store finds a strip: the memory and the word.\<close>
definition out_mem :: "gemm \<Rightarrow> nat" where "out_mem g = (if gquant g then 1 else 3)"
definition out_word :: "gemm \<Rightarrow> bool \<Rightarrow> nat" where "out_word g od = (if gquant g then abank g od + CB (gemm_geo g) else cbank g od)"

definition has_out :: "gemm \<Rightarrow> (nat \<Rightarrow> u8) \<Rightarrow> bool \<Rightarrow> nat \<Rightarrow> umem \<Rightarrow> bool" where
  "has_out g f od i m \<longleftrightarrow> (\<forall>q < arr m * unat (gN g).
     cell (c_bytes g) (loc m (out_mem g)) (out_word g od * arr m + q) = gemm_out g f (i + q div unat (gN g)) (q mod unat (gN g)))"

lemma ve_op_byte:
  fixes y :: u32
  assumes "b = 0 \<or> b = 5"
  shows "(ucast ((y AND (push_bit 4 1 OR push_bit 5 1)) OR b) :: u8) AND 7 = ucast b"
    and "bit (ucast ((y AND (push_bit 4 1 OR push_bit 5 1)) OR b) :: u8) 4 = bit y 4"
    and "bit (ucast ((y AND (push_bit 4 1 OR push_bit 5 1)) OR b) :: u8) 5 = bit y 5"
proof -
  have 7: "(7 :: u8) = mask 3" by (simp add: mask_eq_exp_minus_1)
  have c: "push_bit 4 1 OR push_bit 5 (1 :: u32) = push_bit 4 (mask 2)" by (simp add: mask_eq_exp_minus_1)
  have b: "bit b i \<Longrightarrow> i < 3" for i using assms low_bits [of b 3 i] by auto
  show "(ucast ((y AND (push_bit 4 1 OR push_bit 5 1)) OR b) :: u8) AND 7 = ucast b"
    unfolding 7 c by (rule bit_eqI) (auto simp: bit_simps dest: b)
  have "\<not> bit b 4" "\<not> bit b 5" using b by fastforce+
  then show "bit (ucast ((y AND (push_bit 4 1 OR push_bit 5 1)) OR b) :: u8) 4 = bit y 4"
    "bit (ucast ((y AND (push_bit 4 1 OR push_bit 5 1)) OR b) :: u8) 5 = bit y 5"
    unfolding c by (simp_all add: bit_simps)
qed

text \<open>The configured epilogue.\<close>
lemma ve_cfg_facts:
  assumes "ve_cfg g v"
  shows "ve_in v = 2" "ve_out v = 0" "ve_code v = (if gbias g \<noteq> 0 then 0 else 5)" "v_op v AND 7 \<noteq> 6"
    "bit (v_op v) 4 = bit (gop g) 4" "bit (v_op v) 5 = bit (gop g) 5"
  using assms ve_op_byte [of 0 "gop g"] ve_op_byte [of 5 "gop g"]
  by (simp_all add: ve_cfg_def ve_in_def ve_out_def ve_code_def split: if_splits)

lemma vcfg_dst: "set_vcfg 2 v u = u\<lparr>va := (va u)\<lparr>v_dst := v\<rparr>\<rparr>"
  by (simp add: set_vcfg_def)

lemma quant_strip_ok:
  fixes od :: bool
  assumes fits: "gemm_fits g (um u)" and e: "uerr u = None" and cfg: "cfg_ok g u" and q: "gquant g"
    and c: "has_c g f od i (um u)" and vec: "has_vec g f (um u)"
  obtains b v where "do_insns other (quant_strip g (if od then sbank g else 0) (if od then cbank_w g else 0)) u = v"
    and "uerr v = None" and "cfg_ok g v" and "um v = (um u)\<lparr>loc := (loc (um u))(1 := b)\<rparr>" and "has_out g f od i (um v)"
proof -
  define x where "x = gemm_geo g"
  note G = fits_geo [OF fits x_def] and sm = geo_small [OF fits x_def] and W = geo_words [OF fits x_def]
  let ?m = "um u" and ?N = "T x * D x"
  let ?aw = "if od then sbank g else 0" and ?cw = "if od then cbank_w g else 0"
  have D: "0 < D x" using G(5) by auto
  have words: "unat ?aw = abank g od" "unat ?cw = cbank g od" using W(3,4) by (simp_all add: abank_def cbank_def x_def)
  have bank: "abank g od \<le> SB x" "cbank g od \<le> CB x" by (simp_all add: abank_def cbank_def x_def)
  have TC: "T x \<le> CB x" using G(13) D by (metis le_trans mult.right_neutral mult_le_mono2 One_nat_def Suc_leI)
  let ?dst = "SA_LADDR 1 (?aw + qout g)" and ?s1 = "SA_LADDR 3 ?cw" and ?s2 = "SA_LADDR 3 (?cw + vbias g)"
  have wd: "unat (?aw + qout g) = abank g od + CB x" and w2: "unat (?cw + vbias g) = cbank g od + (CB x - T x)"
    using bank sm by (simp_all add: unat_word_ariths words W(7,8))
  have small: "unat (?aw + qout g) < 65536" "unat ?cw < 65536" "unat (?cw + vbias g) < 65536"
    unfolding wd w2 words using bank sm by linarith+
  have la: "laddr_mem ?dst = 1" "laddr_word ?dst = abank g od + CB x" "laddr_mem ?s1 = 3" "laddr_word ?s1 = cbank g od"
    "laddr_mem ?s2 = 3" "laddr_word ?s2 = cbank g od + (CB x - T x)"
    using laddr_mem_of [OF small(1), of 1] laddr_word_of [OF small(1), of 1] laddr_mem_of [OF small(2), of 3]
      laddr_word_of [OF small(2), of 3] laddr_mem_of [OF small(3), of 3] laddr_word_of [OF small(3), of 3] wd w2 words by simp_all
  define v1 where "v1 = (va u)\<lparr>v_dst := ?dst\<rparr>"
  define u1 where "u1 = u\<lparr>va := v1\<rparr>"
  have vc: "ve_cfg g (va u)" and fl: "\<not> bit (v_flags u) 0" using cfg q by (simp_all add: cfg_ok_def)
  then have vc1: "ve_cfg g v1" by (simp add: ve_cfg_def v1_def)
  note V = ve_cfg_facts [OF vc1]
  have gr: "unat (v_groups v1) = ?N" "unat (v_mod v1) = T x" using vc1 by (simp_all add: ve_cfg_def G(3) W(1))
  have wb: "wbytes ?m 3 = 4 * D x" "wbytes ?m 1 = D x" by (simp_all add: wbytes_def G(17))
  have chk: "ve_check v1 ?s1 ?s2 ?m = None"
  proof -
    have n: "0 < ?N" using G(10) D by simp
    have "T x \<le> ?N" using D by simp
    moreover have "(if T x = 0 then ?N else if T x = 1 then 1 else min (T x) ?N) \<le> T x" using G(10) by simp
    moreover have "cbank g od + ?N - 1 < 2 * CB x" "abank g od + CB x + ?N - 1 < 2 * SB x"
      "cbank g od + (CB x - T x) + T x - 1 < 2 * CB x" using bank G(8,13) n TC G(10) by linarith+
    ultimately have "cbank g od + ?N * 1 - 1 < 2 * CB x" "abank g od + CB x + ?N * 1 - 1 < 2 * SB x"
      "cbank g od + (CB x - T x) + (if T x = 0 then ?N else if T x = 1 then 1 else min (T x) ?N) * 1 - 1 < 2 * CB x" by linarith+
    then show ?thesis
      using n by (simp add: ve_check_def Let_def V(1-3) gr la v1_def [symmetric] depth_def G(18,19))
        (simp add: v1_def la)
  qed
  have start: "laddr_word (v_dst v1) * wbytes ?m (laddr_mem (v_dst v1)) = ((abank g od + CB x) * D x) * esz (ve_out v1)"
    using wb(2) by (simp add: v1_def la V(2) [unfolded v1_def] esz_def)
  obtain b where
    run: "ve v1 ?s1 ?s2 ?m = (?m\<lparr>loc := (loc ?m)(laddr_mem (v_dst v1) := b)\<rparr>, None)" and
    ins: "\<And>p. p < unat (v_groups v1) * arr ?m \<Longrightarrow> cell (esz (ve_out v1)) b ((abank g od + CB x) * D x + p) = ve_value v1 ?s1 ?s2 ?m p"
    by (rule ve_elements [OF chk start]) blast
  have val: "ve_value v1 ?s1 ?s2 ?m p = gemm_out g f (i + p div ?N) (p mod ?N)" if p: "p < D x * ?N" for p
  proof -
    note I = strip_index [OF p D G(10)]
    have X: "get_int (loc ?m 3) (cbank g od * (4 * D x) + p * 4) 4 = gemm_acc g f (i + p div ?N) (p mod ?N)"
      using has_c_at [OF fits x_def c p] by (simp add: cell_def algebra_simps)
    have grp: "src2_group v1 (p div D x) * D x + p mod D x = p mod ?N"
    proof -
      have "src2_group v1 (p div D x) = p div D x mod T x" using G(10) by (auto simp: src2_group_def gr Let_def)
      then show ?thesis using div_mult_mod_eq [of "p mod ?N" "D x"] by (simp only: I(4,5))
    qed
    have Y: "get_int (loc ?m 3) ((cbank g od + (CB x - T x)) * (4 * D x) + p mod ?N * 4) 4 = get_int f (unat (gbias g) + 4 * (p mod ?N)) 4"
      if "gbias g \<noteq> 0"
    proof -
      have "p mod ?N < ?N" using G(10) D by simp
      then have "cell 4 (loc ?m 3) ((cbank g od + (CB x - T x)) * D x + p mod ?N) = get_int f (unat (gbias g) + 4 * (p mod ?N)) 4"
        using vec that q by (simp add: has_vec_def G(3,17) flip: x_def)
      then show ?thesis by (simp add: cell_def algebra_simps)
    qed
    have vals: "v_scale v1 = ucast (gscale g)" "v_shift v1 = ucast (gshift g)" "v_zp v1 = gzp g" "v_lo v1 = glo g" "v_hi v1 = ghi g"
      using vc1 by (simp_all add: ve_cfg_def)
    have e2: "esz 2 = 4" by (simp add: esz_def)
    show ?thesis
      unfolding ve_value_def gemm_out_def Let_def la V vals wb e2 G(17) grp X
      using q Y by (simp add: ve_op_def Let_def)
  qed
  define v where "v = u1\<lparr>um := ?m\<lparr>loc := (loc ?m)(1 := b)\<rparr>, uerr := None\<rparr>"
  have vu: "va u1 = v1" "um u1 = ?m" "uerr u1 = None" "v_flags u1 = v_flags u" by (simp_all add: u1_def e)
  have "do_insns other (quant_strip g ?aw ?cw) u = do_insn other (vec_run ?s1 ?s2) u1"
    using q by (simp add: quant_strip_def vcfg_dst u1_def v1_def)
  also have "\<dots> = command (ve v1 ?s1 ?s2) u1"
    using run_vec [of u1 other ?s1 ?s2] V(4) fl by (simp only: vu simp_thms)
  also have "\<dots> = v"
    unfolding v_def using run by (intro command_ok) (simp_all add: vu v1_def la)
  finally have "do_insns other (quant_strip g ?aw ?cw) u = v" .
  moreover have "uerr v = None" by (simp add: v_def)
  moreover have "cfg_ok g v" using cfg by (simp add: cfg_ok_def v_def u1_def v1_def ve_cfg_def)
  moreover have um: "um v = ?m\<lparr>loc := (loc ?m)(1 := b)\<rparr>" by (simp add: v_def)
  moreover have "has_out g f od i (um v)"
    unfolding has_out_def
  proof (intro allI impI)
    fix p assume "p < arr (um v) * unat (gN g)"
    then have p: "p < D x * ?N" by (simp add: um G(3,17))
    then have "cell 1 b ((abank g od + CB x) * D x + p) = gemm_out g f (i + p div ?N) (p mod ?N)"
      using ins [of p] val [OF p] by (simp add: gr G(17) V(2) esz_def mult.commute)
    then show "cell (c_bytes g) (loc (um v) (out_mem g)) (out_word g od * arr (um v) + p) = gemm_out g f (i + p div unat (gN g)) (p mod unat (gN g))"
      using q by (simp add: c_bytes_def um out_mem_def out_word_def G(3,17) flip: x_def)
  qed
  ultimately show thesis by (rule that)
qed

lemma has_out_plain:
  assumes "gemm_fits g m" and "\<not> gquant g" and "has_c g f od i m"
  shows "has_out g f od i m"
proof -
  define x where "x = gemm_geo g"
  note G = fits_geo [OF assms(1) x_def]
  show ?thesis
    using has_c_at [OF assms(1) x_def assms(3)] assms(2)
    by (simp add: has_out_def c_bytes_def out_mem_def out_word_def gemm_out_def G(3,17) mult.commute)
qed

lemma store_strip_ok:
  fixes od :: bool
  assumes fits: "gemm_fits g (um u)" and e: "uerr u = None" and cfg: "cfg_ok g u" and s: "s < S (gemm_geo g)"
    and out: "has_out g f od (s * D (gemm_geo g)) (um u)"
  defines "N \<equiv> unat (gN g)" and "d \<equiv> D (gemm_geo g)" and "c \<equiv> unat (gc g)" and "es \<equiv> c_bytes g"
  obtains h v where "do_insns other (store_strip g (of_nat (s * d)) (if od then sbank g else 0) (if od then cbank_w g else 0)) u = v"
    and "uerr v = None" and "cfg_ok g v" and "um v = (um u)\<lparr>ddr := h\<rparr>"
    and "\<And>p. p < d * N \<Longrightarrow> get_int h (c + es * (s * d * N + p)) es = gemm_out g f (s * d + p div N) (p mod N)"
    and "\<And>y. y < c + es * (s * d * N) \<or> c + es * (s * d * N + d * N) \<le> y \<Longrightarrow> h y = ddr (um u) y"
proof -
  define x where "x = gemm_geo g"
  note G = fits_geo [OF fits x_def] and sm = geo_small [OF fits x_def] and W = geo_words [OF fits x_def]
  let ?m = "um u" and ?aw = "if od then sbank g else 0" and ?cw = "if od then cbank_w g else 0"
  have D: "0 < D x" and dx: "d = D x" and Nx: "N = T x * D x" using G(3,5) by (auto simp: d_def N_def x_def)
  have words: "unat ?aw = abank g od" "unat ?cw = cbank g od" using W(3,4) by (simp_all add: abank_def cbank_def x_def)
  have bank: "abank g od \<le> SB x" "cbank g od \<le> CB x" by (simp_all add: abank_def cbank_def x_def)
  define a where "a = gc g + of_nat (s * d) * cbytes g"
  define l where "l = (if gquant g then SA_LADDR 1 (?aw + qout g) else SA_LADDR 3 ?cw)"
  have insn: "store_strip g (of_nat (s * d)) ?aw ?cw = [mat_store a l]"
    by (simp add: store_strip_def a_def l_def cbytes_def mult.assoc)
  have es: "es = 1 \<or> es = 4" "es = (if gquant g then 1 else 4)" by (simp_all add: es_def c_bytes_def)
  have C: "c mod 8 = 0" "ddr_ok ?m c (es * (S x * d * N))" "ddr_base ?m + ddr_bytes ?m \<le> 2 ^ 32"
    using fits unfolding gemm_fits_def Let_def G(2) c_def es_def N_def dx by simp_all
  have room: "s * d + d \<le> S x * d" using strip_room [of s "S x" d] s by (simp add: x_def)
  from rows_in_ddr [OF C(2) room] have ok: "ddr_ok ?m (c + s * d * (es * N)) (d * (es * N))" .
  have pos: "0 < d * (es * N)" "0 < es * N" using D G(10) es by (auto simp: Nx dx)
  have addr: "unat a = c + s * d * (es * N)"
  proof -
    have lt: "unat (gc g) + s * d * unat (cbytes g) < 2 ^ 32"
      using ok C(3) pos unfolding ddr_ok_def W(5) c_def es_def Nx by linarith
    show ?thesis unfolding a_def using unat_lin [OF lt] by (simp add: W(5) c_def es_def Nx)
  qed
  have w1: "unat (?aw + qout g) = abank g od + CB x" using bank sm by (simp add: unat_word_ariths words W(8))
  have small: "unat (?aw + qout g) < 65536" "unat ?cw < 65536" unfolding w1 words using bank sm by linarith+
  have la: "laddr_mem l = out_mem g" "laddr_word l = out_word g od"
    using laddr_mem_of [OF small(1), of 1] laddr_word_of [OF small(1), of 1] laddr_mem_of [OF small(2), of 3]
      laddr_word_of [OF small(2), of 3] w1 words by (simp_all add: l_def out_mem_def out_word_def x_def)
  have wb: "wbytes ?m (out_mem g) = es * d" by (simp add: wbytes_def out_mem_def es dx G(17))
  have q: "es * N = T x * wbytes ?m (out_mem g)" "0 < es * N" using pos by (simp_all add: wb Nx dx)
  have chk: "check_dma ENG_ST ?m (unat a) (out_mem g) (out_word g od) d (es * N) (es * N) False = None"
  proof -
    have "unat a mod 8 = 0"
      unfolding addr by (rule mod8_add [OF C(1) mult8(1)]) (use G(5) in \<open>simp add: dx\<close>)
    moreover have "es * N mod 8 = 0" using mult8(2) [OF G(5), of "es * T x"] by (simp add: Nx ac_simps)
    moreover have "ceil_div (es * N) (wbytes ?m (out_mem g)) = T x" unfolding q(1) by (rule ceil_div_mult) (use pos D es in \<open>auto simp: wb dx\<close>)
    moreover have "out_word g od + T x * d - 1 < depth ?m (out_mem g)"
    proof -
      have n: "0 < T x * d" using G(10) D by (simp add: dx)
      have "cbank g od + T x * d - 1 < 2 * CB x" "abank g od + CB x + T x * d - 1 < 2 * SB x"
        using bank G(8,13) n unfolding dx by linarith+
      then show ?thesis by (simp add: out_word_def out_mem_def depth_def G(18,19) flip: x_def)
    qed
    ultimately show ?thesis using pos(2) D by (simp add: check_dma_def out_mem_def dx)
  qed
  obtain h where
    run: "st (unat a) l d (es * N) (es * N) ?m = (?m\<lparr>ddr := h\<rparr>, None)" and
    ins: "\<And>y. y < d * (es * N) \<Longrightarrow> h (unat a + y) = loc ?m (out_mem g) (out_word g od * wbytes ?m (out_mem g) + y)" and
    outs: "\<And>y. y < unat a \<or> unat a + d * (es * N) \<le> y \<Longrightarrow> h y = ddr ?m y"
    by (rule st_linear [OF chk la _ q]) (use ok in \<open>auto simp: addr\<close>)
  have cf: "unat (st_rows u) = d" "unat (st_rb u) = es * N" "unat (st_pitch u) = es * N"
    using cfg by (simp_all add: cfg_ok_def G(1) W(5) dx es_def Nx)
  show thesis
  proof (rule that)
    show "do_insns other (store_strip g (of_nat (s * d)) ?aw ?cw) u = u\<lparr>um := ?m\<lparr>ddr := h\<rparr>, uerr := None\<rparr>"
      unfolding insn do_insns_simps run_store cf by (rule command_ok) (rule e, rule run)
    show "cfg_ok g (u\<lparr>um := ?m\<lparr>ddr := h\<rparr>, uerr := None\<rparr>)" using cfg by (simp add: cfg_ok_def)
    show "get_int h (c + es * (s * d * N + p)) es = gemm_out g f (s * d + p div N) (p mod N)" if p: "p < d * N" for p
    proof -
      have "get_int h (c + es * (s * d * N + p)) es = cell es (loc ?m (out_mem g)) (out_word g od * d + p)"
        unfolding cell_def
      proof (rule get_int_move)
        fix k assume k: "k < es"
        have "es * p + k < es * (p + 1)" using k by simp
        also have "\<dots> \<le> es * (d * N)" using p by (intro mult_le_mono2) simp
        finally have "es * p + k < d * (es * N)" by (simp add: ac_simps)
        from ins [OF this] show "h (c + es * (s * d * N + p) + k) = loc ?m (out_mem g) ((out_word g od * d + p) * es + k)"
          by (simp add: addr wb algebra_simps)
      qed
      also have "\<dots> = gemm_out g f (s * d + p div N) (p mod N)"
        using out p unfolding has_out_def G(17) dx [symmetric] N_def [symmetric] es_def [symmetric] d_def [symmetric] by blast
      finally show ?thesis .
    qed
    show "h y = ddr ?m y" if "y < c + es * (s * d * N) \<or> c + es * (s * d * N + d * N) \<le> y" for y
      using that by (intro outs) (auto simp: addr algebra_simps)
  qed simp_all
qed

end
