(* ===== verification/GemmRun.thy ===== *)
theory GemmRun
  imports GemmExec
begin

text \<open>
  The GEMM firmware as a whole: the invariant of its loop over the strips, the state the loop starts
  from, and what the program leaves in DDR and in the mailbox.
\<close>

section \<open>An iteration\<close>

text \<open>The invariant at the start of strip \<open>s\<close>, with \<open>f\<close> what DDR held at the start.\<close>
definition strip_inv :: "gemm \<Rightarrow> (nat \<Rightarrow> u8) \<Rightarrow> nat \<Rightarrow> unit_state \<Rightarrow> bool" where
  "strip_inv g f s u \<longleftrightarrow>
     uerr u = None \<and> cfg_ok g u \<and> gemm_fits g (um u) \<and> has_b g f (um u) \<and> has_vec g f (um u) \<and>
     ((s = 0 \<or> prefetch g) \<and> s < S (gemm_geo g) \<longrightarrow>
        has_a g f (odd s) (s * D (gemm_geo g)) (um u) \<and> has_bias g f (odd s) (s * D (gemm_geo g)) (um u)) \<and>
     only_c g f (ddr (um u)) \<and>
     (\<forall>i < s * D (gemm_geo g). \<forall>j < unat (gN g).
        get_int (ddr (um u)) (unat (gc g) + c_bytes g * (i * unat (gN g) + j)) (c_bytes g) = gemm_out g f i j)"

text \<open>The bias vectors are at the end of the banks, beyond the rows of a strip.\<close>
lemma vec_frame:
  assumes "gemm_fits g m" and "has_vec g f m"
    and "\<And>q. q < cbank g od * arr m \<or> (cbank g od + unat (gN g)) * arr m \<le> q \<Longrightarrow> cell 4 b q = cell 4 (loc m 3) q"
  shows "has_vec g f (m\<lparr>loc := (loc m)(3 := b)\<rparr>)"
proof -
  define x where "x = gemm_geo g"
  note G = fits_geo [OF assms(1) x_def]
  have "cell 4 b ((cbank g od' + (CB x - T x)) * D x + j) = cell 4 (loc m 3) ((cbank g od' + (CB x - T x)) * D x + j)"
    if q: "gquant g" "gbias g \<noteq> 0" and j: "j < T x * D x" for od' j
  proof (rule assms(3))
    have w: "T x * D x + T x \<le> CB x" by (rule G(16) [OF q])
    have "cbank g od' + (CB x - T x) + T x \<le> cbank g od \<or> cbank g od + T x * D x \<le> cbank g od' + (CB x - T x)"
      using w unfolding cbank_def x_def [symmetric] by (cases od; cases od'; simp only: if_True if_False; linarith)
    then have "(cbank g od' + (CB x - T x) + T x) * D x \<le> cbank g od * D x \<or> (cbank g od + T x * D x) * D x \<le> (cbank g od' + (CB x - T x)) * D x"
      by (meson mult_le_mono1)
    then show "(cbank g od' + (CB x - T x)) * D x + j < cbank g od * arr m \<or>
        (cbank g od + unat (gN g)) * arr m \<le> (cbank g od' + (CB x - T x)) * D x + j"
      using j unfolding G(3,17) add_mult_distrib by linarith
  qed
  then show ?thesis
    using assms(2) by (simp add: has_vec_def G(3,17) flip: x_def)
qed

text \<open>What an execution leaves alone, as cells outside the rows of the strip.\<close>
lemma rows_of_strip:
  assumes "gemm_fits g m" and "x = gemm_geo g" and "q < cbank g od * D x \<or> (cbank g od + unat (gN g)) * D x \<le> q"
    and "s < T x" and "r < D x"
  shows "q div D x \<noteq> cword g od s r"
proof
  note G = fits_geo [OF assms(1,2)]
  assume e: "q div D x = cword g od s r"
  have D: "0 < D x" using G(5) by auto
  have "(r + 1) * T x \<le> D x * T x" using assms(5) by (intro mult_le_mono1) simp
  then have "cbank g od \<le> q div D x" "q div D x < cbank g od + unat (gN g)"
    unfolding e cword_def assms(2) [symmetric] G(3) using assms(4) by (simp_all add: mult.commute)
  then have "cbank g od * D x \<le> q" "q < (cbank g od + unat (gN g)) * D x"
    using D by (metis div_le_mono div_times_less_eq_dividend le_trans mult_le_mono1, simp add: div_less_iff_less_mult)
  then show False using assms(3) by linarith
qed

text \<open>Loading the next strip into the other banks keeps the finished one.\<close>
lemma out_frame:
  assumes fits: "gemm_fits g m" and out: "has_out g f od i m"
    and l1: "\<And>y. y < abank g (\<not> od) * arr m \<or> (abank g (\<not> od) + unat (gK g)) * arr m \<le> y \<Longrightarrow> l 1 y = loc m 1 y"
    and l3: "\<And>q. q < cbank g (\<not> od) * arr m \<or> (cbank g (\<not> od) + unat (gN g)) * arr m \<le> q \<Longrightarrow> cell 4 (l 3) q = cell 4 (loc m 3) q"
  shows "has_out g f od i (m\<lparr>loc := l\<rparr>)"
proof -
  define x where "x = gemm_geo g"
  note G = fits_geo [OF fits x_def]
  have "cell (c_bytes g) (l (out_mem g)) (out_word g od * D x + q) = cell (c_bytes g) (loc m (out_mem g)) (out_word g od * D x + q)"
    if q: "q < D x * (T x * D x)" for q
  proof (cases "gquant g")
    case True
    have "abank g od + CB x + T x * D x \<le> abank g (\<not> od) \<or> abank g (\<not> od) + Q x * D x \<le> abank g od + CB x"
      using G(8,13) G(15) [OF True] by (cases od) (simp_all add: abank_def flip: x_def)
    then have "(abank g od + CB x + T x * D x) * D x \<le> abank g (\<not> od) * D x \<or> (abank g (\<not> od) + Q x * D x) * D x \<le> (abank g od + CB x) * D x"
      by (meson mult_le_mono1)
    then have "l 1 ((abank g od + CB x) * D x + q) = loc m 1 ((abank g od + CB x) * D x + q)"
      using q unfolding add_mult_distrib by (intro l1) (auto simp: G(4,17) algebra_simps)
    then have "cell 1 (l 1) ((abank g od + CB x) * D x + q) = cell 1 (loc m 1) ((abank g od + CB x) * D x + q)"
      unfolding cell_def by (intro get_int_move) simp
    then show ?thesis using True by (simp add: c_bytes_def out_mem_def out_word_def flip: x_def)
  next
    case False
    have "cbank g od + T x * D x \<le> cbank g (\<not> od) \<or> cbank g (\<not> od) + T x * D x \<le> cbank g od"
      using G(13) by (cases od) (simp_all add: cbank_def flip: x_def)
    then have "(cbank g od + T x * D x) * D x \<le> cbank g (\<not> od) * D x \<or> (cbank g (\<not> od) + T x * D x) * D x \<le> cbank g od * D x"
      by (meson mult_le_mono1)
    then have "cell 4 (l 3) (cbank g od * D x + q) = cell 4 (loc m 3) (cbank g od * D x + q)"
      using q unfolding add_mult_distrib by (intro l3) (auto simp: G(3,17) algebra_simps)
    then show ?thesis using False by (simp add: c_bytes_def out_mem_def out_word_def)
  qed
  then show ?thesis
    using out by (simp add: has_out_def G(3,17))
qed

lemma only_c_after:
  assumes c: "only_c g f h" and fits: "gemm_fits g m" and s: "s < S (gemm_geo g)"
    and outs: "\<And>y. y < unat (gc g) + c_bytes g * (s * D (gemm_geo g) * unat (gN g)) \<or>
      unat (gc g) + c_bytes g * (s * D (gemm_geo g) * unat (gN g) + D (gemm_geo g) * unat (gN g)) \<le> y \<Longrightarrow> h' y = h y"
  shows "only_c g f h'"
proof -
  note G = fits_geo [OF fits refl]
  have "(s * D (gemm_geo g) + D (gemm_geo g)) * unat (gN g) \<le> unat (gM g) * unat (gN g)"
    unfolding G(2) by (intro mult_le_mono1 strip_room s)
  then have "c_bytes g * (s * D (gemm_geo g) * unat (gN g) + D (gemm_geo g) * unat (gN g)) \<le> c_bytes g * (unat (gM g) * unat (gN g))"
    unfolding add_mult_distrib [symmetric] by (rule mult_le_mono2)
  then have "h' y = h y" if "y < unat (gc g) \<or> unat (gc g) + c_bytes g * (unat (gM g) * unat (gN g)) \<le> y" for y
    using that by (intro outs) linarith
  then show ?thesis using c by (simp add: only_c_def)
qed

lemma strip_step:
  assumes inv: "strip_inv g f s u" and s: "s < S (gemm_geo g)"
  shows "strip_inv g f (Suc s) (do_insns other (gemm_strip g (of_nat (s * D (gemm_geo g))) (odd s)) u)"
proof -
  define x where "x = gemm_geo g"
  have I: "uerr u = None" "cfg_ok g u" "gemm_fits g (um u)" "has_b g f (um u)" "has_vec g f (um u)" "only_c g f (ddr (um u))"
    using inv by (simp_all add: strip_inv_def)
  note G = fits_geo [OF I(3) x_def]
  have D: "0 < D x" using G(5) by auto
  let ?od = "odd s" and ?i = "of_nat (s * D x) :: u32"
  let ?aw = "\<lambda>b. if b then sbank g else 0" and ?cw = "\<lambda>b. if b then cbank_w g else 0"
  have room: "s * D x + D x \<le> S x * D x" using strip_room [of s "S x" "D x"] s by (simp add: x_def)
  have M32: "S x * D x < 2 ^ 32" using unsigned_less [of "gM g", where 'a = nat] by (simp add: G(2))
  have ui: "unat ?i = s * D x" by (rule unat_fit) (use room M32 D in linarith)
  have i0: "?i \<noteq> 0 \<longleftrightarrow> s \<noteq> 0" using ui D by (metis mult_eq_0_iff neq0_conv unat_eq_0)
  have nexti: "?i + gd g = of_nat (Suc s * D x)"
  proof -
    have "gd g = of_nat (D x)" by (simp flip: G(1))
    then show ?thesis by simp
  qed
  have more: "?i + gd g < gM g \<longleftrightarrow> Suc s < S x"
  proof -
    have un: "unat (?i + gd g) = Suc s * D x" unfolding nexti
    proof (rule unat_fit)
      have "Suc s * D x \<le> S x * D x" using room by simp
      then show "Suc s * D x < 2 ^ 32" using M32 by (rule le_less_trans)
    qed
    show ?thesis unfolding word_less_nat_alt un G(2) using D by (simp only: mult_less_cancel2 simp_thms)
  qed
  \<comment> \<open>the strip itself, unless it was loaded before\<close>
  obtain u1 where 1: "do_insns other (if ?i \<noteq> 0 \<and> \<not> prefetch g then load_strip g ?i (?aw ?od) (?cw ?od) else []) u = u1"
    "uerr u1 = None" "cfg_ok g u1" "gemm_fits g (um u1)" "has_b g f (um u1)" "has_vec g f (um u1)" "ddr (um u1) = ddr (um u)"
    "has_a g f ?od (s * D x) (um u1)" "has_bias g f ?od (s * D x) (um u1)"
  proof (cases "s = 0 \<or> prefetch g")
    case True
    then have no: "(?i \<noteq> 0 \<and> \<not> prefetch g) = False" using i0 by blast
    have "has_a g f ?od (s * D x) (um u)" "has_bias g f ?od (s * D x) (um u)"
      using inv True s unfolding strip_inv_def x_def by blast+
    then show thesis using I by (intro that [of u]) (simp_all only: no if_False do_insns_simps)
  next
    case False
    obtain l v where v: "do_insns other (load_strip g (of_nat (s * D (gemm_geo g))) (?aw ?od) (?cw ?od)) u = v" "kept u v"
      "um v = (um u)\<lparr>loc := l\<rparr>" "l 2 = loc (um u) 2" "has_a g f ?od (s * D (gemm_geo g)) (um v)" "has_bias g f ?od (s * D (gemm_geo g)) (um v)"
      "\<And>q. q < cbank g ?od * arr (um u) \<or> (cbank g ?od + unat (gN g)) * arr (um u) \<le> q \<Longrightarrow> cell 4 (l 3) q = cell 4 (loc (um u) 3) q"
      by (rule load_strip_ok [OF I(3,1) s I(6), of other ?od]) blast
    have "has_vec g f (um v)" using vec_frame [OF I(3,5) v(7)] by (simp add: has_vec_def v(3))
    moreover have "(?i \<noteq> 0 \<and> \<not> prefetch g) = True" using False i0 by blast
    ultimately show thesis
      using v(1,5,6) I(3,4) kept_err [OF v(2)] cfg_kept [OF I(2) v(2)]
      by (intro that [of v]) (simp_all only: if_True x_def, simp_all add: v(3,4) has_b_def)
  qed
  \<comment> \<open>its tiles\<close>
  obtain acc u2 where 2: "do_insns other (exec_strip g (?aw ?od) (?cw ?od)) u1 = u2" "uerr u2 = None" "cfg_ok g u2"
    "um u2 = (um u1)\<lparr>loc := (loc (um u1))(3 := acc)\<rparr>" "has_c g f ?od (s * D x) (um u2)"
    "\<And>q. (\<And>s r. s < T (gemm_geo g) \<Longrightarrow> r < arr (um u1) \<Longrightarrow> q div arr (um u1) \<noteq> cword g ?od s r) \<Longrightarrow> cell 4 acc q = cell 4 (loc (um u1) 3) q"
    by (rule exec_strip_ok [OF 1(4,2,3,8,5,9), of other]) blast
  note G1 = fits_geo [OF 1(4) x_def]
  have vec2: "has_vec g f (um u2)"
    unfolding 2(4)
  proof (rule vec_frame [OF 1(4,6)])
    fix q assume "q < cbank g ?od * arr (um u1) \<or> (cbank g ?od + unat (gN g)) * arr (um u1) \<le> q"
    then show "cell 4 acc q = cell 4 (loc (um u1) 3) q"
      using rows_of_strip [OF 1(4) x_def, of q ?od] by (intro 2(6)) (simp add: G1(17) x_def [symmetric])
  qed
  have s2: "gemm_fits g (um u2)" "has_b g f (um u2)" "ddr (um u2) = ddr (um u)"
    using 1(4,5,7) by (simp_all add: 2(4) has_b_def)
  \<comment> \<open>the epilogue\<close>
  obtain u3 where 3: "do_insns other (quant_strip g (?aw ?od) (?cw ?od)) u2 = u3" "uerr u3 = None" "cfg_ok g u3"
    "gemm_fits g (um u3)" "has_b g f (um u3)" "has_vec g f (um u3)" "ddr (um u3) = ddr (um u)" "has_out g f ?od (s * D x) (um u3)"
  proof (cases "gquant g")
    case False
    then have "do_insns other (quant_strip g (?aw ?od) (?cw ?od)) u2 = u2" by (simp add: quant_strip_def)
    then show thesis using has_out_plain [OF s2(1) False 2(5)] 2(2,3) s2 vec2 by (intro that)
  next
    case True
    obtain b v where v: "do_insns other (quant_strip g (?aw ?od) (?cw ?od)) u2 = v" "uerr v = None" "cfg_ok g v"
      "um v = (um u2)\<lparr>loc := (loc (um u2))(1 := b)\<rparr>" "has_out g f ?od (s * D x) (um v)"
      by (rule quant_strip_ok [OF s2(1) 2(2,3) True 2(5) vec2, of other]) blast
    then show thesis using s2 vec2 by (intro that [of v]) (simp_all add: has_b_def has_vec_def)
  qed
  \<comment> \<open>the next strip\<close>
  obtain u4 where 4: "do_insns other (if prefetch g \<and> ?i + gd g < gM g
      then load_strip g (?i + gd g) (if ?od then 0 else sbank g) (if ?od then 0 else cbank_w g) else []) u3 = u4"
    "uerr u4 = None" "cfg_ok g u4" "gemm_fits g (um u4)" "has_b g f (um u4)" "has_vec g f (um u4)" "ddr (um u4) = ddr (um u)"
    "has_out g f ?od (s * D x) (um u4)"
    "prefetch g \<and> Suc s < S x \<Longrightarrow> has_a g f (odd (Suc s)) (Suc s * D x) (um u4) \<and> has_bias g f (odd (Suc s)) (Suc s * D x) (um u4)"
  proof (cases "prefetch g \<and> Suc s < S x")
    case False
    then have no: "(prefetch g \<and> ?i + gd g < gM g) = False" using more by blast
    show thesis using 3 False by (intro that [of u3]) (simp_all only: no if_False do_insns_simps simp_thms)
  next
    case True
    have c3: "only_c g f (ddr (um u3))" and s': "Suc s < S (gemm_geo g)" using I(6) True by (simp_all add: 3(7) x_def)
    obtain l v where v: "do_insns other (load_strip g (of_nat (Suc s * D (gemm_geo g))) (?aw (odd (Suc s))) (?cw (odd (Suc s)))) u3 = v" "kept u3 v"
      "um v = (um u3)\<lparr>loc := l\<rparr>" "l 2 = loc (um u3) 2" "has_a g f (odd (Suc s)) (Suc s * D (gemm_geo g)) (um v)"
      "has_bias g f (odd (Suc s)) (Suc s * D (gemm_geo g)) (um v)"
      "\<And>y. y < abank g (odd (Suc s)) * arr (um u3) \<or> (abank g (odd (Suc s)) + unat (gK g)) * arr (um u3) \<le> y \<Longrightarrow> l 1 y = loc (um u3) 1 y"
      "\<And>q. q < cbank g (odd (Suc s)) * arr (um u3) \<or> (cbank g (odd (Suc s)) + unat (gN g)) * arr (um u3) \<le> q \<Longrightarrow> cell 4 (l 3) q = cell 4 (loc (um u3) 3) q"
      by (rule load_strip_ok [OF 3(4,2) s' c3, of other "odd (Suc s)"]) blast
    have sw: "(if ?od then 0 else sbank g) = ?aw (odd (Suc s))" "(if ?od then 0 else cbank_w g) = ?cw (odd (Suc s))" by simp_all
    have "has_vec g f (um v)" using vec_frame [OF 3(4,6) v(8)] by (simp add: has_vec_def v(3))
    moreover have "has_out g f ?od (s * D x) (um v)"
      unfolding v(3) by (rule out_frame [OF 3(4,8)]) (use v(7,8) in simp_all)
    moreover have "(prefetch g \<and> ?i + gd g < gM g) = True" using True more by blast
    moreover have "do_insns other (load_strip g (?i + gd g) (if ?od then 0 else sbank g) (if ?od then 0 else cbank_w g)) u3 = v"
      unfolding nexti sw by (rule v(1) [folded x_def])
    ultimately show thesis
      using v(5,6) 3(4,5,7) kept_err [OF v(2)] cfg_kept [OF 3(3) v(2)]
      by (intro that [of v]) (simp_all only: if_True x_def, simp_all add: v(3,4) has_b_def)
  qed
  \<comment> \<open>the store\<close>
  have o4: "has_out g f ?od (s * D (gemm_geo g)) (um u4)" using 4(8) by (simp add: x_def)
  obtain h v where 5: "do_insns other (store_strip g (of_nat (s * D (gemm_geo g))) (?aw ?od) (?cw ?od)) u4 = v" "uerr v = None" "cfg_ok g v"
    "um v = (um u4)\<lparr>ddr := h\<rparr>"
    "\<And>p. p < D (gemm_geo g) * unat (gN g) \<Longrightarrow> get_int h (unat (gc g) + c_bytes g * (s * D (gemm_geo g) * unat (gN g) + p)) (c_bytes g) =
       gemm_out g f (s * D (gemm_geo g) + p div unat (gN g)) (p mod unat (gN g))"
    "\<And>y. y < unat (gc g) + c_bytes g * (s * D (gemm_geo g) * unat (gN g)) \<or>
      unat (gc g) + c_bytes g * (s * D (gemm_geo g) * unat (gN g) + D (gemm_geo g) * unat (gN g)) \<le> y \<Longrightarrow> h y = ddr (um u4) y"
    by (rule store_strip_ok [OF 4(4,2,3) s o4, of other]) blast
  have all: "do_insns other (gemm_strip g (of_nat (s * D (gemm_geo g))) ?od) u = v"
    unfolding gemm_strip_def Let_def do_insns_append x_def [symmetric] 1(1) 2(1) 3(1) 4(1) by (rule 5(1) [folded x_def])
  have rows: "get_int h (unat (gc g) + c_bytes g * (i * unat (gN g) + j)) (c_bytes g) = gemm_out g f i j"
    if i: "i < Suc s * D x" and j: "j < unat (gN g)" for i j
  proof (cases "i < s * D x")
    case True
    have "get_int h (unat (gc g) + c_bytes g * (i * unat (gN g) + j)) (c_bytes g) =
        get_int (ddr (um u)) (unat (gc g) + c_bytes g * (i * unat (gN g) + j)) (c_bytes g)"
    proof (rule get_int_frame)
      fix y assume y: "y < unat (gc g) + c_bytes g * (i * unat (gN g) + j) + c_bytes g"
      have "(i + 1) * unat (gN g) \<le> s * D x * unat (gN g)" using True by (intro mult_le_mono1) simp
      then have "i * unat (gN g) + j + 1 \<le> s * D x * unat (gN g)" using j by simp
      then have "c_bytes g * (i * unat (gN g) + j + 1) \<le> c_bytes g * (s * D x * unat (gN g))" by (rule mult_le_mono2)
      then show "h y = ddr (um u) y" using y 5(6) [of y] by (simp add: 4(7) x_def algebra_simps)
    qed
    then show ?thesis using inv True j by (simp add: strip_inv_def flip: x_def)
  next
    case False
    define r where "r = i - s * D x"
    have r: "r < D x" "i = s * D x + r" using False i by (simp_all add: r_def)
    have "(r + 1) * unat (gN g) \<le> D x * unat (gN g)" using r(1) by (intro mult_le_mono1) simp
    then have p: "r * unat (gN g) + j < D x * unat (gN g)" using j by simp
    have "(r * unat (gN g) + j) div unat (gN g) = r" "(r * unat (gN g) + j) mod unat (gN g) = j" using j by simp_all
    then show ?thesis using 5(5) [folded x_def, OF p] by (simp add: r(2) algebra_simps)
  qed
  show ?thesis
    unfolding all [folded x_def] strip_inv_def x_def [symmetric]
  proof (intro conjI impI allI)
    show "only_c g f (ddr (um v))"
    proof (rule only_c_after [OF I(6) I(3) s])
      fix y assume "y < unat (gc g) + c_bytes g * (s * D (gemm_geo g) * unat (gN g)) \<or>
        unat (gc g) + c_bytes g * (s * D (gemm_geo g) * unat (gN g) + D (gemm_geo g) * unat (gN g)) \<le> y"
      from 5(6) [OF this] show "ddr (um v) y = ddr (um u) y" by (simp add: 5(4) 4(7))
    qed
    show "get_int (ddr (um v)) (unat (gc g) + c_bytes g * (i * unat (gN g) + j)) (c_bytes g) = gemm_out g f i j"
      if "i < Suc s * D x" "j < unat (gN g)" for i j using rows [OF that] by (simp add: 5(4))
    assume "(Suc s = 0 \<or> prefetch g) \<and> Suc s < S x"
    then show "has_a g f (odd (Suc s)) (Suc s * D x) (um v)" "has_bias g f (odd (Suc s)) (Suc s * D x) (um v)"
      using 4(9) by (simp_all add: 5(4) has_a_def has_bias_def)
  qed (use 5(2,3) 4(4-6) in \<open>simp_all add: 5(4) has_b_def has_vec_def\<close>)
qed

section \<open>Before the loop\<close>

lemma only_c_refl: "only_c g f f"
  by (simp add: only_c_def)

text \<open>The bias vector at the end of both ACC banks.\<close>
lemma load_vec:
  assumes fits: "gemm_fits g (um u)" and e: "uerr u = None" and q: "gquant g" "gbias g \<noteq> 0" and f: "f = ddr (um u)"
  obtains b v where "do_insns other (mat_cfg_load 1 (4 * gN g) (4 * gN g) SA_LD_LINEAR @
      [mat_load (gbias g) (SA_LADDR SA_MEM_ACC (vbias g)), mat_load (gbias g) (SA_LADDR SA_MEM_ACC (cbank_w g + vbias g))]) u = v"
    and "kept u v" and "um v = (um u)\<lparr>loc := (loc (um u))(3 := b)\<rparr>" and "has_vec g f (um v)"
proof -
  define x where "x = gemm_geo g"
  note G = fits_geo [OF fits x_def] and sm = geo_small [OF fits x_def] and W = geo_words [OF fits x_def]
  let ?m = "um u" and ?n = "4 * gN g"
  have D: "0 < D x" using G(5) by auto
  have TC: "T x * D x + T x \<le> CB x" by (rule G(16) [OF q])
  note B = fits_bias [OF fits x_def q(2)]
  have ok: "ddr_ok ?m (unat (gbias g)) (4 * (1 * (T x * D x)))" using B(2) [OF q(1)] by simp
  have w2: "unat (cbank_w g + vbias g) = CB x + (CB x - T x)" using sm by (simp add: unat_word_ariths W(4,7))
  have r1: "unat (vbias g) + 1 * T x \<le> 2 * CB x" "unat (cbank_w g + vbias g) + 1 * T x \<le> 2 * CB x"
    unfolding W(7) w2 using TC by linarith+
  obtain b1 where
    run1: "ld (unat (gbias g)) (SA_LADDR 3 (vbias g)) 1 (4 * (T x * D x)) (4 * (T x * D x)) False ?m = (?m\<lparr>loc := (loc ?m)(3 := b1)\<rparr>, None)" and
    ins1: "\<And>p. p < 1 * (T x * D x) \<Longrightarrow> cell 4 b1 (unat (vbias g) * D x + p) = get_int (ddr ?m) (unat (gbias g) + 4 * p) 4"
    by (rule acc_rows [OF fits x_def B(1) ok r1(1)]) auto
  let ?m1 = "?m\<lparr>loc := (loc ?m)(3 := b1)\<rparr>"
  have fits1: "gemm_fits g ?m1" and ok1: "ddr_ok ?m1 (unat (gbias g)) (4 * (1 * (T x * D x)))" using fits ok by simp_all
  obtain b where
    run2: "ld (unat (gbias g)) (SA_LADDR 3 (cbank_w g + vbias g)) 1 (4 * (T x * D x)) (4 * (T x * D x)) False ?m1 = (?m1\<lparr>loc := (loc ?m1)(3 := b)\<rparr>, None)" and
    ins2: "\<And>p. p < 1 * (T x * D x) \<Longrightarrow> cell 4 b (unat (cbank_w g + vbias g) * D x + p) = get_int (ddr ?m1) (unat (gbias g) + 4 * p) 4" and
    outs2: "\<And>p. p < unat (cbank_w g + vbias g) * D x \<or> unat (cbank_w g + vbias g) * D x + 1 * (T x * D x) \<le> p \<Longrightarrow> cell 4 b p = cell 4 (loc ?m1 3) p"
    by (rule acc_rows [OF fits1 x_def B(1) ok1 r1(2)]) auto
  let ?u1 = "(ld_cfg 1 ?n ?n 0 u)\<lparr>um := ?m1, uerr := None\<rparr>"
  define v where "v = (ld_cfg 1 ?n ?n 0 u)\<lparr>um := ?m\<lparr>loc := (loc ?m)(3 := b)\<rparr>, uerr := None\<rparr>"
  have n16: "unat ?n < 65536" using sm(5) unfolding W(6) by linarith
  have "do_insns other (mat_cfg_load 1 ?n ?n 0 @ [mat_load (gbias g) (SA_LADDR 3 (vbias g))]) u =
      command (ld (unat (gbias g)) (SA_LADDR 3 (vbias g)) (unat (1 :: u32)) (unat ?n) (unat ?n) (0 = (1 :: u32))) (ld_cfg 1 ?n ?n 0 u)"
    by (rule run_load) (use n16 in simp_all)
  also have "\<dots> = ?u1"
    by (rule command_ok) (use run1 in \<open>simp_all add: e W(6)\<close>)
  finally have 1: "do_insns other (mat_cfg_load 1 ?n ?n 0 @ [mat_load (gbias g) (SA_LADDR 3 (vbias g))]) u = ?u1" .
  have u1: "?u1 = ld_cfg 1 ?n ?n 0 (u\<lparr>um := ?m1, uerr := None\<rparr>)" by (simp add: ld_cfg_def)
  have "do_insn other (mat_load (gbias g) (SA_LADDR 3 (cbank_w g + vbias g))) ?u1 =
      command (ld (unat (gbias g)) (SA_LADDR 3 (cbank_w g + vbias g)) (unat (1 :: u32)) (unat ?n) (unat ?n) False) ?u1"
    unfolding u1 by (rule run_load_again) (use n16 in simp_all)
  also have "\<dots> = ?u1\<lparr>um := ?m1\<lparr>loc := (loc ?m1)(3 := b)\<rparr>, uerr := None\<rparr>"
    by (rule command_ok) (use run2 in \<open>simp_all add: W(6)\<close>)
  finally have 2: "do_insn other (mat_load (gbias g) (SA_LADDR 3 (cbank_w g + vbias g))) ?u1 = v" by (simp add: v_def)
  show thesis
  proof (rule that)
    show "do_insns other (mat_cfg_load 1 ?n ?n 0 @ [mat_load (gbias g) (SA_LADDR 3 (vbias g)), mat_load (gbias g) (SA_LADDR 3 (cbank_w g + vbias g))]) u = v"
      using 1 2 by (simp add: do_insns_append)
    show "kept u v" unfolding v_def by (rule kept_load [OF e])
    show "um v = ?m\<lparr>loc := (loc ?m)(3 := b)\<rparr>" by (simp add: v_def)
    have "cell 4 b ((cbank g od + (CB x - T x)) * D x + j) = get_int f (unat (gbias g) + 4 * j) 4" if j: "j < T x * D x" for od j
    proof (cases od)
      case True
      then show ?thesis using ins2 [of j] j by (simp add: cbank_def f w2 flip: x_def)
    next
      case False
      have "(CB x - T x) + T x \<le> unat (cbank_w g + vbias g)" unfolding w2 using TC by linarith
      then have "((CB x - T x) + T x) * D x \<le> unat (cbank_w g + vbias g) * D x" by (rule mult_le_mono1)
      then have "cell 4 b ((CB x - T x) * D x + j) = cell 4 b1 ((CB x - T x) * D x + j)"
        using j outs2 [of "(CB x - T x) * D x + j"] unfolding add_mult_distrib by simp
      then show ?thesis using False ins1 [of j] j by (simp add: cbank_def f W(7))
    qed
    then show "has_vec g f (um v)" by (simp add: has_vec_def v_def G(3,17) flip: x_def)
  qed
qed

text \<open>The epilogue's configuration.\<close>
lemma run_ve_cfg:
  assumes fits: "gemm_fits g (um u)"
  obtains w where "do_insns other ([vec_cfg 0 ((gop g AND (push_bit 4 1 OR push_bit 5 1)) OR (if gbias g \<noteq> 0 then 0 else 5)),
            vec_cfg 1 (gd g * gN g), vec_cfg 3 (2 OR push_bit 2 0), vec_cfg 4 (nt g)] @
           vec_cfg_requant (gscale g) (gshift g) (gzp g) (glo g) (ghi g)) u = u\<lparr>va := w\<rparr>" and "ve_cfg g w"
proof
  define x where "x = gemm_geo g"
  note G = fits_geo [OF fits x_def] and sm = geo_small [OF fits x_def] and W = geo_words [OF fits x_def]
  let ?op = "(gop g AND (push_bit 4 1 OR push_bit 5 1)) OR (if gbias g \<noteq> 0 then 0 else 5)"
  let ?logd = "if arr (um u) = 16 then 4 else 3 :: nat"
  let ?w = "(va u)\<lparr>v_op := ucast ?op, v_groups := ucast (drop_bit ?logd (gd g * gN g)), v_types := 2, v_mod := ucast (nt g),
    v_scale := ucast (gscale g), v_shift := ucast (gshift g), v_zp := gzp g, v_lo := glo g, v_hi := ghi g\<rparr>"
  show "do_insns other ([vec_cfg 0 ?op, vec_cfg 1 (gd g * gN g), vec_cfg 3 (2 OR push_bit 2 0), vec_cfg 4 (nt g)] @
      vec_cfg_requant (gscale g) (gshift g) (gzp g) (glo g) (ghi g)) u = u\<lparr>va := ?w\<rparr>"
    by (simp add: vec_cfg_requant_def set_vcfg_def)
  have "unat (drop_bit ?logd (gd g * gN g)) = T x * D x"
    using G(5) by (auto simp: unat_drop_bit_eq drop_bit_eq_div [where 'a = nat] W(13) G(17))
  moreover from this have "unat (drop_bit ?logd (gd g * gN g)) < 65536" using sm(5) by linarith
  moreover have "unat (nt g) < 65536" using sm(3) W(1) by linarith
  ultimately show "ve_cfg g ?w"
    by (simp add: ve_cfg_def unat16 G(3) del: if_split)
qed

lemma has_b_of:
  assumes fits: "gemm_fits g m" and x: "x = gemm_geo g"
    and lo: "\<And>k c l. \<lbrakk>k < Q x * D x; c < (if bsplit g then (T x + 1) div 2 else T x); l < D x\<rbrakk> \<Longrightarrow>
      loc m 2 ((c * (Q x * D x) + k) * D x + l) = f (unat (gb g) + (k * (T x * D x) + (c * D x + l)))"
    and hi: "\<And>k c l. \<lbrakk>bsplit g; k < Q x * D x; c < T x div 2; l < D x\<rbrakk> \<Longrightarrow>
      loc m 2 ((SB x + c * (Q x * D x) + k) * D x + l) = f (unat (gb g) + (k * (T x * D x) + (((T x + 1) div 2 + c) * D x + l)))"
  shows "has_b g f m"
proof -
  note G = fits_geo [OF fits x]
  have "loc m 2 ((bpos g s + k) * D x + l) = f (unat (gb g) + (k * (T x * D x) + (s * D x + l)))"
    if k: "k < Q x * D x" and s: "s < T x" and l: "l < D x" for k s l
  proof (cases "bsplit g \<and> (T x + 1) div 2 \<le> s")
    case True
    define c where "c = s - (T x + 1) div 2"
    have c: "s = (T x + 1) div 2 + c" "c < T x div 2" using True s by (simp_all add: c_def) linarith
    have "bpos g s = SB x + c * (Q x * D x)" using True by (simp add: bpos_def c_def Let_def G(4) flip: x)
    then show ?thesis using hi [OF _ k c(2) l] True by (simp only: c(1) [symmetric] simp_thms)
  next
    case False
    then have "bpos g s = s * (Q x * D x)" by (auto simp: bpos_def Let_def G(4) simp flip: x)
    then show ?thesis using lo [OF k _ l] False s by (auto split: if_splits)
  qed
  then show ?thesis by (simp add: has_b_def G(3,4,17) flip: x)
qed

lemma perf_begin_kept: "do_insns other (sa_perf_begin c) u = u"
  by (simp add: sa_perf_begin_def)

text \<open>The state the loop starts from.\<close>
lemma head_inv:
  assumes fits: "gemm_fits g (um u)" and flags: "gquant g \<Longrightarrow> \<not> bit (v_flags u) 0" and f: "f = ddr (um u)"
  shows "strip_inv g f 0 (do_insns other (gemm_head cp g) u)"
proof -
  define x where "x = gemm_geo g"
  note G = fits_geo [OF fits x_def] and sm = geo_small [OF fits x_def] and W = geo_words [OF fits x_def]
  let ?h = "(T x + 1) div 2" and ?K = "Q x * D x"
  define u0 where "u0 = u\<lparr>uerr := None\<rparr>"
  have u0: "uerr u0 = None" "um u0 = um u" "gemm_fits g (um u0)" using fits by (simp_all add: u0_def)
  have hT: "?h + T x div 2 = T x" "0 < ?h" using G(10) by linarith+
  let ?n = "if bsplit g then ?h else T x"
  \<comment> \<open>B, or its first half\<close>
  have n: "0 < ?n" "0 + ?n \<le> T x" using hT G(10) by auto
  have wn: "unat (0 :: u32) + ?n * ?K \<le> 2 * SB x" using G(14) W(14) by (cases "bsplit g") auto
  have cols: "unat (if bsplit g then nt0 g * gd g else gN g) = ?n * D x" using W(11) G(3) by simp
  obtain b1 u1 where 1: "do_insns other (mat_cfg_load (gK g) (if bsplit g then nt0 g * gd g else gN g) (gN g) SA_LD_INTERLEAVE @
       [mat_load (gb g) (SA_LADDR SA_MEM_SPAD_B 0)]) u0 = u1" "kept u0 u1" "um u1 = (um u0)\<lparr>loc := (loc (um u0))(2 := b1)\<rparr>"
    "\<And>k c l. \<lbrakk>k < ?K; c < ?n; l < D x\<rbrakk> \<Longrightarrow>
      b1 ((unat (0 :: u32) + c * ?K + k) * D x + l) = ddr (um u0) (unat (gb g) + (k * (T x * D x) + ((0 + c) * D x + l)))"
    by (rule load_cols [OF u0(3) x_def u0(1) _ cols n(2,1) wn, of "gb g" other]) auto
  have lb: "do_insns other (load_b g) u0 = u1" using 1(1) by (simp add: load_b_def split: if_splits)
  \<comment> \<open>the first strip of A\<close>
  have f1: "gemm_fits g (um u1)" "uerr u1 = None" "only_c g f (ddr (um u1))" "0 < S (gemm_geo g)"
    using u0(3) kept_err [OF 1(2)] G(9) by (simp_all add: 1(3) u0(2) f only_c_refl x_def)
  obtain l2 u2 where 2: "do_insns other (load_strip g (of_nat (0 * D (gemm_geo g))) (if False then sbank g else 0) (if False then cbank_w g else 0)) u1 = u2"
    "kept u1 u2" "um u2 = (um u1)\<lparr>loc := l2\<rparr>" "l2 2 = loc (um u1) 2" "has_a g f False (0 * D (gemm_geo g)) (um u2)"
    "has_bias g f False (0 * D (gemm_geo g)) (um u2)"
    by (rule load_strip_ok [OF f1(1,2,4,3), of other False]) blast
  have ls: "do_insns other (load_strip g 0 0 0) u1 = u2" using 2(1) by simp
  have l22: "loc (um u2) 2 = b1" by (simp add: 2(3,4) 1(3))
  have f2: "gemm_fits g (um u2)" "uerr u2 = None" "ddr (um u2) = f"
    using f1 kept_err [OF 2(2)] by (simp_all add: 2(3) 1(3) u0(2) f)
  \<comment> \<open>the other half of B\<close>
  obtain b3 u3 where 3: "do_insns other (load_b1 g) u2 = u3" "kept u2 u3" "um u3 = (um u2)\<lparr>loc := (loc (um u2))(2 := b3)\<rparr>" "has_b g f (um u3)"
  proof (cases "bsplit g")
    case False
    have "has_b g f (um u2)"
      by (rule has_b_of [OF f2(1) x_def]) (use 1(4) False in \<open>simp_all add: l22 u0(2) f\<close>)
    then show thesis using False f2(2) by (intro that [of u2 "loc (um u2) 2"]) (simp_all add: load_b1_def kept_def)
  next
    case True
    have w3: "unat (sbank g) + T x div 2 * ?K \<le> 2 * SB x"
    proof -
      have "T x div 2 * ?K \<le> ?h * ?K" by (intro mult_le_mono1 div_le_mono) simp
      then show ?thesis using W(14) [OF True] unfolding W(3) by linarith
    qed
    have a3: "unat (gb g + nt0 g * gd g) = unat (gb g) + ?h * D x"
    proof -
      have B: "ddr_base (um u) + ddr_bytes (um u) \<le> 2 ^ 32" "ddr_ok (um u) (unat (gb g)) (?K * (T x * D x))"
        using fits unfolding gemm_fits_def Let_def G(3,4) by simp_all
      have "?h * D x < T x * D x" using hT(1) W(14) [OF True] G(5) by (intro mult_less_mono1) auto
      moreover have "1 * (T x * D x) \<le> ?K * (T x * D x)" using G(5,11) by (intro mult_le_mono1) auto
      ultimately have "unat (gb g) + ?h * D x < 2 ^ 32" using B unfolding ddr_ok_def by linarith
      then show ?thesis by (simp only: unat_word_ariths(1) W(11)) simp
    qed
    have half: "?h + T x div 2 \<le> T x" "0 < T x div 2" using hT(1) W(14) [OF True] by auto
    obtain b3 v where v: "do_insns other (mat_cfg_load (gK g) (nt1 g * gd g) (gN g) SA_LD_INTERLEAVE @
         [mat_load (gb g + nt0 g * gd g) (SA_LADDR SA_MEM_SPAD_B (sbank g))]) u2 = v" "kept u2 v"
      "um v = (um u2)\<lparr>loc := (loc (um u2))(2 := b3)\<rparr>"
      "\<And>k c l. \<lbrakk>k < ?K; c < T x div 2; l < D x\<rbrakk> \<Longrightarrow>
        b3 ((unat (sbank g) + c * ?K + k) * D x + l) = ddr (um u2) (unat (gb g) + (k * (T x * D x) + ((?h + c) * D x + l)))"
      "\<And>y. y < unat (sbank g) * D x \<Longrightarrow> b3 y = loc (um u2) 2 y"
      by (rule load_cols [OF f2(1) x_def f2(2) a3 W(12) half w3, of other]) blast
    have "has_b g f (um v)"
    proof (rule has_b_of [OF _ x_def])
      show "gemm_fits g (um v)" using f2(1) by (simp add: v(3))
      fix k c l assume k: "k < ?K" and l: "l < D x"
      show "loc (um v) 2 ((c * ?K + k) * D x + l) = f (unat (gb g) + (k * (T x * D x) + (c * D x + l)))" if c: "c < ?n"
      proof -
        have "(c + 1) * ?K \<le> ?h * ?K" using c True by (intro mult_le_mono1) simp
        then have "c * ?K + k + 1 \<le> SB x" using k W(14) [OF True] by simp
        then have "(c * ?K + k + 1) * D x \<le> SB x * D x" by (rule mult_le_mono1)
        then have "(c * ?K + k) * D x + l < unat (sbank g) * D x" using l unfolding W(3) by simp
        from v(5) [OF this] show ?thesis using 1(4) [OF k c l] by (simp add: v(3) l22 u0(2) f)
      qed
      show "loc (um v) 2 ((SB x + c * ?K + k) * D x + l) = f (unat (gb g) + (k * (T x * D x) + ((?h + c) * D x + l)))" if "c < T x div 2"
        using v(4) [OF k that l] by (simp add: v(3) W(3) f2(3))
    qed
    then show thesis using True v(1-3) by (intro that [of v b3]) (simp_all add: load_b1_def)
  qed
  have f3: "gemm_fits g (um u3)" "uerr u3 = None" "ddr (um u3) = f" using f2 kept_err [OF 3(2)] by (simp_all add: 3(3))
  have k3: "kept u0 u3" using kept_trans [OF kept_trans [OF 1(2) 2(2)] 3(2)] .
  have a3: "has_a g f False 0 (um u3)" using 2(5) by (simp add: has_a_def 3(3))
  have bi3: "has_bias g f False 0 (um u3)" using 2(6) by (simp add: has_bias_def 3(3))
  \<comment> \<open>the epilogue\<close>
  obtain u4 where 4: "do_insns other (quant_setup g) u3 = u4" "uerr u4 = None" "gemm_fits g (um u4)" "ddr (um u4) = f" "v_flags u4 = v_flags u"
    "has_a g f False 0 (um u4)" "has_bias g f False 0 (um u4)" "has_b g f (um u4)" "has_vec g f (um u4)" "gquant g \<longrightarrow> ve_cfg g (va u4)"
  proof (cases "gquant g")
    case False
    then show thesis using f3 k3 a3 bi3 3(4) by (intro that [of u3]) (simp_all add: quant_setup_def has_vec_def kept_def u0_def)
  next
    case q: True
    let ?vecs = "if gbias g \<noteq> 0 then mat_cfg_load 1 (4 * gN g) (4 * gN g) SA_LD_LINEAR @
        [mat_load (gbias g) (SA_LADDR SA_MEM_ACC (vbias g)), mat_load (gbias g) (SA_LADDR SA_MEM_ACC (cbank_w g + vbias g))] else []"
    obtain v where v: "do_insns other ?vecs u3 = v" "kept u3 v" "gemm_fits g (um v)" "ddr (um v) = f" "loc (um v) 1 = loc (um u3) 1"
      "loc (um v) 2 = loc (um u3) 2" "has_vec g f (um v)" "arr (um v) = arr (um u3)"
    proof (cases "gbias g = 0")
      case True
      then show thesis using f3 by (intro that [of u3]) (simp_all add: kept_def has_vec_def)
    next
      case False
      obtain b v where w: "do_insns other (mat_cfg_load 1 (4 * gN g) (4 * gN g) SA_LD_LINEAR @
          [mat_load (gbias g) (SA_LADDR SA_MEM_ACC (vbias g)), mat_load (gbias g) (SA_LADDR SA_MEM_ACC (cbank_w g + vbias g))]) u3 = v"
        "kept u3 v" "um v = (um u3)\<lparr>loc := (loc (um u3))(3 := b)\<rparr>" "has_vec g f (um v)"
        by (rule load_vec [OF f3(1,2) q False f3(3) [symmetric], of other]) blast
      then show thesis using False f3 by (intro that [of v]) simp_all
    qed
    obtain w where w: "do_insns other ([vec_cfg 0 ((gop g AND (push_bit 4 1 OR push_bit 5 1)) OR (if gbias g \<noteq> 0 then 0 else 5)),
        vec_cfg 1 (gd g * gN g), vec_cfg 3 (2 OR push_bit 2 0), vec_cfg 4 (nt g)] @
        vec_cfg_requant (gscale g) (gshift g) (gzp g) (glo g) (ghi g)) v = v\<lparr>va := w\<rparr>" "ve_cfg g w"
      by (rule run_ve_cfg [OF v(3), of other]) blast
    have "do_insns other (quant_setup g) u3 = v\<lparr>va := w\<rparr>"
      using q v(1) w(1) unfolding quant_setup_def by (simp only: if_True do_insns_append)
    moreover have "bias_strip g = 0" using q by (simp add: bias_strip_def)
    ultimately show thesis
      using v(2-8) w(2) k3 a3 3(4) by (intro that [of "v\<lparr>va := w\<rparr>"]) (simp_all add: kept_def has_a_def has_b_def has_bias_def has_vec_def u0_def)
  qed
  \<comment> \<open>the configuration\<close>
  define u5 where "u5 = (if bsplit g then u4 else ex_cfg (nt g) (gK g) 1 (nt g) u4)"
  define u6 where "u6 = st_cfg (gd g) (cbytes g) (cbytes g) u5"
  have 5: "do_insns other (if bsplit g then [] else mat_cfg_exec (nt g) (gK g) 1 (nt g)) u4 = u5" by (simp add: u5_def run_cfgs)
  have um6: "um u6 = um u4" "uerr u6 = None" by (simp_all add: u6_def u5_def 4(2))
  have all: "do_insns other (gemm_head cp g) u = u6"
    unfolding gemm_head_def do_insns_append do_insns_simps reset_insn perf_begin_kept u0_def [symmetric] lb ls 3(1) 4(1) 5 u6_def by (rule run_cfgs(2))
  have "cfg_ok g u6"
  proof -
    have "unat (gd g) < 65536" "unat (cbytes g) < 65536" "unat (nt g) < 4096" "unat (nt g) < 65536" "unat (gK g) < 65536"
      unfolding W(1,5) G(1,4) using G(5) sm(3,5,6) by (auto simp: c_bytes_def)
    then show ?thesis using 4(5,10) flags by (simp add: cfg_ok_def u6_def u5_def unat16 unat12)
  qed
  then show ?thesis
    using 4(3,4,6-9) unfolding all strip_inv_def by (simp add: um6 only_c_refl)
qed

section \<open>The loop\<close>

lemma gemm_loop_runs:
  assumes "unat (gM g) = n * d" and "unat (gd g) = d" and "0 < d" and "s \<le> n"
  shows "gemm_loop g (of_nat (s * d)) (odd s) tiles = Some (concat (map (\<lambda>k. gemm_strip g (of_nat (k * d)) (odd k)) [s..<n]), tiles + of_nat (n - s) * nt g)"
  using assms(4)
proof (induction "n - s" arbitrary: s tiles)
  case 0
  then have "s = n" by simp
  moreover have "of_nat (n * d) = gM g" by (simp flip: assms(1) del: of_nat_mult)
  ultimately show ?case by (subst gemm_loop.simps) simp
next
  case (Suc k)
  have M: "n * d < 2 ^ 32" using unsigned_less [of "gM g", where 'a = nat] by (simp add: assms(1))
  have "s * d + d \<le> n * d" using Suc by (intro strip_room) simp
  then have "unat (of_nat (s * d) :: u32) = s * d" by (intro unat_fit) (use M assms(3) in linarith)
  then have lt: "of_nat (s * d) < gM g" using \<open>s * d + d \<le> n * d\<close> assms(3) by (simp only: word_less_nat_alt assms(1))
  have nxt: "of_nat (s * d) + gd g = of_nat (Suc s * d)"
  proof -
    have "gd g = of_nat d" by (simp flip: assms(2))
    then show ?thesis by simp
  qed
  have "[s..<n] = s # [Suc s..<n]" using Suc by (simp add: upt_conv_Cons)
  moreover have "of_nat (n - s) = (1 :: u32) + of_nat (n - Suc s)"
    using Suc by (metis Suc_diff_Suc of_nat_Suc zero_less_Suc zero_less_diff)
  moreover have "(\<not> odd s) = odd (Suc s)" by simp
  ultimately show ?case
    using Suc(1) [of "Suc s" "tiles + nt g"] Suc(2,3)
    by (subst gemm_loop.simps) (simp only: lt if_True nxt, simp add: algebra_simps)
qed

lemma strips_run:
  assumes "strip_inv g f s u" and "s \<le> S (gemm_geo g)"
  shows "strip_inv g f (S (gemm_geo g))
    (do_insns other (concat (map (\<lambda>k. gemm_strip g (of_nat (k * D (gemm_geo g))) (odd k)) [s..<S (gemm_geo g)])) u)"
  using assms
proof (induction "S (gemm_geo g) - s" arbitrary: s u)
  case 0
  then show ?case by simp
next
  case (Suc k)
  then have s: "s < S (gemm_geo g)" by simp
  have "[s..<S (gemm_geo g)] = s # [Suc s..<S (gemm_geo g)]" using s by (simp add: upt_conv_Cons)
  then show ?case
    using Suc(1) [OF _ strip_step [OF Suc(3) s, of other]] Suc(2) s by (simp only: list.map concat.simps do_insns_append)
qed

section \<open>The program\<close>

lemma params_status: "gemm_params c (m(MBOX_STATUS := v)) = gemm_params c m"
  by (simp add: gemm_params_def mbox_defs gemm_mbox_defs)

text \<open>
  C9. The GEMM firmware computes C = A x B (+ bias): on dimensions and placements that fit, with every setting of the
  schedule's switches, it ends, reports no error and the number of tiles, every element of C is the wrapped int32
  sum of products (with the int8 output, the epilogue's value of it), and the rest of DDR is as it was.
\<close>
theorem gemm_computes:
  assumes "g = gemm_params (caps e) (fmb s)" and "gemm_fits g (um (funit s))" and "gquant g \<Longrightarrow> \<not> bit (v_flags (funit s)) 0"
  shows "\<exists>s'. gemm_main other e s = Some s' \<and> uerr (funit s') = None \<and> fmb s' MBOX_STATUS = STATUS_DONE \<and> fmb s' MBOX_ERRORS = 0 \<and>
     fmb s' MBOX_JOBS_DONE = (gM g div gd g) * (gN g div gd g) \<and>
     (\<forall>i < unat (gM g). \<forall>j < unat (gN g).
        get_int (ddr (um (funit s'))) (unat (gc g) + c_bytes g * (i * unat (gN g) + j)) (c_bytes g) = gemm_out g (ddr (um (funit s))) i j) \<and>
     (\<forall>y. y < unat (gc g) \<or> unat (gc g) + c_bytes g * (unat (gM g) * unat (gN g)) \<le> y \<longrightarrow>
        ddr (um (funit s')) y = ddr (um (funit s)) y)"
proof -
  define x where "x = gemm_geo g"
  note G = fits_geo [OF assms(2) x_def]
  have D: "0 < D x" using G(5) by auto
  define u where "u = do_insns other (gemm_head (caps e) g @ concat (map (\<lambda>k. gemm_strip g (of_nat (k * D x)) (odd k)) [0..<S x]) @ [mat_fence 0]) (funit s)"
  have "strip_inv g (ddr (um (funit s))) (S (gemm_geo g)) u"
    using strips_run [OF head_inv [OF assms(2,3) refl, of other "caps e"], of other]
    unfolding u_def x_def do_insns_append by simp
  then have inv: "uerr u = None" "only_c g (ddr (um (funit s))) (ddr (um u))"
    "\<forall>i < S x * D x. \<forall>j < unat (gN g). get_int (ddr (um u)) (unat (gc g) + c_bytes g * (i * unat (gN g) + j)) (c_bytes g) =
       gemm_out g (ddr (um (funit s))) i j"
    by (simp_all add: strip_inv_def x_def)
  have loop: "gemm_loop g 0 False 0 = Some (concat (map (\<lambda>k. gemm_strip g (of_nat (k * D x)) (odd k)) [0..<S x]), of_nat (S x) * nt g)"
    using gemm_loop_runs [OF G(2,1) D, of 0 0] by simp
  have tiles: "of_nat (S x) * nt g = (gM g div gd g) * (gN g div gd g)"
  proof -
    have "unat (gM g div gd g) = S x" using D by (simp add: unat_div_distrib G(1,2))
    then have "of_nat (S x) = gM g div gd g" by (simp flip: \<open>unat (gM g div gd g) = S x\<close>)
    then show ?thesis by (simp add: nt_def)
  qed
  let ?s = "s\<lparr>fmb := (fmb s)(MBOX_STATUS := STATUS_RUNNING)\<rparr>"
  have "gemm_main other e s = Some (fw_results e (of_nat (S x) * nt g) u ?s)"
    by (simp add: gemm_main_def params_status Let_def loop u_def flip: assms(1))
  moreover have "ext_status u = 1" using inv(1) by (simp add: ext_status_def)
  ultimately show ?thesis
    using inv unfolding tiles
    by (intro exI [of _ "fw_results e ((gM g div gd g) * (gN g div gd g)) u ?s"])
      (simp add: fw_results_def only_c_def G(2) mbox_defs gemm_mbox_defs split: prod.splits)
qed

text \<open>An 8 x 8 product of ones, with every element 8.\<close>
definition ones_mailbox :: "u32 \<Rightarrow> u32" where
  "ones_mailbox = (\<lambda>_. 0)(MBOX_GEMM_M := 8, MBOX_GEMM_N := 8, MBOX_GEMM_K := 8, MBOX_A_BASE := 0x1000, MBOX_B_BASE := 0x2000, MBOX_C_BASE := 0x3000)"

theorem gemm_computes_witness:
  "\<exists>s'. gemm_main (\<lambda>i u. u) \<lparr>caps = 8, cycles = 0, pc_num = 0, pc_read = (\<lambda>_. 0)\<rparr> \<lparr>fmb = ones_mailbox, farea = (\<lambda>_. 0), funit = ones_unit\<rparr> = Some s' \<and>
     fmb s' MBOX_JOBS_DONE = 1 \<and> get_int (ddr (um (funit s'))) 0x3004 4 = 8"
proof -
  let ?e = "\<lparr>caps = 8, cycles = 0, pc_num = 0, pc_read = (\<lambda>_. 0)\<rparr>" and ?s = "\<lparr>fmb = ones_mailbox, farea = (\<lambda>_. 0), funit = ones_unit\<rparr>"
  define g where "g = gemm_params (caps ?e) (fmb ?s)"
  have g: "gd g = 8" "gM g = 8" "gN g = 8" "gK g = 8" "ga g = 0x1000" "gb g = 0x2000" "gc g = 0x3000" "gbias g = 0" "\<not> gquant g"
    by (simp_all add: g_def gemm_params_def ones_mailbox_def sa_d_def mbox_defs gemm_mbox_defs)
  have "gemm_fits g (um (funit ?s))"
    by (simp add: gemm_fits_def g c_bytes_def ones_unit_def ddr_ok_def)
  then obtain s' where s': "gemm_main (\<lambda>i u. u) ?e ?s = Some s'" "fmb s' MBOX_JOBS_DONE = (gM g div gd g) * (gN g div gd g)"
    "\<forall>i < unat (gM g). \<forall>j < unat (gN g).
        get_int (ddr (um (funit s'))) (unat (gc g) + c_bytes g * (i * unat (gN g) + j)) (c_bytes g) = gemm_out g (ddr (um (funit ?s))) i j"
    using gemm_computes [OF g_def, of "\<lambda>i u. u"] g(9) by blast
  have "gemm_out g (ddr (um (funit ?s))) 0 1 = 8"
    by (simp add: gemm_out_def gemm_acc_def gemm_sum_def bias_strip_def g ones_unit_def get_int_def)
  moreover have "get_int (ddr (um (funit s'))) (unat (gc g) + c_bytes g * (0 * unat (gN g) + 1)) (c_bytes g) = gemm_out g (ddr (um (funit ?s))) 0 1"
    using s'(3) [rule_format, of 0 1] by (simp add: g)
  ultimately show ?thesis using s'(1,2) by (auto simp: g c_bytes_def)
qed

end
