(* ===== verification/VectorFw.thy ===== *)
theory VectorFw
  imports FwState
begin

text \<open>
  The vector firmware (\<^verbatim>\<open>firmware/vector/vector_fw.c\<close>): one operation of the vector engine over arrays
  in DDR, streamed through the local memories in chunks.
\<close>

text \<open>The variables of \<^verbatim>\<open>main\<close> read from the mailbox; \<open>vd\<close>: the array size.\<close>
record vecp =
  vd :: u32
  src1 :: u32
  src2 :: u32
  dst :: u32
  vlen :: u32
  vop :: u32
  vtypes :: u32
  period :: u32
  vscale :: u32
  vshift :: u32
  vzp :: u32
  vlo :: u32
  vhi :: u32

definition vec_params :: "u32 \<Rightarrow> (u32 \<Rightarrow> u32) \<Rightarrow> vecp" where
  "vec_params cp mb =
     \<lparr>vd = sa_d cp, src1 = mb MBOX_A_BASE, src2 = mb MBOX_B_BASE, dst = mb MBOX_C_BASE, vlen = mb MBOX_V_LEN, vop = mb MBOX_V_OP,
      vtypes = mb MBOX_V_TYPES, period = mb MBOX_V_PERIOD, vscale = mb MBOX_V_SCALE, vshift = mb MBOX_V_SHIFT, vzp = mb MBOX_V_ZP,
      vlo = mb MBOX_V_LO, vhi = mb MBOX_V_HI\<rparr>"

definition CHUNK_GROUPS :: u32 where "CHUNK_GROUPS = 512"
definition ROW_BYTES :: u32 where "ROW_BYTES = 256"

definition esize :: "u32 \<Rightarrow> u32" where
  "esize t = (if t = 0 then 1 else if t = 1 then 2 else 4)"

definition tmem_in :: "u32 \<Rightarrow> u32" where
  "tmem_in t = (if t = 2 then SA_MEM_ACC else SA_MEM_SPAD_A)"

definition word_bytes :: "u32 \<Rightarrow> u32 \<Rightarrow> u32" where
  "word_bytes d mem = (if mem = SA_MEM_ACC then 4 * d else d)"

definition bank :: "u32 \<Rightarrow> u32 \<Rightarrow> u32 \<Rightarrow> u32" where
  "bank d mem b = b * (if mem = SA_MEM_ACC then SA_ACC_BANK d else SA_SPAD_BANK d)"

text \<open>Contiguous DDR to local words: rows of 256 bytes, then one tail row.\<close>
definition load :: "u32 \<Rightarrow> u32 \<Rightarrow> u32 \<Rightarrow> u32 \<Rightarrow> u32 \<Rightarrow> insn list" where
  "load d a mem word bytes =
     (let rows = bytes div ROW_BYTES; tail = bytes mod ROW_BYTES in
      (if rows \<noteq> 0 then mat_cfg_load rows ROW_BYTES ROW_BYTES SA_LD_LINEAR @ [mat_load a (SA_LADDR mem word)] else []) @
      (if tail \<noteq> 0
       then mat_cfg_load 1 tail tail SA_LD_LINEAR @ [mat_load (a + rows * ROW_BYTES) (SA_LADDR mem (word + rows * ROW_BYTES div word_bytes d mem))]
       else []))"

definition store :: "u32 \<Rightarrow> u32 \<Rightarrow> u32 \<Rightarrow> u32 \<Rightarrow> u32 \<Rightarrow> insn list" where
  "store d a mem word bytes =
     (let rows = bytes div ROW_BYTES; tail = bytes mod ROW_BYTES in
      (if rows \<noteq> 0 then mat_cfg_store rows ROW_BYTES ROW_BYTES @ [mat_store a (SA_LADDR mem word)] else []) @
      (if tail \<noteq> 0
       then mat_cfg_store 1 tail tail @ [mat_store (a + rows * ROW_BYTES) (SA_LADDR mem (word + rows * ROW_BYTES div word_bytes d mem))]
       else []))"

section \<open>What follows from the parameters\<close>

definition vin :: "vecp \<Rightarrow> u32" where "vin p = vtypes p AND 3"
definition vout :: "vecp \<Rightarrow> u32" where "vout p = drop_bit 2 (vtypes p) AND 3"
definition unary :: "vecp \<Rightarrow> bool" where "unary p \<longleftrightarrow> vop p AND 7 = 5"
definition m1 :: "vecp \<Rightarrow> u32" where "m1 p = tmem_in (vin p)"
definition m2 :: "vecp \<Rightarrow> u32" where "m2 p = (if vin p = 2 then SA_MEM_ACC else SA_MEM_SPAD_B)"
definition w2 :: "vecp \<Rightarrow> u32" where "w2 p = (if vin p = 2 then SA_ACC_BANK (vd p) div 4 else 0)"
definition md :: "vecp \<Rightarrow> u32" where "md p = (if vout p = 2 then SA_MEM_ACC else SA_MEM_SPAD_B)"
definition wd :: "vecp \<Rightarrow> u32" where "wd p = (if vout p = 2 then SA_ACC_BANK (vd p) div 2 else SA_SPAD_BANK (vd p) div 2)"
definition gin :: "vecp \<Rightarrow> u32" where "gin p = vd p * esize (vin p)"
definition gout :: "vecp \<Rightarrow> u32" where "gout p = vd p * esize (vout p)"

text \<open>Groups of a chunk: whole periods of src2, at most 512.\<close>
definition cg :: "vecp \<Rightarrow> u32" where
  "cg p = (if period p > 1 then CHUNK_GROUPS div period p * period p else CHUNK_GROUPS)"

definition groups :: "vecp \<Rightarrow> u32" where "groups p = vlen p div vd p"

section \<open>Instructions\<close>

definition vec_head :: "u32 \<Rightarrow> vecp \<Rightarrow> insn list" where
  "vec_head cp p =
     [mat_reset] @ sa_perf_begin cp @
     [vec_cfg 0 (vop p), vec_cfg 3 (vtypes p), vec_cfg 4 (period p)] @ vec_cfg_requant (vscale p) (vshift p) (vzp p) (vlo p) (vhi p) @
     (if \<not> unary p \<and> period p \<noteq> 0
      then concat (map (\<lambda>b. load (vd p) (src2 p) (m2 p) (bank (vd p) (m2 p) b + w2 p) (period p * gin p)) [0, 1])
      else [])"

text \<open>The chunk of the groups from \<open>g\<close> on.\<close>
definition vec_chunk :: "vecp \<Rightarrow> u32 \<Rightarrow> u32 \<Rightarrow> insn list" where
  "vec_chunk p g chunks =
     (let n = (if groups p - g < cg p then groups p - g else cg p); b = chunks AND 1; d = vd p in
      load d (src1 p + g * gin p) (m1 p) (bank d (m1 p) b) (n * gin p) @
      (if \<not> unary p \<and> period p = 0 then load d (src2 p + g * gin p) (m2 p) (bank d (m2 p) b + w2 p) (n * gin p) else []) @
      [vec_cfg 1 (n * d), vec_cfg 2 (SA_LADDR (md p) (bank d (md p) b + wd p)),
       vec_run (SA_LADDR (m1 p) (bank d (m1 p) b)) (SA_LADDR (m2 p) (bank d (m2 p) b + w2 p))] @
      store d (dst p + g * gout p) (md p) (bank d (md p) b + wd p) (n * gout p))"

text \<open>The loop, which may run forever: the instructions issued and the chunks counted.\<close>
partial_function (option) vec_loop :: "vecp \<Rightarrow> u32 \<Rightarrow> u32 \<Rightarrow> (insn list \<times> u32) option" where
  "vec_loop p g chunks =
     (if g < groups p
      then Option.bind (vec_loop p (g + cg p) (chunks + 1)) (\<lambda>(is, n). Some (vec_chunk p g chunks @ is, n))
      else Some ([], chunks))"

definition vector_main :: "(insn \<Rightarrow> unit_state \<Rightarrow> unit_state) \<Rightarrow> fw_env \<Rightarrow> fw_state \<Rightarrow> fw_state option" where
  "vector_main other e s =
     (let s = s\<lparr>fmb := (fmb s)(MBOX_STATUS := STATUS_RUNNING)\<rparr>; p = vec_params (caps e) (fmb s) in
      Option.bind (vec_loop p 0 0) (\<lambda>(is, chunks).
        Some (fw_results e chunks (do_insns other (vec_head (caps e) p @ is @ [mat_fence 0]) (funit s)) s)))"

end
