(* ===== verification/VectorBytes.thy ===== *)
theory VectorBytes
  imports UnitCmd VectorFw
begin

text \<open>
  Loads and stores of the vector firmware: rows of 256 bytes and a tail are one run of bytes.
\<close>

text \<open>The sizes of the memories, for an array of 8 or 16.\<close>
definition vmem :: "umem \<Rightarrow> bool" where
  "vmem m \<longleftrightarrow> (arr m = 8 \<or> arr m = 16) \<and> spad_words m = 131072 div arr m \<and> acc_words m = 65536 div arr m \<and> ddr_base m + ddr_bytes m \<le> 2 ^ 32"

lemma vmem_upd [simp]: "vmem (m\<lparr>loc := f\<rparr>) = vmem m" "vmem (m\<lparr>ddr := b\<rparr>) = vmem m"
  by (simp_all add: vmem_def)

lemma depth_upd [simp]: "depth (m\<lparr>loc := f\<rparr>) k = depth m k" "depth (m\<lparr>ddr := b\<rparr>) k = depth m k"
  by (simp_all add: depth_def)

lemma vmem_words:
  assumes "vmem m"
  shows "wbytes m k = 8 \<or> wbytes m k = 16 \<or> wbytes m k = 32 \<or> wbytes m k = 64" "depth m k \<le> 16384" "depth m k * wbytes m k \<le> 262144"
  using assms by (auto simp: vmem_def wbytes_def depth_def)

text \<open>Neither an error nor a change of the vector configuration.\<close>
definition vkept :: "unit_state \<Rightarrow> unit_state \<Rightarrow> bool" where
  "vkept u v \<longleftrightarrow> uerr v = None \<and> va v = va u \<and> v_flags v = v_flags u"

lemma vkept_trans: "vkept u v \<Longrightarrow> vkept v w \<Longrightarrow> vkept u w"
  by (simp add: vkept_def)

lemma vkept_err: "vkept u v \<Longrightarrow> uerr v = None"
  by (simp add: vkept_def)

section \<open>Rows of whole words\<close>

lemma rows_check:
  assumes "vmem m" and "k = 1 \<or> k = 2 \<or> k = 3" and "rb = z * wbytes m k" "0 < rb" and "0 < rows" and "w + z * rows \<le> depth m k" and "a mod 8 = 0"
  shows "check_dma eng m a k w rows rb rb False = None"
proof -
  have wb: "0 < wbytes m k" "wbytes m k mod 8 = 0" using vmem_words(1) [OF assms(1), of k] by auto
  have "rb mod 8 = 0" unfolding assms(3) using wb(2) by (metis mod_mult_right_eq mult_0_right mod_0)
  moreover have "ceil_div rb (wbytes m k) = z" unfolding assms(3) by (rule ceil_div_mult [OF wb(1)])
  moreover have "w + z * rows - 1 < depth m k"
  proof -
    have "0 < z * rows" using assms(3-5) by (cases z) simp_all
    then show ?thesis using assms(6) by linarith
  qed
  ultimately show ?thesis
    using assms(2,4,5,7) by (simp only: check_dma_def if_False simp_thms neq0_conv [symmetric] not_le if_True) auto
qed

text \<open>A load of rows, or nothing when there are none.\<close>
lemma load_rows:
  fixes a w mem rows rb :: u32
  assumes m: "vmem (um u)" and k: "mem = 1 \<or> mem = 2 \<or> mem = 3" and e: "uerr u = None"
    and size: "unat rows < 65536" "unat rb = z * wbytes (um u) (unat mem)" "unat rb < 65536"
    and w: "unat w + z * unat rows \<le> depth (um u) (unat mem)" and a: "c \<Longrightarrow> unat a mod 8 = 0"
    and ok: "c \<Longrightarrow> ddr_ok (um u) (unat a) (unat rows * unat rb)" and c: "c \<longleftrightarrow> unat rows * unat rb \<noteq> 0"
  obtains b v where "do_insns other (if c then mat_cfg_load rows rb rb 0 @ [mat_load a (SA_LADDR mem w)] else []) u = v" and "vkept u v"
    and "um v = (um u)\<lparr>loc := (loc (um u))(unat mem := b)\<rparr>"
    and "\<And>y. y < unat rows * unat rb \<Longrightarrow> b (unat w * wbytes (um u) (unat mem) + y) = ddr (um u) (unat a + y)"
    and "\<And>y. y < unat w * wbytes (um u) (unat mem) \<or> unat w * wbytes (um u) (unat mem) + unat rows * unat rb \<le> y \<Longrightarrow> b y = loc (um u) (unat mem) y"
proof (cases c)
  case False
  then show thesis
    using c by (intro that [of u "loc (um u) (unat mem)"]) (auto simp: e vkept_def)
next
  case True
  let ?m = "um u" and ?k = "unat mem" and ?rb = "unat rb" and ?rows = "unat rows"
  have rb: "0 < ?rb" "0 < ?rows" using True c by auto
  have w16: "unat w < 65536" using w vmem_words(2) [OF m, of ?k] by linarith
  have la: "laddr_mem (SA_LADDR mem w) = ?k" "laddr_word (SA_LADDR mem w) = unat w"
    using laddr_mem_of [OF w16 k] laddr_word_of [OF w16] by simp_all
  have "?k = 1 \<or> ?k = 2 \<or> ?k = 3" using k by auto
  note chk = rows_check [OF m this size(2) rb w a [OF True]]
  obtain b where
    run: "ld (unat a) (SA_LADDR mem w) ?rows ?rb ?rb False ?m = (?m\<lparr>loc := (loc ?m)(?k := b)\<rparr>, None)" and
    ins: "\<And>y. y < ?rows * ?rb \<Longrightarrow> b (unat w * wbytes ?m ?k + y) = ddr ?m (unat a + y)" and
    outs: "\<And>y. y < unat w * wbytes ?m ?k \<or> unat w * wbytes ?m ?k + ?rows * ?rb \<le> y \<Longrightarrow> b y = loc ?m ?k y"
    by (rule ld_linear [OF chk la ok [OF True] size(2) rb(1)]) blast
  define v where "v = (ld_cfg rows rb rb 0 u)\<lparr>um := ?m\<lparr>loc := (loc ?m)(?k := b)\<rparr>, uerr := None\<rparr>"
  have "do_insns other (mat_cfg_load rows rb rb 0 @ [mat_load a (SA_LADDR mem w)]) u =
      command (ld (unat a) (SA_LADDR mem w) ?rows ?rb ?rb (0 = (1 :: u32))) (ld_cfg rows rb rb 0 u)"
    by (rule run_load) (use size in simp_all)
  also have "\<dots> = v" unfolding v_def by (rule command_ok) (use run in \<open>simp_all add: e\<close>)
  finally have "do_insns other (if c then mat_cfg_load rows rb rb 0 @ [mat_load a (SA_LADDR mem w)] else []) u = v" using True by simp
  moreover have "vkept u v" using e by (simp add: v_def vkept_def)
  moreover have "um v = ?m\<lparr>loc := (loc ?m)(?k := b)\<rparr>" by (simp add: v_def)
  ultimately show thesis using ins outs by (rule that [of v b])
qed

lemma run_store_cfg:
  assumes "unat rows < 65536" and "unat rb < 65536"
  shows "do_insns other (mat_cfg_store rows rb pitch @ [mat_store a l]) u =
    command (st (unat a) l (unat rows) (unat rb) (unat pitch)) (st_cfg rows rb pitch u)"
  unfolding do_insns_append run_cfgs using assms by (simp add: run_store unat16)

lemma store_rows:
  fixes a w mem rows rb :: u32
  assumes m: "vmem (um u)" and k: "mem = 1 \<or> mem = 2 \<or> mem = 3" and e: "uerr u = None"
    and size: "unat rows < 65536" "unat rb = z * wbytes (um u) (unat mem)" "unat rb < 65536"
    and w: "unat w + z * unat rows \<le> depth (um u) (unat mem)" and a: "c \<Longrightarrow> unat a mod 8 = 0"
    and ok: "c \<Longrightarrow> ddr_ok (um u) (unat a) (unat rows * unat rb)" and c: "c \<longleftrightarrow> unat rows * unat rb \<noteq> 0"
  obtains b v where "do_insns other (if c then mat_cfg_store rows rb rb @ [mat_store a (SA_LADDR mem w)] else []) u = v" and "vkept u v"
    and "um v = (um u)\<lparr>ddr := b\<rparr>"
    and "\<And>y. y < unat rows * unat rb \<Longrightarrow> b (unat a + y) = loc (um u) (unat mem) (unat w * wbytes (um u) (unat mem) + y)"
    and "\<And>y. y < unat a \<or> unat a + unat rows * unat rb \<le> y \<Longrightarrow> b y = ddr (um u) y"
proof (cases c)
  case False
  then show thesis
    using c by (intro that [of u "ddr (um u)"]) (auto simp: e vkept_def)
next
  case True
  let ?m = "um u" and ?k = "unat mem" and ?rb = "unat rb" and ?rows = "unat rows"
  have rb: "0 < ?rb" "0 < ?rows" using True c by auto
  have w16: "unat w < 65536" using w vmem_words(2) [OF m, of ?k] by linarith
  have la: "laddr_mem (SA_LADDR mem w) = ?k" "laddr_word (SA_LADDR mem w) = unat w"
    using laddr_mem_of [OF w16 k] laddr_word_of [OF w16] by simp_all
  have "?k = 1 \<or> ?k = 2 \<or> ?k = 3" using k by auto
  note chk = rows_check [OF m this size(2) rb w a [OF True]]
  obtain b where
    run: "st (unat a) (SA_LADDR mem w) ?rows ?rb ?rb ?m = (?m\<lparr>ddr := b\<rparr>, None)" and
    ins: "\<And>y. y < ?rows * ?rb \<Longrightarrow> b (unat a + y) = loc ?m ?k (unat w * wbytes ?m ?k + y)" and
    outs: "\<And>y. y < unat a \<or> unat a + ?rows * ?rb \<le> y \<Longrightarrow> b y = ddr ?m y"
    by (rule st_linear [OF chk la ok [OF True] size(2) rb(1)]) blast
  define v where "v = (st_cfg rows rb rb u)\<lparr>um := ?m\<lparr>ddr := b\<rparr>, uerr := None\<rparr>"
  have "do_insns other (mat_cfg_store rows rb rb @ [mat_store a (SA_LADDR mem w)]) u =
      command (st (unat a) (SA_LADDR mem w) ?rows ?rb ?rb) (st_cfg rows rb rb u)"
    by (rule run_store_cfg) (use size in simp_all)
  also have "\<dots> = v" unfolding v_def by (rule command_ok) (use run in \<open>simp_all add: e\<close>)
  finally have "do_insns other (if c then mat_cfg_store rows rb rb @ [mat_store a (SA_LADDR mem w)] else []) u = v" using True by simp
  moreover have "vkept u v" using e by (simp add: v_def vkept_def)
  moreover have "um v = ?m\<lparr>ddr := b\<rparr>" by (simp add: v_def)
  ultimately show thesis using ins outs by (rule that [of v b])
qed


section \<open>Runs of bytes\<close>

text \<open>The rows and the tail of \<open>z\<close> words.\<close>
lemma split_words:
  fixes d mem w bytes a :: u32
  assumes m: "vmem m" and d: "unat d = arr m" and k: "mem = 1 \<or> mem = 2 \<or> mem = 3"
    and z: "unat bytes = z * wbytes m (unat mem)" "unat w + z \<le> depth m (unat mem)" and ok: "ddr_ok m (unat a) (unat bytes)"
  defines "c \<equiv> 256 div wbytes m (unat mem)" and "R \<equiv> unat (bytes div 256)" and "t \<equiv> unat (bytes mod 256)"
  shows "256 = c * wbytes m (unat mem)" "t = z mod c * wbytes m (unat mem)" "R < 65536" "t < 256" "unat bytes = R * 256 + t"
    "c * R + z mod c = z" "unat (w + bytes div 256 * 256 div word_bytes d mem) = unat w + c * R" "0 < t \<Longrightarrow> unat (a + bytes div 256 * 256) = unat a + R * 256"
    "(unat w + c * R) * wbytes m (unat mem) = unat w * wbytes m (unat mem) + R * 256"
proof -
  let ?wb = "wbytes m (unat mem)"
  note vm = vmem_words [OF m, of "unat mem"]
  show c: "256 = c * ?wb" using vm(1) by (auto simp: c_def)
  have wb: "0 < ?wb" using vm(1) by auto
  have "R * (c * ?wb) = R * 256" by (simp only: c [symmetric])
  then show "(unat w + c * R) * ?wb = unat w * ?wb + R * 256" by (simp add: algebra_simps)
  have rt: "R = unat bytes div 256" "t = unat bytes mod 256" by (simp_all add: R_def t_def unat_div_distrib unat_mod_distrib)
  have "unat bytes mod (c * ?wb) = z mod c * ?wb" unfolding z(1) by (rule mod_mult_mult2)
  then show "t = z mod c * ?wb" unfolding rt(2) by (simp only: c [symmetric])
  show "t < 256" by (simp add: rt)
  show sum: "unat bytes = R * 256 + t" by (simp add: rt)
  have R: "R = z div c"
  proof -
    have "unat bytes div (c * ?wb) = z div c" unfolding z(1) using wb by simp
    then show ?thesis unfolding rt(1) by (simp only: c [symmetric])
  qed
  then show cR: "c * R + z mod c = z" by simp
  have "z * ?wb \<le> depth m (unat mem) * ?wb" using z(2) by (intro mult_le_mono1) simp
  then have "unat bytes \<le> 262144" using vm(3) z(1) by linarith
  then show "R < 65536" by (simp add: rt)
  have mul: "unat (bytes div 256 * 256) = R * 256"
    using sum unsigned_less [of bytes, where 'a = nat] by (simp add: unat_word_ariths(2) R_def [symmetric])
  show "0 < t \<Longrightarrow> unat (a + bytes div 256 * 256) = unat a + R * 256"
  proof -
    assume "0 < t"
    moreover have "unat a + unat bytes \<le> 4294967296" using ok m by (simp add: ddr_ok_def vmem_def)
    ultimately have "unat a + R * 256 < 4294967296" using sum by linarith
    then show ?thesis by (simp only: unat_word_ariths(1) mul) simp
  qed
  have wbw: "unat (word_bytes d mem) = ?wb"
    using k m d by (auto simp: word_bytes_def wbytes_def vmem_def unat_word_ariths(2))
  have "unat (bytes div 256 * 256 div word_bytes d mem) = c * R"
  proof -
    have "c * R * ?wb div ?wb = c * R" using wb by (intro nonzero_mult_div_cancel_right) simp
    moreover have "R * 256 = c * R * ?wb" using c by (simp only: c ac_simps)
    ultimately have "R * 256 div ?wb = c * R" by (simp only:)
    then show ?thesis by (simp add: unat_div_distrib mul wbw)
  qed
  moreover have "unat w + c * R < 4294967296" using cR z(2) vm(2) by linarith
  ultimately show "unat (w + bytes div 256 * 256 div word_bytes d mem) = unat w + c * R" by (simp add: unat_word_ariths(1))
qed


text \<open>A run of bytes from DDR into words.\<close>
lemma load_bytes:
  fixes d mem w bytes a :: u32
  assumes m: "vmem (um u)" and e: "uerr u = None" and d: "unat d = arr (um u)" and k: "mem = 1 \<or> mem = 2 \<or> mem = 3"
    and z: "unat bytes = z * wbytes (um u) (unat mem)" "unat w + z \<le> depth (um u) (unat mem)"
    and a: "unat a mod 8 = 0" and ok: "ddr_ok (um u) (unat a) (unat bytes)"
  obtains b v where "do_insns other (load d a mem w bytes) u = v" and "vkept u v" and "um v = (um u)\<lparr>loc := (loc (um u))(unat mem := b)\<rparr>"
    and "\<And>y. y < unat bytes \<Longrightarrow> b (unat w * wbytes (um u) (unat mem) + y) = ddr (um u) (unat a + y)"
    and "\<And>y. y < unat w * wbytes (um u) (unat mem) \<or> unat w * wbytes (um u) (unat mem) + unat bytes \<le> y \<Longrightarrow> b y = loc (um u) (unat mem) y"
proof -
  let ?m = "um u" and ?k = "unat mem" and ?R = "unat (bytes div 256)" and ?t = "unat (bytes mod 256)"
  let ?wb = "wbytes ?m ?k"
  note S = split_words [OF m d k z ok]
  have ok1: "ddr_ok ?m (unat a) (?R * 256)" using ok S(5) by (simp add: ddr_ok_def)
  have dd: "unat (256 :: u32) = 256" by simp
  obtain b1 v1 where
    run1: "do_insns other (if bytes div 256 \<noteq> 0 then mat_cfg_load (bytes div 256) 256 256 0 @ [mat_load a (SA_LADDR mem w)] else []) u = v1" and
    kept1: "vkept u v1" and um1: "um v1 = ?m\<lparr>loc := (loc ?m)(?k := b1)\<rparr>" and
    in1: "\<And>y. y < ?R * 256 \<Longrightarrow> b1 (unat w * ?wb + y) = ddr ?m (unat a + y)" and
    out1: "\<And>y. y < unat w * ?wb \<or> unat w * ?wb + ?R * 256 \<le> y \<Longrightarrow> b1 y = loc ?m ?k y"
  proof (rule load_rows [OF m k e, of "bytes div 256" 256 "256 div ?wb" w "bytes div 256 \<noteq> 0" a other])
    show "unat w + 256 div ?wb * ?R \<le> depth ?m ?k" using S(6) z(2) by linarith
    show "bytes div 256 \<noteq> 0 \<longleftrightarrow> unat (bytes div 256) * unat (256 :: u32) \<noteq> 0" by (simp only: dd unat_eq_0 [symmetric]) simp
    show "unat (256 :: u32) = 256 div ?wb * ?wb" unfolding dd by (rule S(1))
  qed (use S(3) a ok1 dd in simp_all)
  let ?w2 = "w + bytes div 256 * 256 div word_bytes d mem" and ?a2 = "a + bytes div 256 * 256"
  have wb1: "wbytes (um v1) ?k = ?wb" "depth (um v1) ?k = depth ?m ?k" "vmem (um v1)" by (simp_all add: um1 m)
  have pos: "unat ?w2 * ?wb = unat w * ?wb + ?R * 256" unfolding S(7) by (rule S(9))
  obtain b v where
    run2: "do_insns other (if bytes mod 256 \<noteq> 0 then mat_cfg_load 1 (bytes mod 256) (bytes mod 256) 0 @ [mat_load ?a2 (SA_LADDR mem ?w2)] else []) v1 = v" and
    kept2: "vkept v1 v" and um2: "um v = (um v1)\<lparr>loc := (loc (um v1))(?k := b)\<rparr>" and
    in2: "\<And>y. y < ?t \<Longrightarrow> b (unat w * ?wb + ?R * 256 + y) = ddr ?m (unat ?a2 + y)" and
    out2: "\<And>y. y < unat w * ?wb + ?R * 256 \<or> unat w * ?wb + ?R * 256 + ?t \<le> y \<Longrightarrow> b y = b1 y"
  proof (rule load_rows [OF wb1(3) k vkept_err [OF kept1], of 1 "bytes mod 256" "z mod (256 div ?wb)" ?w2 "bytes mod 256 \<noteq> 0" ?a2 other])
    show "unat ?w2 + z mod (256 div ?wb) * unat (1 :: u32) \<le> depth (um v1) ?k" unfolding wb1 S(7) using S(6) z(2) by simp
    show "?t = z mod (256 div ?wb) * wbytes (um v1) ?k" unfolding wb1 by (rule S(2))
    show "bytes mod 256 \<noteq> 0 \<Longrightarrow> unat ?a2 mod 8 = 0"
      using S(8) a by (simp add: unat_gt_0 mod8_add)
    show "bytes mod 256 \<noteq> 0 \<Longrightarrow> ddr_ok (um v1) (unat ?a2) (unat (1 :: u32) * ?t)"
      using S(5,8) ok by (simp add: unat_gt_0 um1 ddr_ok_def)
    show "bytes mod 256 \<noteq> 0 \<longleftrightarrow> unat (1 :: u32) * ?t \<noteq> 0" by (simp add: unat_eq_0)
  qed (use S(4) wb1 pos in \<open>simp_all add: um1\<close>)
  have "do_insns other (load d a mem w bytes) u = v"
    using run1 run2 by (simp only: load_def ROW_BYTES_def Let_def do_insns_append)
  moreover have "um v = ?m\<lparr>loc := (loc ?m)(?k := b)\<rparr>" by (simp add: um2 um1)
  moreover have "b (unat w * ?wb + y) = ddr ?m (unat a + y)" if y: "y < unat bytes" for y
  proof (cases "y < ?R * 256")
    case True
    then show ?thesis using out2 [of "unat w * ?wb + y"] in1 by simp
  next
    case False
    then obtain x where x: "y = ?R * 256 + x" by (metis le_add_diff_inverse not_less)
    then have "x < ?t" using y S(5) by simp
    then show ?thesis using in2 [of x] S(8) x by (simp add: add.assoc)
  qed
  moreover have "b y = loc ?m ?k y" if "y < unat w * ?wb \<or> unat w * ?wb + unat bytes \<le> y" for y
  proof -
    have "b y = b1 y" using that S(5) by (intro out2) linarith
    also have "\<dots> = loc ?m ?k y" using that S(5) by (intro out1) linarith
    finally show ?thesis .
  qed
  ultimately show thesis using vkept_trans [OF kept1 kept2] by (intro that [of v b])
qed


text \<open>Words into a run of bytes of DDR.\<close>
lemma store_bytes:
  fixes d mem w bytes a :: u32
  assumes m: "vmem (um u)" and e: "uerr u = None" and d: "unat d = arr (um u)" and k: "mem = 1 \<or> mem = 2 \<or> mem = 3"
    and z: "unat bytes = z * wbytes (um u) (unat mem)" "unat w + z \<le> depth (um u) (unat mem)"
    and a: "unat a mod 8 = 0" and ok: "ddr_ok (um u) (unat a) (unat bytes)"
  obtains b v where "do_insns other (store d a mem w bytes) u = v" and "vkept u v" and "um v = (um u)\<lparr>ddr := b\<rparr>"
    and "\<And>y. y < unat bytes \<Longrightarrow> b (unat a + y) = loc (um u) (unat mem) (unat w * wbytes (um u) (unat mem) + y)"
    and "\<And>y. y < unat a \<or> unat a + unat bytes \<le> y \<Longrightarrow> b y = ddr (um u) y"
proof -
  let ?m = "um u" and ?k = "unat mem" and ?R = "unat (bytes div 256)" and ?t = "unat (bytes mod 256)"
  let ?wb = "wbytes ?m ?k"
  note S = split_words [OF m d k z ok]
  have ok1: "ddr_ok ?m (unat a) (?R * 256)" using ok S(5) by (simp add: ddr_ok_def)
  have dd: "unat (256 :: u32) = 256" by simp
  obtain b1 v1 where
    run1: "do_insns other (if bytes div 256 \<noteq> 0 then mat_cfg_store (bytes div 256) 256 256 @ [mat_store a (SA_LADDR mem w)] else []) u = v1" and
    kept1: "vkept u v1" and um1: "um v1 = ?m\<lparr>ddr := b1\<rparr>" and
    in1: "\<And>y. y < ?R * 256 \<Longrightarrow> b1 (unat a + y) = loc ?m ?k (unat w * ?wb + y)" and
    out1: "\<And>y. y < unat a \<or> unat a + ?R * 256 \<le> y \<Longrightarrow> b1 y = ddr ?m y"
  proof (rule store_rows [OF m k e, of "bytes div 256" 256 "256 div ?wb" w "bytes div 256 \<noteq> 0" a other])
    show "unat w + 256 div ?wb * ?R \<le> depth ?m ?k" using S(6) z(2) by linarith
    show "bytes div 256 \<noteq> 0 \<longleftrightarrow> unat (bytes div 256) * unat (256 :: u32) \<noteq> 0" by (simp only: dd unat_eq_0 [symmetric]) simp
    show "unat (256 :: u32) = 256 div ?wb * ?wb" unfolding dd by (rule S(1))
  qed (use S(3) a ok1 dd in simp_all)
  let ?w2 = "w + bytes div 256 * 256 div word_bytes d mem" and ?a2 = "a + bytes div 256 * 256"
  have wb1: "wbytes (um v1) ?k = ?wb" "depth (um v1) ?k = depth ?m ?k" "vmem (um v1)" by (simp_all add: um1 m)
  have pos: "unat ?w2 * ?wb = unat w * ?wb + ?R * 256" unfolding S(7) by (rule S(9))
  obtain b v where
    run2: "do_insns other (if bytes mod 256 \<noteq> 0 then mat_cfg_store 1 (bytes mod 256) (bytes mod 256) @ [mat_store ?a2 (SA_LADDR mem ?w2)] else []) v1 = v" and
    kept2: "vkept v1 v" and um2: "um v = (um v1)\<lparr>ddr := b\<rparr>" and
    in2: "\<And>y. y < ?t \<Longrightarrow> b (unat ?a2 + y) = loc ?m ?k (unat w * ?wb + ?R * 256 + y)" and
    out2: "\<And>y. y < unat ?a2 \<or> unat ?a2 + ?t \<le> y \<Longrightarrow> b y = b1 y"
  proof (rule store_rows [OF wb1(3) k vkept_err [OF kept1], of 1 "bytes mod 256" "z mod (256 div ?wb)" ?w2 "bytes mod 256 \<noteq> 0" ?a2 other])
    show "unat ?w2 + z mod (256 div ?wb) * unat (1 :: u32) \<le> depth (um v1) ?k" unfolding wb1 S(7) using S(6) z(2) by simp
    show "?t = z mod (256 div ?wb) * wbytes (um v1) ?k" unfolding wb1 by (rule S(2))
    show "bytes mod 256 \<noteq> 0 \<Longrightarrow> unat ?a2 mod 8 = 0"
      using S(8) a by (simp add: unat_gt_0 mod8_add)
    show "bytes mod 256 \<noteq> 0 \<Longrightarrow> ddr_ok (um v1) (unat ?a2) (unat (1 :: u32) * ?t)"
      using S(5,8) ok by (simp add: unat_gt_0 um1 ddr_ok_def)
    show "bytes mod 256 \<noteq> 0 \<longleftrightarrow> unat (1 :: u32) * ?t \<noteq> 0" by (simp add: unat_eq_0)
  qed (use S(4) wb1 pos in \<open>simp_all add: um1\<close>)
  have "do_insns other (store d a mem w bytes) u = v"
    using run1 run2 by (simp only: store_def ROW_BYTES_def Let_def do_insns_append)
  moreover have "um v = ?m\<lparr>ddr := b\<rparr>" by (simp add: um2 um1)
  moreover have old: "b y = b1 y" if "?t = 0 \<or> y < unat a + ?R * 256 \<or> unat a + unat bytes \<le> y" for y
    using that S(5,8) by (intro out2) (cases "?t = 0"; linarith)
  moreover have "b (unat a + y) = loc ?m ?k (unat w * ?wb + y)" if y: "y < unat bytes" for y
  proof (cases "y < ?R * 256")
    case True
    then show ?thesis using old in1 by simp
  next
    case False
    then obtain x where x: "y = ?R * 256 + x" by (metis le_add_diff_inverse not_less)
    then have "x < ?t" using y S(5) by simp
    then show ?thesis using in2 [of x] S(8) x by (simp add: add.assoc)
  qed
  moreover have "b y = ddr ?m y" if "y < unat a \<or> unat a + unat bytes \<le> y" for y
  proof -
    have "b y = b1 y" using that S(5) by (intro old) linarith
    also have "\<dots> = ddr ?m y" using that S(5) by (intro out1) linarith
    finally show ?thesis .
  qed
  ultimately show thesis using vkept_trans [OF kept1 kept2] by (intro that [of v b])
qed

end
