(* ===== verification/VectorChunk.thy ===== *)
theory VectorChunk
  imports VectorBytes
begin

text \<open>
  What the vector firmware needs of its parameters, the array it is meant to leave, the slots of the
  local memories, and one chunk of its loop.
\<close>

section \<open>Sizes and results\<close>

text \<open>Bytes of an input and of an output element, and the elements that whole groups make up.\<close>
definition in_bytes :: "vecp \<Rightarrow> nat" where "in_bytes p = esz (unat (vin p))"
definition out_bytes :: "vecp \<Rightarrow> nat" where "out_bytes p = esz (unat (vout p))"
definition vcount :: "vecp \<Rightarrow> nat" where "vcount p = unat (vlen p) div unat (vd p) * unat (vd p)"

text \<open>Which element of src2 goes with element \<open>i\<close>.\<close>
definition src2_index :: "vecp \<Rightarrow> nat \<Rightarrow> nat" where
  "src2_index p i = (if period p = 0 then i else i mod (unat (period p) * unat (vd p)))"

text \<open>Element \<open>i\<close> of the result.\<close>
definition vec_out :: "vecp \<Rightarrow> (nat \<Rightarrow> u8) \<Rightarrow> nat \<Rightarrow> int" where
  "vec_out p f i =
     (let n = in_bytes p; op = unat (vop p AND 7) in
      ve_post (bit (vop p) 4) (bit (vop p) 5) (ucast (vscale p)) (unat (ucast (vshift p) :: 5 word)) (vzp p) (vlo p) (vhi p) (unat (vout p))
        (ve_op op (get_int f (unat (src1 p) + n * i) n) (if op = 5 then 0 else get_int f (unat (src2 p) + n * src2_index p i) n)))"

text \<open>A source that is read while the result is written: apart from it, or replaced in place by elements that are not larger.\<close>
definition stays :: "vecp \<Rightarrow> u32 \<Rightarrow> bool" where
  "stays p s \<longleftrightarrow> unat s + in_bytes p * vcount p \<le> unat (dst p) \<or> unat (dst p) + out_bytes p * vcount p \<le> unat s \<or>
     s = dst p \<and> out_bytes p \<le> in_bytes p"

text \<open>
  What the host must see to: an operation and types of the integer vector engine, a period that fits a
  chunk, aligned arrays in DDR, and sources that stay.
\<close>
definition vec_fits :: "vecp \<Rightarrow> umem \<Rightarrow> bool" where
  "vec_fits p m \<longleftrightarrow>
     vmem m \<and> unat (vd p) = arr m \<and> unat (vin p) \<le> 2 \<and> unat (vout p) \<le> 2 \<and> unat (vop p AND 7) \<le> 5 \<and>
     \<not> (vop p AND 7 = 2 \<and> vin p = 2) \<and> unat (period p) \<le> 512 \<and>
     unat (src1 p) mod 8 = 0 \<and> unat (dst p) mod 8 = 0 \<and>
     ddr_ok m (unat (src1 p)) (in_bytes p * vcount p) \<and> ddr_ok m (unat (dst p)) (out_bytes p * vcount p) \<and> stays p (src1 p) \<and>
     (\<not> unary p \<longrightarrow> unat (src2 p) mod 8 = 0 \<and>
        ddr_ok m (unat (src2 p)) (in_bytes p * (if period p = 0 then vcount p else unat (period p) * unat (vd p))) \<and>
        (period p = 0 \<longrightarrow> stays p (src2 p)))"

lemma vec_fits_upd [simp]: "vec_fits p (m\<lparr>loc := l\<rparr>) = vec_fits p m" "vec_fits p (m\<lparr>ddr := b\<rparr>) = vec_fits p m"
  by (simp_all add: vec_fits_def)

section \<open>Slots\<close>

text \<open>First bytes of the slots of bank \<open>b\<close>: src1, src2 and the result.\<close>
definition bank_bytes :: "u32 \<Rightarrow> nat" where "bank_bytes mem = (if mem = 3 then 131072 else 65536)"
definition s1 :: "vecp \<Rightarrow> nat \<Rightarrow> nat" where "s1 p b = b * bank_bytes (m1 p)"
definition s2 :: "vecp \<Rightarrow> nat \<Rightarrow> nat" where "s2 p b = b * bank_bytes (m2 p) + (if vin p = 2 then 32768 else 0)"
definition sd :: "vecp \<Rightarrow> nat \<Rightarrow> nat" where "sd p b = b * bank_bytes (md p) + (if vout p = 2 then 65536 else 32768)"

text \<open>Words of a group.\<close>
definition gw :: "nat \<Rightarrow> nat" where "gw t = (if t = 1 then 2 else 1)"

lemma low3: "unat (w :: u32) \<le> 2 \<Longrightarrow> w = 0 \<or> w = 1 \<or> w = 2"
proof -
  assume "unat w \<le> 2"
  then have "unat w = 0 \<or> unat w = 1 \<or> unat w = 2" by linarith
  moreover have "w = of_nat (unat w)" by simp
  ultimately show ?thesis by (elim disjE) (simp_all del: of_nat_unat)
qed

lemma vd_cases: "vmem m \<Longrightarrow> unat (vd p) = arr m \<Longrightarrow> arr m = 8 \<and> vd p = 8 \<or> arr m = 16 \<and> vd p = 16"
proof -
  assume "vmem m" and d: "unat (vd p) = arr m"
  moreover have "vd p = of_nat (unat (vd p))" by simp
  ultimately show ?thesis by (auto simp: vmem_def simp del: of_nat_unat)
qed

lemma slot_words:
  assumes f: "vec_fits p m" and b: "b = 0 \<or> b = 1"
  shows "unat (bank (vd p) (m1 p) b) * wbytes m (unat (m1 p)) = s1 p (unat b)"
    "unat (bank (vd p) (m2 p) b + w2 p) * wbytes m (unat (m2 p)) = s2 p (unat b)"
    "unat (bank (vd p) (md p) b + wd p) * wbytes m (unat (md p)) = sd p (unat b)"
    "unat (bank (vd p) (m1 p) b) + 512 * gw (unat (vin p)) \<le> depth m (unat (m1 p))"
    "unat (bank (vd p) (m2 p) b + w2 p) + 512 * gw (unat (vin p)) \<le> depth m (unat (m2 p))"
    "unat (bank (vd p) (md p) b + wd p) + 512 * gw (unat (vout p)) \<le> depth m (unat (md p))"
proof -
  have d: "arr m = 8 \<and> vd p = 8 \<or> arr m = 16 \<and> vd p = 16" and v: "vmem m" using f by (simp_all add: vec_fits_def vd_cases)
  have i: "vin p = 0 \<or> vin p = 1 \<or> vin p = 2" and o: "vout p = 0 \<or> vout p = 1 \<or> vout p = 2" using f by (simp_all add: vec_fits_def low3)
  note defs = bank_def m1_def m2_def md_def w2_def wd_def tmem_in_def s1_def s2_def sd_def bank_bytes_def gw_def
    SA_ACC_BANK_def SA_SPAD_BANK_def SA_ACC_WORDS_def SA_SPAD_WORDS_def wbytes_def depth_def
  show "unat (bank (vd p) (m1 p) b) * wbytes m (unat (m1 p)) = s1 p (unat b)"
    "unat (bank (vd p) (m1 p) b) + 512 * gw (unat (vin p)) \<le> depth m (unat (m1 p))"
    using d i b v by (auto simp: defs vmem_def)
  show "unat (bank (vd p) (m2 p) b + w2 p) * wbytes m (unat (m2 p)) = s2 p (unat b)"
    "unat (bank (vd p) (m2 p) b + w2 p) + 512 * gw (unat (vin p)) \<le> depth m (unat (m2 p))"
    using d i b v by (auto simp: defs vmem_def)
  show "unat (bank (vd p) (md p) b + wd p) * wbytes m (unat (md p)) = sd p (unat b)"
    "unat (bank (vd p) (md p) b + wd p) + 512 * gw (unat (vout p)) \<le> depth m (unat (md p))"
    using d o b v by (auto simp: defs vmem_def)
qed

lemma group_bytes:
  assumes f: "vec_fits p m"
  shows "unat (gin p) = arr m * in_bytes p" "unat (gout p) = arr m * out_bytes p"
    "arr m * in_bytes p = gw (unat (vin p)) * wbytes m (unat (m1 p))" "arr m * in_bytes p = gw (unat (vin p)) * wbytes m (unat (m2 p))"
    "arr m * out_bytes p = gw (unat (vout p)) * wbytes m (unat (md p))" "arr m * in_bytes p \<le> 64" "arr m * out_bytes p \<le> 64"
    "m1 p = 1 \<or> m1 p = 2 \<or> m1 p = 3" "m2 p = 1 \<or> m2 p = 2 \<or> m2 p = 3" "md p = 1 \<or> md p = 2 \<or> md p = 3"
    "arr m * in_bytes p mod 8 = 0" "arr m * out_bytes p mod 8 = 0" "0 < in_bytes p" "0 < out_bytes p" "0 < arr m"
proof -
  have d: "arr m = 8 \<and> vd p = 8 \<or> arr m = 16 \<and> vd p = 16" and v: "vmem m" using f by (simp_all add: vec_fits_def vd_cases)
  have i: "vin p = 0 \<or> vin p = 1 \<or> vin p = 2" and o: "vout p = 0 \<or> vout p = 1 \<or> vout p = 2" using f by (simp_all add: vec_fits_def low3)
  note defs = m1_def m2_def md_def tmem_in_def gw_def wbytes_def gin_def gout_def in_bytes_def out_bytes_def esz_def esize_def
  show "unat (gin p) = arr m * in_bytes p" "arr m * in_bytes p \<le> 64" "arr m * in_bytes p mod 8 = 0" "0 < in_bytes p"
    "arr m * in_bytes p = gw (unat (vin p)) * wbytes m (unat (m1 p))" "arr m * in_bytes p = gw (unat (vin p)) * wbytes m (unat (m2 p))"
    using d i by (auto simp: defs)
  show "unat (gout p) = arr m * out_bytes p" "arr m * out_bytes p \<le> 64" "arr m * out_bytes p mod 8 = 0" "0 < out_bytes p"
    "arr m * out_bytes p = gw (unat (vout p)) * wbytes m (unat (md p))"
    using d o by (auto simp: defs)
  show "m1 p = 1 \<or> m1 p = 2 \<or> m1 p = 3" "m2 p = 1 \<or> m2 p = 2 \<or> m2 p = 3" "md p = 1 \<or> md p = 2 \<or> md p = 3" by (simp_all add: defs)
  show "0 < arr m" using d by auto
qed

text \<open>No slot runs into another one of the same memory.\<close>
lemma slots_apart:
  assumes "vec_fits p m"
  shows "unat (m1 p) = unat (m2 p) \<Longrightarrow> s1 p b + 32768 \<le> s2 p c \<or> s2 p c + 32768 \<le> s1 p b"
    "unat (md p) = unat (m2 p) \<Longrightarrow> sd p b + 32768 \<le> s2 p c \<or> s2 p c + 32768 \<le> sd p b"
proof -
  have *: "b * n + x + 32768 \<le> c * n + y \<or> c * n + y + 32768 \<le> b * n + x" if "x + 32768 \<le> y \<or> y + 32768 \<le> x" "x + 32768 \<le> n" "y + 32768 \<le> n" for n x y :: nat
  proof (cases "b = c")
    case False
    then have "b * n + n \<le> c * n \<or> c * n + n \<le> b * n" using cells_apart [of b c n] by blast
    then show ?thesis using that by linarith
  qed (use that in auto)
  show "unat (m1 p) = unat (m2 p) \<Longrightarrow> s1 p b + 32768 \<le> s2 p c \<or> s2 p c + 32768 \<le> s1 p b"
    using * [of 0 32768 131072] by (auto simp: s1_def s2_def m1_def m2_def tmem_in_def bank_bytes_def split: if_splits)
  show "unat (md p) = unat (m2 p) \<Longrightarrow> sd p b + 32768 \<le> s2 p c \<or> s2 p c + 32768 \<le> sd p b"
    using * [of 65536 32768 131072] * [of 32768 0 65536]
    by (auto simp: sd_def s2_def md_def m2_def bank_bytes_def split: if_splits)
qed


section \<open>Operands of a chunk\<close>

text \<open>An array of whole groups, \<open>n\<close> groups from group \<open>G\<close> on.\<close>
lemma array_at:
  fixes a g :: u32
  assumes m: "vmem m" and g: "unat g = arr m * eb" "arr m * eb mod 8 = 0" "0 < eb" and ok: "ddr_ok m (unat a) (eb * N)" and a: "unat a mod 8 = 0"
    and n: "0 < n" "(G + n) * arr m \<le> N"
  shows "unat (a + of_nat G * g) = unat a + G * (arr m * eb)" "ddr_ok m (unat a + G * (arr m * eb)) (n * (arr m * eb))"
    "(unat a + G * (arr m * eb)) mod 8 = 0"
proof -
  have "(G + n) * arr m * eb \<le> N * eb" using n(2) by (rule mult_le_mono1)
  then have le: "G * (arr m * eb) + n * (arr m * eb) \<le> eb * N" by (simp add: algebra_simps)
  then show "ddr_ok m (unat a + G * (arr m * eb)) (n * (arr m * eb))" using ok by (simp add: ddr_ok_def)
  have "0 < arr m" using m by (auto simp: vmem_def)
  then have "0 < n * (arr m * eb)" using n(1) g(3) by simp
  moreover have "unat a + eb * N \<le> 2 ^ 32" using ok m by (simp add: ddr_ok_def vmem_def)
  ultimately have "unat a + G * (arr m * eb) < 2 ^ 32" using le by linarith
  then show "unat (a + of_nat G * g) = unat a + G * (arr m * eb)" using unat_lin [of a G g] by (simp only: g(1))
  show "(unat a + G * (arr m * eb)) mod 8 = 0" using a g(2) by (intro mod8_add) (metis mod_mult_right_eq mult_0_right mod_0)+
qed

text \<open>A load of \<open>n\<close> groups into a slot.\<close>
lemma load_slot:
  fixes a w mem :: u32
  assumes f: "vec_fits p (um u)" and e: "uerr u = None" and k: "mem = m1 p \<or> mem = m2 p"
    and w: "unat w * wbytes (um u) (unat mem) = s" "unat w + 512 * gw (unat (vin p)) \<le> depth (um u) (unat mem)"
    and n: "n \<le> 512" and g: "N = arr (um u) * in_bytes p" and a: "unat a mod 8 = 0" "ddr_ok (um u) (unat a) (n * N)"
  obtains L v where "do_insns other (load (vd p) a mem w (of_nat n * gin p)) u = v" and "vkept u v" and "um v = (um u)\<lparr>loc := L\<rparr>"
    and "\<And>y. y < n * N \<Longrightarrow> L (unat mem) (s + y) = ddr (um u) (unat a + y)"
    and "\<And>k y. k \<noteq> unat mem \<or> y < s \<or> s + 32768 \<le> y \<Longrightarrow> L k y = loc (um u) k y"
proof -
  note B = group_bytes [OF f]
  have vd: "vmem (um u)" "unat (vd p) = arr (um u)" using f by (simp_all add: vec_fits_def)
  have "n * N \<le> 512 * 64" using n B(6) unfolding g by (rule mult_le_mono)
  then have sz: "n * N \<le> 32768" by simp
  have nb: "unat (of_nat n * gin p) = n * N"
    using unat_lin [of 0 n "gin p"] sz B(1) g by simp
  have gwb: "N = gw (unat (vin p)) * wbytes (um u) (unat mem)" using k B(3,4) g by auto
  obtain b v where
    run: "do_insns other (load (vd p) a mem w (of_nat n * gin p)) u = v" and kept: "vkept u v" and
    um: "um v = (um u)\<lparr>loc := (loc (um u))(unat mem := b)\<rparr>" and
    ins: "\<And>y. y < unat (of_nat n * gin p) \<Longrightarrow> b (unat w * wbytes (um u) (unat mem) + y) = ddr (um u) (unat a + y)" and
    outs: "\<And>y. y < unat w * wbytes (um u) (unat mem) \<or> unat w * wbytes (um u) (unat mem) + unat (of_nat n * gin p) \<le> y \<Longrightarrow> b y = loc (um u) (unat mem) y"
  proof (rule load_bytes [OF vd(1) e vd(2), of mem "of_nat n * gin p" "n * gw (unat (vin p))" w a other])
    show "mem = 1 \<or> mem = 2 \<or> mem = 3" using k B(8,9) by auto
    show "unat (of_nat n * gin p) = n * gw (unat (vin p)) * wbytes (um u) (unat mem)" unfolding nb using gwb by simp
    have "n * gw (unat (vin p)) \<le> 512 * gw (unat (vin p))" using n by (rule mult_le_mono1)
    then show "unat w + n * gw (unat (vin p)) \<le> depth (um u) (unat mem)" using w(2) by linarith
    show "ddr_ok (um u) (unat a) (unat (of_nat n * gin p))" unfolding nb by (rule a(2))
  qed (use a(1) in simp_all)
  show thesis
  proof (rule that [OF run kept um])
    show "((loc (um u))(unat mem := b)) (unat mem) (s + y) = ddr (um u) (unat a + y)" if "y < n * N" for y
      using ins [of y] that by (simp add: nb w(1))
    show "((loc (um u))(unat mem := b)) k y = loc (um u) k y" if "k \<noteq> unat mem \<or> y < s \<or> s + 32768 \<le> y" for k y
      using outs [of y] that sz by (auto simp: nb w(1))
  qed
qed


text \<open>The group of src2 in its slot that goes with group \<open>g\<close> of a chunk.\<close>
definition pgroup :: "vecp \<Rightarrow> nat \<Rightarrow> nat" where "pgroup p g = (if period p = 0 then g else g mod unat (period p))"

text \<open>The operands of a chunk in the slots of bank \<open>b\<close>; \<open>f\<close>: DDR at the start.\<close>
definition has_x :: "vecp \<Rightarrow> (nat \<Rightarrow> u8) \<Rightarrow> nat \<Rightarrow> nat \<Rightarrow> nat \<Rightarrow> umem \<Rightarrow> bool" where
  "has_x p f b G n m \<longleftrightarrow> (\<forall>e < n * arr m. get_int (loc m (unat (m1 p))) (s1 p b + e * in_bytes p) (in_bytes p) =
     get_int f (unat (src1 p) + in_bytes p * (G * arr m + e)) (in_bytes p))"

definition has_y :: "vecp \<Rightarrow> (nat \<Rightarrow> u8) \<Rightarrow> nat \<Rightarrow> nat \<Rightarrow> nat \<Rightarrow> umem \<Rightarrow> bool" where
  "has_y p f b G n m \<longleftrightarrow> (\<not> unary p \<longrightarrow> (\<forall>e < n * arr m.
     get_int (loc m (unat (m2 p))) (s2 p b + (pgroup p (e div arr m) * arr m + e mod arr m) * in_bytes p) (in_bytes p) =
     get_int f (unat (src2 p) + in_bytes p * src2_index p (G * arr m + e)) (in_bytes p)))"

text \<open>A periodic src2 in both banks.\<close>
definition has_src2 :: "vecp \<Rightarrow> (nat \<Rightarrow> u8) \<Rightarrow> nat set \<Rightarrow> umem \<Rightarrow> bool" where
  "has_src2 p f bs m \<longleftrightarrow> (\<not> unary p \<and> period p \<noteq> 0 \<longrightarrow>
     (\<forall>b \<in> bs. \<forall>y < unat (period p) * (arr m * in_bytes p). loc m (unat (m2 p)) (s2 p b + y) = f (unat (src2 p) + y)))"

lemma slot_element:
  assumes "\<And>y. y < n * (d * ib) \<Longrightarrow> L (s + y) = f (a + G * (d * ib) + y)" and "e < n * d"
  shows "get_int L (s + e * ib) ib = get_int f (a + ib * (G * d + e)) ib"
proof (rule get_int_move)
  fix k assume k: "k < ib"
  have "(e + 1) * ib \<le> n * d * ib" using assms(2) by (intro mult_le_mono1) simp
  then have "e * ib + k < n * (d * ib)" using k by (simp add: algebra_simps)
  from assms(1) [OF this] show "L (s + e * ib + k) = f (a + ib * (G * d + e) + k)" by (simp add: algebra_simps)
qed

lemma pgroup_element:
  assumes "0 < d" and "period p = 0 \<or> unat (period p) dvd G" and "unat (vd p) = d"
  shows "src2_index p (G * d + e) = (if period p = 0 then G * d + e else pgroup p (e div d) * d + e mod d)"
proof (cases "period p = 0")
  case False
  then obtain q where q: "G = unat (period p) * q" using assms(2) by (auto simp: dvd_def)
  have "G * d + e = e + q * (d * unat (period p))" by (simp add: q)
  then have "(G * d + e) mod (unat (period p) * d) = e mod (d * unat (period p))" by (simp only: mult.commute [of _ d] mod_mult_self1)
  also have "\<dots> = pgroup p (e div d) * d + e mod d" using False by (simp add: pgroup_def mod_mult2_eq mult.commute)
  finally show ?thesis using False by (simp add: src2_index_def assms(3))
qed (simp add: src2_index_def)

lemma has_y_resident:
  assumes f: "vec_fits p m" and r: "has_src2 p f bs m" and b: "b \<in> bs" and q: "period p \<noteq> 0" "unat (period p) dvd G"
  shows "has_y p f b G n m"
  unfolding has_y_def
proof (intro impI allI)
  fix e assume u: "\<not> unary p" and e: "e < n * arr m"
  note B = group_bytes [OF f]
  let ?x = "pgroup p (e div arr m) * arr m + e mod arr m"
  have vd: "unat (vd p) = arr m" using f by (simp add: vec_fits_def)
  have "pgroup p (e div arr m) < unat (period p)" using q(1) by (simp add: pgroup_def unat_gt_0)
  then have "(pgroup p (e div arr m) + 1) * arr m \<le> unat (period p) * arr m" by (intro mult_le_mono1) simp
  moreover have "e mod arr m < arr m" using B(15) by simp
  ultimately have "?x < unat (period p) * arr m" unfolding add_mult_distrib by linarith
  moreover have "loc m (unat (m2 p)) (s2 p b + y) = f (unat (src2 p) + 0 * (arr m * in_bytes p) + y)" if "y < unat (period p) * (arr m * in_bytes p)" for y
    using r u q(1) b that by (simp add: has_src2_def)
  ultimately show "get_int (loc m (unat (m2 p))) (s2 p b + ?x * in_bytes p) (in_bytes p) =
      get_int f (unat (src2 p) + in_bytes p * src2_index p (G * arr m + e)) (in_bytes p)"
    using slot_element [of "unat (period p)" "arr m" "in_bytes p" "loc m (unat (m2 p))" "s2 p b" f "unat (src2 p)" 0 ?x]
    by (simp add: pgroup_element [OF B(15) _ vd] q)
qed

text \<open>A slot's contents do not depend on what happens outside of it.\<close>
lemma has_src2_frame:
  assumes f: "vec_fits p m" and r: "has_src2 p f bs m" and o: "\<And>b y. b \<in> bs \<Longrightarrow> y < 32768 \<Longrightarrow> L (unat (m2 p)) (s2 p b + y) = loc m (unat (m2 p)) (s2 p b + y)"
  shows "has_src2 p f bs (m\<lparr>loc := L\<rparr>)"
proof -
  have "unat (period p) * (arr m * in_bytes p) \<le> 512 * 64"
    using f group_bytes(6) [OF f] by (intro mult_le_mono) (simp_all add: vec_fits_def)
  then show ?thesis using r o by (simp add: has_src2_def)
qed

lemma has_src2_ddr [simp]: "has_src2 p f bs (m\<lparr>ddr := h\<rparr>) = has_src2 p f bs m"
  by (simp add: has_src2_def)


section \<open>A chunk\<close>

lemma chunk_loads:
  fixes b :: u32
  assumes f: "vec_fits p (um u)" and e: "uerr u = None" and b: "b = 0 \<or> b = 1"
    and n: "0 < n" "n \<le> 512" "(G + n) * arr (um u) \<le> vcount p" and q: "period p = 0 \<or> unat (period p) dvd G" and N: "N = arr (um u) * in_bytes p"
    and x: "\<And>y. y < n * N \<Longrightarrow> ddr (um u) (unat (src1 p) + G * N + y) = f (unat (src1 p) + G * N + y)"
    and y: "\<And>y. \<not> unary p \<Longrightarrow> period p = 0 \<Longrightarrow> y < n * N \<Longrightarrow> ddr (um u) (unat (src2 p) + G * N + y) = f (unat (src2 p) + G * N + y)"
    and r: "has_src2 p f {0, 1} (um u)"
  obtains L v where "do_insns other (load (vd p) (src1 p + of_nat G * gin p) (m1 p) (bank (vd p) (m1 p) b) (of_nat n * gin p) @
      (if \<not> unary p \<and> period p = 0 then load (vd p) (src2 p + of_nat G * gin p) (m2 p) (bank (vd p) (m2 p) b + w2 p) (of_nat n * gin p) else [])) u = v"
    and "vkept u v" and "um v = (um u)\<lparr>loc := L\<rparr>" and "has_x p f (unat b) G n (um v)" and "has_y p f (unat b) G n (um v)" and "has_src2 p f {0, 1} (um v)"
proof -
  note B = group_bytes [OF f] and S = slot_words [OF f b] and A = slots_apart [OF f]
  have vd: "vmem (um u)" "unat (vd p) = arr (um u)" using f by (simp_all add: vec_fits_def)
  have s: "ddr_ok (um u) (unat (src1 p)) (in_bytes p * vcount p)" "unat (src1 p) mod 8 = 0" using f by (simp_all add: vec_fits_def)
  note at = array_at [OF vd(1) B(1) B(11) B(13) s n(1,3), folded N]
  let ?a = "src1 p + of_nat G * gin p"
  have a: "unat ?a mod 8 = 0" "ddr_ok (um u) (unat ?a) (n * N)" unfolding at(1) by (rule at(3), rule at(2))
  obtain L1 v1 where
    run1: "do_insns other (load (vd p) (src1 p + of_nat G * gin p) (m1 p) (bank (vd p) (m1 p) b) (of_nat n * gin p)) u = v1" and
    kept1: "vkept u v1" and um1: "um v1 = (um u)\<lparr>loc := L1\<rparr>" and
    in1: "\<And>y. y < n * N \<Longrightarrow> L1 (unat (m1 p)) (s1 p (unat b) + y) = ddr (um u) (unat ?a + y)" and
    out1: "\<And>k y. k \<noteq> unat (m1 p) \<or> y < s1 p (unat b) \<or> s1 p (unat b) + 32768 \<le> y \<Longrightarrow> L1 k y = loc (um u) k y"
    by (rule load_slot [OF f e disjI1 [OF refl] S(1,4) n(2) N a, of other]) (rule that; assumption)
  have f1: "vec_fits p (um v1)" using f by (simp add: um1)
  have x1: "has_x p f (unat b) G n (um v1)"
    unfolding has_x_def um1 using slot_element [of n "arr (um u)" "in_bytes p" "L1 (unat (m1 p))" "s1 p (unat b)" f "unat (src1 p)" G] in1 x
    by (simp add: N at(1) [unfolded N])
  have r1: "has_src2 p f {0, 1} (um v1)"
    unfolding um1
  proof (rule has_src2_frame [OF f r])
    fix c y :: nat assume "y < 32768"
    then show "L1 (unat (m2 p)) (s2 p c + y) = loc (um u) (unat (m2 p)) (s2 p c + y)"
      using A(1) [of "unat b" c] by (intro out1) linarith
  qed
  show thesis
  proof (cases "\<not> unary p \<and> period p = 0")
    case False
    have "has_y p f (unat b) G n (um v1)"
      using False has_y_resident [OF f1 r1, of "unat b" G n] b q by (cases "unary p") (auto simp: has_y_def)
    then show thesis using False run1 x1 r1 kept1 um1 by (intro that [of v1 L1]) (simp_all only: if_False append_Nil2)
  next
    case True
    have s2: "ddr_ok (um u) (unat (src2 p)) (in_bytes p * vcount p)" "unat (src2 p) mod 8 = 0" using f True by (simp_all add: vec_fits_def)
    note at2 = array_at [OF vd(1) B(1) B(11) B(13) s2 n(1,3), folded N]
    have w1: "wbytes (um v1) k = wbytes (um u) k" "depth (um v1) k = depth (um u) k" "N = arr (um v1) * in_bytes p" "ddr (um v1) = ddr (um u)"
      "ddr_ok (um v1) a l = ddr_ok (um u) a l" for k a l by (simp_all add: um1 N)
    let ?a2 = "src2 p + of_nat G * gin p"
    have a2: "unat ?a2 mod 8 = 0" "ddr_ok (um v1) (unat ?a2) (n * N)" unfolding at2(1) w1(5) by (rule at2(3), rule at2(2))
    have S1: "unat (bank (vd p) (m2 p) b + w2 p) * wbytes (um v1) (unat (m2 p)) = s2 p (unat b)"
      "unat (bank (vd p) (m2 p) b + w2 p) + 512 * gw (unat (vin p)) \<le> depth (um v1) (unat (m2 p))" unfolding w1(1,2) by (rule S(2), rule S(5))
    obtain L v where
      run2: "do_insns other (load (vd p) (src2 p + of_nat G * gin p) (m2 p) (bank (vd p) (m2 p) b + w2 p) (of_nat n * gin p)) v1 = v" and
      kept2: "vkept v1 v" and um2: "um v = (um v1)\<lparr>loc := L\<rparr>" and
      in2: "\<And>y. y < n * N \<Longrightarrow> L (unat (m2 p)) (s2 p (unat b) + y) = ddr (um v1) (unat ?a2 + y)" and
      out2: "\<And>k y. k \<noteq> unat (m2 p) \<or> y < s2 p (unat b) \<or> s2 p (unat b) + 32768 \<le> y \<Longrightarrow> L k y = loc (um v1) k y"
      by (rule load_slot [OF f1 vkept_err [OF kept1] disjI2 [OF refl] S1 n(2) w1(3) a2, of other]) (rule that; assumption)
    have "has_x p f (unat b) G n (um v)"
      unfolding has_x_def
    proof (intro allI impI)
      fix e assume e: "e < n * arr (um v)"
      then have e: "e < n * arr (um u)" by (simp add: um1 um2)
      have "get_int (L (unat (m1 p))) (s1 p (unat b) + e * in_bytes p) (in_bytes p) = get_int (L1 (unat (m1 p))) (s1 p (unat b) + e * in_bytes p) (in_bytes p)"
      proof (rule get_int_frame)
        fix x assume x: "s1 p (unat b) + e * in_bytes p \<le> x" "x < s1 p (unat b) + e * in_bytes p + in_bytes p"
        have "(e + 1) * in_bytes p \<le> n * arr (um u) * in_bytes p" using e by (intro mult_le_mono1) simp
        moreover have "n * arr (um u) * in_bytes p \<le> 512 * 64" using n(2) B(6) unfolding mult.assoc by (rule mult_le_mono)
        ultimately have "x < s1 p (unat b) + 32768" using x by (simp add: algebra_simps)
        then show "L (unat (m1 p)) x = L1 (unat (m1 p)) x" using A(1) [of "unat b" "unat b"] x out2 [of "unat (m1 p)" x] by (simp add: um1) linarith
      qed
      then show "get_int (loc (um v) (unat (m1 p))) (s1 p (unat b) + e * in_bytes p) (in_bytes p) =
          get_int f (unat (src1 p) + in_bytes p * (G * arr (um v) + e)) (in_bytes p)"
        using x1 e by (simp add: has_x_def um1 um2)
    qed
    moreover have "has_y p f (unat b) G n (um v)"
      unfolding has_y_def um2 um1 using slot_element [of n "arr (um u)" "in_bytes p" "L (unat (m2 p))" "s2 p (unat b)" f "unat (src2 p)" G] in2 y True
      by (simp add: N pgroup_def src2_index_def w1(4) at2(1) [unfolded N])
    moreover have "has_src2 p f {0, 1} (um v)" using True by (simp add: has_src2_def)
    ultimately show thesis using True run1 run2 vkept_trans [OF kept1 kept2] um1 um2 by (intro that [of v L]) (simp_all add: do_insns_append)
  qed
qed


text \<open>The configuration of the vector engine but for the length and the destination.\<close>
definition vcfg :: "vecp \<Rightarrow> ve_args \<Rightarrow> bool" where
  "vcfg p v \<longleftrightarrow> v_op v = ucast (vop p) \<and> v_types v = ucast (vtypes p) \<and> v_mod v = ucast (period p) \<and> v_scale v = ucast (vscale p) \<and>
     v_shift v = ucast (vshift p) \<and> v_zp v = vzp p \<and> v_lo v = vlo p \<and> v_hi v = vhi p"

lemma vcfg_fields:
  assumes "vcfg p v" and f: "vec_fits p m"
  shows "ve_in v = unat (vin p)" "ve_out v = unat (vout p)" "ve_code v = unat (vop p AND 7)" "bit (v_op v) 4 = bit (vop p) 4" "bit (v_op v) 5 = bit (vop p) 5"
    "unat (v_mod v) = unat (period p)" "v_op v AND 7 \<noteq> 6" "unary p \<longleftrightarrow> ve_code v = 5" "src2_group v g = pgroup p g"
proof -
  have c: "v_op v = ucast (vop p)" "v_types v = ucast (vtypes p)" "v_mod v = ucast (period p)" using assms by (simp_all add: vcfg_def)
  have low: "x AND 3 = take_bit 2 x" "y AND 3 = take_bit 2 y" "z AND 7 = take_bit 3 z" "t AND 7 = take_bit 3 t" for x y :: u32 and z :: u8 and t :: u32
    by (simp_all add: take_bit_eq_mask mask_eq_exp_minus_1)
  have low6: "x AND 3 = take_bit 2 x" for x :: "6 word" by (simp add: take_bit_eq_mask mask_eq_exp_minus_1)
  show "ve_in v = unat (vin p)"
    unfolding ve_in_def vin_def c low low6 by (simp add: unsigned_take_bit_eq unsigned_ucast_eq)
  have "drop_bit 2 (ucast (vtypes p) :: 6 word) AND 3 = ucast (drop_bit 2 (vtypes p) AND 3)"
    by (rule bit_eqI) (auto simp: bit_simps low low6)
  then show "ve_out v = unat (vout p)"
    unfolding ve_out_def vout_def c low low6 by (simp add: unsigned_take_bit_eq unsigned_ucast_eq)
  show code: "ve_code v = unat (vop p AND 7)"
    unfolding ve_code_def c low by (simp add: unsigned_take_bit_eq unsigned_ucast_eq)
  show "bit (v_op v) 4 = bit (vop p) 4" "bit (v_op v) 5 = bit (vop p) 5" by (simp_all add: c bit_simps)
  have "unat (period p) \<le> 512" "unat (vop p AND 7) \<le> 5" using f by (simp_all add: vec_fits_def)
  then show md: "unat (v_mod v) = unat (period p)" by (simp add: c unat16)
  show "v_op v AND 7 \<noteq> 6"
  proof
    assume "v_op v AND 7 = 6"
    then have "ve_code v = 6" by (simp add: ve_code_def)
    then show False using code \<open>unat (vop p AND 7) \<le> 5\<close> by simp
  qed
  have "vop p AND 7 = 5 \<longleftrightarrow> unat (vop p AND 7) = unat (5 :: u32)" by (rule word_unat_eq_iff)
  then show "unary p \<longleftrightarrow> ve_code v = 5" unfolding unary_def code by simp
  show "src2_group v g = pgroup p g"
    by (auto simp: src2_group_def pgroup_def md Let_def unat_eq_0)
qed


lemma length_groups:
  assumes "vmem m" and "unat d = arr m" and "n \<le> 512"
  shows "unat (ucast (drop_bit (if arr m = 16 then 4 else 3) (of_nat n * d :: u32)) :: u16) = n"
proof -
  have d: "arr m = 8 \<or> arr m = 16" using assms(1) by (simp add: vmem_def)
  then have "n * arr m \<le> 512 * 16" using assms(3) by (intro mult_le_mono) auto
  then have "unat (of_nat n * d) = n * arr m" using unat_lin [of 0 n d] assms(2) by simp
  then have "unat (drop_bit (if arr m = 16 then 4 else 3) (of_nat n * d)) = n"
    using d by (auto simp: unat_drop_bit_eq drop_bit_eq_div unat_div_distrib)
  then show ?thesis using assms(3) by (simp add: unat16)
qed

text \<open>The command of a chunk is legal.\<close>
lemma chunk_check:
  fixes b :: u32
  assumes f: "vec_fits p m" and b: "b = 0 \<or> b = 1" and n: "0 < n" "n \<le> 512" and v: "vcfg p v" "unat (v_groups v) = n"
    and l1: "laddr_mem a1 = unat (m1 p)" "laddr_word a1 = unat (bank (vd p) (m1 p) b)"
    and l2: "laddr_mem a2 = unat (m2 p)" "laddr_word a2 = unat (bank (vd p) (m2 p) b + w2 p)"
    and ld: "laddr_mem (v_dst v) = unat (md p)" "laddr_word (v_dst v) = unat (bank (vd p) (md p) b + wd p)"
  shows "ve_check v a1 a2 m = None"
proof -
  note F = vcfg_fields [OF v(1) f] and S = slot_words [OF f b]
  have i: "unat (vin p) \<le> 2" "unat (vout p) \<le> 2" "unat (vop p AND 7) \<le> 5" "\<not> (unat (vop p AND 7) = 2 \<and> unat (vin p) = 2)" "unat (period p) \<le> 512"
    using f by (auto simp: vec_fits_def word_unat_eq_iff)
  have io: "vin p = 0 \<or> vin p = 1 \<or> vin p = 2" "vout p = 0 \<or> vout p = 1 \<or> vout p = 2" using i by (simp_all add: low3)
  have le: "w + k * gw t - 1 < l" if "w + 512 * gw t \<le> l" "k \<le> 512" for w k t l
  proof -
    have "k * gw t \<le> 512 * gw t" using that(2) by (rule mult_le_mono1)
    moreover have "0 < gw t" by (simp add: gw_def)
    ultimately show ?thesis using that(1) by linarith
  qed
  have wg: "(if t = 1 then 2 else 1) = gw t" for t :: nat by (simp add: gw_def)
  have n2: "(if unat (period p) = 0 then n else if unat (period p) = 1 then 1 else min (unat (period p)) n) \<le> 512" using n by auto
  have m1k: "if unat (vin p) = 2 then unat (m1 p) = 3 else unat (m1 p) = 1 \<or> unat (m1 p) = 2"
    and m2k: "if unat (vin p) = 2 then unat (m2 p) = 3 else unat (m2 p) = 1 \<or> unat (m2 p) = 2"
    and mdk: "if unat (vout p) = 2 then unat (md p) = 3 else unat (md p) = 1 \<or> unat (md p) = 2"
    using io by (auto simp: m1_def m2_def md_def tmem_in_def)
  note L = le [OF S(4) n(2)] le [OF S(5) n2] le [OF S(6) n(2)]
  have nz: "n \<noteq> 0" "\<not> unat (vin p) > 2" "\<not> unat (vout p) > 2" "\<not> unat (vop p AND 7) > 5" using n(1) i by simp_all
  show ?thesis
    unfolding ve_check_def Let_def F(1,2,3,6) v(2) l1 l2 ld wg
    using m1k m2k mdk L nz i(4) by (simp only: not_le not_less simp_thms if_False) (simp add: not_le, metis One_nat_def)
qed


text \<open>What the command computes from the operands in the slots.\<close>
lemma chunk_value:
  assumes f: "vec_fits p m" and v: "vcfg p v" and x: "has_x p f b G n m" and y: "has_y p f b G n m" and e: "e < n * arr m"
    and l1: "laddr_mem a1 = unat (m1 p)" "laddr_word a1 * wbytes m (unat (m1 p)) = s1 p b"
    and l2: "laddr_mem a2 = unat (m2 p)" "laddr_word a2 * wbytes m (unat (m2 p)) = s2 p b"
  shows "ve_value v a1 a2 m e = vec_out p f (G * arr m + e)"
proof -
  note F = vcfg_fields [OF v f]
  have c: "v_scale v = ucast (vscale p)" "v_shift v = ucast (vshift p)" "v_zp v = vzp p" "v_lo v = vlo p" "v_hi v = vhi p" using v by (simp_all add: vcfg_def)
  have y: "ve_code v \<noteq> 5 \<Longrightarrow> get_int (loc m (unat (m2 p))) (s2 p b + (pgroup p (e div arr m) * arr m + e mod arr m) * in_bytes p) (in_bytes p) =
      get_int f (unat (src2 p) + in_bytes p * src2_index p (G * arr m + e)) (in_bytes p)"
    using y e F(8) by (simp add: has_y_def)
  have x: "get_int (loc m (unat (m1 p))) (s1 p b + e * in_bytes p) (in_bytes p) = get_int f (unat (src1 p) + in_bytes p * (G * arr m + e)) (in_bytes p)"
    using x e by (simp add: has_x_def)
  show ?thesis
    unfolding ve_value_def vec_out_def Let_def l1 l2 F(9) F(4,5) F(1,2) c in_bytes_def [symmetric] x using y by (simp add: F(3))
qed

lemma chunk_vec:
  fixes b :: u32
  assumes f: "vec_fits p (um u)" and e: "uerr u = None" "\<not> bit (v_flags u) 0" "vcfg p (va u)" and b: "b = 0 \<or> b = 1" and n: "0 < n" "n \<le> 512"
    and x: "has_x p f (unat b) G n (um u)" and y: "has_y p f (unat b) G n (um u)" and r: "has_src2 p f {0, 1} (um u)"
  obtains c v where "do_insns other [vec_cfg 1 (of_nat n * vd p), vec_cfg 2 (SA_LADDR (md p) (bank (vd p) (md p) b + wd p)),
      vec_run (SA_LADDR (m1 p) (bank (vd p) (m1 p) b)) (SA_LADDR (m2 p) (bank (vd p) (m2 p) b + w2 p))] u = v"
    and "uerr v = None" and "\<not> bit (v_flags v) 0" and "vcfg p (va v)" and "um v = (um u)\<lparr>loc := (loc (um u))(unat (md p) := c)\<rparr>"
    and "\<And>e. e < n * arr (um u) \<Longrightarrow> get_int c (sd p (unat b) + e * out_bytes p) (out_bytes p) = vec_out p f (G * arr (um u) + e)"
    and "has_src2 p f {0, 1} (um v)"
proof -
  let ?m = "um u" and ?W1 = "bank (vd p) (m1 p) b" and ?W2 = "bank (vd p) (m2 p) b + w2 p" and ?WD = "bank (vd p) (md p) b + wd p"
  let ?a1 = "SA_LADDR (m1 p) ?W1" and ?a2 = "SA_LADDR (m2 p) ?W2" and ?ad = "SA_LADDR (md p) ?WD"
  note B = group_bytes [OF f] and S = slot_words [OF f b] and A = slots_apart [OF f]
  have m: "vmem ?m" "unat (vd p) = arr ?m" using f by (simp_all add: vec_fits_def)
  have "unat ?W1 < 65536" "unat ?W2 < 65536" "unat ?WD < 65536"
    using S(4-6) vmem_words(2) [OF m(1), of "unat (m1 p)"] vmem_words(2) [OF m(1), of "unat (m2 p)"] vmem_words(2) [OF m(1), of "unat (md p)"]
    by linarith+
  then have la: "laddr_mem ?a1 = unat (m1 p)" "laddr_word ?a1 = unat ?W1" "laddr_mem ?a2 = unat (m2 p)" "laddr_word ?a2 = unat ?W2"
    "laddr_mem ?ad = unat (md p)" "laddr_word ?ad = unat ?WD"
    using B(8-10) by (simp_all only: laddr_mem_of laddr_word_of)
  define v1 where "v1 = (va u)\<lparr>v_groups := ucast (drop_bit (if arr ?m = 16 then 4 else 3) (of_nat n * vd p)), v_dst := ?ad\<rparr>"
  define u1 where "u1 = u\<lparr>va := v1\<rparr>"
  have vc: "vcfg p v1" using e(3) by (simp add: vcfg_def v1_def)
  note F = vcfg_fields [OF vc f]
  have gr: "unat (v_groups v1) = n" "v_dst v1 = ?ad" using length_groups [OF m n(2)] by (simp_all add: v1_def)
  have chk: "ve_check v1 ?a1 ?a2 ?m = None"
    by (rule chunk_check [OF f b n vc gr(1)]) (simp_all only: gr(2) la)
  have ob: "out_bytes p dvd sd p (unat b)" using b by (auto simp: out_bytes_def esz_def sd_def bank_bytes_def)
  then have start: "laddr_word (v_dst v1) * wbytes ?m (laddr_mem (v_dst v1)) = sd p (unat b) div out_bytes p * esz (ve_out v1)"
    unfolding gr(2) la S(3) F(2) out_bytes_def [symmetric] by simp
  obtain c where
    run: "ve v1 ?a1 ?a2 ?m = (?m\<lparr>loc := (loc ?m)(laddr_mem (v_dst v1) := c)\<rparr>, None)" and
    ins: "\<And>q. q < unat (v_groups v1) * arr ?m \<Longrightarrow> cell (esz (ve_out v1)) c (sd p (unat b) div out_bytes p + q) = ve_value v1 ?a1 ?a2 ?m q" and
    outs: "\<And>q. q < sd p (unat b) div out_bytes p * esz (ve_out v1) \<or> (sd p (unat b) div out_bytes p + unat (v_groups v1) * arr ?m) * esz (ve_out v1) \<le> q \<Longrightarrow>
      c q = loc ?m (laddr_mem (v_dst v1)) q"
    by (rule ve_elements [OF chk start]) blast
  define v where "v = u1\<lparr>um := ?m\<lparr>loc := (loc ?m)(unat (md p) := c)\<rparr>, uerr := None\<rparr>"
  have "do_insns other [vec_cfg 1 (of_nat n * vd p), vec_cfg 2 ?ad, vec_run ?a1 ?a2] u = do_insn other (vec_run ?a1 ?a2) u1"
    by (simp add: set_vcfg_def u1_def v1_def Let_def)
  also have "\<dots> = command (ve v1 ?a1 ?a2) u1"
    using run_vec [of u1 other ?a1 ?a2] F(7) e(2) by (simp add: u1_def)
  also have "\<dots> = v" unfolding v_def using run e(1) by (intro command_ok) (simp_all add: u1_def gr(2) la)
  finally have "do_insns other [vec_cfg 1 (of_nat n * vd p), vec_cfg 2 ?ad, vec_run ?a1 ?a2] u = v" .
  moreover have um: "um v = ?m\<lparr>loc := (loc ?m)(unat (md p) := c)\<rparr>" by (simp add: v_def)
  moreover have "get_int c (sd p (unat b) + q * out_bytes p) (out_bytes p) = vec_out p f (G * arr ?m + q)" if q: "q < n * arr ?m" for q
    using ins [of q] q ob chunk_value [OF f vc x y q la(1) _ la(3)] S(1,2)
    by (simp add: gr(1) la(2,4) F(2) cell_def add_mult_distrib flip: out_bytes_def)
  moreover have "has_src2 p f {0, 1} (um v)"
    unfolding um
  proof (rule has_src2_frame [OF f r])
    fix i q :: nat assume q: "q < 32768"
    have "n * (arr ?m * out_bytes p) \<le> 512 * 64" using n(2) B(7) by (rule mult_le_mono)
    then have "unat (md p) = unat (m2 p) \<Longrightarrow> c (s2 p i + q) = loc ?m (unat (md p)) (s2 p i + q)"
      using A(2) [of "unat b" i] outs [of "s2 p i + q"] q ob
      by (simp add: gr(1,2) la F(2) add_mult_distrib flip: out_bytes_def) (simp add: mult.assoc, linarith)
    then show "((loc ?m)(unat (md p) := c)) (unat (m2 p)) (s2 p i + q) = loc ?m (unat (m2 p)) (s2 p i + q)" by simp
  qed
  ultimately show thesis using e(2) vc by (intro that [of v c]) (simp_all add: v_def u1_def)
qed


section \<open>What is written\<close>

text \<open>The first \<open>G\<close> groups of the result, and nothing else.\<close>
definition written :: "vecp \<Rightarrow> (nat \<Rightarrow> u8) \<Rightarrow> nat \<Rightarrow> (nat \<Rightarrow> u8) \<Rightarrow> bool" where
  "written p f G h \<longleftrightarrow>
     (\<forall>i < G * unat (vd p). get_int h (unat (dst p) + out_bytes p * i) (out_bytes p) = vec_out p f i) \<and>
     (\<forall>y. y < unat (dst p) \<or> unat (dst p) + out_bytes p * (G * unat (vd p)) \<le> y \<longrightarrow> h y = f y)"

definition vinv :: "vecp \<Rightarrow> (nat \<Rightarrow> u8) \<Rightarrow> nat \<Rightarrow> unit_state \<Rightarrow> bool" where
  "vinv p f G u \<longleftrightarrow> uerr u = None \<and> \<not> bit (v_flags u) 0 \<and> vcfg p (va u) \<and> vec_fits p (um u) \<and> has_src2 p f {0, 1} (um u) \<and>
     written p f G (ddr (um u))"

lemma source_stays:
  assumes w: "written p f G h" and s: "stays p a" and n: "(G + n) * unat (vd p) \<le> vcount p" and y: "y < n * (unat (vd p) * in_bytes p)"
  shows "h (unat a + G * (unat (vd p) * in_bytes p) + y) = f (unat a + G * (unat (vd p) * in_bytes p) + y)"
proof -
  let ?d = "unat (vd p)" and ?i = "in_bytes p" and ?o = "out_bytes p"
  let ?q = "unat a + G * (?d * ?i) + y"
  have "(G + n) * ?d * ?i \<le> vcount p * ?i" using n by (rule mult_le_mono1)
  then have i: "G * (?d * ?i) + n * (?d * ?i) \<le> ?i * vcount p" by (simp add: algebra_simps)
  have "G * ?d \<le> (G + n) * ?d" by (rule mult_le_mono1) simp
  then have o': "?o * (G * ?d) \<le> ?o * vcount p" using n by (intro mult_le_mono2) linarith
  have "?q < unat (dst p) \<or> unat (dst p) + ?o * (G * ?d) \<le> ?q"
    using s unfolding stays_def
  proof (elim disjE conjE)
    assume "a = dst p" and le: "?o \<le> ?i"
    have "?o * (G * ?d) \<le> ?i * (G * ?d)" using le by (rule mult_le_mono1)
    also have "\<dots> = G * (?d * ?i)" by (simp add: algebra_simps)
    finally have "unat (dst p) + ?o * (G * ?d) \<le> ?q" unfolding \<open>a = dst p\<close> by linarith
    then show ?thesis by (rule disjI2)
  qed (use i o' y in linarith)+
  then show ?thesis using w unfolding written_def by blast
qed

lemma written_more:
  assumes w: "written p f G h" and d: "0 < unat (vd p)"
    and ins: "\<And>e. e < n * unat (vd p) \<Longrightarrow> get_int h' (unat (dst p) + G * (unat (vd p) * out_bytes p) + e * out_bytes p) (out_bytes p) = vec_out p f (G * unat (vd p) + e)"
    and outs: "\<And>y. y < unat (dst p) + G * (unat (vd p) * out_bytes p) \<or> unat (dst p) + G * (unat (vd p) * out_bytes p) + n * (unat (vd p) * out_bytes p) \<le> y \<Longrightarrow> h' y = h y"
  shows "written p f (G + n) h'"
proof -
  let ?d = "unat (vd p)" and ?o = "out_bytes p"
  have "get_int h' (unat (dst p) + ?o * i) ?o = vec_out p f i" if i: "i < (G + n) * ?d" for i
  proof (cases "i < G * ?d")
    case True
    then have "(i + 1) * ?o \<le> G * ?d * ?o" by (intro mult_le_mono1) simp
    then have "get_int h' (unat (dst p) + ?o * i) ?o = get_int h (unat (dst p) + ?o * i) ?o"
      by (intro get_int_frame outs) (simp add: algebra_simps)
    then show ?thesis using w True by (simp add: written_def)
  next
    case False
    then obtain e where e: "i = G * ?d + e" by (metis le_add_diff_inverse not_less)
    then have "e < n * ?d" using i by (simp add: add_mult_distrib)
    from ins [OF this] show ?thesis by (simp add: e algebra_simps)
  qed
  moreover have "h' y = f y" if "y < unat (dst p) \<or> unat (dst p) + ?o * ((G + n) * ?d) \<le> y" for y
  proof -
    have y: "y < unat (dst p) \<or> unat (dst p) + (G * (?d * ?o) + n * (?d * ?o)) \<le> y" using that by (simp add: algebra_simps)
    then have "h' y = h y" by (intro outs) linarith
    also have "\<dots> = f y"
    proof -
      have "G * (?d * ?o) = ?o * (G * ?d)" by (simp add: algebra_simps)
      then have "y < unat (dst p) \<or> unat (dst p) + ?o * (G * ?d) \<le> y" using y by linarith
      then show ?thesis using w unfolding written_def by blast
    qed
    finally show ?thesis .
  qed
  ultimately show ?thesis by (simp add: written_def)
qed


text \<open>The store of a chunk.\<close>
lemma chunk_store:
  fixes b :: u32
  assumes f: "vec_fits p (um u)" and e: "uerr u = None" and b: "b = 0 \<or> b = 1" and n: "0 < n" "n \<le> 512" "(G + n) * arr (um u) \<le> vcount p"
    and w: "written p f G (ddr (um u))"
    and c: "\<And>e. e < n * arr (um u) \<Longrightarrow> get_int (loc (um u) (unat (md p))) (sd p (unat b) + e * out_bytes p) (out_bytes p) = vec_out p f (G * arr (um u) + e)"
  obtains h v where "do_insns other (store (vd p) (dst p + of_nat G * gout p) (md p) (bank (vd p) (md p) b + wd p) (of_nat n * gout p)) u = v"
    and "vkept u v" and "um v = (um u)\<lparr>ddr := h\<rparr>" and "written p f (G + n) h"
proof -
  let ?m = "um u" and ?w = "bank (vd p) (md p) b + wd p" and ?k = "unat (md p)" and ?a = "dst p + of_nat G * gout p"
  define N where "N = arr ?m * out_bytes p"
  note B = group_bytes [OF f] and S = slot_words [OF f b]
  have vd: "vmem ?m" "unat (vd p) = arr ?m" using f by (simp_all add: vec_fits_def)
  have s: "ddr_ok ?m (unat (dst p)) (out_bytes p * vcount p)" "unat (dst p) mod 8 = 0" using f by (simp_all add: vec_fits_def)
  note at = array_at [OF vd(1) B(2) B(12) B(14) s n(1,3), folded N_def]
  have "n * N \<le> 512 * 64" using n(2) B(7) unfolding N_def by (rule mult_le_mono)
  then have nb: "unat (of_nat n * gout p) = n * N" using unat_lin [of 0 n "gout p"] B(2) N_def by simp
  obtain h v where
    run: "do_insns other (store (vd p) ?a (md p) ?w (of_nat n * gout p)) u = v" and kept: "vkept u v" and um: "um v = ?m\<lparr>ddr := h\<rparr>" and
    ins: "\<And>y. y < unat (of_nat n * gout p) \<Longrightarrow> h (unat ?a + y) = loc ?m ?k (unat ?w * wbytes ?m ?k + y)" and
    outs: "\<And>y. y < unat ?a \<or> unat ?a + unat (of_nat n * gout p) \<le> y \<Longrightarrow> h y = ddr ?m y"
  proof (rule store_bytes [OF vd(1) e vd(2) B(10), of "of_nat n * gout p" "n * gw (unat (vout p))" ?w ?a other])
    show "unat (of_nat n * gout p) = n * gw (unat (vout p)) * wbytes ?m ?k" unfolding nb N_def B(5) by simp
    have "n * gw (unat (vout p)) \<le> 512 * gw (unat (vout p))" using n(2) by (rule mult_le_mono1)
    then show "unat ?w + n * gw (unat (vout p)) \<le> depth ?m ?k" using S(6) by linarith
    show "ddr_ok ?m (unat ?a) (unat (of_nat n * gout p))" unfolding nb at(1) by (rule at(2))
    show "unat ?a mod 8 = 0" unfolding at(1) by (rule at(3))
  qed (rule that; assumption)
  have "written p f (G + n) h"
  proof (rule written_more [OF w])
    show "0 < unat (vd p)" using B(15) vd(2) by simp
    show "get_int h (unat (dst p) + G * (unat (vd p) * out_bytes p) + e * out_bytes p) (out_bytes p) = vec_out p f (G * unat (vd p) + e)"
      if "e < n * unat (vd p)" for e
    proof -
      have lt: "e < n * arr ?m" using that vd(2) by simp
      then have le: "(e + 1) * out_bytes p \<le> n * arr ?m * out_bytes p" by (intro mult_le_mono1) simp
      have "get_int h (unat ?a + e * out_bytes p) (out_bytes p) = get_int (loc ?m ?k) (sd p (unat b) + e * out_bytes p) (out_bytes p)"
      proof (rule get_int_move)
        fix k assume "k < out_bytes p"
        then have "e * out_bytes p + k < n * N" using le by (simp add: N_def algebra_simps)
        then show "h (unat ?a + e * out_bytes p + k) = loc ?m ?k (sd p (unat b) + e * out_bytes p + k)"
          using ins [of "e * out_bytes p + k"] by (simp add: nb S(3) add.assoc)
      qed
      then show ?thesis using c [OF lt] by (simp only: at(1) N_def vd(2))
    qed
    show "h y = ddr ?m y" if "y < unat (dst p) + G * (unat (vd p) * out_bytes p) \<or> unat (dst p) + G * (unat (vd p) * out_bytes p) + n * (unat (vd p) * out_bytes p) \<le> y" for y
      using that by (intro outs) (simp only: nb at(1) N_def vd(2))
  qed
  with run kept um show thesis by (rule that)
qed

text \<open>One chunk: \<open>n\<close> more groups are written.\<close>
lemma chunk_step:
  assumes i: "vinv p f G u" and n: "0 < n" "n \<le> 512" "(G + n) * unat (vd p) \<le> vcount p" and q: "period p = 0 \<or> unat (period p) dvd G"
    and nw: "(if groups p - of_nat G < cg p then groups p - of_nat G else cg p) = of_nat n"
  shows "vinv p f (G + n) (do_insns other (vec_chunk p (of_nat G) ch) u)"
proof -
  let ?b = "ch AND 1"
  have b: "?b = 0 \<or> ?b = 1" by (simp add: and_one_eq mod2_eq_if)
  have I: "vec_fits p (um u)" "uerr u = None" "\<not> bit (v_flags u) 0" "vcfg p (va u)" "has_src2 p f {0, 1} (um u)" "written p f G (ddr (um u))"
    using i by (simp_all add: vinv_def)
  have d: "unat (vd p) = arr (um u)" "stays p (src1 p)" "\<not> unary p \<Longrightarrow> period p = 0 \<Longrightarrow> stays p (src2 p)" using I(1) by (simp_all add: vec_fits_def)
  obtain L u1 where
    run1: "do_insns other (load (vd p) (src1 p + of_nat G * gin p) (m1 p) (bank (vd p) (m1 p) ?b) (of_nat n * gin p) @
      (if \<not> unary p \<and> period p = 0 then load (vd p) (src2 p + of_nat G * gin p) (m2 p) (bank (vd p) (m2 p) ?b + w2 p) (of_nat n * gin p) else [])) u = u1" and
    k1: "vkept u u1" and um1: "um u1 = (um u)\<lparr>loc := L\<rparr>" and x: "has_x p f (unat ?b) G n (um u1)" and y: "has_y p f (unat ?b) G n (um u1)" and
    r1: "has_src2 p f {0, 1} (um u1)"
    by (rule chunk_loads [OF I(1,2) b n(1,2) _ q refl, of f other])
      (use n(3) source_stays [OF I(6) d(2) n(3)] source_stays [OF I(6) d(3) n(3)] I(5) d(1) that in \<open>simp_all\<close>)
  have k: "uerr u1 = None" "\<not> bit (v_flags u1) 0" "vcfg p (va u1)" "vec_fits p (um u1)" using k1 I by (simp_all add: vkept_def um1)
  obtain c u2 where
    run2: "do_insns other [vec_cfg 1 (of_nat n * vd p), vec_cfg 2 (SA_LADDR (md p) (bank (vd p) (md p) ?b + wd p)),
      vec_run (SA_LADDR (m1 p) (bank (vd p) (m1 p) ?b)) (SA_LADDR (m2 p) (bank (vd p) (m2 p) ?b + w2 p))] u1 = u2" and
    k2: "uerr u2 = None" "\<not> bit (v_flags u2) 0" "vcfg p (va u2)" and um2: "um u2 = (um u1)\<lparr>loc := (loc (um u1))(unat (md p) := c)\<rparr>" and
    c: "\<And>e. e < n * arr (um u1) \<Longrightarrow> get_int c (sd p (unat ?b) + e * out_bytes p) (out_bytes p) = vec_out p f (G * arr (um u1) + e)" and
    r2: "has_src2 p f {0, 1} (um u2)"
    by (rule chunk_vec [OF k(4) k(1-3) b n(1,2) x y r1, of other]) blast
  have f2: "vec_fits p (um u2)" "arr (um u2) = arr (um u)" "ddr (um u2) = ddr (um u)" using I(1) by (simp_all add: um1 um2)
  obtain h u3 where
    run3: "do_insns other (store (vd p) (dst p + of_nat G * gout p) (md p) (bank (vd p) (md p) ?b + wd p) (of_nat n * gout p)) u2 = u3" and
    k3: "vkept u2 u3" and um3: "um u3 = (um u2)\<lparr>ddr := h\<rparr>" and w: "written p f (G + n) h"
    by (rule chunk_store [OF f2(1) k2(1) b n(1,2), of G f other]) (use n(3) I(6) c f2 d(1) in \<open>simp_all add: um1 um2\<close>)
  have "do_insns other (vec_chunk p (of_nat G) ch) u = u3"
    using run1 run2 run3 unfolding vec_chunk_def Let_def nw by (simp only: do_insns_append)
  moreover have "has_src2 p f {0, 1} (um u3)" using r2 by (simp add: um3)
  ultimately show ?thesis using k2 k3 f2(1) w by (simp add: vinv_def vkept_def um3)
qed

end
