(* ===== verification/VectorRun.thy ===== *)
theory VectorRun
  imports VectorChunk
begin

text \<open>
  The vector firmware as a whole: when its loop ends, what its chunks are, and that it computes its
  operation.
\<close>

section \<open>The loop returns or does not\<close>

lemma periods_of_chunk: "unat (CHUNK_GROUPS div period p * period p) = 512 div unat (period p) * unat (period p)"
proof -
  have "512 div unat (period p) * unat (period p) \<le> 512" by simp
  then have lt: "512 div unat (period p) * unat (period p) < 4294967296" by linarith
  have "unat (CHUNK_GROUPS div period p) = 512 div unat (period p)" by (simp add: CHUNK_GROUPS_def unat_div_distrib)
  then show ?thesis using lt by (simp add: unat_word_ariths(2))
qed

text \<open>With more than 512 groups in a period a chunk has no groups.\<close>
lemma cg_zero: "cg p = 0 \<longleftrightarrow> unat (period p) > 512"
proof -
  have "CHUNK_GROUPS div period p * period p = 0 \<longleftrightarrow> 512 div unat (period p) * unat (period p) = 0"
    unfolding periods_of_chunk [symmetric] by (simp only: unat_eq_0)
  moreover have "period p > 1 \<longleftrightarrow> unat (period p) > 1" by (simp add: word_less_nat_alt)
  ultimately show ?thesis
    by (auto simp: cg_def CHUNK_GROUPS_def div_eq_0_iff)
qed

lemma cg_size: "unat (cg p) \<le> 512"
proof (cases "period p > 1")
  case True
  then have "unat (cg p) = 512 div unat (period p) * unat (period p)" by (simp only: cg_def if_True periods_of_chunk)
  then show ?thesis by simp
qed (simp add: cg_def CHUNK_GROUPS_def)

lemma vec_loop_stuck: "vec_loop p g chunks = Some r \<Longrightarrow> cg p = 0 \<longrightarrow> \<not> g < groups p"
proof (rule vec_loop.raw_induct [where P = "\<lambda>p g _ _. cg p = 0 \<longrightarrow> \<not> g < groups p"])
  fix f p g chunks y
  assume IH: "\<And>p g c y. f p g c = Some y \<Longrightarrow> cg p = 0 \<longrightarrow> \<not> g < groups p"
    and eq: "(if g < groups p then Option.bind (f p (g + cg p) (chunks + 1)) (\<lambda>(is, n). Some (vec_chunk p g chunks @ is, n)) else Some ([], chunks)) = Some y"
  show "cg p = 0 \<longrightarrow> \<not> g < groups p"
  proof (intro impI notI)
    assume c: "cg p = 0" and g: "g < groups p"
    with eq obtain z where "f p (g + cg p) (chunks + 1) = Some z" by (auto simp: bind_eq_Some_conv)
    from IH [OF this] c g show False by simp
  qed
qed

text \<open>The chunks of \<open>c\<close> groups that make up \<open>G\<close> groups.\<close>
lemma vec_loop_runs:
  assumes G: "unat (groups p) = G" "G + 512 < 2 ^ 32" and c: "unat (cg p) = c" "0 < c" and k: "k \<le> ceil_div G c"
  shows "vec_loop p (of_nat (k * c)) (of_nat k) =
    Some (concat (map (\<lambda>i. vec_chunk p (of_nat (i * c)) (of_nat i)) [k..<ceil_div G c]), of_nat (ceil_div G c))"
  using k
proof (induction "ceil_div G c - k" arbitrary: k)
  case 0
  then have k: "k = ceil_div G c" by simp
  have "G \<le> k * c" "k * c < G + c"
  proof -
    have "G + c - 1 = (G + c - 1) div c * c + (G + c - 1) mod c" by simp
    moreover have "(G + c - 1) mod c < c" using c(2) by simp
    ultimately show "G \<le> k * c" "k * c < G + c" unfolding k ceil_div_def using c(2) by linarith+
  qed
  moreover have "c \<le> 512" using cg_size [of p] c(1) by simp
  ultimately have "unat (of_nat (k * c) :: u32) = k * c" using G(2) by (intro unat_fit) linarith
  then have "\<not> of_nat (k * c) < groups p" using \<open>G \<le> k * c\<close> by (simp only: word_less_nat_alt G(1))
  then show ?case unfolding k [symmetric] by (subst vec_loop.simps) (simp only: if_False, simp)
next
  case (Suc d)
  then have k: "k < ceil_div G c" by simp
  have lt: "k * c < G"
  proof (rule ccontr)
    assume "\<not> k * c < G"
    then have "G + c - 1 < (k + 1) * c" using c(2) by simp
    then have "ceil_div G c < k + 1" unfolding ceil_div_def by (simp only: div_less_iff_less_mult [OF c(2)])
    then show False using k by simp
  qed
  then have "unat (of_nat (k * c) :: u32) = k * c" using G(2) by (intro unat_fit) linarith
  then have less: "of_nat (k * c) < groups p" using lt by (simp only: word_less_nat_alt G(1))
  have nxt: "of_nat (k * c) + cg p = of_nat (Suc k * c)"
  proof -
    have "cg p = of_nat c" by (simp flip: c(1))
    then show ?thesis by simp
  qed
  have "[k..<ceil_div G c] = k # [Suc k..<ceil_div G c]" using k by (simp add: upt_conv_Cons)
  moreover have "of_nat k + 1 = (of_nat (Suc k) :: u32)" by simp
  ultimately show ?case
    using Suc(1) [of "Suc k"] Suc(2) k
    by (subst vec_loop.simps) (simp only: less if_True nxt, simp del: of_nat_mult of_nat_Suc mult_Suc)
qed

lemma groups_small: "sa_d cp = vd p \<Longrightarrow> unat (groups p) + 512 < 2 ^ 32"
proof -
  assume "sa_d cp = vd p"
  then have "vd p = 8 \<or> vd p = 16" by (auto simp: sa_d_def Let_def split: if_splits)
  then have "8 \<le> unat (vd p)" by auto
  then have "unat (groups p) \<le> unat (vlen p) div 8" by (simp add: groups_def unat_div_distrib div_le_mono2)
  moreover have "unat (vlen p) < 2 ^ 32" using unsigned_less [of "vlen p", where 'a = nat] by simp
  ultimately show ?thesis by simp
qed

text \<open>
  C40. The vector firmware returns exactly when a period has at most 512 groups or there is nothing to do: with a
  longer period the chunk size is 0 and the loop never ends.
\<close>
theorem vector_returns_iff:
  "(\<exists>s'. vector_main other e s = Some s') \<longleftrightarrow> unat (fmb s MBOX_V_PERIOD) \<le> 512 \<or> fmb s MBOX_V_LEN < sa_d (caps e)"
proof -
  define p where "p = vec_params (caps e) (fmb s)"
  have ps: "vec_params (caps e) ((fmb s)(MBOX_STATUS := STATUS_RUNNING)) = p"
    by (simp add: p_def vec_params_def mbox_defs gemm_mbox_defs)
  have p: "period p = fmb s MBOX_V_PERIOD" "vlen p = fmb s MBOX_V_LEN" "vd p = sa_d (caps e)" by (simp_all add: p_def vec_params_def)
  have main: "(\<exists>s'. vector_main other e s = Some s') \<longleftrightarrow> (\<exists>r. vec_loop p 0 0 = Some r)"
    by (auto simp: vector_main_def Let_def ps bind_eq_Some_conv split: prod.splits)
  have d0: "0 < unat (vd p)" by (auto simp: p(3) sa_d_def Let_def)
  have idle: "groups p = 0 \<longleftrightarrow> vlen p < vd p"
  proof -
    have "groups p = 0 \<longleftrightarrow> unat (vlen p) div unat (vd p) = 0" unfolding groups_def by (metis unat_div_distrib unat_eq_0)
    then show ?thesis using d0 by (auto simp: div_eq_0_iff word_less_nat_alt)
  qed
  show ?thesis
  proof (cases "cg p = 0")
    case True
    have e: "(\<exists>r. vec_loop p 0 0 = Some r) \<longleftrightarrow> groups p = 0"
    proof
      assume "\<exists>r. vec_loop p 0 0 = Some r"
      then have "\<not> 0 < groups p" using vec_loop_stuck True by blast
      then show "groups p = 0" by (simp add: word_neq_0_conv [symmetric])
    next
      assume "groups p = 0"
      then show "\<exists>r. vec_loop p 0 0 = Some r" by (subst vec_loop.simps) simp
    qed
    have "(\<exists>s'. vector_main other e s = Some s') \<longleftrightarrow> vlen p < vd p" using main e idle by blast
    then show ?thesis using True by (simp only: cg_zero p) simp
  next
    case False
    then have "0 < unat (cg p)" by (simp add: unat_gt_0)
    from vec_loop_runs [OF refl groups_small [OF p(3) [symmetric]] refl this, of 0] have "\<exists>r. vec_loop p 0 0 = Some r" by simp
    then show ?thesis using False main by (simp add: cg_zero p)
  qed
qed

section \<open>The program computes the operation\<close>

text \<open>A periodic src2 is loaded into one more bank.\<close>
lemma load_src2:
  fixes b :: u32
  assumes f: "vec_fits p (um u)" and e: "uerr u = None" and q: "\<not> unary p" "period p \<noteq> 0" and b: "b = 0 \<or> b = 1"
    and r: "has_src2 p (ddr (um u)) bs (um u)"
  obtains L v where "do_insns other (load (vd p) (src2 p) (m2 p) (bank (vd p) (m2 p) b + w2 p) (period p * gin p)) u = v" and "vkept u v"
    and "um v = (um u)\<lparr>loc := L\<rparr>" and "has_src2 p (ddr (um u)) (insert (unat b) bs) (um v)"
proof -
  note S = slot_words [OF f b]
  have vd: "unat (vd p) = arr (um u)" using f by (simp add: vec_fits_def)
  have n: "unat (period p) \<le> 512" and a: "unat (src2 p) mod 8 = 0" "ddr_ok (um u) (unat (src2 p)) (unat (period p) * (arr (um u) * in_bytes p))"
    using f q by (auto simp: vec_fits_def vd ac_simps)
  obtain L v where
    run: "do_insns other (load (vd p) (src2 p) (m2 p) (bank (vd p) (m2 p) b + w2 p) (of_nat (unat (period p)) * gin p)) u = v" and
    k: "vkept u v" and um: "um v = (um u)\<lparr>loc := L\<rparr>" and
    ins: "\<And>y. y < unat (period p) * (arr (um u) * in_bytes p) \<Longrightarrow> L (unat (m2 p)) (s2 p (unat b) + y) = ddr (um u) (unat (src2 p) + y)" and
    outs: "\<And>k y. k \<noteq> unat (m2 p) \<or> y < s2 p (unat b) \<or> s2 p (unat b) + 32768 \<le> y \<Longrightarrow> L k y = loc (um u) k y"
    by (rule load_slot [OF f e disjI2 [OF refl] S(2,5) n refl a, of other]) (rule that; assumption)
  have sz: "unat (period p) * (arr (um u) * in_bytes p) \<le> 512 * 64"
    using n group_bytes(6) [OF f] by (rule mult_le_mono)
  have apart: "s2 p c + 32768 \<le> s2 p (unat b) \<or> s2 p (unat b) + 32768 \<le> s2 p c" if "c \<noteq> unat b" for c
  proof -
    have "c * bank_bytes (m2 p) + bank_bytes (m2 p) \<le> unat b * bank_bytes (m2 p) \<or> unat b * bank_bytes (m2 p) + bank_bytes (m2 p) \<le> c * bank_bytes (m2 p)"
      using cells_apart [of c "unat b" "bank_bytes (m2 p)"] that by blast
    moreover have "32768 \<le> bank_bytes (m2 p)" by (simp add: bank_bytes_def)
    ultimately show ?thesis unfolding s2_def by linarith
  qed
  have "L (unat (m2 p)) (s2 p c + y) = ddr (um u) (unat (src2 p) + y)"
    if c: "c \<in> insert (unat b) bs" and y: "y < unat (period p) * (arr (um u) * in_bytes p)" for c y
  proof (cases "c = unat b")
    case False
    then have "L (unat (m2 p)) (s2 p c + y) = loc (um u) (unat (m2 p)) (s2 p c + y)"
      using apart [OF False] y sz by (intro outs) linarith
    then show ?thesis using r c q False y by (simp add: has_src2_def)
  qed (use ins y in simp)
  then have "has_src2 p (ddr (um u)) (insert (unat b) bs) (um v)"
    by (simp add: has_src2_def um)
  note hs = this
  have "do_insns other (load (vd p) (src2 p) (m2 p) (bank (vd p) (m2 p) b + w2 p) (period p * gin p)) u = v" using run by simp
  from this k um hs show thesis by (rule that)
qed

lemma perf_begin_insns [simp]: "do_insns other (sa_perf_begin cp) u = u"
  by (simp add: sa_perf_begin_def)

lemma vec_head_run:
  assumes f: "vec_fits p (um u)" and fl: "\<not> bit (v_flags u) 0"
  shows "vinv p (ddr (um u)) 0 (do_insns other (vec_head cp p) u)"
proof -
  let ?f = "ddr (um u)"
  define u1 where "u1 = do_insns other ([mat_reset] @ sa_perf_begin cp @ [vec_cfg 0 (vop p), vec_cfg 3 (vtypes p), vec_cfg 4 (period p)] @
     vec_cfg_requant (vscale p) (vshift p) (vzp p) (vlo p) (vhi p)) u"
  have u1: "uerr u1 = None" "v_flags u1 = v_flags u" "vcfg p (va u1)" "um u1 = um u"
    by (simp_all add: u1_def do_insns_append vec_cfg_requant_def set_vcfg_def vcfg_def)
  have w: "written p ?f 0 ?f" by (simp add: written_def)
  have head: "do_insns other (vec_head cp p) u = do_insns other (if \<not> unary p \<and> period p \<noteq> 0
      then concat (map (\<lambda>b. load (vd p) (src2 p) (m2 p) (bank (vd p) (m2 p) b + w2 p) (period p * gin p)) [0, 1]) else []) u1"
    unfolding vec_head_def u1_def by (simp only: do_insns_append)
  show ?thesis
  proof (cases "\<not> unary p \<and> period p \<noteq> 0")
    case False
    then have "has_src2 p ?f {0, 1} (um u1)" unfolding has_src2_def by blast
    then show ?thesis using False u1 f fl w unfolding head by (simp only: if_False) (simp add: vinv_def)
  next
    case True
    have r0: "has_src2 p (ddr (um u1)) {} (um u1)" by (simp add: has_src2_def)
    have f1: "vec_fits p (um u1)" using f u1(4) by simp
    obtain L v where
      run1: "do_insns other (load (vd p) (src2 p) (m2 p) (bank (vd p) (m2 p) 0 + w2 p) (period p * gin p)) u1 = v" and k1: "vkept u1 v" and
      um1: "um v = (um u1)\<lparr>loc := L\<rparr>" and r1: "has_src2 p (ddr (um u1)) {unat (0 :: u32)} (um v)"
      using load_src2 [OF f1 u1(1) _ _ disjI1 [OF refl] r0, of other] True by blast
    have f2: "vec_fits p (um v)" using f1 by (simp add: um1)
    have r1': "has_src2 p (ddr (um v)) {unat (0 :: u32)} (um v)" using r1 by (simp add: um1)
    obtain L' v' where
      run2: "do_insns other (load (vd p) (src2 p) (m2 p) (bank (vd p) (m2 p) 1 + w2 p) (period p * gin p)) v = v'" and k2: "vkept v v'" and
      um2: "um v' = (um v)\<lparr>loc := L'\<rparr>" and r2: "has_src2 p (ddr (um v)) (insert (unat (1 :: u32)) {unat (0 :: u32)}) (um v')"
      using load_src2 [OF f2 vkept_err [OF k1] _ _ disjI2 [OF refl] r1', of other] True by blast
    have "do_insns other (vec_head cp p) u = v'"
      using True run1 run2 unfolding head by (simp add: do_insns_append)
    moreover have "ddr (um v') = ?f" by (simp add: um2 um1 u1(4))
    moreover have "has_src2 p ?f {0, 1} (um v')" using r2 by (simp add: um1 u1(4) insert_commute)
    moreover have "vec_fits p (um v')" using f2 by (simp add: um2)
    ultimately show ?thesis using vkept_trans [OF k1 k2] u1 fl w by (simp add: vinv_def vkept_def)
  qed
qed


lemma cg_size_pos: "unat (period p) \<le> 512 \<Longrightarrow> 0 < unat (cg p)"
  using cg_zero [of p] by (simp add: unat_gt_0)

lemma period_divides_cg: "period p = 0 \<or> unat (period p) dvd k * unat (cg p)"
proof (cases "period p > 1")
  case True
  then have "unat (cg p) = 512 div unat (period p) * unat (period p)" by (simp only: cg_def if_True periods_of_chunk)
  then show ?thesis by simp
next
  case False
  then have "unat (period p) \<le> 1" by (simp add: word_less_nat_alt)
  then have "unat (period p) = 0 \<or> unat (period p) = 1" by linarith
  then show ?thesis by (auto simp: unat_eq_0)
qed

text \<open>The chunks, one after the other.\<close>
lemma chunks_run:
  assumes i: "vinv p f 0 u" and c: "c = unat (cg p)" "0 < c" and k: "k \<le> ceil_div (unat (groups p)) c"
  shows "vinv p f (min (k * c) (unat (groups p))) (do_insns other (concat (map (\<lambda>i. vec_chunk p (of_nat (i * c)) (of_nat i)) [0..<k])) u)"
  using k
proof (induction k)
  case 0
  then show ?case using i by simp
next
  case (Suc k)
  let ?GT = "unat (groups p)"
  define n where "n = min c (?GT - k * c)"
  have lt: "k * c < ?GT"
  proof (rule ccontr)
    assume "\<not> k * c < ?GT"
    then have "?GT + c - 1 < (k + 1) * c" using c(2) by simp
    then have "ceil_div ?GT c < k + 1" unfolding ceil_div_def by (simp only: div_less_iff_less_mult [OF c(2)])
    then show False using Suc(2) by simp
  qed
  have "?GT < 2 ^ 32" using unsigned_less [of "groups p", where 'a = nat] by simp
  then have kc: "unat (of_nat (k * c) :: u32) = k * c" using lt by (intro unat_fit) linarith
  have diff: "unat (groups p - of_nat (k * c)) = ?GT - k * c"
    using lt by (subst unat_sub) (simp_all only: word_le_nat_alt kc)
  have nw: "(if groups p - of_nat (k * c) < cg p then groups p - of_nat (k * c) else cg p) = of_nat n"
  proof (cases "?GT - k * c < c")
    case True
    then have "n = unat (groups p - of_nat (k * c))" by (simp only: n_def diff)
    then have "of_nat n = groups p - of_nat (k * c)" by (simp only: of_nat_unat ucast_id)
    then show ?thesis using True by (simp only: word_less_nat_alt diff flip: c(1)) simp
  next
    case False
    then have "n = unat (cg p)" by (simp only: n_def flip: c(1))
    then have "of_nat n = cg p" by (simp only: of_nat_unat ucast_id)
    then show ?thesis using False by (simp only: word_less_nat_alt diff flip: c(1)) simp
  qed
  have "c \<le> 512" using cg_size [of p] c(1) by simp
  moreover have "(k * c + n) * unat (vd p) \<le> vcount p"
  proof -
    have "k * c + n \<le> ?GT" using lt by (simp add: n_def)
    then have "(k * c + n) * unat (vd p) \<le> ?GT * unat (vd p)" by (rule mult_le_mono1)
    then show ?thesis by (simp add: vcount_def groups_def unat_div_distrib)
  qed
  moreover have "0 < n" using lt c(2) by (simp add: n_def)
  moreover have "vinv p f (k * c) (do_insns other (concat (map (\<lambda>i. vec_chunk p (of_nat (i * c)) (of_nat i)) [0..<k])) u)"
    using Suc(1,2) lt by (simp add: min_def)
  ultimately have "vinv p f (k * c + n) (do_insns other (vec_chunk p (of_nat (k * c)) (of_nat k)) (do_insns other (concat (map (\<lambda>i. vec_chunk p (of_nat (i * c)) (of_nat i)) [0..<k])) u))"
    using period_divides_cg [of p k] nw by (intro chunk_step) (simp_all add: n_def c(1))
  moreover have "min (Suc k * c) ?GT = k * c + n"
  proof -
    have "Suc k * c = k * c + c" by simp
    then show ?thesis using lt unfolding n_def by linarith
  qed
  ultimately show ?case by (simp only: upt_Suc_append map_append concat_append do_insns_append list.map concat.simps append_Nil2)
qed

text \<open>
  C10. The vector firmware computes its operation: on parameters that fit, for every integer operation, type and period,
  in place or not, it returns, reports no error and the number of chunks, every element of the result is the
  operation's value of the elements of src1 and src2 as they were, and the rest of DDR is unchanged.
\<close>
theorem vector_computes:
  assumes "p = vec_params (caps e) (fmb s)" and "vec_fits p (um (funit s))" and "\<not> bit (v_flags (funit s)) 0"
  shows "\<exists>s'. vector_main other e s = Some s' \<and> uerr (funit s') = None \<and> fmb s' MBOX_STATUS = STATUS_DONE \<and> fmb s' MBOX_ERRORS = 0 \<and>
     fmb s' MBOX_JOBS_DONE = of_nat (ceil_div (unat (groups p)) (unat (cg p))) \<and>
     (\<forall>i < vcount p. get_int (ddr (um (funit s'))) (unat (dst p) + out_bytes p * i) (out_bytes p) = vec_out p (ddr (um (funit s))) i) \<and>
     (\<forall>y. y < unat (dst p) \<or> unat (dst p) + out_bytes p * vcount p \<le> y \<longrightarrow> ddr (um (funit s')) y = ddr (um (funit s)) y)"
proof -
  have ps: "vec_params (caps e) ((fmb s)(MBOX_STATUS := STATUS_RUNNING)) = p"
    by (simp add: assms(1) vec_params_def mbox_defs gemm_mbox_defs)
  have c: "0 < unat (cg p)" using assms(2) by (intro cg_size_pos) (simp add: vec_fits_def)
  let ?K = "ceil_div (unat (groups p)) (unat (cg p))"
  let ?is = "concat (map (\<lambda>i. vec_chunk p (of_nat (i * unat (cg p))) (of_nat i)) [0..<?K])"
  have "sa_d (caps e) = vd p" by (simp add: assms(1) vec_params_def)
  from vec_loop_runs [OF refl groups_small [OF this] refl c, of 0] have loop: "vec_loop p 0 0 = Some (?is, of_nat ?K)" by simp
  define u where "u = do_insns other (vec_head (caps e) p @ ?is @ [mat_fence 0]) (funit s)"
  have "unat (groups p) \<le> ?K * unat (cg p)"
  proof -
    have "unat (groups p) + unat (cg p) - 1 < (?K + 1) * unat (cg p)"
      unfolding ceil_div_def using c by (simp add: dividend_less_div_times)
    then show ?thesis using c by simp
  qed
  then have "vinv p (ddr (um (funit s))) (unat (groups p)) u"
    using chunks_run [OF vec_head_run [OF assms(2,3), where other = other and cp = "caps e"] refl c order_refl, where other = other]
    by (simp add: u_def do_insns_append min_absorb2)
  then have inv: "uerr u = None" "written p (ddr (um (funit s))) (unat (groups p)) (ddr (um u))" by (simp_all add: vinv_def)
  have cnt: "unat (groups p) * unat (vd p) = vcount p" by (simp add: vcount_def groups_def unat_div_distrib)
  let ?s = "s\<lparr>fmb := (fmb s)(MBOX_STATUS := STATUS_RUNNING)\<rparr>"
  have "vector_main other e s = Some (fw_results e (of_nat ?K) u ?s)"
    by (simp add: vector_main_def ps Let_def loop u_def)
  moreover have "ext_status u = 1" using inv(1) by (simp add: ext_status_def)
  ultimately show ?thesis
    using inv unfolding written_def cnt
    by (intro exI [of _ "fw_results e (of_nat ?K) u ?s"])
      (simp add: fw_results_def mbox_defs gemm_mbox_defs split: prod.splits)
qed


text \<open>The sum of two arrays of 24 int8 ones.\<close>
definition vector_mailbox :: "u32 \<Rightarrow> u32" where
  "vector_mailbox = (\<lambda>_. 0)(MBOX_V_LEN := 24, MBOX_A_BASE := 0x1000, MBOX_B_BASE := 0x2000, MBOX_C_BASE := 0x3000,
     MBOX_V_LO := 0x80000000, MBOX_V_HI := 0x7FFFFFFF)"

theorem vector_computes_witness:
  "\<exists>s'. vector_main (\<lambda>i u. u) \<lparr>caps = 8, cycles = 0, pc_num = 0, pc_read = (\<lambda>_. 0)\<rparr> \<lparr>fmb = vector_mailbox, farea = (\<lambda>_. 0), funit = ones_unit\<rparr> = Some s' \<and>
     fmb s' MBOX_JOBS_DONE = 1 \<and> get_int (ddr (um (funit s'))) 0x3017 1 = 2"
proof -
  let ?e = "\<lparr>caps = 8, cycles = 0, pc_num = 0, pc_read = (\<lambda>_. 0)\<rparr>" and ?s = "\<lparr>fmb = vector_mailbox, farea = (\<lambda>_. 0), funit = ones_unit\<rparr>"
  define p where "p = vec_params (caps ?e) (fmb ?s)"
  have p: "vd p = 8" "src1 p = 0x1000" "src2 p = 0x2000" "dst p = 0x3000" "vlen p = 24" "vop p = 0" "vtypes p = 0" "period p = 0"
    "vlo p = 0x80000000" "vhi p = 0x7FFFFFFF"
    by (simp_all add: p_def vec_params_def vector_mailbox_def sa_d_def mbox_defs gemm_mbox_defs)
  have q: "vin p = 0" "vout p = 0" "vcount p = 24" "in_bytes p = 1" "out_bytes p = 1" "\<not> unary p"
    by (simp_all add: vin_def vout_def unary_def vcount_def in_bytes_def out_bytes_def esz_def p)
  have "vec_fits p (um (funit ?s))"
    by (simp add: vec_fits_def p q stays_def ones_unit_def ddr_ok_def vmem_def)
  moreover have "\<not> bit (v_flags (funit ?s)) 0" by (simp add: ones_unit_def)
  ultimately obtain s' where s': "vector_main (\<lambda>i u. u) ?e ?s = Some s'" "fmb s' MBOX_JOBS_DONE = of_nat (ceil_div (unat (groups p)) (unat (cg p)))"
    "\<forall>i < vcount p. get_int (ddr (um (funit s'))) (unat (dst p) + out_bytes p * i) (out_bytes p) = vec_out p (ddr (um (funit ?s))) i"
    using vector_computes [OF p_def, of "\<lambda>i u. u"] by blast
  have ones: "get_int (ddr (um (funit ?s))) a 1 = 1" for a by (simp add: get_int_def ones_unit_def)
  have ops: "ve_op 0 1 1 = 2" "bit (vop p) 4 = False" "bit (vop p) 5 = False" "unat (vop p AND 7) = 0" "unat (vout p) = 0" by (simp_all add: ve_op_def p q)
  have "ve_post False False sc sh (vzp p) 0x80000000 0x7FFFFFFF 0 2 = 2" for sc sh by (simp add: ve_post_def esz_def)
  then have "vec_out p (ddr (um (funit ?s))) 23 = 2"
    unfolding vec_out_def Let_def q(4) ones ops p(9,10) by (simp only: zero_neq_numeral if_False ops(1))
  moreover have "get_int (ddr (um (funit s'))) (unat (dst p) + out_bytes p * 23) (out_bytes p) = vec_out p (ddr (um (funit ?s))) 23"
    using s'(3) [rule_format, of 23] by (simp add: q)
  moreover have "ceil_div (unat (groups p)) (unat (cg p)) = 1"
    by (simp add: ceil_div_def groups_def cg_def CHUNK_GROUPS_def p)
  ultimately show ?thesis using s'(1,2) by (auto simp: p q)
qed

end
